(* ===== verification/Prelude.thy ===== *)
theory Prelude
  imports Main "HOL-Library.Word" "HOL-Library.Signed_Division"
begin

section \<open>Prelude: exceptional results, theorem collections, generic lemmas\<close>

text \<open>
  What every component shares: the value of a C++ call that may throw or fail an assertion,
  the collections that the proofs of the components use, and facts about integers read as
  bit patterns that the library does not state in the form needed here.
\<close>

subsection \<open>Results of calls that may fail\<close>

text \<open>
  \<open>CheckArgument\<close> throws an \<open>IllegalArgumentException\<close>, \<open>Assert\<close> and
  \<open>Unreachable\<close> abort, \<open>Unimplemented\<close> aborts too: each is a value of \<open>exn\<close>, and
  a call that may fail returns a sum.
\<close>

datatype exn = IllegalArgument | AssertionFailure | UnreachableCode | UnimplementedCode

type_synonym 'a result = "exn + 'a"

definition CheckArgument :: "bool \<Rightarrow> 'a result \<Rightarrow> 'a result" where
  "CheckArgument cond k = (if cond then k else Inl IllegalArgument)"

definition Assert :: "bool \<Rightarrow> 'a result \<Rightarrow> 'a result" where
  "Assert cond k = (if cond then k else Inl AssertionFailure)"

fun and_then :: "'a result \<Rightarrow> ('a \<Rightarrow> 'b result) \<Rightarrow> 'b result" where
  "and_then (Inl e) k = Inl e"
| "and_then (Inr x) k = k x"

lemma CheckArgument_True [simp]: "c \<Longrightarrow> CheckArgument c k = k"
  by (simp add: CheckArgument_def)

lemma CheckArgument_False [simp]: "\<not> c \<Longrightarrow> CheckArgument c k = Inl IllegalArgument"
  by (simp add: CheckArgument_def)

lemma CheckArgument_eq_Inr [simp]:
  "CheckArgument c k = Inr x \<longleftrightarrow> c \<and> k = Inr x"
  by (simp add: CheckArgument_def)

lemma Inr_eq_CheckArgument [simp]:
  "Inr x = CheckArgument c k \<longleftrightarrow> c \<and> k = Inr x"
  by (auto simp: CheckArgument_def)

lemma Assert_True [simp]: "c \<Longrightarrow> Assert c k = k"
  by (simp add: Assert_def)

lemma Assert_False [simp]: "\<not> c \<Longrightarrow> Assert c k = Inl AssertionFailure"
  by (simp add: Assert_def)

lemma and_then_eq_Inr [simp]:
  "and_then r k = Inr y \<longleftrightarrow> (\<exists>x. r = Inr x \<and> k x = Inr y)"
  by (cases r) auto

lemma Inr_eq_and_then [simp]:
  "Inr y = and_then r k \<longleftrightarrow> (\<exists>x. r = Inr x \<and> k x = Inr y)"
  by (cases r) auto

subsection \<open>Collections\<close>

named_theorems integer_defs \<open>definitions of the operations of the class Integer\<close>
named_theorems bitvector_defs \<open>definitions of the operations of the class BitVector\<close>
named_theorems util_defs \<open>definitions of the node constructors of theory_bv_utils\<close>
named_theorems rule_defs \<open>definitions of rewrite rules\<close>

subsection \<open>Integers as bit patterns\<close>

lemma int_bits_range [simp]: "take_bit n (x::int) < 2 ^ n"
  by simp

lemma take_bit_id: "0 \<le> (x::int) \<Longrightarrow> x < 2 ^ n \<Longrightarrow> take_bit n x = x"
  by (simp add: take_bit_int_eq_self)

end
