(* ===== verification/Integers.thy ===== *)
theory Integers
  imports Prelude
begin

section \<open>The class Integer\<close>

text \<open>
  \<open>util/integer_gmp_imp.cpp\<close> wraps a GMP number, which stands for an unbounded
  mathematical integer: an \<open>Integer\<close> is modelled as an \<open>int\<close> and a GMP call by the
  integer it computes (\<open>mpz_fdiv_q_2exp\<close> is \<open>drop_bit\<close>, \<open>mpz_fdiv_r_2exp\<close> is
  \<open>take_bit\<close>, \<open>mpz_com\<close> is the complement). Arguments of type \<open>uint32_t\<close> are
  natural numbers. \<open>DebugCheckArgument\<close>, which production builds compile to nothing, is
  not modelled.
\<close>

unbundle bit_operations_syntax

subsection \<open>Operations\<close>

definition bitwiseOr :: "int \<Rightarrow> int \<Rightarrow> int" where
  [integer_defs]: "bitwiseOr x y = x OR y"

definition bitwiseAnd :: "int \<Rightarrow> int \<Rightarrow> int" where
  [integer_defs]: "bitwiseAnd x y = x AND y"

definition bitwiseXor :: "int \<Rightarrow> int \<Rightarrow> int" where
  [integer_defs]: "bitwiseXor x y = x XOR y"

definition bitwiseNot :: "int \<Rightarrow> int" where
  [integer_defs]: "bitwiseNot x = NOT x"

definition multiplyByPow2 :: "int \<Rightarrow> nat \<Rightarrow> int" where
  [integer_defs]: "multiplyByPow2 x pow = push_bit pow x"

definition setBit :: "int \<Rightarrow> nat \<Rightarrow> bool \<Rightarrow> int" where
  "setBit x i value = (if value then set_bit i x else unset_bit i x)"

text \<open>
  \<open>high\<close> is a \<open>uint32_t\<close>: for \<open>bitCount = 0\<close> and \<open>low = 0\<close> it wraps around to
  \<open>2 ^ 32 - 1\<close>, and \<open>high + 1\<close> wraps back to \<open>0\<close>.
\<close>

definition extractBitRange :: "int \<Rightarrow> nat \<Rightarrow> nat \<Rightarrow> int" where
  "extractBitRange x bitCount low =
     (let high = (of_nat low + of_nat bitCount - 1 :: 32 word);
          rem = take_bit (unat (high + 1)) x
      in drop_bit low rem)"

definition isBitSet :: "int \<Rightarrow> nat \<Rightarrow> bool" where
  "isBitSet x i = (extractBitRange x 1 i \<noteq> 0)"

text \<open>The loop \<open>for (i = size; i < size + amount; ++i) mpz_setbit(res, i)\<close>.\<close>

fun oneExtend_loop :: "nat \<Rightarrow> nat \<Rightarrow> int \<Rightarrow> int" where
  "oneExtend_loop i 0 res = res"
| "oneExtend_loop i (Suc n) res = oneExtend_loop (Suc i) n (set_bit i res)"

definition oneExtend :: "int \<Rightarrow> nat \<Rightarrow> nat \<Rightarrow> int" where
  "oneExtend x sz amount = oneExtend_loop sz amount x"

text \<open>\<open>mpz_get_ui\<close> reads the low limb of the absolute value; the cast keeps 32 bits of it.\<close>

definition toUnsignedInt :: "int \<Rightarrow> nat" where
  "toUnsignedInt x = nat (take_bit 32 \<bar>x\<bar>)"

definition floorDivideQuotient :: "int \<Rightarrow> int \<Rightarrow> int" where
  [integer_defs]: "floorDivideQuotient x y = x div y"

definition floorDivideRemainder :: "int \<Rightarrow> int \<Rightarrow> int" where
  [integer_defs]: "floorDivideRemainder x y = x mod y"

definition floorQR :: "int \<Rightarrow> int \<Rightarrow> int \<times> int" where
  "floorQR x y = (x div y, x mod y)"

definition ceilingDivideQuotient :: "int \<Rightarrow> int \<Rightarrow> int" where
  "ceilingDivideQuotient x y = - ((- x) div y)"

definition ceilingDivideRemainder :: "int \<Rightarrow> int \<Rightarrow> int" where
  "ceilingDivideRemainder x y = x - y * (- ((- x) div y))"

text \<open>
  The inner test of \<open>euclidianQR\<close> looks at the sign of the remainder \<open>r\<close> (the comment
  speaks of \<open>y\<close>), inside a branch where \<open>r\<close> is negative: its first arm never runs.
\<close>

definition euclidianQR :: "int \<Rightarrow> int \<Rightarrow> int \<times> int" where
  "euclidianQR x y =
     (let (q, r) = floorQR x y
      in if r < 0
         then (if sgn r \<ge> 0 then (q - 1, r + y) else (q + 1, r - y))
         else (q, r))"

definition euclidianDivideQuotient :: "int \<Rightarrow> int \<Rightarrow> int" where
  "euclidianDivideQuotient x y = fst (euclidianQR x y)"

definition euclidianDivideRemainder :: "int \<Rightarrow> int \<Rightarrow> int" where
  "euclidianDivideRemainder x y = snd (euclidianQR x y)"

definition modByPow2 :: "int \<Rightarrow> nat \<Rightarrow> int" where
  [integer_defs]: "modByPow2 x exp = take_bit exp x"

definition divByPow2 :: "int \<Rightarrow> nat \<Rightarrow> int" where
  [integer_defs]: "divByPow2 x exp = drop_bit exp x"

definition modAdd :: "int \<Rightarrow> int \<Rightarrow> int \<Rightarrow> int" where
  "modAdd x y m = (x + y) mod \<bar>m\<bar>"

definition modMultiply :: "int \<Rightarrow> int \<Rightarrow> int \<Rightarrow> int" where
  "modMultiply x y m = (x * y) mod \<bar>m\<bar>"

text \<open>\<open>mpz_popcount\<close> and \<open>mpz_scan1\<close> of a non-negative number.\<close>

fun popcount :: "nat \<Rightarrow> nat" where
  "popcount n = (if n = 0 then 0 else n mod 2 + popcount (n div 2))"

fun scan1 :: "nat \<Rightarrow> nat" where
  "scan1 n = (if n = 0 \<or> odd n then 0 else Suc (scan1 (n div 2)))"

declare popcount.simps [simp del] scan1.simps [simp del]

definition isPow2 :: "int \<Rightarrow> nat" where
  "isPow2 x =
     (if x \<le> 0 then 0
      else if popcount (nat x) = 1 then scan1 (nat x) + 1
      else 0)"

subsection \<open>Facts about the operations\<close>

text \<open>\<open>mpz_sizeinbase\<close> with base 2, of a positive number.\<close>

fun sizeinbase2 :: "nat \<Rightarrow> nat" where
  "sizeinbase2 n = (if n < 2 then 1 else Suc (sizeinbase2 (n div 2)))"

definition int_length :: "int \<Rightarrow> nat" where
  "int_length x = (if x = 0 then 1 else sizeinbase2 (nat \<bar>x\<bar>))"

declare sizeinbase2.simps [simp del]

lemma sizeinbase2_bound: "n < 2 ^ sizeinbase2 n"
proof (induction n rule: sizeinbase2.induct)
  case (1 n)
  then show ?case by (cases "n < 2") (auto simp: sizeinbase2.simps [of n])
qed

lemma unat_add_32:
  "m + n < 2 ^ 32 \<Longrightarrow> unat (of_nat m + of_nat n - 1 + 1 :: 32 word) = m + n"
proof -
  assume "m + n < 2 ^ 32"
  then have "unat (of_nat (m + n) :: 32 word) = m + n"
    unfolding unsigned_of_nat by (simp add: take_bit_nat_eq_self)
  then show ?thesis by simp
qed

lemma extractBitRange_eq [integer_defs]:
  "low + n < 2 ^ 32 \<Longrightarrow> extractBitRange x n low = take_bit n (drop_bit low x)"
  using unat_add_32 [of low n]
  by (simp add: extractBitRange_def Let_def take_bit_drop_bit add.commute)

lemma isBitSet_iff: "Suc i < 2 ^ 32 \<Longrightarrow> isBitSet x i \<longleftrightarrow> bit x i"
  by (simp add: isBitSet_def extractBitRange_eq)
    (simp add: bit_iff_odd_drop_bit take_bit_Suc odd_iff_mod_2_eq_one)

lemma bit_oneExtend_loop:
  "bit (oneExtend_loop i n x) j \<longleftrightarrow> bit x j \<or> (i \<le> j \<and> j < i + n)"
  by (induction i n x rule: oneExtend_loop.induct) (auto simp: bit_set_bit_iff)

lemma bit_oneExtend:
  "bit (oneExtend x sz amount) j \<longleftrightarrow> bit x j \<or> (sz \<le> j \<and> j < sz + amount)"
  by (simp add: oneExtend_def bit_oneExtend_loop)

lemma oneExtend_eq:
  "0 \<le> x \<Longrightarrow> x < 2 ^ sz \<Longrightarrow> oneExtend x sz amount = x OR push_bit sz (mask amount)"
  by (rule bit_eqI) (auto simp: bit_oneExtend bit_or_iff bit_push_bit_iff bit_mask_iff)

lemma toUnsignedInt_small: "0 \<le> x \<Longrightarrow> x < 2 ^ 32 \<Longrightarrow> toUnsignedInt x = nat x"
  by (simp add: toUnsignedInt_def take_bit_int_eq_self)

subsection \<open>Powers of two and Euclidean division\<close>

lemma popcount_0_iff: "popcount n = 0 \<longleftrightarrow> n = 0"
proof (induction n rule: popcount.induct)
  case (1 n)
  show ?case
  proof (cases "n = 0")
    case True then show ?thesis by (simp add: popcount.simps)
  next
    case False
    with 1 show ?thesis by (subst popcount.simps) (auto simp: dvd_def elim: evenE)
  qed
qed

lemma popcount_scan1: "popcount n = 1 \<Longrightarrow> n = 2 ^ scan1 n"
proof (induction n rule: popcount.induct)
  case (1 n)
  then have n: "n \<noteq> 0" using popcount_0_iff [of n] by simp
  show ?case
  proof (cases "odd n")
    case True
    with 1 n have "popcount (n div 2) = 0"
      by (simp add: popcount.simps [of n] odd_iff_mod_2_eq_one)
    with True have "n = 1" by (auto simp: popcount_0_iff elim: oddE)
    with True show ?thesis by (simp add: scan1.simps)
  next
    case False
    with 1 n have "n div 2 = 2 ^ scan1 (n div 2)"
      by (simp add: popcount.simps [of n])
    moreover have "n = 2 * (n div 2)" using False by simp
    moreover have "scan1 n = Suc (scan1 (n div 2))"
      using n False by (subst scan1.simps) simp
    ultimately show ?thesis by (metis power_Suc)
  qed
qed

lemma popcount_power2: "popcount (2 ^ k) = 1"
  by (induction k) (simp_all add: popcount.simps)

lemma scan1_power2: "scan1 (2 ^ k) = k"
  by (induction k) (simp_all add: scan1.simps)

lemma isPow2_iff: "isPow2 x = Suc k \<longleftrightarrow> x = 2 ^ k"
proof
  assume "isPow2 x = Suc k"
  then have x: "0 < x" "popcount (nat x) = 1" "scan1 (nat x) = k"
    by (auto simp: isPow2_def split: if_splits)
  with popcount_scan1 [of "nat x"] have "nat x = 2 ^ k" by simp
  with x(1) show "x = 2 ^ k" by (metis int_nat_eq of_nat_numeral of_nat_power order_less_imp_le)
next
  assume "x = 2 ^ k"
  then have "nat x = 2 ^ k" "0 < x" by (simp_all add: nat_power_eq)
  then show "isPow2 x = Suc k" by (simp add: isPow2_def popcount_power2 [simplified] scan1_power2 nat_power_eq)
qed

lemma euclidianQR_spec:
  assumes "y \<noteq> 0" "euclidianQR x y = (q, r)"
  shows "x = y * q + r \<and> 0 \<le> r \<and> r < \<bar>y\<bar>"
proof -
  have D: "x = y * (x div y) + x mod y" by simp
  show ?thesis
  proof (cases "x mod y < 0")
    case True
    then have y: "y < 0" using assms(1) pos_mod_sign [of y x] by linarith
    from True assms(2) have qr: "q = x div y + 1" "r = x mod y - y"
      by (auto simp: euclidianQR_def floorQR_def sgn_if split: if_splits)
    have yr: "y < x mod y" using y by (rule neg_mod_bound)
    have "y * q + r = y * (x div y) + x mod y" using qr by (simp add: distrib_left)
    then have "x = y * q + r" using D by simp
    with yr y True qr show ?thesis by linarith
  next
    case False
    with assms(2) have qr: "q = x div y" "r = x mod y"
      by (auto simp: euclidianQR_def floorQR_def)
    have "x mod y < \<bar>y\<bar>"
      using False assms(1) pos_mod_bound [of y x] neg_mod_sign [of y x] by linarith
    with qr False D show ?thesis by simp
  qed
qed

subsection \<open>Properties\<close>

text \<open>\<open>euclidianQR\<close> divides with a remainder between 0 and \<open>|y|\<close>, whatever the signs of
  its arguments; the branch it takes on \<open>r < 0\<close> only ever sees a negative divisor.\<close>

theorem euclidian_division:
  assumes "y \<noteq> 0" "euclidianQR x y = (q, r)"
  shows "x = y * q + r \<and> 0 \<le> r \<and> r < \<bar>y\<bar>"
  using assms by (rule euclidianQR_spec)

theorem euclidian_division_witness: "(-7::int) = -2 * 4 + 1 \<and> (0::int) \<le> 1 \<and> (1::int) < \<bar>-2\<bar>"
  by (rule euclidian_division) (simp_all add: euclidianQR_def floorQR_def)

text \<open>\<open>Integer::isPow2\<close> returns \<open>k + 1\<close> exactly on \<open>2 ^ k\<close>, and 0 on every other integer, negative
  ones and zero included.\<close>

theorem isPow2_correct:
  "(isPow2 x = Suc k \<longleftrightarrow> x = 2 ^ k) \<and> (isPow2 x = 0 \<longleftrightarrow> (\<forall>k. x \<noteq> 2 ^ k))"
  using isPow2_iff [of x] by (metis not0_implies_Suc nat.distinct(1))

end
