(* ===== verification/BitVectors.thy ===== *)
theory BitVectors
  imports Integers
begin

section \<open>The class BitVector\<close>

text \<open>
  \<open>util/bitvector.h\<close> and \<open>util/bitvector.cpp\<close>: fixed-width constants, a width and an
  \<open>Integer\<close>. The header's comment gives the class invariant, which \<open>bv_ok\<close> states
  the way the code needs it (the comment has the inequality the wrong way round). Widths
  and shift amounts are \<open>unsigned\<close>: \<open>bv_ok\<close> bounds the width by 32 bits, and the
  sums of widths in \<open>concat\<close>, \<open>zeroExtend\<close> and \<open>signExtend\<close> wrap. A failed
  \<open>CheckArgument\<close> is \<open>Inl IllegalArgument\<close>.
\<close>

unbundle bit_operations_syntax

record BitVector =
  d_size :: nat
  d_value :: int

definition mkBitVector :: "nat \<Rightarrow> int \<Rightarrow> BitVector" where
  [bitvector_defs]: "mkBitVector w val = \<lparr>d_size = w, d_value = modByPow2 val w\<rparr>"

definition bv_ok :: "BitVector \<Rightarrow> bool" where
  "bv_ok b \<longleftrightarrow> 0 < d_size b \<and> d_size b < 2 ^ 32 \<and> 0 \<le> d_value b \<and> d_value b < 2 ^ d_size b"

subsection \<open>Reading\<close>

definition toInteger :: "BitVector \<Rightarrow> int" where
  [bitvector_defs]: "toInteger b = d_value b"

definition toSignedInteger :: "BitVector \<Rightarrow> int" where
  "toSignedInteger b =
     (let w = d_size b;
          sign_bit = extractBitRange (d_value b) 1 (w - 1);
          val = extractBitRange (d_value b) (w - 1) 0
      in (-1) * multiplyByPow2 sign_bit (w - 1) + val)"

definition bv_setBit :: "BitVector \<Rightarrow> nat \<Rightarrow> bool \<Rightarrow> BitVector result" where
  "bv_setBit b i value =
     CheckArgument (i < d_size b)
       (let res = setBit (d_value b) i value in Inr (mkBitVector (d_size b) res))"

definition bv_isBitSet :: "BitVector \<Rightarrow> nat \<Rightarrow> bool result" where
  "bv_isBitSet b i = CheckArgument (i < d_size b) (Inr (isBitSet (d_value b) i))"

definition bv_isPow2 :: "BitVector \<Rightarrow> nat" where
  [bitvector_defs]: "bv_isPow2 b = isPow2 (d_value b)"

subsection \<open>Concatenation, extraction, comparison\<close>

definition bv_concat :: "BitVector \<Rightarrow> BitVector \<Rightarrow> BitVector" where
  "bv_concat b other =
     mkBitVector ((d_size b + d_size other) mod 2 ^ 32)
       (multiplyByPow2 (d_value b) (d_size other) + d_value other)"

definition bv_extract :: "BitVector \<Rightarrow> nat \<Rightarrow> nat \<Rightarrow> BitVector result" where
  "bv_extract b high low =
     CheckArgument (high < d_size b) (CheckArgument (low \<le> high)
       (Inr (mkBitVector (high - low + 1)
          (extractBitRange (d_value b) (high - low + 1) low))))"

definition bv_eq :: "BitVector \<Rightarrow> BitVector \<Rightarrow> bool" where
  "bv_eq b y = (if d_size b \<noteq> d_size y then False else d_value b = d_value y)"

text \<open>The operators \<open><\<close>, \<open><=\<close>, \<open>>\<close> and \<open>>=\<close> compare the values only.\<close>

definition bv_lt :: "BitVector \<Rightarrow> BitVector \<Rightarrow> bool" where
  [bitvector_defs]: "bv_lt b y \<longleftrightarrow> d_value b < d_value y"

definition bv_le :: "BitVector \<Rightarrow> BitVector \<Rightarrow> bool" where
  [bitvector_defs]: "bv_le b y \<longleftrightarrow> d_value b \<le> d_value y"

definition bv_gt :: "BitVector \<Rightarrow> BitVector \<Rightarrow> bool" where
  [bitvector_defs]: "bv_gt b y \<longleftrightarrow> d_value b > d_value y"

definition bv_ge :: "BitVector \<Rightarrow> BitVector \<Rightarrow> bool" where
  [bitvector_defs]: "bv_ge b y \<longleftrightarrow> d_value b \<ge> d_value y"

definition unsignedLessThan :: "BitVector \<Rightarrow> BitVector \<Rightarrow> bool result" where
  "unsignedLessThan b y =
     CheckArgument (d_size b = d_size y) (CheckArgument (0 \<le> d_value b)
       (CheckArgument (0 \<le> d_value y) (Inr (d_value b < d_value y))))"

definition unsignedLessThanEq :: "BitVector \<Rightarrow> BitVector \<Rightarrow> bool result" where
  "unsignedLessThanEq b y =
     CheckArgument (d_size b = d_size y) (CheckArgument (0 \<le> d_value b)
       (CheckArgument (0 \<le> d_value y) (Inr (d_value b \<le> d_value y))))"

definition signedLessThan :: "BitVector \<Rightarrow> BitVector \<Rightarrow> bool result" where
  "signedLessThan b y =
     CheckArgument (d_size b = d_size y) (CheckArgument (0 \<le> d_value b)
       (CheckArgument (0 \<le> d_value y) (Inr (toSignedInteger b < toSignedInteger y))))"

definition signedLessThanEq :: "BitVector \<Rightarrow> BitVector \<Rightarrow> bool result" where
  "signedLessThanEq b y =
     CheckArgument (d_size b = d_size y) (CheckArgument (0 \<le> d_value b)
       (CheckArgument (0 \<le> d_value y) (Inr (toSignedInteger b \<le> toSignedInteger y))))"

subsection \<open>Bitwise and arithmetic operators\<close>

definition bv_xor :: "BitVector \<Rightarrow> BitVector \<Rightarrow> BitVector result" where
  "bv_xor b y = CheckArgument (d_size b = d_size y)
     (Inr (mkBitVector (d_size b) (bitwiseXor (d_value b) (d_value y))))"

definition bv_or :: "BitVector \<Rightarrow> BitVector \<Rightarrow> BitVector result" where
  "bv_or b y = CheckArgument (d_size b = d_size y)
     (Inr (mkBitVector (d_size b) (bitwiseOr (d_value b) (d_value y))))"

definition bv_and :: "BitVector \<Rightarrow> BitVector \<Rightarrow> BitVector result" where
  "bv_and b y = CheckArgument (d_size b = d_size y)
     (Inr (mkBitVector (d_size b) (bitwiseAnd (d_value b) (d_value y))))"

definition bv_not :: "BitVector \<Rightarrow> BitVector" where
  "bv_not b = mkBitVector (d_size b) (bitwiseNot (d_value b))"

definition bv_add :: "BitVector \<Rightarrow> BitVector \<Rightarrow> BitVector result" where
  "bv_add b y = CheckArgument (d_size b = d_size y)
     (let sum = d_value b + d_value y in Inr (mkBitVector (d_size b) sum))"

definition bv_sub :: "BitVector \<Rightarrow> BitVector \<Rightarrow> BitVector result" where
  "bv_sub b y = CheckArgument (d_size b = d_size y)
     (let one = mkBitVector (d_size b) 1
      in and_then (bv_add b (bv_not y)) (\<lambda>s. bv_add s one))"

definition bv_neg :: "BitVector \<Rightarrow> BitVector result" where
  "bv_neg b = (let one = mkBitVector (d_size b) 1 in bv_add (bv_not b) one)"

definition bv_mult :: "BitVector \<Rightarrow> BitVector \<Rightarrow> BitVector result" where
  "bv_mult b y = CheckArgument (d_size b = d_size y)
     (let prod = d_value b * d_value y in Inr (mkBitVector (d_size b) prod))"

definition unsignedDivTotal :: "BitVector \<Rightarrow> BitVector \<Rightarrow> BitVector result" where
  "unsignedDivTotal b y = CheckArgument (d_size b = d_size y)
     (if d_value y = 0 then Inr (mkBitVector (d_size b) (oneExtend 1 1 (d_size b - 1)))
      else CheckArgument (0 \<le> d_value b) (CheckArgument (0 < d_value y)
        (Inr (mkBitVector (d_size b) (floorDivideQuotient (d_value b) (d_value y))))))"

definition unsignedRemTotal :: "BitVector \<Rightarrow> BitVector \<Rightarrow> BitVector result" where
  "unsignedRemTotal b y = CheckArgument (d_size b = d_size y)
     (if d_value y = 0 then Inr (mkBitVector (d_size b) (d_value b))
      else CheckArgument (0 \<le> d_value b) (CheckArgument (0 < d_value y)
        (Inr (mkBitVector (d_size b) (floorDivideRemainder (d_value b) (d_value y))))))"

subsection \<open>Extensions and shifts\<close>

definition zeroExtend :: "BitVector \<Rightarrow> nat \<Rightarrow> BitVector" where
  "zeroExtend b n = mkBitVector ((d_size b + n) mod 2 ^ 32) (d_value b)"

definition signExtend :: "BitVector \<Rightarrow> nat \<Rightarrow> BitVector" where
  "signExtend b n =
     (let sign_bit = extractBitRange (d_value b) 1 (d_size b - 1)
      in if sign_bit = 0 then mkBitVector ((d_size b + n) mod 2 ^ 32) (d_value b)
         else let val = oneExtend (d_value b) (d_size b) n
              in mkBitVector ((d_size b + n) mod 2 ^ 32) val)"

definition leftShift :: "BitVector \<Rightarrow> BitVector \<Rightarrow> BitVector result" where
  "leftShift b y =
     (if int (d_size b) < d_value y then Inr (mkBitVector (d_size b) 0)
      else if d_value y = 0 then Inr b
      else CheckArgument (d_value y < multiplyByPow2 1 32)
        (let amount = toUnsignedInt (d_value y);
             res = multiplyByPow2 (d_value b) amount
         in Inr (mkBitVector (d_size b) res)))"

definition logicalRightShift :: "BitVector \<Rightarrow> BitVector \<Rightarrow> BitVector result" where
  "logicalRightShift b y =
     (if int (d_size b) < d_value y then Inr (mkBitVector (d_size b) 0)
      else CheckArgument (d_value y < multiplyByPow2 1 32)
        (let amount = toUnsignedInt (d_value y);
             res = divByPow2 (d_value b) amount
         in Inr (mkBitVector (d_size b) res)))"

definition arithRightShift :: "BitVector \<Rightarrow> BitVector \<Rightarrow> BitVector result" where
  "arithRightShift b y =
     (let sign_bit = extractBitRange (d_value b) 1 (d_size b - 1)
      in if int (d_size b) < d_value y
         then (if sign_bit = 0 then Inr (mkBitVector (d_size b) 0)
               else Inr (mkBitVector (d_size b)
                      (multiplyByPow2 (int (d_size b)) (d_size b) - 1)))
         else if d_value y = 0 then Inr b
         else CheckArgument (d_value y < multiplyByPow2 1 32)
           (let amount = toUnsignedInt (d_value y);
                rest = divByPow2 (d_value b) amount
            in if sign_bit = 0 then Inr (mkBitVector (d_size b) rest)
               else let res = oneExtend rest (d_size b - amount) amount
                    in Inr (mkBitVector (d_size b) res)))"

subsection \<open>Static helpers\<close>

definition bv_mkZero :: "nat \<Rightarrow> BitVector result" where
  "bv_mkZero w = CheckArgument (0 < w) (Inr (mkBitVector w 0))"

definition bv_mkOne :: "nat \<Rightarrow> BitVector result" where
  "bv_mkOne w = CheckArgument (0 < w) (Inr (mkBitVector w 1))"

definition bv_mkOnes :: "nat \<Rightarrow> BitVector result" where
  "bv_mkOnes w = CheckArgument (0 < w) (Inr (signExtend (mkBitVector 1 1) (w - 1)))"

definition bv_mkMinSigned :: "nat \<Rightarrow> BitVector result" where
  "bv_mkMinSigned w = CheckArgument (0 < w) (bv_setBit (mkBitVector w 0) (w - 1) True)"

definition bv_mkMaxSigned :: "nat \<Rightarrow> BitVector result" where
  "bv_mkMaxSigned w = CheckArgument (0 < w)
     (and_then (bv_mkMinSigned w) (\<lambda>b. Inr (bv_not b)))"

end
