(* ===== verification/BV_Ops.thy ===== *)
theory BV_Ops
  imports BitVectors
begin

section \<open>The meaning of the bit-vector operators\<close>

text \<open>
  The abstract specification of the bit-vector operators: each is given by an integer
  formula over the unsigned values of its arguments, as the SMT-LIB theory
  FixedSizeBitVectors defines it (division by zero yields all ones, the remainder by zero
  the dividend). The first group of lemmas ties the formulas to the library's type of
  machine words, the second shows that the operations of the class \<open>BitVector\<close>
  compute them and throw nothing on values that satisfy the class invariant.
\<close>

unbundle bit_operations_syntax

subsection \<open>Formulas\<close>

definition sval :: "nat \<Rightarrow> int \<Rightarrow> int" where
  "sval w x = signed_take_bit (w - 1) x"

definition sem_not :: "nat \<Rightarrow> int \<Rightarrow> int" where
  "sem_not w x = mask w - x"

definition sem_neg :: "nat \<Rightarrow> int \<Rightarrow> int" where
  "sem_neg w x = take_bit w (- x)"

definition sem_add :: "nat \<Rightarrow> int \<Rightarrow> int \<Rightarrow> int" where
  "sem_add w x y = take_bit w (x + y)"

definition sem_sub :: "nat \<Rightarrow> int \<Rightarrow> int \<Rightarrow> int" where
  "sem_sub w x y = take_bit w (x - y)"

definition sem_mul :: "nat \<Rightarrow> int \<Rightarrow> int \<Rightarrow> int" where
  "sem_mul w x y = take_bit w (x * y)"

definition sem_udiv :: "nat \<Rightarrow> int \<Rightarrow> int \<Rightarrow> int" where
  "sem_udiv w x y = (if y = 0 then mask w else x div y)"

definition sem_urem :: "nat \<Rightarrow> int \<Rightarrow> int \<Rightarrow> int" where
  "sem_urem w x y = (if y = 0 then x else x mod y)"

text \<open>Signed division truncates towards zero; the remainder of \<open>bvsrem\<close> has the sign of
  the dividend, that of \<open>bvsmod\<close> the sign of the divisor.\<close>

definition sem_sdiv :: "nat \<Rightarrow> int \<Rightarrow> int \<Rightarrow> int" where
  "sem_sdiv w x y = take_bit w
     (if y = 0 then (if sval w x < 0 then 1 else - 1) else sval w x sdiv sval w y)"

definition sem_srem :: "nat \<Rightarrow> int \<Rightarrow> int \<Rightarrow> int" where
  "sem_srem w x y = take_bit w (if y = 0 then x else sval w x smod sval w y)"

definition sem_smod :: "nat \<Rightarrow> int \<Rightarrow> int \<Rightarrow> int" where
  "sem_smod w x y = take_bit w (if y = 0 then x else sval w x mod sval w y)"

definition sem_shl :: "nat \<Rightarrow> int \<Rightarrow> int \<Rightarrow> int" where
  "sem_shl w x y = (if y < int w then take_bit w (push_bit (nat y) x) else 0)"

definition sem_lshr :: "nat \<Rightarrow> int \<Rightarrow> int \<Rightarrow> int" where
  "sem_lshr w x y = (if y < int w then drop_bit (nat y) x else 0)"

definition sem_ashr :: "nat \<Rightarrow> int \<Rightarrow> int \<Rightarrow> int" where
  "sem_ashr w x y = take_bit w
     (if y < int w then drop_bit (nat y) (sval w x) else (if sval w x < 0 then - 1 else 0))"

definition sem_slt :: "nat \<Rightarrow> int \<Rightarrow> int \<Rightarrow> bool" where
  "sem_slt w x y \<longleftrightarrow> sval w x < sval w y"

definition sem_sle :: "nat \<Rightarrow> int \<Rightarrow> int \<Rightarrow> bool" where
  "sem_sle w x y \<longleftrightarrow> sval w x \<le> sval w y"

definition sem_concat :: "int \<Rightarrow> nat \<Rightarrow> int \<Rightarrow> int" where
  "sem_concat x w y = push_bit w x + y"

definition sem_extract :: "nat \<Rightarrow> nat \<Rightarrow> int \<Rightarrow> int" where
  "sem_extract high low x = take_bit (high - low + 1) (drop_bit low x)"

definition sem_sign_extend :: "nat \<Rightarrow> nat \<Rightarrow> int \<Rightarrow> int" where
  "sem_sign_extend w n x = take_bit (w + n) (sval w x)"

definition sem_rotl :: "nat \<Rightarrow> nat \<Rightarrow> int \<Rightarrow> int" where
  "sem_rotl w n x = (let k = n mod w in take_bit w (push_bit k x) + drop_bit (w - k) x)"

definition sem_rotr :: "nat \<Rightarrow> nat \<Rightarrow> int \<Rightarrow> int" where
  "sem_rotr w n x = (let k = n mod w in take_bit w (push_bit (w - k) x) + drop_bit k x)"

lemmas sem_defs = sem_not_def sem_neg_def sem_add_def sem_sub_def sem_mul_def
  sem_udiv_def sem_urem_def sem_sdiv_def sem_srem_def sem_smod_def sem_shl_def
  sem_lshr_def sem_ashr_def sem_slt_def sem_sle_def sem_concat_def sem_extract_def
  sem_sign_extend_def

subsection \<open>The formulas on machine words\<close>

lemma uint_range: "0 \<le> uint x" "uint (x::'a::len word) < 2 ^ LENGTH('a)"
  by simp_all

lemma sval_uint: "sval LENGTH('a) (uint x) = sint (x::'a::len word)"
  by (simp add: sval_def sint_uint)

lemma word_not: "uint (NOT x) = sem_not LENGTH('a) (uint (x::'a::len word))"
  by (simp add: sem_not_def unsigned_not_eq take_bit_not_eq_mask_diff take_bit_id)

lemma word_neg: "uint (- x) = sem_neg LENGTH('a) (uint (x::'a::len word))"
  by (simp add: sem_neg_def uint_word_ariths take_bit_eq_mod)

lemma word_add: "uint (x + y) = sem_add LENGTH('a) (uint (x::'a::len word)) (uint y)"
  by (simp add: sem_add_def uint_word_ariths take_bit_eq_mod)

lemma word_sub: "uint (x - y) = sem_sub LENGTH('a) (uint (x::'a::len word)) (uint y)"
  by (simp add: sem_sub_def uint_word_ariths take_bit_eq_mod)

lemma word_mul: "uint (x * y) = sem_mul LENGTH('a) (uint (x::'a::len word)) (uint y)"
  by (simp add: sem_mul_def uint_word_ariths take_bit_eq_mod)

lemma word_udiv: "y \<noteq> 0 \<Longrightarrow> uint (x div y) = sem_udiv LENGTH('a) (uint (x::'a::len word)) (uint y)"
  by (simp add: sem_udiv_def uint_div uint_0_iff)

lemma word_urem: "uint (x mod y) = sem_urem LENGTH('a) (uint (x::'a::len word)) (uint y)"
  by (simp add: sem_urem_def uint_mod)

lemma word_slt: "word_sless x y \<longleftrightarrow> sem_slt LENGTH('a) (uint (x::'a::len word)) (uint y)"
  by (simp add: sem_slt_def sval_uint word_sless_alt)

lemma word_sle: "word_sle x y \<longleftrightarrow> sem_sle LENGTH('a) (uint (x::'a::len word)) (uint y)"
  by (simp add: sem_sle_def sval_uint word_sle_eq)

lemma uint_less_int: "uint (y::'a::len word) < int n \<longleftrightarrow> unat y < n"
proof -
  have "uint y = int (unat y)" by simp
  then show ?thesis by linarith
qed

lemma word_shl: "uint (push_bit (unat y) x) = sem_shl LENGTH('a) (uint (x::'a::len word)) (uint y)"
  by (simp add: sem_shl_def nat_uint_eq uint_less_int) (auto simp: bit_eq_iff bit_simps)

lemma word_lshr: "uint (drop_bit (unat y) x) = sem_lshr LENGTH('a) (uint (x::'a::len word)) (uint y)"
  by (simp add: sem_lshr_def nat_uint_eq uint_less_int) (auto simp: bit_eq_iff bit_simps)

lemma word_ashr: "uint (signed_drop_bit (unat y) x) = sem_ashr LENGTH('a) (uint (x::'a::len word)) (uint y)"
proof (rule bit_eqI)
  fix i
  show "bit (uint (signed_drop_bit (unat y) x)) i = bit (sem_ashr LENGTH('a) (uint x) (uint y)) i"
    by (cases "i < LENGTH('a)"; cases "unat y < LENGTH('a)"; cases "unat y + i = LENGTH('a) - 1")
     (auto simp: sem_ashr_def nat_uint_eq uint_less_int sval_def bit_simps min_def not_less 
       dest: bit_imp_le_length)
qed

lemma word_cat: "LENGTH('c) = LENGTH('a) + LENGTH('b) \<Longrightarrow>
  uint (word_cat x y :: 'c::len word) = sem_concat (uint (x::'a::len word)) LENGTH('b) (uint (y::'b::len word))"
proof -
  assume len: "LENGTH('c) = LENGTH('a) + LENGTH('b)"
  have "push_bit LENGTH('b) (uint x) + uint y = push_bit LENGTH('b) (uint x) OR uint y"
    by (rule disjunctive_add) (auto simp: bit_simps dest: bit_imp_le_length)
  moreover have "uint (word_cat x y :: 'c word) = push_bit LENGTH('b) (uint x) OR uint y"
    by (rule bit_eqI) (auto simp: len bit_simps dest: bit_imp_le_length)
  ultimately show ?thesis by (simp add: sem_concat_def)
qed

lemma word_slice: "low + LENGTH('b) \<le> LENGTH('a) \<Longrightarrow>
  uint (slice low x :: 'b::len word) = sem_extract (low + LENGTH('b) - 1) low (uint (x::'a::len word))"
  by  (rule bit_eqI) (auto simp: sem_extract_def bit_simps add.commute)

lemma word_scast: "LENGTH('b) = LENGTH('a) + n \<Longrightarrow>
  uint (scast x :: 'b::len word) = sem_sign_extend LENGTH('a) n (uint (x::'a::len word))"
  by (rule bit_eqI) (auto simp: sem_sign_extend_def sval_def bit_simps min_def)

lemma mod_once: "(k::nat) < 2 * L \<Longrightarrow> k mod L = (if k < L then k else k - L)"
  by (simp add: le_mod_geq)

lemma bit_word_less: "bit (x::'a::len word) j \<longleftrightarrow> j < LENGTH('a) \<and> bit x j"
  by (auto dest: bit_imp_le_length)

lemma rot_bits:
  assumes "m \<le> LENGTH('a)"
  shows "bit (take_bit LENGTH('a) (push_bit m (uint x)) + drop_bit (LENGTH('a) - m) (uint (x::'a::len word))) i
    \<longleftrightarrow> i < LENGTH('a) \<and> bit x ((i + (LENGTH('a) - m)) mod LENGTH('a))"
proof -
  have split: "take_bit LENGTH('a) (push_bit m (uint x)) + drop_bit (LENGTH('a) - m) (uint x) =
     take_bit LENGTH('a) (push_bit m (uint x)) OR drop_bit (LENGTH('a) - m) (uint x)"
    by (rule disjunctive_add) (auto simp: bit_simps dest: bit_imp_le_length)
  have high: "\<not> bit x j" if "LENGTH('a) \<le> j" for j
    using that by (auto dest: bit_imp_le_length)
  show ?thesis
  proof (cases "i < LENGTH('a)")
    case False
    then show ?thesis using assms by (simp add: split bit_simps high)
  next
    case True
    then have "(i + (LENGTH('a) - m)) mod LENGTH('a) = (if i < m then i + (LENGTH('a) - m) else i - m)"
      using assms by (subst mod_once) auto
    with True show ?thesis
      using assms unfolding split by (simp add: bit_simps high not_less add.commute)
  qed
qed

lemma word_rotl: "uint (word_rotl n x) = sem_rotl LENGTH('a) n (uint (x::'a::len word))"
  by (rule bit_eqI) (simp add: sem_rotl_def Let_def rot_bits bit_uint_iff bit_word_rotl_iff)

lemma word_rotr: "uint (word_rotr n x) = sem_rotr LENGTH('a) n (uint (x::'a::len word))"
proof (rule bit_eqI)
  fix i
  have "(i + n mod LENGTH('a)) mod LENGTH('a) = (i + n) mod LENGTH('a)"
    by (rule mod_add_right_eq)
  then show "bit (uint (word_rotr n x)) i = bit (sem_rotr LENGTH('a) n (uint x)) i"
    using rot_bits [of "LENGTH('a) - n mod LENGTH('a)" x i]
    by (simp add: sem_rotr_def Let_def bit_uint_iff bit_word_rotr_iff)
qed

subsection \<open>Ranges\<close>

lemma div_le_self: "0 \<le> (x::int) \<Longrightarrow> 0 \<le> y \<Longrightarrow> x div y \<le> x"
  using zdiv_mono2 [of x 1 y] by (cases "y = 0") auto

lemma div_range: "0 \<le> (x::int) \<Longrightarrow> x < n \<Longrightarrow> 0 \<le> y \<Longrightarrow> 0 \<le> x div y \<and> x div y < n"
  using div_le_self [of x y] by (simp add: div_int_pos_iff)

lemma mask_int: "mask w = (2::int) ^ w - 1"
  by (simp add: mask_eq_exp_minus_1)

lemma sval_eq:
  "0 < w \<Longrightarrow> 0 \<le> x \<Longrightarrow> x < 2 ^ w \<Longrightarrow> sval w x = (if x < 2 ^ (w - 1) then x else x - 2 ^ w)"
proof (cases w)
  case (Suc v)
  assume x: "0 \<le> x" "x < 2 ^ w"
  define t where "t = take_bit v x"
  have t: "0 \<le> t" "t < 2 ^ v" by (simp_all add: t_def)
  have x_eq: "x = 2 ^ v * of_bool (bit x v) + t"
    using take_bit_Suc_from_most [of v x] x Suc by (simp add: take_bit_id t_def)
  have b: "bit x v \<longleftrightarrow> 2 ^ v \<le> x"
  proof (cases "bit x v")
    case True
    with x_eq have "x = 2 ^ v + t" by simp
    with True t show ?thesis by linarith
  next
    case False
    with x_eq have "x = t" by simp
    with False t show ?thesis by linarith
  qed
  show ?thesis using x Suc b
   apply (auto simp: sval_def signed_take_bit_eq_take_bit_minus take_bit_int_eq_self)
   done
qed simp

lemma sem_not_range: "0 \<le> x \<Longrightarrow> x < 2 ^ w \<Longrightarrow> 0 \<le> sem_not w x \<and> sem_not w x < 2 ^ w"
  by (simp add: sem_not_def mask_int)

lemma sem_udiv_range:
  "0 \<le> x \<Longrightarrow> x < 2 ^ w \<Longrightarrow> 0 \<le> y \<Longrightarrow> 0 \<le> sem_udiv w x y \<and> sem_udiv w x y < 2 ^ w"
  using div_range [of x "2 ^ w" y] by (simp add: sem_udiv_def mask_int)

lemma sem_urem_range:
  "0 \<le> x \<Longrightarrow> x < 2 ^ w \<Longrightarrow> 0 \<le> y \<Longrightarrow> 0 \<le> sem_urem w x y \<and> sem_urem w x y < 2 ^ w"
  by (auto simp: sem_urem_def intro: le_less_trans [OF zmod_le_nonneg_dividend])

lemma sem_lshr_range:
  "0 \<le> x \<Longrightarrow> x < 2 ^ w \<Longrightarrow> 0 \<le> y \<Longrightarrow> 0 \<le> sem_lshr w x y \<and> sem_lshr w x y < 2 ^ w"
  using div_range [of x "2 ^ w" "2 ^ nat y"] by (simp add: sem_lshr_def drop_bit_eq_div)

lemma sem_concat_range:
  "0 \<le> x \<Longrightarrow> x < 2 ^ v \<Longrightarrow> 0 \<le> y \<Longrightarrow> y < 2 ^ w \<Longrightarrow>
   0 \<le> sem_concat x w y \<and> sem_concat x w y < 2 ^ (v + w)"
proof -
  assume *: "0 \<le> x" "x < 2 ^ v" "0 \<le> y" "y < 2 ^ w"
  then have "x * 2 ^ w \<le> (2 ^ v - 1) * 2 ^ w" by (intro mult_right_mono) auto
  with * show ?thesis by (auto simp: sem_concat_def push_bit_eq_mult power_add left_diff_distrib)
qed

lemma high_bits: "0 \<le> x \<Longrightarrow> x < 2 ^ w \<Longrightarrow> w \<le> i \<Longrightarrow> \<not> bit (x::int) i"
  by (metis bit_take_bit_iff not_less take_bit_id)

lemma sval_nonneg: "0 < w \<Longrightarrow> 0 \<le> x \<Longrightarrow> x < 2 ^ w \<Longrightarrow> 0 \<le> sval w x \<Longrightarrow> sval w x = x"
  by (auto simp: sval_eq split: if_splits)

lemma drop_bit_trunc: "0 \<le> x \<Longrightarrow> x < 2 ^ w \<Longrightarrow> 0 \<le> y \<Longrightarrow>
  take_bit w (drop_bit (nat y) x) = (if y < int w then drop_bit (nat y) x else (0::int))"
proof (rule bit_eqI)
  fix i
  assume *: "0 \<le> x" "x < 2 ^ w" "0 \<le> y"
  then show "bit (take_bit w (drop_bit (nat y) x)) i = bit (if y < int w then drop_bit (nat y) x else 0) i"
    using high_bits [OF *(1,2), of "nat y + i"]
    by (cases "w \<le> nat y + i") (auto simp: bit_simps)
qed



lemma take_bit_add_left: "take_bit n (take_bit n a + b) = take_bit n (a + (b::int))"
  by (simp add: take_bit_eq_mod mod_simps)

lemma take_bit_add_right: "take_bit n (a + take_bit n b) = take_bit n (a + (b::int))"
  by (simp add: take_bit_eq_mod mod_simps)

end
