(* ===== verification/BitVector_Correct.thy ===== *)
theory BitVector_Correct
  imports BV_Ops
begin

section \<open>The class BitVector computes the operators\<close>

text \<open>
  On arguments that satisfy the class invariant and have the widths the callers guarantee,
  no operation of \<open>util/bitvector.cpp\<close> throws, and each returns the width and the value
  that the formulas of \<open>BV_Ops\<close> give. The rewrite rules and the bit-blaster use these
  facts; the last part states them over the library's machine words.
\<close>

unbundle bit_operations_syntax

subsection \<open>Operation by operation\<close>

lemma oneExtend_ones: "0 < w \<Longrightarrow> oneExtend 1 1 (w - 1) = mask w"
  by (rule bit_eqI) (auto simp: bit_oneExtend bit_simps)

lemma bv_not_sem: "bv_ok a \<Longrightarrow> bv_not a = \<lparr>d_size = d_size a, d_value = sem_not (d_size a) (d_value a)\<rparr>"
  by (simp add: bv_not_def bitvector_defs integer_defs bv_ok_def sem_not_def take_bit_not_eq_mask_diff take_bit_id)

lemma bv_add_sem: "d_size a = d_size b \<Longrightarrow> bv_add a b = Inr \<lparr>d_size = d_size a, d_value = sem_add (d_size a) (d_value a) (d_value b)\<rparr>"
  by (simp add: bv_add_def bitvector_defs integer_defs sem_add_def)

lemma bv_mult_sem: "d_size a = d_size b \<Longrightarrow> bv_mult a b = Inr \<lparr>d_size = d_size a, d_value = sem_mul (d_size a) (d_value a) (d_value b)\<rparr>"
  by (simp add: bv_mult_def bitvector_defs integer_defs sem_mul_def)

lemma bv_neg_sem: "bv_neg a = Inr \<lparr>d_size = d_size a, d_value = sem_neg (d_size a) (d_value a)\<rparr>"
  unfolding bv_neg_def bv_add_def bv_not_def mkBitVector_def modByPow2_def bitwiseNot_def
    sem_neg_def Let_def
  by (simp only: BitVector.simps take_bit_add_left take_bit_add_right CheckArgument_True
      not_eq_complement) (simp add: take_bit_add_left)

lemma bv_sub_sem: "d_size a = d_size b \<Longrightarrow> bv_sub a b = Inr \<lparr>d_size = d_size a, d_value = sem_sub (d_size a) (d_value a) (d_value b)\<rparr>"
  unfolding bv_sub_def bv_add_def bv_not_def mkBitVector_def modByPow2_def bitwiseNot_def sem_sub_def Let_def
  by (simp only: BitVector.simps take_bit_add_left take_bit_add_right CheckArgument_True
      not_eq_complement and_then.simps) simp

lemma toSignedInteger_sem: "bv_ok b \<Longrightarrow> toSignedInteger b = sval (d_size b) (d_value b)"
proof -
  assume ok: "bv_ok b"
  define w x where "w = d_size b" and "x = d_value b"
  from ok have w: "0 < w" "w < 2 ^ 32" and x: "0 \<le> x" "x < 2 ^ w"
    by (auto simp: bv_ok_def w_def x_def)
  obtain v where v: "w = Suc v" using w by (cases w) auto
  have sign: "take_bit 1 (drop_bit v x) = of_bool (bit x v)"
    by (simp add: take_bit_Suc bit_iff_odd_drop_bit mod_2_eq_odd)
  have "toSignedInteger b = take_bit v x - push_bit v (of_bool (bit x v))"
    using w v by (simp add: toSignedInteger_def integer_defs sign[simplified] flip: w_def x_def)
  also have "\<dots> = sval w x"
    by (simp add: sval_def v signed_take_bit_eq_take_bit_minus)
      (simp add: take_bit_Suc_from_most push_bit_eq_mult)
  finally show ?thesis by (simp add: w_def x_def)
qed

lemma signbit_sem: "bv_ok b \<Longrightarrow> extractBitRange (d_value b) 1 (d_size b - 1) = 0 \<longleftrightarrow> 0 \<le> sval (d_size b) (d_value b)"
  by (auto simp: extractBitRange_eq bv_ok_def sval_def take_bit_Suc bit_iff_odd_drop_bit mod_2_eq_odd)

lemma bv_concat_sem: "bv_ok a \<Longrightarrow> bv_ok b \<Longrightarrow> d_size a + d_size b < 2 ^ 32 \<Longrightarrow>
  bv_concat a b = \<lparr>d_size = d_size a + d_size b, d_value = sem_concat (d_value a) (d_size b) (d_value b)\<rparr>"
  using sem_concat_range [of "d_value a" "d_size a" "d_value b" "d_size b"]
  by (simp add: bv_concat_def bitvector_defs integer_defs bv_ok_def sem_concat_def take_bit_id)

lemma bv_extract_sem: "bv_ok a \<Longrightarrow> high < d_size a \<Longrightarrow> low \<le> high \<Longrightarrow>
  bv_extract a high low = Inr \<lparr>d_size = high - low + 1, d_value = sem_extract high low (d_value a)\<rparr>"
  by (simp add: bv_extract_def bitvector_defs integer_defs bv_ok_def sem_extract_def)

lemma bv_logic_sem:
  assumes "bv_ok a" "bv_ok b" "d_size a = d_size b"
  shows "bv_and a b = Inr \<lparr>d_size = d_size a, d_value = d_value a AND d_value b\<rparr>"
   and "bv_or a b = Inr \<lparr>d_size = d_size a, d_value = d_value a OR d_value b\<rparr>"
   and "bv_xor a b = Inr \<lparr>d_size = d_size a, d_value = d_value a XOR d_value b\<rparr>"
  using assms by (simp_all add: bv_and_def bv_or_def bv_xor_def bitvector_defs integer_defs bv_ok_def take_bit_id)

lemma unsignedDivTotal_sem: "bv_ok a \<Longrightarrow> bv_ok b \<Longrightarrow> d_size a = d_size b \<Longrightarrow>
  unsignedDivTotal a b = Inr \<lparr>d_size = d_size a, d_value = sem_udiv (d_size a) (d_value a) (d_value b)\<rparr>"
  using sem_udiv_range [of "d_value a" "d_size a" "d_value b"]
  by (auto simp: unsignedDivTotal_def bitvector_defs integer_defs bv_ok_def sem_udiv_def take_bit_id
      oneExtend_ones [simplified])

lemma unsignedRemTotal_sem: "bv_ok a \<Longrightarrow> bv_ok b \<Longrightarrow> d_size a = d_size b \<Longrightarrow>
  unsignedRemTotal a b = Inr \<lparr>d_size = d_size a, d_value = sem_urem (d_size a) (d_value a) (d_value b)\<rparr>"
  using sem_urem_range [of "d_value a" "d_size a" "d_value b"]
  by (auto simp: unsignedRemTotal_def bitvector_defs integer_defs bv_ok_def sem_urem_def take_bit_id)

lemma zeroExtend_sem: "bv_ok a \<Longrightarrow> d_size a + n < 2 ^ 32 \<Longrightarrow> zeroExtend a n = \<lparr>d_size = d_size a + n, d_value = d_value a\<rparr>"
proof -
  assume ok: "bv_ok a" and n: "d_size a + n < 2 ^ 32"
  have "(2::int) ^ d_size a \<le> 2 ^ (d_size a + n)" by (rule power_increasing) auto
  then have "d_value a < 2 ^ (d_size a + n)"
    using ok less_le_trans unfolding bv_ok_def by blast
  with ok have "take_bit (d_size a + n) (d_value a) = d_value a"
    by (intro take_bit_id) (auto simp: bv_ok_def)
  then show ?thesis using n by (simp add: zeroExtend_def bitvector_defs integer_defs)
qed

lemma signExtend_sem: "bv_ok a \<Longrightarrow> d_size a + n < 2 ^ 32 \<Longrightarrow>
  signExtend a n = \<lparr>d_size = d_size a + n, d_value = sem_sign_extend (d_size a) n (d_value a)\<rparr>"
proof -
  assume ok: "bv_ok a" and n: "d_size a + n < 2 ^ 32"
  define w x where "w = d_size a" and "x = d_value a"
  from ok have w: "0 < w" "w < 2 ^ 32" and x: "0 \<le> x" "x < 2 ^ w"
    by (auto simp: bv_ok_def w_def x_def)
  have "take_bit (w + n) x = take_bit (w + n) (sval w x)" if "0 \<le> sval w x"
    using sval_nonneg [OF w(1) x that] by simp
  moreover have "take_bit (w + n) (oneExtend x w n) = take_bit (w + n) (sval w x)" if "sval w x < 0"
    using that w high_bits [OF x]
    by (intro bit_eqI) (auto simp: sval_def bit_simps bit_oneExtend min_def not_le le_eq_less_or_eq)
  ultimately show ?thesis
    using signbit_sem [OF ok] n
    by (simp add: signExtend_def bitvector_defs integer_defs sem_sign_extend_def Let_def not_le
        flip: w_def x_def)
qed

lemma leftShift_sem: "bv_ok a \<Longrightarrow> bv_ok b \<Longrightarrow> d_size a = d_size b \<Longrightarrow>
  leftShift a b = Inr \<lparr>d_size = d_size a, d_value = sem_shl (d_size a) (d_value a) (d_value b)\<rparr>"
  by (auto simp: leftShift_def bitvector_defs integer_defs bv_ok_def sem_shl_def take_bit_id
      toUnsignedInt_small take_bit_push_bit Let_def)

lemma logicalRightShift_sem: "bv_ok a \<Longrightarrow> bv_ok b \<Longrightarrow> d_size a = d_size b \<Longrightarrow>
  logicalRightShift a b = Inr \<lparr>d_size = d_size a, d_value = sem_lshr (d_size a) (d_value a) (d_value b)\<rparr>"
proof -
  assume ok: "bv_ok a" "bv_ok b" "d_size a = d_size b"
  then have "take_bit (d_size b) (drop_bit (nat (d_value b)) (d_value a)) =
    (if d_value b < int (d_size b) then drop_bit (nat (d_value b)) (d_value a) else 0)"
    by (intro drop_bit_trunc) (auto simp: bv_ok_def)
  with ok show ?thesis
    by (auto simp: logicalRightShift_def bitvector_defs integer_defs bv_ok_def sem_lshr_def
       toUnsignedInt_small Let_def)
qed

lemma arithRightShift_sem: "bv_ok a \<Longrightarrow> bv_ok b \<Longrightarrow> d_size a = d_size b \<Longrightarrow>
  arithRightShift a b = Inr \<lparr>d_size = d_size a, d_value = sem_ashr (d_size a) (d_value a) (d_value b)\<rparr>"
proof -
  assume ok: "bv_ok a" "bv_ok b" "d_size a = d_size b"
  define w x y where "w = d_size a" and "x = d_value a" and "y = d_value b"
  have b: "d_size b = w" using ok by (simp add: w_def)
  from ok have w: "0 < w" "w < 2 ^ 32" and x: "0 \<le> x" "x < 2 ^ w" and y: "0 \<le> y"
    by (auto simp: bv_ok_def w_def x_def y_def)
  have ones: "take_bit w (int w * 2 ^ w - 1) = mask w"
  proof -
    have "int w * 2 ^ w - 1 = - 1 + int w * 2 ^ w" by simp
    then have "take_bit w (int w * 2 ^ w - 1) = take_bit w (- 1)"
      by (simp only: take_bit_eq_mod mod_mult_self1)
    then show ?thesis by simp
  qed
  have neg: "take_bit w (oneExtend (drop_bit (nat y) x) (w - nat y) (nat y)) = take_bit w (drop_bit (nat y) (sval w x))"
    if "sval w x < 0" "y < int w"
    using that w y high_bits [OF x]
    by (intro bit_eqI) (auto simp: sval_def bit_simps bit_oneExtend min_def not_le le_eq_less_or_eq) 
  have neg': "take_bit w (oneExtend (drop_bit (nat y) x) (w - nat y) (nat y)) = mask w" if "y = int w"
    using that by (intro bit_eqI) (auto simp: bit_simps bit_oneExtend)
  have zero: "take_bit w x = x" "take_bit w (sval w x) = x"
    using x w by (simp_all add: sval_def take_bit_signed_take_bit take_bit_id)
  have small: "toUnsignedInt y = nat y" "y < 2 ^ 32" if "y \<le> int w"
    using that w y by (simp_all add: toUnsignedInt_small)
  have wide: "toUnsignedInt (int w) = w" using small [of] w by (simp add: toUnsignedInt_small)
  note eval = arithRightShift_def bitvector_defs modByPow2_def divByPow2_def multiplyByPow2_def
    sem_ashr_def Let_def push_bit_eq_mult
  show ?thesis
  proof (cases "0 \<le> sval w x")
    case True
    then have "extractBitRange x 1 (w - 1) = 0"
      using signbit_sem [OF ok(1)] by (simp flip: w_def x_def)
    then show ?thesis
      using w y x sval_nonneg [OF w(1) x True] drop_bit_trunc [OF x y] zero small wide
      by (cases "y < int w"; cases "y = int w"; cases "y = 0")
        (simp_all add: eval flip: w_def x_def y_def)
  next
    case False
    then have "extractBitRange x 1 (w - 1) \<noteq> 0"
      using signbit_sem [OF ok(1)] by (simp flip: w_def x_def)
    then show ?thesis
      using w y False neg neg' zero small wide ones
      by (cases "y < int w"; cases "y = int w"; cases "y = 0")
        (simp_all add: eval not_le flip: w_def x_def y_def)
  qed
qed

lemma comparisons_sem:
  assumes "bv_ok a" "bv_ok b" "d_size a = d_size b"
  shows "unsignedLessThan a b = Inr (d_value a < d_value b)"
    and "unsignedLessThanEq a b = Inr (d_value a \<le> d_value b)"
    and "signedLessThan a b = Inr (sem_slt (d_size a) (d_value a) (d_value b))"
    and "signedLessThanEq a b = Inr (sem_sle (d_size a) (d_value a) (d_value b))"
  using assms toSignedInteger_sem [of a] toSignedInteger_sem [of b]
  by (simp_all add: unsignedLessThan_def unsignedLessThanEq_def signedLessThan_def signedLessThanEq_def
    bv_ok_def sem_slt_def sem_sle_def)

subsection \<open>Set bits and the static helpers\<close>

lemma bv_setBit_sem:
  "i < d_size b \<Longrightarrow> bv_setBit b i v = Inr \<lparr>d_size = d_size b,
     d_value = take_bit (d_size b) (if v then set_bit i (d_value b) else unset_bit i (d_value b))\<rparr>"
  by (simp add: bv_setBit_def setBit_def bitvector_defs integer_defs)

lemma bv_isBitSet_sem: "bv_ok b \<Longrightarrow> i < d_size b \<Longrightarrow> bv_isBitSet b i = Inr (bit (d_value b) i)"
  by (simp add: bv_isBitSet_def isBitSet_iff bv_ok_def)

lemma bv_mkOnes_sem: "0 < w \<Longrightarrow> w < 2 ^ 32 \<Longrightarrow> bv_mkOnes w = Inr \<lparr>d_size = w, d_value = mask w\<rparr>"
proof -
  assume w: "0 < w" "w < 2 ^ 32"
  have ok: "bv_ok (mkBitVector 1 1)" by (simp add: bv_ok_def bitvector_defs integer_defs)
  have "sem_sign_extend 1 (w - 1) 1 = mask w"
    using w by (simp add: sem_sign_extend_def sval_def)
  with w signExtend_sem [OF ok, of "w - 1"] show ?thesis
    by (simp add: bv_mkOnes_def bitvector_defs integer_defs)
qed

lemma bv_mkMinSigned_sem: "0 < w \<Longrightarrow> bv_mkMinSigned w = Inr \<lparr>d_size = w, d_value = 2 ^ (w - 1)\<rparr>"
  by (simp add: bv_mkMinSigned_def bv_setBit_sem bitvector_defs integer_defs set_bit_eq_or
      push_bit_eq_mult take_bit_id)

lemma bv_mkMaxSigned_sem: "0 < w \<Longrightarrow> w < 2 ^ 32 \<Longrightarrow>
  bv_mkMaxSigned w = Inr \<lparr>d_size = w, d_value = 2 ^ (w - 1) - 1\<rparr>"
  by (cases w) (simp_all add: bv_mkMaxSigned_def bv_mkMinSigned_sem bv_not_sem bv_ok_def sem_not_def mask_int)

subsection \<open>The class invariant\<close>

lemma bv_ok_mkBitVector: "0 < w \<Longrightarrow> w < 2 ^ 32 \<Longrightarrow> bv_ok (mkBitVector w v)"
  by (simp add: bv_ok_def bitvector_defs integer_defs)

subsection \<open>Constants as machine words\<close>

definition bv_of_word :: "'a::len word \<Rightarrow> BitVector" where
  "bv_of_word x = \<lparr>d_size = LENGTH('a), d_value = uint x\<rparr>"

lemma bv_of_word_simps [simp]:
  "d_size (bv_of_word (x::'a::len word)) = LENGTH('a)" "d_value (bv_of_word x) = uint x"
  by (simp_all add: bv_of_word_def)

lemma bv_of_word_ok: "LENGTH('a) < 2 ^ 32 \<Longrightarrow> bv_ok (bv_of_word (x::'a::len word))"
  by (simp add: bv_ok_def)

lemma bv_ok_is_word: "bv_ok b \<Longrightarrow> d_size b = LENGTH('a::len) \<Longrightarrow> b = bv_of_word (word_of_int (d_value b) :: 'a word)"
  by (cases b) (simp add: bv_of_word_def bv_ok_def uint_word_of_int_eq take_bit_id)

subsection \<open>Properties\<close>

text \<open>C15: addition, subtraction, multiplication, negation and the total division operators of
  \<open>BitVector\<close> are those of machine words of the same width, a zero divisor included.\<close>

theorem BitVector_arith_words:
  fixes x y :: "'a::len word"
  assumes "LENGTH('a) < 2 ^ 32"
  shows "bv_add (bv_of_word x) (bv_of_word y) = Inr (bv_of_word (x + y))
    \<and> bv_sub (bv_of_word x) (bv_of_word y) = Inr (bv_of_word (x - y))
    \<and> bv_mult (bv_of_word x) (bv_of_word y) = Inr (bv_of_word (x * y))
    \<and> bv_neg (bv_of_word x) = Inr (bv_of_word (- x))
    \<and> unsignedDivTotal (bv_of_word x) (bv_of_word y) = Inr (bv_of_word (if y = 0 then - 1 else x div y))
    \<and> unsignedRemTotal (bv_of_word x) (bv_of_word y) = Inr (bv_of_word (if y = 0 then x else x mod y))"
  using bv_of_word_ok [OF assms, of x] bv_of_word_ok [OF assms, of y]
  by (simp add: bv_add_sem bv_sub_sem bv_mult_sem bv_neg_sem unsignedDivTotal_sem
    unsignedRemTotal_sem word_add word_sub word_mul word_neg word_udiv word_urem
    sem_udiv_def sem_urem_def sem_neg_def bv_of_word_def)

theorem BitVector_arith_words_witness:
  "unsignedDivTotal \<lparr>d_size = 8, d_value = 200\<rparr> \<lparr>d_size = 8, d_value = 0\<rparr> = Inr \<lparr>d_size = 8, d_value = 255\<rparr>
   \<and> bv_add \<lparr>d_size = 8, d_value = 200\<rparr> \<lparr>d_size = 8, d_value = 100\<rparr> = Inr \<lparr>d_size = 8, d_value = 44\<rparr>"
  using BitVector_arith_words [of "200 :: 8 word" 0] BitVector_arith_words [of "200 :: 8 word" 100]
  by (simp add: bv_of_word_def unsigned_minus_1_eq_mask mask_eq_exp_minus_1)

text \<open>C16: the bitwise operators, the complement and the three shifts of \<open>BitVector\<close> are those of
  machine words, for every shift amount, also one past the width.\<close>

theorem BitVector_bitwise_words:
  fixes x y :: "'a::len word"
  assumes "LENGTH('a) < 2 ^ 32"
  shows "bv_and (bv_of_word x) (bv_of_word y) = Inr (bv_of_word (x AND y))
    \<and> bv_or (bv_of_word x) (bv_of_word y) = Inr (bv_of_word (x OR y))
    \<and> bv_xor (bv_of_word x) (bv_of_word y) = Inr (bv_of_word (x XOR y))
    \<and> bv_not (bv_of_word x) = bv_of_word (NOT x)
    \<and> leftShift (bv_of_word x) (bv_of_word y) = Inr (bv_of_word (push_bit (unat y) x))
    \<and> logicalRightShift (bv_of_word x) (bv_of_word y) = Inr (bv_of_word (drop_bit (unat y) x))
    \<and> arithRightShift (bv_of_word x) (bv_of_word y) = Inr (bv_of_word (signed_drop_bit (unat y) x))"
  using bv_of_word_ok [OF assms, of x] bv_of_word_ok [OF assms, of y]
  by (simp add: bv_logic_sem bv_not_sem leftShift_sem logicalRightShift_sem arithRightShift_sem
     word_not word_shl word_lshr word_ashr bv_of_word_def unsigned_and_eq unsigned_or_eq unsigned_xor_eq)

theorem BitVector_bitwise_words_witness:
  "leftShift \<lparr>d_size = 8, d_value = 3\<rparr> \<lparr>d_size = 8, d_value = 7\<rparr> = Inr \<lparr>d_size = 8, d_value = 128\<rparr>
   \<and> bv_not \<lparr>d_size = 8, d_value = 3\<rparr> = \<lparr>d_size = 8, d_value = 252\<rparr>"
  using BitVector_bitwise_words [of "3 :: 8 word" 7]
  by (simp add: bv_of_word_def push_bit_eq_mult not_eq_complement)

text \<open>C17: the four orders of \<open>BitVector\<close> are the unsigned and the two's complement orders of
  machine words.\<close>

theorem BitVector_compare_words:
  fixes x y :: "'a::len word"
  assumes "LENGTH('a) < 2 ^ 32"
  shows "unsignedLessThan (bv_of_word x) (bv_of_word y) = Inr (x < y)
    \<and> unsignedLessThanEq (bv_of_word x) (bv_of_word y) = Inr (x \<le> y)
    \<and> signedLessThan (bv_of_word x) (bv_of_word y) = Inr (word_sless x y)
    \<and> signedLessThanEq (bv_of_word x) (bv_of_word y) = Inr (word_sle x y)"
  using bv_of_word_ok [OF assms, of x] bv_of_word_ok [OF assms, of y]
  by (simp add: comparisons_sem word_slt word_sle word_less_def word_le_def)

theorem BitVector_compare_words_witness:
  "signedLessThan \<lparr>d_size = 8, d_value = 128\<rparr> \<lparr>d_size = 8, d_value = 1\<rparr> = Inr True
   \<and> unsignedLessThan \<lparr>d_size = 8, d_value = 128\<rparr> \<lparr>d_size = 8, d_value = 1\<rparr> = Inr False"
  using BitVector_compare_words [of "0x80 :: 8 word" 1] by (simp add: bv_of_word_def word_sless_alt)

text \<open>C18: concatenation, extraction and the two extensions of \<open>BitVector\<close> are those of machine
  words whose lengths add up.\<close>

theorem BitVector_width_words:
  fixes x :: "'a::len word" and y :: "'b::len word"
  assumes "LENGTH('c::len) = LENGTH('a) + LENGTH('b)" "LENGTH('c) < 2 ^ 32"
   and "low + LENGTH('d::len) \<le> LENGTH('a)"
  shows "bv_concat (bv_of_word x) (bv_of_word y) = bv_of_word (word_cat x y :: 'c word)
   \<and> bv_extract (bv_of_word x) (low + LENGTH('d) - 1) low = Inr (bv_of_word (slice low x :: 'd word))
   \<and> zeroExtend (bv_of_word x) LENGTH('b) = bv_of_word (ucast x :: 'c word)
   \<and> signExtend (bv_of_word x) LENGTH('b) = bv_of_word (scast x :: 'c word)"
proof -
  have ok: "bv_ok (bv_of_word x)" "bv_ok (bv_of_word y)"
    using assms by (auto intro!: bv_of_word_ok)
  have hi: "low + LENGTH('d) - 1 < LENGTH('a)" "low \<le> low + LENGTH('d) - 1"
    "low + LENGTH('d) - 1 - low + 1 = LENGTH('d)" 
    using assms(3) len_gt_0 [where 'a = 'd] by linarith+
  have uc: "uint (ucast x :: 'c word) = uint x" 
    using assms(1) by (intro bit_eqI) (auto simp: bit_simps dest: bit_imp_le_length)
  show ?thesis
   using ok hi assms
   by (simp add: bv_concat_sem bv_extract_sem zeroExtend_sem signExtend_sem word_cat word_slice word_scast
      bv_of_word_def uc)
qed

theorem BitVector_width_words_witness:
  "bv_concat (bv_of_word (5 :: 8 word)) (bv_of_word (3 :: 4 word)) = bv_of_word (word_cat (5 :: 8 word) (3 :: 4 word) :: 12 word)
   \<and> bv_extract (bv_of_word (5 :: 8 word)) 4 4 = Inr (bv_of_word (slice 4 (5 :: 8 word) :: 1 word))"
  using BitVector_width_words [where 'c = 12 and 'd = 1, of 4 "5 :: 8 word" "3 :: 4 word"] by simp



text \<open>C20: an operator applied to arguments of different widths throws, and so do a read, a write
  or an extraction past the width; none of them returns a value.\<close>

theorem BitVector_errors:
  assumes "d_size a \<noteq> d_size b" "d_size a \<le> i" "low \<le> high"
    and "r \<in> {bv_add a b, bv_sub a b, bv_mult a b, bv_and a b, bv_or a b, bv_xor a b,
      unsignedDivTotal a b, unsignedRemTotal a b, bv_setBit a i v, bv_extract a i low, bv_extract a low (Suc high)}"
  shows "r = Inl IllegalArgument"
  using assms by (auto simp: bv_add_def bv_sub_def bv_mult_def bv_and_def bv_or_def bv_xor_def
    unsignedDivTotal_def unsignedRemTotal_def bv_setBit_def bv_extract_def CheckArgument_def)

theorem BitVector_errors_witness:
  "bv_add (bv_of_word (1 :: 8 word)) (bv_of_word (1 :: 4 word)) = Inl IllegalArgument
   \<and> bv_extract (bv_of_word (1 :: 8 word)) 8 0 = Inl IllegalArgument"
  using BitVector_errors [of "bv_of_word (1 :: 8 word)" "bv_of_word (1 :: 4 word)" 8 0 0] by simp

text \<open>The two's complement reading of a constant lies in the signed range of its width, and
  building a constant of that width from it gives the constant back.\<close>

theorem toSignedInteger_roundtrip:
  assumes "bv_ok b"
  shows "mkBitVector (d_size b) (toSignedInteger b) = b
    \<and> - (2 ^ (d_size b - 1)) \<le> toSignedInteger b \<and> toSignedInteger b < 2 ^ (d_size b - 1)"
proof -
  define w x where "w = d_size b" and "x = d_value b"
  have x: "0 < w" "0 \<le> x" "x < 2 ^ w" using assms by (auto simp: bv_ok_def w_def x_def)
  then have "take_bit w (sval w x) = x"
    by (simp add: sval_def take_bit_signed_take_bit take_bit_id)
  moreover have "- (2 ^ (w - 1)) \<le> sval w x" "sval w x < 2 ^ (w - 1)"
    by (simp_all add: sval_def signed_take_bit_int_greater_eq_minus_exp signed_take_bit_int_less_exp)
  ultimately show ?thesis
    unfolding toSignedInteger_sem [OF assms] by (simp add: w_def x_def mkBitVector_def modByPow2_def)
qed

theorem toSignedInteger_roundtrip_witness:
  "mkBitVector 8 (toSignedInteger (bv_of_word (0x9C :: 8 word))) = bv_of_word (0x9C :: 8 word)"
  using toSignedInteger_roundtrip [of "bv_of_word (0x9C :: 8 word)"] by (simp add: bv_of_word_ok)

text \<open>Cutting a constant in two with \<open>extract\<close> and putting the pieces together with \<open>concat\<close>
  gives the constant back.\<close>

theorem extract_concat_roundtrip:
  assumes "bv_ok a" "0 < k" "k < d_size a"
  shows "and_then (bv_extract a (d_size a - 1) k) (\<lambda>high. and_then (bv_extract a (k - 1) 0) (\<lambda>low.
    Inr (bv_concat high low))) = Inr a"
proof -
  define w x where "w = d_size a" and "x = d_value a"
  have x: "0 \<le> x" "x < 2 ^ w" "w < 2 ^ 32" using assms by (auto simp: bv_ok_def w_def x_def)
  have parts: "sem_concat (sem_extract (w - 1) k x) k (sem_extract (k - 1) 0 x) = x"
  proof -
    have "take_bit (w - k) (drop_bit k x) = drop_bit k x"
      using x assms by (simp add: take_bit_drop_bit take_bit_id w_def)
    moreover have "w - 1 - k + 1 = w - k" "k - 1 + 1 = k" using assms by (simp_all add: w_def)
    ultimately show ?thesis
      unfolding sem_concat_def sem_extract_def by (simp add: bits_ident)
  qed
  have ok: "bv_ok \<lparr>d_size = w - 1 - k + 1, d_value = sem_extract (w - 1) k x\<rparr>"
    "bv_ok \<lparr>d_size = k - 1 - 0 + 1, d_value = sem_extract (k - 1) 0 x\<rparr>"
    using x assms take_bit_int_less_exp [of "w - 1 - k + 1" "drop_bit k x"] take_bit_int_less_exp [of "k - 1 - 0 + 1" "drop_bit 0 x"]
    by (auto simp: bv_ok_def sem_extract_def w_def)
  show ?thesis
    using assms parts bv_concat_sem [OF ok] x
    by (simp add: bv_extract_sem flip: w_def x_def)
qed

theorem extract_concat_roundtrip_witness:
  "and_then (bv_extract (bv_of_word (0x9C :: 8 word)) 7 3) (\<lambda>high. and_then (bv_extract (bv_of_word (0x9C :: 8 word)) 2 0)
    (\<lambda>low. Inr (bv_concat high low))) = Inr (bv_of_word (0x9C :: 8 word))"
  using extract_concat_roundtrip [of "bv_of_word (0x9C :: 8 word)" 3] by (simp add: bv_of_word_ok)

end
