(* ===== verification/Nodes.thy ===== *)
theory Nodes
  imports BitVector_Correct
begin

section \<open>Nodes and their types\<close>

text \<open>
  The terms the bit-vector theory works on. A \<open>Node\<close> of CVC4 is a pointer to a hash-consed
  record, so that pointer equality is equality of terms: a node is modelled as a tree. The
  kinds keep the names of \<open>theory/bv/kinds\<close>, \<open>theory/booleans/kinds\<close> and the others,
  with a suffix where the name is a keyword here; an indexed kind carries the indices that the
  code keeps in the operator node (\<open>BitVectorExtract\<close>, \<open>BitVectorBitOf\<close>, ...).
  \<open>typeOf\<close> is \<open>Node::getType(check = true)\<close>: the rules of
  \<open>theory_bv_type_rules.h\<close> and of the Boolean and builtin theories, where a
  \<open>TypeCheckingException\<close> is \<open>None\<close>. Terms of width \<open>2 ^ 31\<close> or more are not typed
  (\<open>width_fits\<close>, \<open>type_ok\<close>): the code's rules compute with \<open>unsigned\<close> and would
  return a wrapped width for the largest of them, and rules such as \<open>ExtractConcat\<close>
  read widths and indices as \<open>int\<close>.
\<close>

subsection \<open>Types, kinds, nodes\<close>

datatype ntype = BooleanType | IntegerType | BitVectorType nat

fun isBitVector :: "ntype \<Rightarrow> bool" where
  "isBitVector (BitVectorType w) = True"
| "isBitVector _ = False"

fun getBitVectorSize :: "ntype \<Rightarrow> nat" where
  "getBitVectorSize (BitVectorType w) = w"
| "getBitVectorSize _ = 0"

datatype (plugins only: code size) kind =
    VARIABLE | CONST_BOOLEAN | CONST_RATIONAL | CONST_BITVECTOR
  | EQUAL | NOT_K | AND_K | IMPLIES | OR_K | XOR_K | ITE
  | PLUS | GEQ | INTS_MODULUS_TOTAL
  | BITVECTOR_CONCAT
  | BITVECTOR_AND | BITVECTOR_COMP | BITVECTOR_OR | BITVECTOR_XOR | BITVECTOR_NOT
  | BITVECTOR_NAND | BITVECTOR_NOR | BITVECTOR_XNOR
  | BITVECTOR_MULT | BITVECTOR_NEG | BITVECTOR_PLUS | BITVECTOR_SUB
  | BITVECTOR_UDIV | BITVECTOR_UREM | BITVECTOR_SDIV | BITVECTOR_SMOD | BITVECTOR_SREM
  | BITVECTOR_UDIV_TOTAL | BITVECTOR_UREM_TOTAL
  | BITVECTOR_ASHR | BITVECTOR_LSHR | BITVECTOR_SHL
  | BITVECTOR_ULE | BITVECTOR_ULT | BITVECTOR_UGE | BITVECTOR_UGT
  | BITVECTOR_SLE | BITVECTOR_SLT | BITVECTOR_SGE | BITVECTOR_SGT
  | BITVECTOR_ULTBV | BITVECTOR_SLTBV
  | BITVECTOR_REDAND | BITVECTOR_REDOR
  | BITVECTOR_ITE
  | BITVECTOR_TO_NAT
  | BITVECTOR_EAGER_ATOM
  | BITVECTOR_BITOF nat
  | BITVECTOR_EXTRACT nat nat
  | BITVECTOR_REPEAT nat
  | BITVECTOR_ROTATE_LEFT nat
  | BITVECTOR_ROTATE_RIGHT nat
  | BITVECTOR_SIGN_EXTEND nat
  | BITVECTOR_ZERO_EXTEND nat
  | INT_TO_BITVECTOR nat

text \<open>Tests for the indexed kinds and readers of the indices of their operator nodes.\<close>

definition is_BITOF :: "kind \<Rightarrow> bool" where
  "is_BITOF k = (case k of BITVECTOR_BITOF i \<Rightarrow> True | _ \<Rightarrow> False)"

definition d_bitIndex :: "kind \<Rightarrow> nat" where
  [simp]: "d_bitIndex k = (case k of BITVECTOR_BITOF i \<Rightarrow> i | _ \<Rightarrow> 0)"

definition is_REPEAT :: "kind \<Rightarrow> bool" where
  "is_REPEAT k = (case k of BITVECTOR_REPEAT i \<Rightarrow> True | _ \<Rightarrow> False)"

definition d_repeatAmount :: "kind \<Rightarrow> nat" where
  [simp]: "d_repeatAmount k = (case k of BITVECTOR_REPEAT i \<Rightarrow> i | _ \<Rightarrow> 0)"

definition is_ROTATE_LEFT :: "kind \<Rightarrow> bool" where
  "is_ROTATE_LEFT k = (case k of BITVECTOR_ROTATE_LEFT i \<Rightarrow> True | _ \<Rightarrow> False)"

definition d_rotateLeftAmount :: "kind \<Rightarrow> nat" where
  [simp]: "d_rotateLeftAmount k = (case k of BITVECTOR_ROTATE_LEFT i \<Rightarrow> i | _ \<Rightarrow> 0)"

definition is_ROTATE_RIGHT :: "kind \<Rightarrow> bool" where
  "is_ROTATE_RIGHT k = (case k of BITVECTOR_ROTATE_RIGHT i \<Rightarrow> True | _ \<Rightarrow> False)"

definition d_rotateRightAmount :: "kind \<Rightarrow> nat" where
  [simp]: "d_rotateRightAmount k = (case k of BITVECTOR_ROTATE_RIGHT i \<Rightarrow> i | _ \<Rightarrow> 0)"

definition is_SIGN_EXTEND :: "kind \<Rightarrow> bool" where
  "is_SIGN_EXTEND k = (case k of BITVECTOR_SIGN_EXTEND i \<Rightarrow> True | _ \<Rightarrow> False)"

definition d_signExtendAmount :: "kind \<Rightarrow> nat" where
  [simp]: "d_signExtendAmount k = (case k of BITVECTOR_SIGN_EXTEND i \<Rightarrow> i | _ \<Rightarrow> 0)"

definition is_ZERO_EXTEND :: "kind \<Rightarrow> bool" where
  "is_ZERO_EXTEND k = (case k of BITVECTOR_ZERO_EXTEND i \<Rightarrow> True | _ \<Rightarrow> False)"

definition d_zeroExtendAmount :: "kind \<Rightarrow> nat" where
  [simp]: "d_zeroExtendAmount k = (case k of BITVECTOR_ZERO_EXTEND i \<Rightarrow> i | _ \<Rightarrow> 0)"

definition is_INT_TO_BITVECTOR :: "kind \<Rightarrow> bool" where
  "is_INT_TO_BITVECTOR k = (case k of INT_TO_BITVECTOR i \<Rightarrow> True | _ \<Rightarrow> False)"

definition d_intToBitVectorSize :: "kind \<Rightarrow> nat" where
  [simp]: "d_intToBitVectorSize k = (case k of INT_TO_BITVECTOR i \<Rightarrow> i | _ \<Rightarrow> 0)"

definition is_EXTRACT :: "kind \<Rightarrow> bool" where
  "is_EXTRACT k = (case k of BITVECTOR_EXTRACT high low \<Rightarrow> True | _ \<Rightarrow> False)"

definition d_high :: "kind \<Rightarrow> nat" where
  [simp]: "d_high k = (case k of BITVECTOR_EXTRACT high low \<Rightarrow> high | _ \<Rightarrow> 0)"

definition d_low :: "kind \<Rightarrow> nat" where
  [simp]: "d_low k = (case k of BITVECTOR_EXTRACT high low \<Rightarrow> low | _ \<Rightarrow> 0)"

datatype node =
    Var nat ntype
  | ConstBool bool
  | ConstInt int
  | ConstBV BitVector
  | App kind "node list"

fun getKind :: "node \<Rightarrow> kind" where
  "getKind (Var i T) = VARIABLE"
| "getKind (ConstBool b) = CONST_BOOLEAN"
| "getKind (ConstInt i) = CONST_RATIONAL"
| "getKind (ConstBV b) = CONST_BITVECTOR"
| "getKind (App k ts) = k"

definition isVar :: "node \<Rightarrow> bool" where
  "isVar n \<longleftrightarrow> getKind n = VARIABLE"

fun children :: "node \<Rightarrow> node list" where
  "children (App k ts) = ts"
| "children _ = []"

abbreviation child :: "node \<Rightarrow> nat \<Rightarrow> node" where
  "child n i \<equiv> children n ! i"

definition getNumChildren :: "node \<Rightarrow> nat" where
  [simp]: "getNumChildren n = length (children n)"

fun isConst :: "node \<Rightarrow> bool" where
  "isConst (ConstBool b) = True"
| "isConst (ConstInt i) = True"
| "isConst (ConstBV b) = True"
| "isConst _ = False"

text \<open>\<open>getConst<BitVector>\<close>, \<open>getConst<bool>\<close>: read the payload of a constant.\<close>

fun getConstBV :: "node \<Rightarrow> BitVector" where
  "getConstBV (ConstBV b) = b"
| "getConstBV _ = mkBitVector 0 0"

fun getConstBool :: "node \<Rightarrow> bool" where
  "getConstBool (ConstBool b) = b"
| "getConstBool _ = False"

subsection \<open>Type rules\<close>

text \<open>Each rule gets the types of the children, all computed with \<open>check = true\<close>.\<close>

definition mkBitVectorType :: "nat \<Rightarrow> ntype" where
  [simp]: "mkBitVectorType w = BitVectorType w"

definition BitVectorConstantTypeRule :: "BitVector \<Rightarrow> ntype option" where
  "BitVectorConstantTypeRule b = (if d_size b = 0 then None else Some (mkBitVectorType (d_size b)))"

definition BitVectorFixedWidthTypeRule :: "ntype list \<Rightarrow> ntype option" where
  "BitVectorFixedWidthTypeRule tys =
     (let t = hd tys
      in if \<not> isBitVector t then None
         else if \<exists>ty \<in> set (tl tys). ty \<noteq> t then None
         else Some t)"

definition BitVectorPredicateTypeRule :: "ntype list \<Rightarrow> ntype option" where
  "BitVectorPredicateTypeRule tys =
     (if \<not> isBitVector (tys ! 0) then None
      else if tys ! 0 \<noteq> tys ! 1 then None
      else Some BooleanType)"

definition BitVectorUnaryPredicateTypeRule :: "ntype list \<Rightarrow> ntype option" where
  "BitVectorUnaryPredicateTypeRule tys =
     (if \<not> isBitVector (tys ! 0) then None else Some BooleanType)"

definition BitVectorBVPredTypeRule :: "ntype list \<Rightarrow> ntype option" where
  "BitVectorBVPredTypeRule tys =
     (if \<not> isBitVector (tys ! 0) \<or> tys ! 0 \<noteq> tys ! 1 then None
      else Some (mkBitVectorType 1))"

definition BitVectorConcatTypeRule :: "ntype list \<Rightarrow> ntype option" where
  "BitVectorConcatTypeRule tys =
     (if \<exists>ty \<in> set tys. \<not> isBitVector ty then None
      else Some (mkBitVectorType (foldl (\<lambda>sz t. (sz + getBitVectorSize t) mod 2 ^ 32) 0 tys)))"

definition BitVectorITETypeRule :: "ntype list \<Rightarrow> ntype option" where
  "BitVectorITETypeRule tys =
     (if tys ! 0 \<noteq> mkBitVectorType 1 then None
      else if tys ! 1 \<noteq> tys ! 2 then None
      else Some (tys ! 1))"

definition BitVectorBitOfTypeRule :: "nat \<Rightarrow> ntype list \<Rightarrow> ntype option" where
  "BitVectorBitOfTypeRule i tys =
     (if \<not> isBitVector (tys ! 0) then None
      else if i \<ge> getBitVectorSize (tys ! 0) then None
      else Some BooleanType)"

definition BitVectorExtractTypeRule :: "nat \<Rightarrow> nat \<Rightarrow> ntype list \<Rightarrow> ntype option" where
  "BitVectorExtractTypeRule high low tys =
     (if high < low then None
      else if \<not> isBitVector (tys ! 0) then None
      else if high \<ge> getBitVectorSize (tys ! 0) then None
      else Some (mkBitVectorType (high - low + 1)))"

definition BitVectorRepeatTypeRule :: "nat \<Rightarrow> ntype list \<Rightarrow> ntype option" where
  "BitVectorRepeatTypeRule amount tys =
     (if \<not> isBitVector (tys ! 0) then None
      else if amount = 0 then None
      else Some (mkBitVectorType ((amount * getBitVectorSize (tys ! 0)) mod 2 ^ 32)))"

definition BitVectorExtendTypeRule :: "nat \<Rightarrow> ntype list \<Rightarrow> ntype option" where
  "BitVectorExtendTypeRule amount tys =
     (if \<not> isBitVector (tys ! 0) then None
      else Some (mkBitVectorType ((amount + getBitVectorSize (tys ! 0)) mod 2 ^ 32)))"

definition IntToBitVectorOpTypeRule :: "nat \<Rightarrow> bool" where
  "IntToBitVectorOpTypeRule bvSize \<longleftrightarrow> bvSize \<noteq> 0"

definition BitVectorConversionTypeRule :: "kind \<Rightarrow> ntype list \<Rightarrow> ntype option" where
  "BitVectorConversionTypeRule k tys =
     (if k = BITVECTOR_TO_NAT
      then (if \<not> isBitVector (tys ! 0) then None else Some IntegerType)
      else (if tys ! 0 \<noteq> IntegerType then None
            else Some (mkBitVectorType (d_intToBitVectorSize k))))"

definition BitVectorEagerAtomTypeRule :: "ntype list \<Rightarrow> ntype option" where
  "BitVectorEagerAtomTypeRule tys =
     (if tys ! 0 \<noteq> BooleanType then None else Some BooleanType)"

definition BooleanTypeRule :: "ntype list \<Rightarrow> ntype option" where
  "BooleanTypeRule tys =
     (if \<exists>ty \<in> set tys. ty \<noteq> BooleanType then None else Some BooleanType)"

text \<open>\<open>leastCommonTypeNode\<close> of two of the types modelled is their common value, if any.\<close>

definition leastCommonTypeNode :: "ntype \<Rightarrow> ntype \<Rightarrow> ntype option" where
  "leastCommonTypeNode s t = (if s = t then Some s else None)"

definition IteTypeRule :: "ntype list \<Rightarrow> ntype option" where
  "IteTypeRule tys =
     (let iteType = leastCommonTypeNode (tys ! 1) (tys ! 2)
      in if tys ! 0 \<noteq> BooleanType then None else iteType)"

definition EqualityTypeRule :: "ntype list \<Rightarrow> ntype option" where
  "EqualityTypeRule tys =
     (if leastCommonTypeNode (tys ! 0) (tys ! 1) = None then None else Some BooleanType)"

text \<open>The arithmetic operators that the conversions to and from integers build.\<close>

definition IntOperatorTypeRule :: "ntype \<Rightarrow> ntype list \<Rightarrow> ntype option" where
  "IntOperatorTypeRule T tys = (if \<exists>ty \<in> set tys. ty \<noteq> IntegerType then None else Some T)"

primrec computeType :: "kind \<Rightarrow> ntype list \<Rightarrow> ntype option" where
  "computeType VARIABLE tys = None"
| "computeType CONST_BOOLEAN tys = None"
| "computeType CONST_RATIONAL tys = None"
| "computeType CONST_BITVECTOR tys = None"
| "computeType EQUAL tys = EqualityTypeRule tys"
| "computeType NOT_K tys = BooleanTypeRule tys"
| "computeType AND_K tys = BooleanTypeRule tys"
| "computeType IMPLIES tys = BooleanTypeRule tys"
| "computeType OR_K tys = BooleanTypeRule tys"
| "computeType XOR_K tys = BooleanTypeRule tys"
| "computeType ITE tys = IteTypeRule tys"
| "computeType PLUS tys = IntOperatorTypeRule IntegerType tys"
| "computeType GEQ tys = IntOperatorTypeRule BooleanType tys"
| "computeType INTS_MODULUS_TOTAL tys = IntOperatorTypeRule IntegerType tys"
| "computeType BITVECTOR_CONCAT tys = BitVectorConcatTypeRule tys"
| "computeType BITVECTOR_AND tys = BitVectorFixedWidthTypeRule tys"
| "computeType BITVECTOR_COMP tys = BitVectorBVPredTypeRule tys"
| "computeType BITVECTOR_OR tys = BitVectorFixedWidthTypeRule tys"
| "computeType BITVECTOR_XOR tys = BitVectorFixedWidthTypeRule tys"
| "computeType BITVECTOR_NOT tys = BitVectorFixedWidthTypeRule tys"
| "computeType BITVECTOR_NAND tys = BitVectorFixedWidthTypeRule tys"
| "computeType BITVECTOR_NOR tys = BitVectorFixedWidthTypeRule tys"
| "computeType BITVECTOR_XNOR tys = BitVectorFixedWidthTypeRule tys"
| "computeType BITVECTOR_MULT tys = BitVectorFixedWidthTypeRule tys"
| "computeType BITVECTOR_NEG tys = BitVectorFixedWidthTypeRule tys"
| "computeType BITVECTOR_PLUS tys = BitVectorFixedWidthTypeRule tys"
| "computeType BITVECTOR_SUB tys = BitVectorFixedWidthTypeRule tys"
| "computeType BITVECTOR_UDIV tys = BitVectorFixedWidthTypeRule tys"
| "computeType BITVECTOR_UREM tys = BitVectorFixedWidthTypeRule tys"
| "computeType BITVECTOR_SDIV tys = BitVectorFixedWidthTypeRule tys"
| "computeType BITVECTOR_SMOD tys = BitVectorFixedWidthTypeRule tys"
| "computeType BITVECTOR_SREM tys = BitVectorFixedWidthTypeRule tys"
| "computeType BITVECTOR_UDIV_TOTAL tys = BitVectorFixedWidthTypeRule tys"
| "computeType BITVECTOR_UREM_TOTAL tys = BitVectorFixedWidthTypeRule tys"
| "computeType BITVECTOR_ASHR tys = BitVectorFixedWidthTypeRule tys"
| "computeType BITVECTOR_LSHR tys = BitVectorFixedWidthTypeRule tys"
| "computeType BITVECTOR_SHL tys = BitVectorFixedWidthTypeRule tys"
| "computeType BITVECTOR_ULE tys = BitVectorPredicateTypeRule tys"
| "computeType BITVECTOR_ULT tys = BitVectorPredicateTypeRule tys"
| "computeType BITVECTOR_UGE tys = BitVectorPredicateTypeRule tys"
| "computeType BITVECTOR_UGT tys = BitVectorPredicateTypeRule tys"
| "computeType BITVECTOR_SLE tys = BitVectorPredicateTypeRule tys"
| "computeType BITVECTOR_SLT tys = BitVectorPredicateTypeRule tys"
| "computeType BITVECTOR_SGE tys = BitVectorPredicateTypeRule tys"
| "computeType BITVECTOR_SGT tys = BitVectorPredicateTypeRule tys"
| "computeType BITVECTOR_ULTBV tys = BitVectorBVPredTypeRule tys"
| "computeType BITVECTOR_SLTBV tys = BitVectorBVPredTypeRule tys"
| "computeType BITVECTOR_REDAND tys = BitVectorUnaryPredicateTypeRule tys"
| "computeType BITVECTOR_REDOR tys = BitVectorUnaryPredicateTypeRule tys"
| "computeType BITVECTOR_ITE tys = BitVectorITETypeRule tys"
| "computeType BITVECTOR_TO_NAT tys = BitVectorConversionTypeRule BITVECTOR_TO_NAT tys"
| "computeType BITVECTOR_EAGER_ATOM tys = BitVectorEagerAtomTypeRule tys"
| "computeType (BITVECTOR_BITOF i) tys = BitVectorBitOfTypeRule i tys"
| "computeType (BITVECTOR_EXTRACT high low) tys = BitVectorExtractTypeRule high low tys"
| "computeType (BITVECTOR_REPEAT n) tys = BitVectorRepeatTypeRule n tys"
| "computeType (BITVECTOR_ROTATE_LEFT n) tys = BitVectorFixedWidthTypeRule tys"
| "computeType (BITVECTOR_ROTATE_RIGHT n) tys = BitVectorFixedWidthTypeRule tys"
| "computeType (BITVECTOR_SIGN_EXTEND n) tys = BitVectorExtendTypeRule n tys"
| "computeType (BITVECTOR_ZERO_EXTEND n) tys = BitVectorExtendTypeRule n tys"
| "computeType (INT_TO_BITVECTOR n) tys =
     (if IntToBitVectorOpTypeRule n then BitVectorConversionTypeRule (INT_TO_BITVECTOR n) tys else None)"

text \<open>
  The number of children that the \<open>kinds\<close> files declare; \<open>2:\<close> there is two or more.
\<close>

primrec arity_ok :: "kind \<Rightarrow> nat \<Rightarrow> bool" where
  "arity_ok VARIABLE c \<longleftrightarrow> c = 0"
| "arity_ok CONST_BOOLEAN c \<longleftrightarrow> c = 0"
| "arity_ok CONST_RATIONAL c \<longleftrightarrow> c = 0"
| "arity_ok CONST_BITVECTOR c \<longleftrightarrow> c = 0"
| "arity_ok EQUAL c \<longleftrightarrow> c = 2"
| "arity_ok NOT_K c \<longleftrightarrow> c = 1"
| "arity_ok AND_K c \<longleftrightarrow> 2 \<le> c"
| "arity_ok IMPLIES c \<longleftrightarrow> c = 2"
| "arity_ok OR_K c \<longleftrightarrow> 2 \<le> c"
| "arity_ok XOR_K c \<longleftrightarrow> c = 2"
| "arity_ok ITE c \<longleftrightarrow> c = 3"
| "arity_ok PLUS c \<longleftrightarrow> 2 \<le> c"
| "arity_ok GEQ c \<longleftrightarrow> c = 2"
| "arity_ok INTS_MODULUS_TOTAL c \<longleftrightarrow> c = 2"
| "arity_ok BITVECTOR_CONCAT c \<longleftrightarrow> 2 \<le> c"
| "arity_ok BITVECTOR_AND c \<longleftrightarrow> 2 \<le> c"
| "arity_ok BITVECTOR_COMP c \<longleftrightarrow> c = 2"
| "arity_ok BITVECTOR_OR c \<longleftrightarrow> 2 \<le> c"
| "arity_ok BITVECTOR_XOR c \<longleftrightarrow> 2 \<le> c"
| "arity_ok BITVECTOR_NOT c \<longleftrightarrow> c = 1"
| "arity_ok BITVECTOR_NAND c \<longleftrightarrow> c = 2"
| "arity_ok BITVECTOR_NOR c \<longleftrightarrow> c = 2"
| "arity_ok BITVECTOR_XNOR c \<longleftrightarrow> c = 2"
| "arity_ok BITVECTOR_MULT c \<longleftrightarrow> 2 \<le> c"
| "arity_ok BITVECTOR_NEG c \<longleftrightarrow> c = 1"
| "arity_ok BITVECTOR_PLUS c \<longleftrightarrow> 2 \<le> c"
| "arity_ok BITVECTOR_SUB c \<longleftrightarrow> c = 2"
| "arity_ok BITVECTOR_UDIV c \<longleftrightarrow> c = 2"
| "arity_ok BITVECTOR_UREM c \<longleftrightarrow> c = 2"
| "arity_ok BITVECTOR_SDIV c \<longleftrightarrow> c = 2"
| "arity_ok BITVECTOR_SMOD c \<longleftrightarrow> c = 2"
| "arity_ok BITVECTOR_SREM c \<longleftrightarrow> c = 2"
| "arity_ok BITVECTOR_UDIV_TOTAL c \<longleftrightarrow> c = 2"
| "arity_ok BITVECTOR_UREM_TOTAL c \<longleftrightarrow> c = 2"
| "arity_ok BITVECTOR_ASHR c \<longleftrightarrow> c = 2"
| "arity_ok BITVECTOR_LSHR c \<longleftrightarrow> c = 2"
| "arity_ok BITVECTOR_SHL c \<longleftrightarrow> c = 2"
| "arity_ok BITVECTOR_ULE c \<longleftrightarrow> c = 2"
| "arity_ok BITVECTOR_ULT c \<longleftrightarrow> c = 2"
| "arity_ok BITVECTOR_UGE c \<longleftrightarrow> c = 2"
| "arity_ok BITVECTOR_UGT c \<longleftrightarrow> c = 2"
| "arity_ok BITVECTOR_SLE c \<longleftrightarrow> c = 2"
| "arity_ok BITVECTOR_SLT c \<longleftrightarrow> c = 2"
| "arity_ok BITVECTOR_SGE c \<longleftrightarrow> c = 2"
| "arity_ok BITVECTOR_SGT c \<longleftrightarrow> c = 2"
| "arity_ok BITVECTOR_ULTBV c \<longleftrightarrow> c = 2"
| "arity_ok BITVECTOR_SLTBV c \<longleftrightarrow> c = 2"
| "arity_ok BITVECTOR_REDAND c \<longleftrightarrow> c = 1"
| "arity_ok BITVECTOR_REDOR c \<longleftrightarrow> c = 1"
| "arity_ok BITVECTOR_ITE c \<longleftrightarrow> c = 3"
| "arity_ok BITVECTOR_TO_NAT c \<longleftrightarrow> c = 1"
| "arity_ok BITVECTOR_EAGER_ATOM c \<longleftrightarrow> c = 1"
| "arity_ok (BITVECTOR_BITOF i) c \<longleftrightarrow> c = 1"
| "arity_ok (BITVECTOR_EXTRACT high low) c \<longleftrightarrow> c = 1"
| "arity_ok (BITVECTOR_REPEAT n) c \<longleftrightarrow> c = 1"
| "arity_ok (BITVECTOR_ROTATE_LEFT n) c \<longleftrightarrow> c = 1"
| "arity_ok (BITVECTOR_ROTATE_RIGHT n) c \<longleftrightarrow> c = 1"
| "arity_ok (BITVECTOR_SIGN_EXTEND n) c \<longleftrightarrow> c = 1"
| "arity_ok (BITVECTOR_ZERO_EXTEND n) c \<longleftrightarrow> c = 1"
| "arity_ok (INT_TO_BITVECTOR n) c \<longleftrightarrow> c = 1"

text \<open>The exact width of the result is representable as an \<open>int\<close>.\<close>

definition width_fits :: "kind \<Rightarrow> ntype list \<Rightarrow> bool" where
  "width_fits k tys \<longleftrightarrow>
     (case k of
        BITVECTOR_CONCAT \<Rightarrow> sum_list (map getBitVectorSize tys) < 2 ^ 31
      | BITVECTOR_REPEAT n \<Rightarrow> n * getBitVectorSize (hd tys) < 2 ^ 31
      | BITVECTOR_SIGN_EXTEND n \<Rightarrow> n + getBitVectorSize (hd tys) < 2 ^ 31
      | BITVECTOR_ZERO_EXTEND n \<Rightarrow> n + getBitVectorSize (hd tys) < 2 ^ 31
      | INT_TO_BITVECTOR n \<Rightarrow> n < 2 ^ 31
      | _ \<Rightarrow> True)"

fun type_ok :: "ntype \<Rightarrow> bool" where
  "type_ok (BitVectorType w) \<longleftrightarrow> 0 < w \<and> w < 2 ^ 31"
| "type_ok _ \<longleftrightarrow> True"

primrec typeOf :: "node \<Rightarrow> ntype option" where
  "typeOf (Var i T) = (if type_ok T then Some T else None)"
| "typeOf (ConstBool b) = Some BooleanType"
| "typeOf (ConstInt i) = Some IntegerType"
| "typeOf (ConstBV b) = (if bv_ok b \<and> d_size b < 2 ^ 31 then BitVectorConstantTypeRule b else None)"
| "typeOf (App k ts) =
     (case those (map typeOf ts) of
        None \<Rightarrow> None
      | Some tys \<Rightarrow>
          if arity_ok k (length ts) \<and> width_fits k tys then computeType k tys else None)"

end
