(* ===== verification/Typing.thy ===== *)
theory Typing
  imports Nodes
begin

section \<open>Inversion of the type rules\<close>

text \<open>
  What a typed node looks like: one equivalence per kind of node, used by the simplifier in
  both directions. \<open>typeOf_1\<close>, \<open>typeOf_2\<close>, \<open>typeOf_3\<close> hold of the kinds of that arity,
  \<open>typeOf_nary\<close> and \<open>typeOf_concat\<close> of those with two or more children.
\<close>

text \<open>The tests for the indexed kinds.\<close>

lemma is_kind_iff [simp]:
  "is_BITOF k \<longleftrightarrow> (\<exists>i. k = BITVECTOR_BITOF i)"
  "is_EXTRACT k \<longleftrightarrow> (\<exists>high low. k = BITVECTOR_EXTRACT high low)"
  "is_REPEAT k \<longleftrightarrow> (\<exists>i. k = BITVECTOR_REPEAT i)"
  "is_ROTATE_LEFT k \<longleftrightarrow> (\<exists>i. k = BITVECTOR_ROTATE_LEFT i)"
  "is_ROTATE_RIGHT k \<longleftrightarrow> (\<exists>i. k = BITVECTOR_ROTATE_RIGHT i)"
  "is_SIGN_EXTEND k \<longleftrightarrow> (\<exists>i. k = BITVECTOR_SIGN_EXTEND i)"
  "is_ZERO_EXTEND k \<longleftrightarrow> (\<exists>i. k = BITVECTOR_ZERO_EXTEND i)"
  "is_INT_TO_BITVECTOR k \<longleftrightarrow> (\<exists>i. k = INT_TO_BITVECTOR i)"
  by (simp_all add: is_BITOF_def is_EXTRACT_def is_REPEAT_def is_ROTATE_LEFT_def is_ROTATE_RIGHT_def
    is_SIGN_EXTEND_def is_ZERO_EXTEND_def is_INT_TO_BITVECTOR_def split: kind.split)

lemma those_map_Some [simp]: "those (map Some ys) = Some ys"
  by (induction ys) simp_all

lemma those_eq_Some: "those xs = Some ys \<longleftrightarrow> xs = map Some ys"
proof
  show "those xs = Some ys \<Longrightarrow> xs = map Some ys"
    by (induction xs arbitrary: ys) (auto split: option.splits)
qed simp

lemma typeOf_App: "typeOf (App k ts) = Some T \<longleftrightarrow>
  arity_ok k (length ts) \<and> (\<exists>tys. map typeOf ts = map Some tys \<and> width_fits k tys \<and> computeType k tys = Some T)"
  by (auto simp: those_eq_Some split: option.splits if_splits)

declare typeOf.simps(5) [simp del]
declare width_fits_def [simp]

lemma isBitVector_iff: "isBitVector T \<longleftrightarrow> (\<exists>w. T = BitVectorType w)"
  by (cases T) auto

lemma arity_exact: "arity_ok k m \<Longrightarrow> \<not> arity_ok k (Suc m) \<Longrightarrow> arity_ok k n \<longleftrightarrow> n = m"
  by (cases k) simp_all

lemma typeOf_1 [simp]: "arity_ok k 1 \<Longrightarrow> \<not> arity_ok k 2 \<Longrightarrow> typeOf (App k ts) = Some T \<longleftrightarrow>
  (\<exists>a A. ts = [a] \<and> typeOf a = Some A \<and> width_fits k [A] \<and> computeType k [A] = Some T)"
  unfolding typeOf_App using arity_exact [of k 1 "length ts"]
  by (auto simp: length_Suc_conv numeral_2_eq_2 Cons_eq_map_conv simp del: width_fits_def) 

lemma typeOf_2 [simp]: "arity_ok k 2 \<Longrightarrow> \<not> arity_ok k 3 \<Longrightarrow> typeOf (App k ts) = Some T \<longleftrightarrow>
  (\<exists>a b A B. ts = [a, b] \<and> typeOf a = Some A \<and> typeOf b = Some B \<and> width_fits k [A, B] \<and> computeType k [A, B] = Some T)"
  unfolding typeOf_App using arity_exact [of k 2 "length ts"]
  by (auto simp: length_Suc_conv numeral_eq_Suc Cons_eq_map_conv simp del: width_fits_def) 

lemma typeOf_3 [simp]: "arity_ok k 3 \<Longrightarrow> \<not> arity_ok k 2 \<Longrightarrow> typeOf (App k ts) = Some T \<longleftrightarrow>
  (\<exists>a b c A B C. ts = [a, b, c] \<and> typeOf a = Some A \<and> typeOf b = Some B \<and> typeOf c = Some C \<and>
    width_fits k [A, B, C] \<and> computeType k [A, B, C] = Some T)"
proof -
  assume "arity_ok k 3" "\<not> arity_ok k 2"
  then have "arity_ok k (length ts) \<longleftrightarrow> length ts = 3" by (cases k) simp_all
  then show ?thesis unfolding typeOf_App
   by (auto simp: length_Suc_conv numeral_eq_Suc Cons_eq_map_conv simp del: width_fits_def)
qed

lemma rules_fixed [simp]:
  "BitVectorFixedWidthTypeRule [A] = Some T \<longleftrightarrow> isBitVector T \<and> A = T"
  "BitVectorFixedWidthTypeRule [A, B] = Some T \<longleftrightarrow> isBitVector T \<and> A = T \<and> B = T"
  by (auto simp: BitVectorFixedWidthTypeRule_def)

lemma rules_pred [simp]:
  "BitVectorPredicateTypeRule [A, B] = Some T \<longleftrightarrow> T = BooleanType \<and> isBitVector A \<and> B = A"
  "BitVectorUnaryPredicateTypeRule [A] = Some T \<longleftrightarrow> T = BooleanType \<and> isBitVector A"
  "BitVectorBVPredTypeRule [A, B] = Some T \<longleftrightarrow> T = BitVectorType 1 \<and> isBitVector A \<and> B = A"
  "BitVectorITETypeRule [A, B, C] = Some T \<longleftrightarrow> A = BitVectorType 1 \<and> B = T \<and> C = T"
  "BitVectorEagerAtomTypeRule [A] = Some T \<longleftrightarrow> T = BooleanType \<and> A = BooleanType"
  by (auto simp: BitVectorPredicateTypeRule_def BitVectorUnaryPredicateTypeRule_def
      BitVectorBVPredTypeRule_def BitVectorITETypeRule_def BitVectorEagerAtomTypeRule_def)

lemma rules_indexed [simp]:
  "BitVectorBitOfTypeRule i [A] = Some T \<longleftrightarrow> T = BooleanType \<and> (\<exists>w. A = BitVectorType w \<and> i < w)"
  "BitVectorExtractTypeRule high low [A] = Some T \<longleftrightarrow>
     low \<le> high \<and> T = BitVectorType (high - low + 1) \<and> (\<exists>w. A = BitVectorType w \<and> high < w)"
  "i * getBitVectorSize A < 2147483648 \<Longrightarrow> BitVectorRepeatTypeRule i [A] = Some T \<longleftrightarrow>
     0 < i \<and> (\<exists>w. A = BitVectorType w \<and> T = BitVectorType (i * w))"
  "i + getBitVectorSize A < 2147483648 \<Longrightarrow> BitVectorExtendTypeRule i [A] = Some T \<longleftrightarrow>
     (\<exists>w. A = BitVectorType w \<and> T = BitVectorType (i + w))"
  by (auto simp: BitVectorBitOfTypeRule_def BitVectorExtractTypeRule_def BitVectorRepeatTypeRule_def
     BitVectorExtendTypeRule_def isBitVector_iff)

lemma rules_conversion [simp]:
  "BitVectorConversionTypeRule BITVECTOR_TO_NAT [A] = Some T \<longleftrightarrow> T = IntegerType \<and> isBitVector A"
  "BitVectorConversionTypeRule (INT_TO_BITVECTOR n) [A] = Some T \<longleftrightarrow> A = IntegerType \<and> T = BitVectorType n"
  "IntToBitVectorOpTypeRule n \<longleftrightarrow> 0 < n"
  by (auto simp: BitVectorConversionTypeRule_def IntToBitVectorOpTypeRule_def)

lemma rules_core [simp]:
  "BooleanTypeRule tys = Some T \<longleftrightarrow> T = BooleanType \<and> (\<forall>ty\<in>set tys. ty = BooleanType)"
  "IntOperatorTypeRule S tys = Some T \<longleftrightarrow> T = S \<and> (\<forall>ty\<in>set tys. ty = IntegerType)"
  "IteTypeRule [A, B, C] = Some T \<longleftrightarrow> A = BooleanType \<and> B = T \<and> C = T"
  "EqualityTypeRule [A, B] = Some T \<longleftrightarrow> T = BooleanType \<and> B = A"
  by (auto simp: BooleanTypeRule_def IntOperatorTypeRule_def IteTypeRule_def EqualityTypeRule_def
     leastCommonTypeNode_def)

lemma map_Some_all: "(\<exists>tys. map f ts = map Some tys \<and> (\<forall>ty\<in>set tys. ty = T)) \<longleftrightarrow> (\<forall>t\<in>set ts. f t = Some T)"
proof (induction ts)
  case (Cons t ts)
  then show ?case by (auto simp: Cons_eq_map_conv)
qed simp

lemma FixedWidth_iff:
  "tys \<noteq> [] \<Longrightarrow> BitVectorFixedWidthTypeRule tys = Some T \<longleftrightarrow> isBitVector T \<and> (\<forall>ty\<in>set tys. ty = T)"
  by (cases tys) (auto simp: BitVectorFixedWidthTypeRule_def)

lemma typeOf_nary_fixed:
  assumes "arity_ok k 3" "arity_ok k 2" "\<And>tys. computeType k tys = BitVectorFixedWidthTypeRule tys" "k \<noteq> BITVECTOR_CONCAT"
  shows "typeOf (App k ts) = Some T \<longleftrightarrow> 2 \<le> length ts \<and> isBitVector T \<and> (\<forall>t\<in>set ts. typeOf t = Some T)"
proof -
  have k: "arity_ok k n \<longleftrightarrow> 2 \<le> n" for n
    using assms(1,2) by (cases k) simp_all
  have w: "width_fits k tys" for tys
    using assms(1,2,4) by (cases k) simp_all
  have ne: "map typeOf ts = map Some tys \<Longrightarrow> 2 \<le> length ts \<Longrightarrow> tys \<noteq> []" for tys
    by auto
  show ?thesis
    unfolding typeOf_App k assms(3) map_Some_all [of typeOf, symmetric]
    using ne FixedWidth_iff w by blast
qed

lemma typeOf_leaf_kind [simp]:
  "typeOf (App VARIABLE ts) \<noteq> Some T" "typeOf (App CONST_BOOLEAN ts) \<noteq> Some T"
  "typeOf (App CONST_RATIONAL ts) \<noteq> Some T" "typeOf (App CONST_BITVECTOR ts) \<noteq> Some T"
  unfolding typeOf_App by simp_all

lemma typeOf_nary [simp]:
  "typeOf (App AND_K ts) = Some T \<longleftrightarrow> 2 \<le> length ts \<and> T = BooleanType \<and> (\<forall>t\<in>set ts. typeOf t = Some T)"
  "typeOf (App OR_K ts) = Some T \<longleftrightarrow> 2 \<le> length ts \<and> T = BooleanType \<and> (\<forall>t\<in>set ts. typeOf t = Some T)"
  "typeOf (App PLUS ts) = Some T \<longleftrightarrow> 2 \<le> length ts \<and> T = IntegerType \<and> (\<forall>t\<in>set ts. typeOf t = Some T)"
  unfolding typeOf_App by (auto simp flip: map_Some_all [of typeOf])

lemmas typeOf_nary_BV [simp] =
  typeOf_nary_fixed [of BITVECTOR_AND, simplified]
  typeOf_nary_fixed [of BITVECTOR_OR, simplified]
  typeOf_nary_fixed [of BITVECTOR_XOR, simplified]
  typeOf_nary_fixed [of BITVECTOR_PLUS, simplified]
  typeOf_nary_fixed [of BITVECTOR_MULT, simplified]

text \<open>The wrapped sum of the widths is the sum, where it fits.\<close>

lemma foldl_width: "foldl (\<lambda>sz t. (sz + getBitVectorSize t) mod 2 ^ 32) (s mod 2 ^ 32) tys =
  (s + sum_list (map getBitVectorSize tys)) mod 2 ^ 32"
proof (induction tys arbitrary: s)
  case (Cons t ts)
  have "(s mod 2 ^ 32 + getBitVectorSize t) mod 2 ^ 32 = (s + getBitVectorSize t) mod 2 ^ 32"
    by (simp only: mod_add_left_eq)
  with Cons [of "s + getBitVectorSize t"] show ?case by (simp add: add.assoc)
qed simp

definition getSize :: "node \<Rightarrow> nat" where
  "getSize n = (case typeOf n of Some T \<Rightarrow> getBitVectorSize T | None \<Rightarrow> 0)"

definition is_bv :: "node \<Rightarrow> bool" where
  "is_bv n \<longleftrightarrow> (\<exists>w. typeOf n = Some (BitVectorType w))"

lemma getSize_typed [simp]: "typeOf n = Some T \<Longrightarrow> getSize n = getBitVectorSize T"
  by (simp add: getSize_def)

lemma is_bv_simp [simp]: "typeOf n = Some T \<Longrightarrow> is_bv n = isBitVector T"
  by (auto simp: is_bv_def isBitVector_iff)

lemma concat_types: "(\<exists>tys. map typeOf ts = map Some tys \<and> (\<forall>ty\<in>set tys. isBitVector ty) \<and>
     P (sum_list (map getBitVectorSize tys))) \<longleftrightarrow>
  (\<forall>t\<in>set ts. is_bv t) \<and> P (sum_list (map getSize ts))"
proof (induction ts arbitrary: P)
  case (Cons t ts)
  show ?case
    using Cons [of "\<lambda>s. P (getSize t + s)"]
    by (cases "typeOf t") (auto simp: Cons_eq_map_conv is_bv_def isBitVector_iff)
qed simp

lemma typeOf_concat [simp]: "typeOf (App BITVECTOR_CONCAT ts) = Some T \<longleftrightarrow>
  2 \<le> length ts \<and> (\<forall>t\<in>set ts. is_bv t) \<and> sum_list (map getSize ts) < 2 ^ 31 \<and>
  T = BitVectorType (sum_list (map getSize ts))"
proof -
  have "BitVectorConcatTypeRule tys = Some T \<longleftrightarrow> (\<forall>ty\<in>set tys. isBitVector ty) \<and>
      T = BitVectorType (sum_list (map getBitVectorSize tys))"
    if "sum_list (map getBitVectorSize tys) < 2 ^ 31" for tys
    using foldl_width [of 0 tys] that by (auto simp: BitVectorConcatTypeRule_def)
  then have "typeOf (App BITVECTOR_CONCAT ts) = Some T \<longleftrightarrow> 2 \<le> length ts \<and> (\<exists>tys. map typeOf ts = map Some tys \<and>
     (\<forall>ty\<in>set tys. isBitVector ty) \<and> (\<lambda>s. s < 2 ^ 31 \<and> T = BitVectorType s) (sum_list (map getBitVectorSize tys)))"
    unfolding typeOf_App by (simp cong: conj_cong) blast
  then show ?thesis using concat_types [of ts "\<lambda>s. s < 2 ^ 31 \<and> T = BitVectorType s"] by simp
qed
end
