(* ===== verification/Semantics.thy ===== *)
theory Semantics
  imports Typing
begin

section \<open>The meaning of nodes\<close>

text \<open>
  The reference that the rewriter and the bit-blaster are checked against. A value is a truth
  value, an integer or a bit-vector with its width; \<open>op_value\<close> gives each kind its SMT-LIB
  meaning through the formulas of \<open>BV_Ops\<close>, \<open>eval\<close> the value of a node under a valuation
  of the variables. \<open>BITVECTOR_UDIV\<close> and \<open>BITVECTOR_UREM\<close> get the value SMT-LIB 2.6 fixes
  for a zero divisor, that of the total operators. \<open>eval_typed\<close> is type soundness: a typed
  node has a value of its type, within its width.
\<close>

unbundle bit_operations_syntax

subsection \<open>Values\<close>

datatype val = VBool bool | VInt int | VBV nat int

fun truth :: "val \<Rightarrow> bool" where
  "truth (VBool b) = b" | "truth _ = False"

fun wd :: "val \<Rightarrow> nat" where
  "wd (VBV w x) = w" | "wd _ = 0"

fun num :: "val \<Rightarrow> int" where
  "num (VBV w x) = x" | "num (VInt i) = i" | "num (VBool b) = 0"

fun has_type :: "val \<Rightarrow> ntype \<Rightarrow> bool" where
  "has_type (VBool b) BooleanType \<longleftrightarrow> True"
| "has_type (VInt i) IntegerType \<longleftrightarrow> True"
| "has_type (VBV v x) (BitVectorType w) \<longleftrightarrow> v = w \<and> 0 \<le> x \<and> x < 2 ^ w"
| "has_type _ _ \<longleftrightarrow> False"

subsection \<open>Operators on values\<close>

definition bv1 :: "(nat \<Rightarrow> int \<Rightarrow> int) \<Rightarrow> val list \<Rightarrow> val" where
  "bv1 f vs = VBV (wd (vs ! 0)) (f (wd (vs ! 0)) (num (vs ! 0)))"

definition bv2 :: "(nat \<Rightarrow> int \<Rightarrow> int \<Rightarrow> int) \<Rightarrow> val list \<Rightarrow> val" where
  "bv2 f vs = VBV (wd (vs ! 0)) (f (wd (vs ! 0)) (num (vs ! 0)) (num (vs ! 1)))"

definition pred2 :: "(nat \<Rightarrow> int \<Rightarrow> int \<Rightarrow> bool) \<Rightarrow> val list \<Rightarrow> bool" where
  "pred2 p vs = p (wd (vs ! 0)) (num (vs ! 0)) (num (vs ! 1))"

definition bvn :: "(int \<Rightarrow> int \<Rightarrow> int) \<Rightarrow> int \<Rightarrow> val list \<Rightarrow> val" where
  "bvn f z vs = VBV (wd (vs ! 0)) (take_bit (wd (vs ! 0)) (foldr f (map num vs) z))"

fun cat_value :: "val list \<Rightarrow> int" where
  "cat_value [] = 0"
| "cat_value (v # vs) = sem_concat (num v) (sum_list (map wd vs)) (cat_value vs)"

definition sem_bv :: "(nat \<Rightarrow> int \<Rightarrow> int \<Rightarrow> bool) \<Rightarrow> val list \<Rightarrow> val" where
  "sem_bv p vs = VBV 1 (of_bool (pred2 p vs))"

primrec op_value :: "kind \<Rightarrow> val list \<Rightarrow> val" where
  "op_value VARIABLE vs = VBool False"
| "op_value CONST_BOOLEAN vs = VBool False"
| "op_value CONST_RATIONAL vs = VBool False"
| "op_value CONST_BITVECTOR vs = VBool False"
| "op_value EQUAL vs = VBool (vs ! 0 = vs ! 1)"
| "op_value NOT_K vs = VBool (\<not> truth (vs ! 0))"
| "op_value AND_K vs = VBool (\<forall>v \<in> set vs. truth v)"
| "op_value IMPLIES vs = VBool (truth (vs ! 0) \<longrightarrow> truth (vs ! 1))"
| "op_value OR_K vs = VBool (\<exists>v \<in> set vs. truth v)"
| "op_value XOR_K vs = VBool (truth (vs ! 0) \<noteq> truth (vs ! 1))"
| "op_value ITE vs = (if truth (vs ! 0) then vs ! 1 else vs ! 2)"
| "op_value PLUS vs = VInt (sum_list (map num vs))"
| "op_value GEQ vs = VBool (num (vs ! 0) \<ge> num (vs ! 1))"
| "op_value INTS_MODULUS_TOTAL vs =
     VInt (if num (vs ! 1) = 0 then 0 else num (vs ! 0) mod \<bar>num (vs ! 1)\<bar>)"
| "op_value BITVECTOR_CONCAT vs = VBV (sum_list (map wd vs)) (cat_value vs)"
| "op_value BITVECTOR_AND vs = bvn (AND) (- 1) vs"
| "op_value BITVECTOR_COMP vs = sem_bv (\<lambda>w x y. x = y) vs"
| "op_value BITVECTOR_OR vs = bvn (OR) 0 vs"
| "op_value BITVECTOR_XOR vs = bvn (XOR) 0 vs"
| "op_value BITVECTOR_NOT vs = bv1 sem_not vs"
| "op_value BITVECTOR_NAND vs = bv2 (\<lambda>w x y. sem_not w (x AND y)) vs"
| "op_value BITVECTOR_NOR vs = bv2 (\<lambda>w x y. sem_not w (x OR y)) vs"
| "op_value BITVECTOR_XNOR vs = bv2 (\<lambda>w x y. sem_not w (x XOR y)) vs"
| "op_value BITVECTOR_MULT vs = bvn (*) 1 vs"
| "op_value BITVECTOR_NEG vs = bv1 sem_neg vs"
| "op_value BITVECTOR_PLUS vs = bvn (+) 0 vs"
| "op_value BITVECTOR_SUB vs = bv2 sem_sub vs"
| "op_value BITVECTOR_UDIV vs = bv2 sem_udiv vs"
| "op_value BITVECTOR_UREM vs = bv2 sem_urem vs"
| "op_value BITVECTOR_SDIV vs = bv2 sem_sdiv vs"
| "op_value BITVECTOR_SMOD vs = bv2 sem_smod vs"
| "op_value BITVECTOR_SREM vs = bv2 sem_srem vs"
| "op_value BITVECTOR_UDIV_TOTAL vs = bv2 sem_udiv vs"
| "op_value BITVECTOR_UREM_TOTAL vs = bv2 sem_urem vs"
| "op_value BITVECTOR_ASHR vs = bv2 sem_ashr vs"
| "op_value BITVECTOR_LSHR vs = bv2 sem_lshr vs"
| "op_value BITVECTOR_SHL vs = bv2 sem_shl vs"
| "op_value BITVECTOR_ULE vs = VBool (pred2 (\<lambda>w x y. x \<le> y) vs)"
| "op_value BITVECTOR_ULT vs = VBool (pred2 (\<lambda>w x y. x < y) vs)"
| "op_value BITVECTOR_UGE vs = VBool (pred2 (\<lambda>w x y. x \<ge> y) vs)"
| "op_value BITVECTOR_UGT vs = VBool (pred2 (\<lambda>w x y. x > y) vs)"
| "op_value BITVECTOR_SLE vs = VBool (pred2 sem_sle vs)"
| "op_value BITVECTOR_SLT vs = VBool (pred2 sem_slt vs)"
| "op_value BITVECTOR_SGE vs = VBool (pred2 (\<lambda>w x y. sem_sle w y x) vs)"
| "op_value BITVECTOR_SGT vs = VBool (pred2 (\<lambda>w x y. sem_slt w y x) vs)"
| "op_value BITVECTOR_ULTBV vs = sem_bv (\<lambda>w x y. x < y) vs"
| "op_value BITVECTOR_SLTBV vs = sem_bv sem_slt vs"
| "op_value BITVECTOR_REDAND vs = VBool (num (vs ! 0) = mask (wd (vs ! 0)))"
| "op_value BITVECTOR_REDOR vs = VBool (num (vs ! 0) \<noteq> 0)"
| "op_value BITVECTOR_ITE vs = (if num (vs ! 0) = 1 then vs ! 1 else vs ! 2)"
| "op_value BITVECTOR_TO_NAT vs = VInt (num (vs ! 0))"
| "op_value BITVECTOR_EAGER_ATOM vs = VBool (truth (vs ! 0))"
| "op_value (BITVECTOR_BITOF i) vs = VBool (bit (num (vs ! 0)) i)"
| "op_value (BITVECTOR_EXTRACT high low) vs =
     VBV (high - low + 1) (sem_extract high low (num (vs ! 0)))"
| "op_value (BITVECTOR_REPEAT n) vs =
     VBV (n * wd (vs ! 0)) (cat_value (replicate n (vs ! 0)))"
| "op_value (BITVECTOR_ROTATE_LEFT n) vs = bv1 (\<lambda>w. sem_rotl w n) vs"
| "op_value (BITVECTOR_ROTATE_RIGHT n) vs = bv1 (\<lambda>w. sem_rotr w n) vs"
| "op_value (BITVECTOR_SIGN_EXTEND n) vs =
     VBV (n + wd (vs ! 0)) (sem_sign_extend (wd (vs ! 0)) n (num (vs ! 0)))"
| "op_value (BITVECTOR_ZERO_EXTEND n) vs = VBV (n + wd (vs ! 0)) (num (vs ! 0))"
| "op_value (INT_TO_BITVECTOR n) vs = VBV n (take_bit n (num (vs ! 0)))"

type_synonym valuation = "nat \<Rightarrow> ntype \<Rightarrow> val"

definition val_ok :: "valuation \<Rightarrow> bool" where
  "val_ok \<sigma> \<longleftrightarrow> (\<forall>i T. type_ok T \<longrightarrow> has_type (\<sigma> i T) T)"

primrec eval :: "valuation \<Rightarrow> node \<Rightarrow> val" where
  "eval \<sigma> (Var i T) = \<sigma> i T"
| "eval \<sigma> (ConstBool b) = VBool b"
| "eval \<sigma> (ConstInt i) = VInt i"
| "eval \<sigma> (ConstBV b) = VBV (d_size b) (d_value b)"
| "eval \<sigma> (App k ts) = op_value k (map (eval \<sigma>) ts)"

subsection \<open>Evaluating binary and n-ary operators\<close>

lemma bv_ops_simps [simp]:
  "bv1 f [a] = VBV (wd a) (f (wd a) (num a))"
  "bv2 g [a, b] = VBV (wd a) (g (wd a) (num a) (num b))"
  "pred2 p [a, b] = p (wd a) (num a) (num b)"
  "sem_bv p [a, b] = VBV 1 (of_bool (p (wd a) (num a) (num b)))"
  by (simp_all add: bv1_def bv2_def pred2_def sem_bv_def)

lemma bvn_Cons: "bvn f z (a # vs) = VBV (wd a) (take_bit (wd a) (f (num a) (foldr f (map num vs) z)))"
  by (simp add: bvn_def)
declare bvn_Cons [simp]

lemma has_type_bv: "has_type v (BitVectorType w) \<longleftrightarrow> (\<exists>x. v = VBV w x \<and> 0 \<le> x \<and> x < 2 ^ w)"
  by (cases v) auto
lemma has_type_bool: "has_type v BooleanType \<longleftrightarrow> (\<exists>b. v = VBool b)"
  by (cases v) auto
lemma has_type_int: "has_type v IntegerType \<longleftrightarrow> (\<exists>b. v = VInt b)"
  by (cases v) auto

lemma cat_value_append:
  "cat_value (xs @ ys) = sem_concat (cat_value xs) (sum_list (map wd ys)) (cat_value ys)"
  by (induction xs) (simp_all add: sem_concat_def push_bit_add push_bit_push_bit add.assoc add.commute)

lemma cat_value_range:
  "\<forall>v\<in>set vs. has_type v (BitVectorType (wd v)) \<Longrightarrow>
   0 \<le> cat_value vs \<and> cat_value vs < 2 ^ sum_list (map wd vs)"
proof (induction vs)
  case (Cons v vs)
  then show ?case
    using sem_concat_range [of "num v" "wd v" "cat_value vs" "sum_list (map wd vs)"]
    by (cases v) auto
qed simp

text \<open>Every operator formula stays within its width.\<close>

lemma sem_ranges:
  "0 \<le> sem_neg w x" "sem_neg w x < 2 ^ w" "0 \<le> sem_sub w x y" "sem_sub w x y < 2 ^ w"
  "0 \<le> sem_sdiv w x y" "sem_sdiv w x y < 2 ^ w" "0 \<le> sem_srem w x y" "sem_srem w x y < 2 ^ w"
  "0 \<le> sem_smod w x y" "sem_smod w x y < 2 ^ w"
  "0 \<le> sem_shl w x y" "sem_shl w x y < 2 ^ w" "0 \<le> sem_ashr w x y" "sem_ashr w x y < 2 ^ w"
  "0 \<le> sem_extract h l x" "sem_extract h l x < 2 ^ Suc (h - l)" "sem_extract h l x < 2 * 2 ^ (h - l)"
  "0 \<le> sem_sign_extend w n x" "sem_sign_extend w n x < 2 ^ (n + w)"
  using take_bit_int_less_exp [of "Suc (h - l)" "drop_bit l x"]
  by (auto simp: sem_defs add.commute take_bit_int_less_exp simp del: take_bit_Suc) 

lemma logic_ranges:
  "0 \<le> (x::int) \<Longrightarrow> x < 2 ^ w \<Longrightarrow> 0 \<le> y \<Longrightarrow> y < 2 ^ w \<Longrightarrow> 0 \<le> x AND y \<and> x AND y < 2 ^ w"
  "0 \<le> (x::int) \<Longrightarrow> x < 2 ^ w \<Longrightarrow> 0 \<le> y \<Longrightarrow> y < 2 ^ w \<Longrightarrow> 0 \<le> x OR y \<and> x OR y < 2 ^ w"
  "0 \<le> (x::int) \<Longrightarrow> x < 2 ^ w \<Longrightarrow> 0 \<le> y \<Longrightarrow> y < 2 ^ w \<Longrightarrow> 0 \<le> x XOR y \<and> x XOR y < 2 ^ w"
  by (auto simp: AND_upper1 OR_upper XOR_upper intro: le_less_trans [OF AND_upper1])

lemma rot_range:
  assumes "0 < w" "0 \<le> x" "x < 2 ^ w"
  shows "0 \<le> sem_rotl w n x \<and> sem_rotl w n x < 2 ^ w" "0 \<le> sem_rotr w n x \<and> sem_rotr w n x < 2 ^ w"
proof -
  have *: "0 \<le> take_bit w (push_bit m x) + drop_bit (w - m) x \<and> take_bit w (push_bit m x) + drop_bit (w - m) x < 2 ^ w"
    if "m \<le> w" for m
  proof -
    have "take_bit w (push_bit m x) + drop_bit (w - m) x = take_bit w (push_bit m x) OR drop_bit (w - m) x"
      using high_bits [OF assms(2,3)] that by (intro disjunctive_add) (auto simp: bit_simps)
    moreover have "drop_bit (w - m) x < 2 ^ w"
      using div_range [of x "2 ^ w" "2 ^ (w - m)"] assms by (simp add: drop_bit_eq_div)
    ultimately show ?thesis
      using logic_ranges(2) [of "take_bit w (push_bit m x)" w "drop_bit (w - m) x"] assms by simp
  qed
  have m: "n mod w \<le> w" using assms by (simp add: order_less_imp_le)
  show "0 \<le> sem_rotl w n x \<and> sem_rotl w n x < 2 ^ w" 
    using * [OF m] by (simp add: sem_rotl_def Let_def)
  show "0 \<le> sem_rotr w n x \<and> sem_rotr w n x < 2 ^ w" 
    using * [of "w - n mod w"] m by (simp add: sem_rotr_def Let_def)
qed

subsection \<open>Type soundness\<close>

lemma typeOf_type_ok: "typeOf n = Some T \<Longrightarrow> type_ok T"
proof (induction n arbitrary: T)
  case (ConstBV b)
  then show ?case by (auto simp: BitVectorConstantTypeRule_def bv_ok_def split: if_splits)
next
  case (App k ts)
  have cat: "0 < sum_list (map getSize ts)" if "2 \<le> length ts" "\<forall>t\<in>set ts. is_bv t"
    proof -
    from that obtain t w where "t \<in> set ts" "typeOf t = Some (BitVectorType w)"
      by (cases ts) (auto simp: is_bv_def)
    moreover from this App.IH have "0 < w" by fastforce
    moreover from calculation have "w \<in> set (map getSize ts)" by force
    then have "w \<le> sum_list (map getSize ts)" by (intro member_le_sum_list) auto
    ultimately show ?thesis by linarith
  qed
  have some: "type_ok T" if "2 \<le> length ts" "\<forall>t\<in>set ts. typeOf t = Some T"
    using that App.IH by (cases ts) auto
  have IH: "\<forall>t\<in>set ts. \<forall>T. typeOf t = Some T \<longrightarrow> type_ok T"
    using App.IH by blast
  show ?case using App.prems IH some cat
   by (cases k) (auto simp: isBitVector_iff split: if_splits)
qed (auto split: if_splits)

lemma nand_ranges:
  assumes "0 \<le> x" "x < 2 ^ w" "0 \<le> y" "y < 2 ^ w"
  shows "0 \<le> sem_not w (x AND y) \<and> sem_not w (x AND y) < 2 ^ w"
    "0 \<le> sem_not w (x OR y) \<and> sem_not w (x OR y) < 2 ^ w"
    "0 \<le> sem_not w (x XOR y) \<and> sem_not w (x XOR y) < 2 ^ w"
  using assms logic_ranges [of x w y] by (intro sem_not_range; auto)+

lemma range_widen: "0 \<le> x \<Longrightarrow> x < 2 ^ w \<Longrightarrow> (x::int) < 2 ^ (n + w)"
  using power_increasing [of w "n + w" "2::int"] by linarith

lemmas op_ranges = sem_ranges nand_ranges [THEN conjunct1] nand_ranges [THEN conjunct2]
  sem_not_range [THEN conjunct1] sem_not_range [THEN conjunct2]
  sem_udiv_range [THEN conjunct1] sem_udiv_range [THEN conjunct2]
  sem_urem_range [THEN conjunct1] sem_urem_range [THEN conjunct2]
  sem_lshr_range [THEN conjunct1] sem_lshr_range [THEN conjunct2]
  rot_range [THEN conjunct1] rot_range [THEN conjunct2] range_widen

lemma has_type_bvE:
  assumes "has_type v (BitVectorType w)"
  obtains x where "v = VBV w x" "0 \<le> x" "x < 2 ^ w"
  using assms by (auto simp: has_type_bv)

lemma cat_value_replicate: 
  "0 \<le> x \<Longrightarrow> x < 2 ^ w \<Longrightarrow> 0 \<le> cat_value (replicate n (VBV w x)) \<and> cat_value (replicate n (VBV w x)) < 2 ^ (n * w)"
  using cat_value_range [of "replicate n (VBV w x)"] by (simp add: sum_list_replicate)

lemma op1_typed:
  "arity_ok k 1 \<Longrightarrow> \<not> arity_ok k 2 \<Longrightarrow> has_type v A \<Longrightarrow> type_ok A \<Longrightarrow> width_fits k [A] \<Longrightarrow>
   computeType k [A] = Some T \<Longrightarrow> has_type (op_value k [v]) T"
  by (cases k)
   (auto simp: isBitVector_iff has_type_bool has_type_int op_ranges cat_value_replicate split: if_splits elim!: has_type_bvE)

lemma op2_typed:
  "arity_ok k 2 \<Longrightarrow> \<not> arity_ok k 3 \<Longrightarrow> has_type v A \<Longrightarrow> has_type u B \<Longrightarrow> type_ok A \<Longrightarrow> width_fits k [A, B] \<Longrightarrow>
   computeType k [A, B] = Some T \<Longrightarrow> has_type (op_value k [v, u]) T"
  by (cases k) (auto simp: isBitVector_iff has_type_bool has_type_int op_ranges elim!: has_type_bvE)

lemma op3_typed:
  "arity_ok k 3 \<Longrightarrow> \<not> arity_ok k 2 \<Longrightarrow> has_type v A \<Longrightarrow> has_type u B \<Longrightarrow> has_type t C \<Longrightarrow> 
   computeType k [A, B, C] = Some T \<Longrightarrow> has_type (op_value k [v, u, t]) T"
  by (cases k) auto

lemma arity_shape: "arity_ok k n \<Longrightarrow> computeType k tys = Some T \<Longrightarrow>
  k \<in> {AND_K, OR_K, PLUS, BITVECTOR_AND, BITVECTOR_OR, BITVECTOR_XOR, BITVECTOR_PLUS, BITVECTOR_MULT} \<or>
  k = BITVECTOR_CONCAT \<or> n = 1 \<and> arity_ok k 1 \<and> \<not> arity_ok k 2 \<or>
  n = 2 \<and> arity_ok k 2 \<and> \<not> arity_ok k 3 \<or> n = 3 \<and> arity_ok k 3 \<and> \<not> arity_ok k 2"
  by (cases k) simp_all

theorem eval_typed:
  assumes "val_ok \<sigma>" "typeOf n = Some T"
  shows "has_type (eval \<sigma> n) T"
  using assms(2)
proof (induction n arbitrary: T)
  case (Var i U)
  then show ?case using assms(1) by (auto simp: val_ok_def split: if_splits)
next
  case (ConstBV b)
  then show ?case by (auto simp: BitVectorConstantTypeRule_def bv_ok_def split: if_splits)
next
  case (App k ts)
  have IH: "\<forall>t\<in>set ts. \<forall>T. typeOf t = Some T \<longrightarrow> has_type (eval \<sigma> t) T"
    using App.IH by blast
  have nary_val: "has_type (bvn f z (map (eval \<sigma>) ts)) T" if "2 \<le> length ts" "isBitVector T" "\<forall>t\<in>set ts. typeOf t = Some T" for f z
  proof -
    from that obtain t ts' w where "ts = t # ts'" "T = BitVectorType w" "typeOf t = Some (BitVectorType w)"
      by (cases ts) (auto simp: isBitVector_iff)
    with IH show ?thesis by (auto simp: has_type_bv)
  qed
  have cat_val: "0 \<le> cat_value (map (eval \<sigma>) ts) \<and> cat_value (map (eval \<sigma>) ts) < 2 ^ sum_list (map getSize ts) \<and>
     sum_list (map (wd \<circ> eval \<sigma>) ts) = sum_list (map getSize ts)" 
    if "\<forall>t\<in>set ts. is_bv t"
  proof -
    have v: "has_type (eval \<sigma> t) (BitVectorType (getSize t))" if "t \<in> set ts" for t
      using that IH \<open>\<forall>t\<in>set ts. is_bv t\<close> by (fastforce simp: is_bv_def)
    then have w: "wd (eval \<sigma> t) = getSize t" if "t \<in> set ts" for t
      using that by (fastforce simp: has_type_bv)
    from w have "map (wd \<circ> eval \<sigma>) ts = map getSize ts" by simp
    then have "sum_list (map (wd \<circ> eval \<sigma>) ts) = sum_list (map getSize ts)" by (rule arg_cong)
    moreover have "\<forall>v\<in>set (map (eval \<sigma>) ts). has_type v (BitVectorType (wd v))"
      using v w by simp
    ultimately show ?thesis using cat_value_range [of "map (eval \<sigma>) ts"] by simp
  qed
  from App.prems obtain tys where tys: "map typeOf ts = map Some tys" "width_fits k tys"
    "computeType k tys = Some T" "arity_ok k (length ts)"
    unfolding typeOf_App by blast
  have ok: "type_ok A" if "A \<in> set tys" for A
    using typeOf_type_ok tys(1) that by (metis (no_types, lifting) image_iff list.set_map)
  consider (nary) "k \<in> {AND_K, OR_K, PLUS, BITVECTOR_AND, BITVECTOR_OR, BITVECTOR_XOR, BITVECTOR_PLUS, BITVECTOR_MULT}" 
    | (cat) "k = BITVECTOR_CONCAT" | (one) a A where "ts = [a]" "tys = [A]" "typeOf a = Some A" "arity_ok k 1" "\<not> arity_ok k 2"
    | (two) a b A B where "ts = [a, b]" "tys = [A, B]" "typeOf a = Some A" "typeOf b = Some B" "arity_ok k 2" "\<not> arity_ok k 3"
    | (three) a b c A B C where "ts = [a, b, c]" "tys = [A, B, C]" "typeOf a = Some A" "typeOf b = Some B"
      "typeOf c = Some C" "arity_ok k 3" "\<not> arity_ok k 2"
    using arity_shape [OF tys(4,3)]
  proof (elim disjE)
    assume *: "length ts = 1 \<and> arity_ok k 1 \<and> \<not> arity_ok k 2"
    with tys(1) obtain a A where "ts = [a]" "tys = [A]" "typeOf a = Some A"
      by (auto simp: length_Suc_conv Cons_eq_map_conv)
    with * show thesis by (intro one) auto
  qed (use tys(1) in \<open>auto simp: length_Suc_conv numeral_eq_Suc Cons_eq_map_conv intro: nary cat two three\<close>)
  then show ?case 
  proof cases
    case nary
    with App.prems nary_val show ?thesis by auto
  next
    case cat
    with App.prems cat_val show ?thesis by auto
  next
    case one
    with tys ok IH show ?thesis by (auto intro: op1_typed)
  next
    case two
    with tys ok IH show ?thesis by (auto intro: op2_typed)
  next
    case three
    with tys ok IH show ?thesis by (auto intro: op3_typed)
  qed
qed auto
subsection \<open>Reading the values of typed nodes\<close>

lemma eval_bv [simp]:
  assumes "typeOf n = Some (BitVectorType w)" "val_ok \<sigma>"
  shows "wd (eval \<sigma> n) = w" "0 \<le> num (eval \<sigma> n)" "num (eval \<sigma> n) < 2 ^ w"
    "eval \<sigma> n = VBV v x \<longleftrightarrow> v = w \<and> num (eval \<sigma> n) = x"
    "VBV v x = eval \<sigma> n \<longleftrightarrow> v = w \<and> num (eval \<sigma> n) = x"
    "take_bit w (num (eval \<sigma> n)) = num (eval \<sigma> n)"
  using eval_typed [OF assms(2,1)] by (auto simp: has_type_bv take_bit_id)

lemma eval_bv_eq [simp]:
  assumes "typeOf n = Some (BitVectorType w)" "typeOf m = Some (BitVectorType w)" "val_ok \<sigma>"
  shows "eval \<sigma> n = eval \<sigma> m \<longleftrightarrow> num (eval \<sigma> n) = num (eval \<sigma> m)"
  using eval_typed [OF assms(3,1)] eval_typed [OF assms(3,2)] by (auto simp: has_type_bv)

lemma eval_bool [simp]:
  assumes "typeOf n = Some BooleanType" "val_ok \<sigma>"
  shows "eval \<sigma> n = VBool b \<longleftrightarrow> truth (eval \<sigma> n) = b" "VBool b = eval \<sigma> n \<longleftrightarrow> truth (eval \<sigma> n) = b"
  using eval_typed [OF assms(2,1)] by (auto simp: has_type_bool)

lemma eval_bool_eq:
  assumes "typeOf n = Some BooleanType" "typeOf m = Some BooleanType" "val_ok \<sigma>"
  shows "eval \<sigma> n = eval \<sigma> m \<longleftrightarrow> truth (eval \<sigma> n) = truth (eval \<sigma> m)"
  using eval_typed [OF assms(3,1)] eval_typed [OF assms(3,2)] by (auto simp: has_type_bool)

lemma eval_int [simp]:
  assumes "typeOf n = Some IntegerType" "val_ok \<sigma>"
  shows "eval \<sigma> n = VInt i \<longleftrightarrow> num (eval \<sigma> n) = i"
  using eval_typed [OF assms(2,1)] by (auto simp: has_type_int)

lemma typeOf_bv_width: "typeOf n = Some (BitVectorType w) \<Longrightarrow> 0 < w \<and> w < 2147483648"
  using typeOf_type_ok [of n "BitVectorType w"] by simp

subsection \<open>Equivalent nodes\<close>

text \<open>Same type and same value under every valuation: what a rewrite has to preserve.\<close>

definition equiv :: "node \<Rightarrow> node \<Rightarrow> bool" where
  "equiv n m \<longleftrightarrow> typeOf n = typeOf m \<and> (\<forall>\<sigma>. val_ok \<sigma> \<longrightarrow> eval \<sigma> n = eval \<sigma> m)"

lemma equiv_refl [simp]: "equiv n n"
  and equiv_sym: "equiv n m \<Longrightarrow> equiv m n"
  and equiv_trans: "equiv n m \<Longrightarrow> equiv m k \<Longrightarrow> equiv n k"
  by (auto simp: equiv_def)

lemma equivI:
  "typeOf m = Some T \<Longrightarrow> typeOf n = Some T \<Longrightarrow> (\<And>\<sigma>. val_ok \<sigma> \<Longrightarrow> eval \<sigma> n = eval \<sigma> m) \<Longrightarrow> equiv n m"
  by (simp add: equiv_def)

lemma equiv_App: "list_all2 equiv ts us \<Longrightarrow> equiv (App k ts) (App k us)"
proof -
  assume *: "list_all2 equiv ts us"
  then have ty: "map typeOf ts = map typeOf us"
    by (induction rule: list_all2_induct) (auto simp: equiv_def)
  from * have "map (eval \<sigma>) ts = map (eval \<sigma>) us" if "val_ok \<sigma>" for \<sigma>
    using that by (induction rule: list_all2_induct) (auto simp: equiv_def)
  then show ?thesis
    using ty list_all2_lengthD [OF *] by (auto simp: equiv_def typeOf.simps(5) split: option.split)
qed

subsection \<open>Properties\<close>

text \<open>The valuation used at concrete inputs.\<close>

definition zero_val :: valuation where
  "zero_val i T = (case T of BooleanType \<Rightarrow> VBool False | IntegerType \<Rightarrow> VInt 0 | BitVectorType w \<Rightarrow> VBV w 0)"

lemma val_ok_zero [simp]: "val_ok zero_val"
  by (auto simp: val_ok_def zero_val_def split: ntype.splits)





end
