(* ===== verification/BV_Utils.thy ===== *)
theory BV_Utils
  imports Semantics
begin

section \<open>Node construction and inspection: theory_bv_utils\<close>

text \<open>
  \<open>theory/bv/theory_bv_utils.cpp\<close> and the templates of its header. A \<open>std::vector\<close> is a
  list. \<open>std::sort\<close> and \<open>std::set\<close> of nodes follow the ids that the node manager
  assigns: the parameter \<open>nid\<close>. Out-parameters are returned. Where the code can fail
  (\<open>BitVector\<close> operations, assertions on the size) the definition returns a \<open>result\<close>;
  the \<open>Assert\<close>s on sizes that follow from the typing of the arguments are not repeated.
\<close>

unbundle bit_operations_syntax

subsection \<open>Inspection\<close>

definition getBit :: "node \<Rightarrow> nat \<Rightarrow> bool result" where
  "getBit n i =
     Assert (i < getSize n \<and> getKind n = CONST_BITVECTOR)
       (and_then (bv_extract (getConstBV n) i i) (\<lambda>b. Inr (d_value b = 1)))"

definition getExtractHigh :: "node \<Rightarrow> nat" where
  [util_defs]: "getExtractHigh n = d_high (getKind n)"

definition getExtractLow :: "node \<Rightarrow> nat" where
  [util_defs]: "getExtractLow n = d_low (getKind n)"

definition getSignExtendAmount :: "node \<Rightarrow> nat" where
  [util_defs]: "getSignExtendAmount n = d_signExtendAmount (getKind n)"

definition mkTrue :: node where
  [util_defs]: "mkTrue = ConstBool True"

definition mkFalse :: node where
  [util_defs]: "mkFalse = ConstBool False"

definition mkConst :: "nat \<Rightarrow> int \<Rightarrow> node" where
  [util_defs]: "mkConst w value = ConstBV (mkBitVector w value)"

definition mkConstBV :: "BitVector \<Rightarrow> node" where
  [util_defs]: "mkConstBV b = ConstBV b"

definition mkZero :: "nat \<Rightarrow> node" where
  [util_defs]: "mkZero w = mkConst w 0"

definition mkOne :: "nat \<Rightarrow> node" where
  [util_defs]: "mkOne w = mkConst w 1"

definition mkOnes :: "nat \<Rightarrow> node result" where
  "mkOnes w = Assert (w > 0) (and_then (bv_mkOnes w) (\<lambda>b. Inr (mkConstBV b)))"

definition mkMinSigned :: "nat \<Rightarrow> node result" where
  "mkMinSigned w = Assert (w > 0) (and_then (bv_mkMinSigned w) (\<lambda>b. Inr (mkConstBV b)))"

definition mkMaxSigned :: "nat \<Rightarrow> node result" where
  "mkMaxSigned w = Assert (w > 0) (and_then (bv_mkMaxSigned w) (\<lambda>b. Inr (mkConstBV b)))"

definition isOnes :: "node \<Rightarrow> bool" where
  "isOnes n = (if \<not> isConst n then False else Inr n = mkOnes (getSize n))"

definition isZero :: "node \<Rightarrow> bool" where
  "isZero n = (if \<not> isConst n then False else n = mkZero (getSize n))"

definition isOne :: "node \<Rightarrow> bool" where
  "isOne n = (if \<not> isConst n then False else n = mkOne (getSize n))"

text \<open>The flag \<open>isNeg\<close> is left as it is where the result is zero.\<close>

definition isPow2Const :: "node \<Rightarrow> bool \<Rightarrow> (nat \<times> bool) result" where
  "isPow2Const n isNeg =
     (if getKind n \<noteq> CONST_BITVECTOR then Inr (0, isNeg)
      else let bv = getConstBV n; p = bv_isPow2 bv
           in if p \<noteq> 0 then Inr (p, False)
              else and_then (bv_neg bv) (\<lambda>nbv.
                let p = bv_isPow2 nbv in if p \<noteq> 0 then Inr (p, True) else Inr (0, isNeg)))"

definition isBvConstTerm :: "node \<Rightarrow> bool" where
  "isBvConstTerm n =
     (if getNumChildren n = 0 then isConst n else \<forall>c \<in> set (children n). isConst c)"

definition isBVPredicate :: "node \<Rightarrow> bool" where
  "isBVPredicate n =
     (let n' = (if getKind n = NOT_K then child n 0 else n); k = getKind n'
      in k = EQUAL \<or> k = BITVECTOR_ULT \<or> k = BITVECTOR_SLT \<or> k = BITVECTOR_UGT \<or>
         k = BITVECTOR_UGE \<or> k = BITVECTOR_SGT \<or> k = BITVECTOR_SGE \<or> k = BITVECTOR_ULE \<or>
         k = BITVECTOR_SLE \<or> k = BITVECTOR_REDOR \<or> k = BITVECTOR_REDAND)"

definition isBitblastAtom :: "node \<Rightarrow> bool" where
  "isBitblastAtom lit =
     (let atom = (if getKind lit = NOT_K then child lit 0 else lit)
      in getKind atom \<noteq> EQUAL \<or> (case typeOf (child atom 0) of Some T \<Rightarrow> isBitVector T | None \<Rightarrow> False))"

subsection \<open>Construction\<close>

definition mkSortedNode2 :: "(node \<Rightarrow> nat) \<Rightarrow> kind \<Rightarrow> node \<Rightarrow> node \<Rightarrow> node" where
  "mkSortedNode2 nid k child1 child2 =
     (if nid child1 < nid child2 then App k [child1, child2] else App k [child2, child1])"

definition mkSortedNode :: "(node \<Rightarrow> nat) \<Rightarrow> kind \<Rightarrow> node list \<Rightarrow> node result" where
  "mkSortedNode nid k cs =
     Assert (length cs > 0)
       (if length cs = 1 then Inr (cs ! 0) else Inr (App k (sort_key nid cs)))"

definition mkNaryNode :: "kind \<Rightarrow> node list \<Rightarrow> node" where
  "mkNaryNode k nodes = (if length nodes = 1 then nodes ! 0 else App k nodes)"

definition mkNot :: "node \<Rightarrow> node" where
  [util_defs]: "mkNot c = App NOT_K [c]"

definition mkAnd2 :: "node \<Rightarrow> node \<Rightarrow> node" where
  [util_defs]: "mkAnd2 n1 n2 = App AND_K [n1, n2]"

definition mkOr2 :: "node \<Rightarrow> node \<Rightarrow> node" where
  [util_defs]: "mkOr2 n1 n2 = App OR_K [n1, n2]"

definition mkXor :: "node \<Rightarrow> node \<Rightarrow> node" where
  [util_defs]: "mkXor n1 n2 = App XOR_K [n1, n2]"

text \<open>A \<open>std::set<TNode>\<close> built from a vector, read in its order.\<close>

definition node_set :: "(node \<Rightarrow> nat) \<Rightarrow> node list \<Rightarrow> node list" where
  "node_set nid xs = sort_key nid (remdups xs)"

definition mkAnd :: "(node \<Rightarrow> nat) \<Rightarrow> node list \<Rightarrow> node result" where
  "mkAnd nid conjunctions =
     (let all = node_set nid conjunctions
      in Assert (length all > 0)
        (if length all = 1 then Inr (conjunctions ! 0) else Inr (App AND_K all)))"

definition mkOr :: "(node \<Rightarrow> nat) \<Rightarrow> node list \<Rightarrow> node result" where
  "mkOr nid nodes =
     (let all = node_set nid nodes
      in Assert (length all > 0)
        (if length all = 1 then Inr (nodes ! 0) else Inr (App OR_K all)))"

definition mkSignExtend :: "node \<Rightarrow> nat \<Rightarrow> node" where
  [util_defs]: "mkSignExtend n amount = App (BITVECTOR_SIGN_EXTEND amount) [n]"

definition mkExtract :: "node \<Rightarrow> nat \<Rightarrow> nat \<Rightarrow> node" where
  [util_defs]: "mkExtract n high low = App (BITVECTOR_EXTRACT high low) [n]"

definition mkBitOf :: "node \<Rightarrow> nat \<Rightarrow> node" where
  [util_defs]: "mkBitOf n index = App (BITVECTOR_BITOF index) [n]"

definition mkConcat2 :: "node \<Rightarrow> node \<Rightarrow> node" where
  [util_defs]: "mkConcat2 t1 t2 = App BITVECTOR_CONCAT [t1, t2]"

definition mkConcat :: "node list \<Rightarrow> node" where
  "mkConcat cs = (if length cs > 1 then App BITVECTOR_CONCAT cs else cs ! 0)"

definition mkConcatRepeat :: "node \<Rightarrow> nat \<Rightarrow> node result" where
  "mkConcatRepeat n repeat =
     Assert (repeat \<noteq> 0)
       (if repeat = 1 then Inr n else Inr (App BITVECTOR_CONCAT (replicate repeat n)))"

definition mkInc :: "node \<Rightarrow> node" where
  [util_defs]: "mkInc t = App BITVECTOR_PLUS [t, mkOne (getSize t)]"

definition mkDec :: "node \<Rightarrow> node" where
  [util_defs]: "mkDec t = App BITVECTOR_SUB [t, mkOne (getSize t)]"

text \<open>The loop \<open>for (i = 1; i < w; ++i)\<close> of \<open>mkUmulo\<close>, with \<open>n\<close> rounds to go.\<close>

fun mkUmulo_loop :: "node \<Rightarrow> node \<Rightarrow> nat \<Rightarrow> nat \<Rightarrow> nat \<Rightarrow> node \<Rightarrow> node list \<Rightarrow> node list" where
  "mkUmulo_loop t1 t2 w i 0 uppc tmp = tmp"
| "mkUmulo_loop t1 t2 w i (Suc n) uppc tmp =
     mkUmulo_loop t1 t2 w (i + 1) n
       (App BITVECTOR_OR [mkExtract t1 (w - 1 - i) (w - 1 - i), uppc])
       (tmp @ [App BITVECTOR_AND [mkExtract t2 i i, uppc]])"

definition mkUmulo :: "node \<Rightarrow> node \<Rightarrow> node" where
  "mkUmulo t1 t2 =
     (let w = getSize t1
      in if w = 1 then mkFalse
         else let uppc = mkExtract t1 (w - 1) (w - 1);
                  tmp = mkUmulo_loop t1 t2 w 1 (w - 1) uppc [];
                  zext_t1 = mkConcat2 (mkZero 1) t1;
                  zext_t2 = mkConcat2 (mkZero 1) t2;
                  mul = App BITVECTOR_MULT [zext_t1, zext_t2]
              in App EQUAL [App BITVECTOR_OR (tmp @ [mkExtract mul w w]), mkOne 1])"

text \<open>
  The work list of \<open>flattenAnd\<close>: \<open>queue.back()\<close> is the last element, and the children of a
  conjunction are pushed in their order.
\<close>

function flattenAnd_loop :: "node list \<Rightarrow> node list \<Rightarrow> node list" where
  "flattenAnd_loop [] nodes = nodes"
| "flattenAnd_loop (q # qs) nodes =
     (let current = last (q # qs); rest = butlast (q # qs)
      in if getKind current = AND_K
         then flattenAnd_loop (rest @ filter (\<lambda>n. n \<notin> set nodes) (children current)) nodes
         else flattenAnd_loop rest (if current \<in> set nodes then nodes else nodes @ [current]))"
  by pat_completeness auto

lemma size_list_filter: "size_list size (filter P xs) \<le> size_list size xs"
  by (induction xs) auto

lemma size_children: "getKind n = AND_K \<Longrightarrow> size_list size (children n) < size n"
  by (cases n) auto

termination flattenAnd_loop
proof (relation "measure (\<lambda>(queue, nodes). size_list size queue)")
  fix q :: node and qs nodes :: "node list" and current rest
  assume c: "current = last (q # qs)" and r: "rest = butlast (q # qs)"
  then have split: "q # qs = rest @ [current]" by simp
  have "size_list size (q # qs) = size_list size rest + Suc (size current)"
    unfolding split by simp
  then show "((rest, if current \<in> set nodes then nodes else nodes @ [current]), q # qs, nodes)
    \<in> measure (\<lambda>(queue, nodes). size_list size queue)" by simp
  assume "getKind current = AND_K"
  then have "size_list size (filter (\<lambda>n. n \<notin> set nodes) (children current)) < size current"
    using size_children [of current] by (intro le_less_trans [OF size_list_filter])
  with \<open>size_list size (q # qs) = _\<close>
  show "((rest @ filter (\<lambda>n. n \<notin> set nodes) (children current), nodes), q # qs, nodes)
    \<in> measure (\<lambda>(queue, nodes). size_list size queue)" by simp
qed simp_all

definition flattenAnd :: "(node \<Rightarrow> nat) \<Rightarrow> node list \<Rightarrow> node result" where
  "flattenAnd nid queue = mkAnd nid (flattenAnd_loop queue [])"

text \<open>The loop of \<open>eliminateBv2Nat\<close>: bit \<open>bit\<close>, weight \<open>i\<close>.\<close>

fun bv2nat_loop :: "node \<Rightarrow> nat \<Rightarrow> nat \<Rightarrow> int \<Rightarrow> node list" where
  "bv2nat_loop x b 0 i = []"
| "bv2nat_loop x b (Suc n) i =
     App ITE [App EQUAL [mkExtract x b b, mkOne 1], ConstInt i, ConstInt 0]
       # bv2nat_loop x (b + 1) n (i * 2)"

definition eliminateBv2Nat :: "node \<Rightarrow> node" where
  "eliminateBv2Nat n =
     (let cs = bv2nat_loop (child n 0) 0 (getSize (child n 0)) 1
      in if length cs = 1 then cs ! 0 else App PLUS cs)"

fun int2bv_loop :: "node \<Rightarrow> nat \<Rightarrow> int \<Rightarrow> node list" where
  "int2bv_loop x 0 i = []"
| "int2bv_loop x (Suc n) i =
     App ITE [App GEQ [App INTS_MODULUS_TOTAL [x, ConstInt i], ConstInt (i div 2)], mkOne 1, mkZero 1]
       # int2bv_loop x n (i * 2)"

definition eliminateInt2Bv :: "node \<Rightarrow> node" where
  "eliminateInt2Bv n =
     (let v = int2bv_loop (child n 0) (d_intToBitVectorSize (getKind n)) 2
      in if length v = 1 then v ! 0 else App BITVECTOR_CONCAT (rev v))"

end
