(* ===== verification/BV_Utils_Correct.thy ===== *)
theory BV_Utils_Correct
  imports BV_Utils "HOL-Library.Multiset"
begin

section \<open>Correctness of theory_bv_utils\<close>

text \<open>
  Types and values of the nodes that \<open>BV_Utils\<close> builds: constants, extractions and
  concatenations, sorted and duplicate-free conjunctions, the flattening of conjunctions, the
  overflow circuit \<open>mkUmulo\<close>, and the conversions between integers and bit-vectors.
\<close>

unbundle bit_operations_syntax

subsection \<open>Constants\<close>

lemma typeOf_ConstBV [simp]: "typeOf (ConstBV b) = Some T \<longleftrightarrow> bv_ok b \<and> d_size b < 2147483648 \<and> T = BitVectorType (d_size b)"
  by (auto simp: BitVectorConstantTypeRule_def bv_ok_def)
declare typeOf.simps(4) [simp del]

lemma mkConst_typed [simp]:
  "typeOf (mkConst w v) = Some T \<longleftrightarrow> 0 < w \<and> w < 2147483648 \<and> T = BitVectorType w"
  "eval \<sigma> (mkConst w v) = VBV w (take_bit w v)"
  by (auto simp: mkConst_def bv_ok_def bitvector_defs integer_defs)

lemma mkZero_typed [simp]:
  "typeOf (mkZero w) = Some T \<longleftrightarrow> 0 < w \<and> w < 2147483648 \<and> T = BitVectorType w" "eval \<sigma> (mkZero w) = VBV w 0"
  by (simp_all add: mkZero_def)

lemma mkOne_typed [simp]:
  "typeOf (mkOne w) = Some T \<longleftrightarrow> 0 < w \<and> w < 2147483648 \<and> T = BitVectorType w" "eval \<sigma> (mkOne w) = VBV w (of_bool (0 < w))"
  by (simp_all add: mkOne_def)

lemma mkOnes_eq: "0 < w \<Longrightarrow> w < 2147483648 \<Longrightarrow> mkOnes w = Inr (mkConst w (mask w))"
  by (simp add: mkOnes_def bv_mkOnes_sem mkConst_def mkConstBV_def bitvector_defs integer_defs)

lemma mkMinSigned_eq: "0 < w \<Longrightarrow> mkMinSigned w = Inr (mkConst w (2 ^ (w - 1)))"
  by (simp add: mkMinSigned_def bv_mkMinSigned_sem mkConst_def mkConstBV_def bitvector_defs integer_defs take_bit_id)

lemma mkMaxSigned_eq: "0 < w \<Longrightarrow> w < 2147483648 \<Longrightarrow> mkMaxSigned w = Inr (mkConst w (2 ^ (w - 1) - 1))"
  by (simp add: mkMaxSigned_def bv_mkMaxSigned_sem mkConst_def mkConstBV_def bitvector_defs integer_defs
    flip: mask_int)

lemma isConst_bv: "isConst n \<Longrightarrow> typeOf n = Some (BitVectorType w) \<Longrightarrow> \<exists>b. n = ConstBV b \<and> bv_ok b \<and> d_size b = w"
  by (cases n) auto

lemma bv_eq_iff: "b = c \<longleftrightarrow> d_size b = d_size c \<and> d_value b = d_value (c::BitVector)"
  by (cases b; cases c) auto

lemma isZero_iff: "typeOf n = Some (BitVectorType w) \<Longrightarrow> isZero n \<longleftrightarrow> n = mkZero w"
  by (auto simp: isZero_def mkZero_def mkConst_def)

lemma isOne_iff: "typeOf n = Some (BitVectorType w) \<Longrightarrow> isOne n \<longleftrightarrow> n = mkOne w"
  by (auto simp: isOne_def mkOne_def mkConst_def)

lemma isOnes_iff: "typeOf n = Some (BitVectorType w) \<Longrightarrow> isOnes n \<longleftrightarrow> n = mkConst w (mask w)"
  using typeOf_bv_width [of n w] by (auto simp: isOnes_def mkOnes_eq mkConst_def)

lemma isPow2_Inr: "isPow2 x = p \<Longrightarrow> p \<noteq> 0 \<Longrightarrow> x = 2 ^ (p - 1)"
  using isPow2_iff [of x "p - 1"] by (cases p) auto

lemma isPow2Const_total: "bv_ok b \<Longrightarrow> \<exists>p neg'. isPow2Const (ConstBV b) neg = Inr (p, neg')"
  by (auto simp: isPow2Const_def Let_def bv_neg_sem)

lemma isPow2Const_eq:
  assumes n: "typeOf n = Some (BitVectorType w)" and p: "isPow2Const n neg = Inr (p, neg')" "p \<noteq> 0"
  shows "n = mkConst w (if neg' then - (2 ^ (p - 1)) else 2 ^ (p - 1)) \<and> p \<le> w"
proof -
  from p n have "isConst n" by (cases n) (auto simp: isPow2Const_def split: if_splits)
  then obtain b where b: "n = ConstBV b" "bv_ok b" "d_size b = w"
    using isConst_bv n by blast
  define x where "x = d_value b"
  have x: "0 \<le> x" "x < 2 ^ w" using b by (auto simp: bv_ok_def x_def)
  have n_eq: "n = mkConst w v" if "x = take_bit w v" for v
    using that b by (simp add: mkConst_def bv_eq_iff bitvector_defs integer_defs x_def)
  consider "isPow2 x = p" "\<not> neg'" | "isPow2 (sem_neg w x) = p" neg'
    using p(2,1) b unfolding isPow2Const_def x_def
    by (auto simp: bv_isPow2_def Let_def bv_neg_sem split: if_splits)
  then show ?thesis
  proof cases
    case 1
    then have xp: "x = 2 ^ (p - 1)" using isPow2_Inr p(2) by blast
    then have "p \<le> w" "take_bit w x = x" using x p(2) by (auto simp: take_bit_id)
    then show ?thesis using 1 n_eq [of x] xp by simp
  next
    case 2
    then have eq: "sem_neg w x = 2 ^ (p - 1)" using isPow2_Inr p(2) by blast
    moreover have "sem_neg w x < 2 ^ w" by (rule sem_ranges)
    ultimately have "p \<le> w" using p(2) by auto
    have "take_bit w (- sem_neg w x) = take_bit w x"
      by (simp add: sem_neg_def take_bit_minus)
    with eq have "x = take_bit w (- (2 ^ (p - 1)))" using x by (simp add: take_bit_id)
    then show ?thesis using 2 n_eq \<open>p \<le> w\<close> by simp
  qed
qed

subsection \<open>Typed constructors\<close>

lemma mkExtract_typed [simp]:
  "typeOf (mkExtract n high low) = Some T \<longleftrightarrow> low \<le> high \<and> T = BitVectorType (high - low + 1) \<and>
     (\<exists>w. typeOf n = Some (BitVectorType w) \<and> high < w)"
  "eval \<sigma> (mkExtract n high low) = VBV (high - low + 1) (sem_extract high low (num (eval \<sigma> n)))"
  by (auto simp: mkExtract_def)

lemma mkSignExtend_typed [simp]:
  "typeOf (mkSignExtend n k) = Some T \<longleftrightarrow> (\<exists>w. typeOf n = Some (BitVectorType w) \<and> k + w < 2147483648 \<and> T = BitVectorType (k + w))"
  "eval \<sigma> (mkSignExtend n k) = VBV (k + wd (eval \<sigma> n)) (sem_sign_extend (wd (eval \<sigma> n)) k (num (eval \<sigma> n)))"
  by (auto simp: mkSignExtend_def)

lemma mkBool_typed [simp]:
  "typeOf mkTrue = Some BooleanType" "typeOf mkFalse = Some BooleanType"
  "eval \<sigma> mkTrue = VBool True" "eval \<sigma> mkFalse = VBool False"
  "typeOf (mkNot n) = Some T \<longleftrightarrow> T = BooleanType \<and> typeOf n = Some BooleanType"
  "eval \<sigma> (mkNot n) = VBool (\<not> truth (eval \<sigma> n))"
  "typeOf (mkAnd2 n m) = Some T \<longleftrightarrow> T = BooleanType \<and> typeOf n = Some BooleanType \<and> typeOf m = Some BooleanType"
  "eval \<sigma> (mkAnd2 n m) = VBool (truth (eval \<sigma> n) \<and> truth (eval \<sigma> m))"
  "typeOf (mkOr2 n m) = Some T \<longleftrightarrow> T = BooleanType \<and> typeOf n = Some BooleanType \<and> typeOf m = Some BooleanType"
  "eval \<sigma> (mkOr2 n m) = VBool (truth (eval \<sigma> n) \<or> truth (eval \<sigma> m))"
  "typeOf (mkXor n m) = Some T \<longleftrightarrow> T = BooleanType \<and> typeOf n = Some BooleanType \<and> typeOf m = Some BooleanType"
  "eval \<sigma> (mkXor n m) = VBool (truth (eval \<sigma> n) \<noteq> truth (eval \<sigma> m))"
  by (auto simp: util_defs)

lemma mkConcat2_typed [simp]:
  "typeOf (mkConcat2 a b) = Some T \<longleftrightarrow> (\<exists>v w. typeOf a = Some (BitVectorType v) \<and> typeOf b = Some (BitVectorType w) \<and>
     v + w < 2147483648 \<and> T = BitVectorType (v + w))"
  "eval \<sigma> (mkConcat2 a b) = VBV (wd (eval \<sigma> a) + wd (eval \<sigma> b)) (sem_concat (num (eval \<sigma> a)) (wd (eval \<sigma> b)) (num (eval \<sigma> b)))"
  by (auto simp: mkConcat2_def is_bv_def sem_concat_def)

lemma mkInc_typed [simp]:
  "typeOf (mkInc t) = Some T \<longleftrightarrow> typeOf t = Some T \<and> isBitVector T"
  "typeOf t = Some (BitVectorType w) \<Longrightarrow> val_ok \<sigma> \<Longrightarrow> eval \<sigma> (mkInc t) = VBV w (sem_add w (num (eval \<sigma> t)) 1)"
  using typeOf_bv_width [of t]
  by (auto simp: mkInc_def isBitVector_iff sem_add_def)

lemma mkDec_typed [simp]:
  "typeOf (mkDec t) = Some T \<longleftrightarrow> typeOf t = Some T \<and> isBitVector T"
  "typeOf t = Some (BitVectorType w) \<Longrightarrow> val_ok \<sigma> \<Longrightarrow> eval \<sigma> (mkDec t) = VBV w (sem_sub w (num (eval \<sigma> t)) 1)"
  using typeOf_bv_width [of t]
  by (auto simp: mkDec_def isBitVector_iff sem_sub_def)


subsection \<open>Sorted and n-ary nodes\<close>

lemma foldr_perm:
  assumes "mset xs = mset ys" "\<And>x y z. f x (f y z) = f y (f x z)"
  shows "foldr f xs z = foldr f ys z"
proof -
  have "fold f (rev xs) = fold f (rev ys)"
    by (rule fold_multiset_equiv) (use assms in \<open>auto simp: fun_eq_iff\<close>)
  then show ?thesis by (simp add: foldr_conv_fold)
qed

lemma typeOf_sort_key [simp]:
  "typeOf (App k (sort_key nid cs)) = Some T \<longleftrightarrow> typeOf (App k cs) = Some T"
  if "k \<in> {BITVECTOR_AND, BITVECTOR_OR, BITVECTOR_XOR}" for k
  using that by auto

lemma left_commute_logic:
  "(x::int) AND (y AND z) = y AND (x AND z)" "(x::int) OR (y OR z) = y OR (x OR z)"
  "(x::int) XOR (y XOR z) = y XOR (x XOR z)"
  by (simp_all add: ac_simps)

lemma bvn_perm:
  assumes "mset xs = mset ys" "\<And>x y z. f x (f y z) = f y (f x z)" "\<And>v. v \<in> set xs \<Longrightarrow> wd v = w" "xs \<noteq> []"
  shows "bvn f z xs = bvn f z ys"
proof -
  have "foldr f (map num xs) z = foldr f (map num ys) z"
    by (rule foldr_perm) (use assms in \<open>auto simp: image_mset_def [symmetric]\<close>)
  moreover have "set xs = set ys" using assms(1) by (metis set_mset_mset)
  then have "wd (ys ! 0) = w" "wd (xs ! 0) = w"
    using assms(3,4) by (cases xs; cases ys; auto)+
  ultimately show ?thesis by (simp add: bvn_def)
qed

lemma nary_perm_equiv:
  assumes "typeOf (App k xs) = Some T" "mset xs = mset ys"
    "k \<in> {BITVECTOR_AND, BITVECTOR_OR, BITVECTOR_XOR, BITVECTOR_PLUS, BITVECTOR_MULT}"
  shows "equiv (App k ys) (App k xs)"
proof -
  have set: "set xs = set ys" "length xs = length ys"
    using assms(2) by (metis set_mset_mset, metis size_mset)
  have *: "bvn f z (map (eval \<sigma>) ys) = bvn f z (map (eval \<sigma>) xs)"
    if "2 \<le> length xs" "typeOf (hd xs) = Some (BitVectorType w)" "\<forall>t\<in>set xs. typeOf t = Some (BitVectorType w)" "val_ok \<sigma>"
     "\<And>x y z. f x (f y z) = f y (f x z)" for f z w \<sigma>
    by (rule bvn_perm [symmetric, where w = w]) (use that assms(2) in \<open>auto\<close>)
  have hd: "typeOf (hd xs) = Some T \<and> isBitVector T" using assms(1,3) by (cases xs) auto
  show ?thesis
   using assms(1,3) set hd
    by (intro equivI [OF assms(1)]) (auto simp: isBitVector_iff ac_simps intro!: *)
qed

lemma mkSortedNode2_equiv:
  assumes "typeOf (App k [a, b]) = Some T" "k \<in> {BITVECTOR_AND, BITVECTOR_OR, BITVECTOR_XOR}"
  shows "equiv (mkSortedNode2 nid k a b) (App k [a, b])"
  using nary_perm_equiv [OF assms(1), of "[b, a]"] assms(2) by (auto simp: mkSortedNode2_def)

lemma mkSortedNode_equiv:
  assumes "typeOf (App k cs) = Some T" "k \<in> {BITVECTOR_AND, BITVECTOR_OR, BITVECTOR_XOR}"
  shows "\<exists>n. mkSortedNode nid k cs = Inr n \<and> equiv n (App k cs)"
proof -
  have "2 \<le> length cs" using assms by auto
  then have "mkSortedNode nid k cs = Inr (App k (sort_key nid cs))" by (cases cs) (auto simp: mkSortedNode_def)
  moreover have "equiv (App k (sort_key nid cs)) (App k cs)"
    using assms by (intro nary_perm_equiv) auto
  ultimately show ?thesis by blast
qed

lemma node_set_set [simp]: "set (node_set nid xs) = set xs"
  by (simp add: node_set_def)

lemma node_set_1: "length (node_set nid xs) = 1 \<Longrightarrow> set xs = {xs ! 0}"
proof -
  assume "length (node_set nid xs) = 1"
  then obtain a where "node_set nid xs = [a]" by (auto simp: length_Suc_conv)
  then have "set xs = {a}" using node_set_set [of nid xs] by simp
  then show ?thesis by (metis list.set_sel(1) nth_mem empty_iff insertI1 length_pos_if_in_set singletonD)
qed

lemma mkAnd_sound:
  assumes "xs \<noteq> []" "\<forall>x\<in>set xs. typeOf x = Some BooleanType"
  shows "\<exists>n. mkAnd nid xs = Inr n \<and> typeOf n = Some BooleanType \<and>
    (\<forall>\<sigma>. val_ok \<sigma> \<longrightarrow> eval \<sigma> n = VBool (\<forall>x\<in>set xs. truth (eval \<sigma> x)))"
proof -
  have ne: "node_set nid xs \<noteq> []" using assms(1) node_set_set [of nid xs] by fastforce
  show ?thesis
  proof (cases "length (node_set nid xs) = 1")
    case True
    then have "set xs = {xs ! 0}" by (rule node_set_1)
    moreover from this have "typeOf (xs ! 0) = Some BooleanType" using assms(2) by blast
    ultimately show ?thesis using True ne 
      by (auto simp: mkAnd_def Let_def)
  next
    case False
    with ne have "2 \<le> length (node_set nid xs)" by (cases "node_set nid xs") (auto simp: Suc_le_eq)
    with False assms ne show ?thesis by (auto simp: mkAnd_def Let_def)
  qed
qed

lemma mkOr_sound:
  assumes "xs \<noteq> []" "\<forall>x\<in>set xs. typeOf x = Some BooleanType"
  shows "\<exists>n. mkOr nid xs = Inr n \<and> typeOf n = Some BooleanType \<and>
    (\<forall>\<sigma>. val_ok \<sigma> \<longrightarrow> eval \<sigma> n = VBool (\<exists>x\<in>set xs. truth (eval \<sigma> x)))"
proof -
  have ne: "node_set nid xs \<noteq> []" using assms(1) node_set_set [of nid xs] by fastforce
  show ?thesis
  proof (cases "length (node_set nid xs) = 1")
    case True
    then have "set xs = {xs ! 0}" by (rule node_set_1)
    moreover from this have "typeOf (xs ! 0) = Some BooleanType" using assms(2) by blast
    ultimately show ?thesis using True ne 
      by (auto simp: mkOr_def Let_def)
  next
    case False
    with ne have "2 \<le> length (node_set nid xs)" by (cases "node_set nid xs") (auto simp: Suc_le_eq)
    with False assms ne show ?thesis by (auto simp: mkOr_def Let_def)
  qed
qed

subsection \<open>Flattened conjunctions\<close>

lemma flattenAnd_loop_set:
  "(\<forall>n\<in>set queue \<union> set nodes. typeOf n = Some BooleanType) \<Longrightarrow>
   (\<forall>n\<in>set (flattenAnd_loop queue nodes). typeOf n = Some BooleanType) \<and>
   ((\<forall>n\<in>set (flattenAnd_loop queue nodes). truth (eval \<sigma> n)) \<longleftrightarrow>
    (\<forall>n\<in>set queue \<union> set nodes. truth (eval \<sigma> n)))"
proof (induction queue nodes rule: flattenAnd_loop.induct)
  case (2 q qs nodes)
  define c r where "c = last (q # qs)" and "r = butlast (q # qs)"
  have split: "q # qs = r @ [c]" by (simp add: c_def r_def)
  have set: "set (q # qs) = insert c (set r)" unfolding split by simp
  show ?case
  proof (cases "getKind c = AND_K")
    case True
    have "typeOf c = Some BooleanType" using 2(3) set by (metis UnI1 insertI1)
    with True obtain ts where ts: "c = App AND_K ts" and cty: "\<forall>t\<in>set ts. typeOf t = Some BooleanType"
      by (cases c) auto
    have step: "flattenAnd_loop (q # qs) nodes = flattenAnd_loop (r @ filter (\<lambda>n. n \<notin> set nodes) ts) nodes"
      using True ts by (simp add: Let_def c_def r_def)
    have "(\<forall>n\<in>set (r @ filter (\<lambda>n. n \<notin> set nodes) ts) \<union> set nodes. truth (eval \<sigma> n)) \<longleftrightarrow>
      (\<forall>n\<in>set (q # qs) \<union> set nodes. truth (eval \<sigma> n))"
      unfolding set ts by auto
    moreover have "\<forall>n\<in>set (r @ filter (\<lambda>n. n \<notin> set nodes) ts) \<union> set nodes. typeOf n = Some BooleanType"
      using cty 2(3) set by auto
    ultimately show ?thesis
      using 2(1) [OF c_def r_def True] ts unfolding step by simp
  next
    case False
    let ?nodes = "if c \<in> set nodes then nodes else nodes @ [c]"
    have step: "flattenAnd_loop (q # qs) nodes = flattenAnd_loop r ?nodes"
      using False by (simp add: Let_def c_def r_def)
    have "set r \<union> set ?nodes = set (q # qs) \<union> set nodes" unfolding set by auto
    then show ?thesis
      using 2(2) [OF c_def r_def False] 2(3) unfolding step by simp
  qed
qed simp

lemma flattenAnd_loop_ne: "queue \<noteq> [] \<or> nodes \<noteq> [] \<Longrightarrow> 
  (\<forall>n\<in>set queue. typeOf n = Some BooleanType) \<Longrightarrow> flattenAnd_loop queue nodes \<noteq> []"
proof (induction queue nodes rule: flattenAnd_loop.induct)
  case (2 q qs nodes)
  define c r where "c = last (q # qs)" and "r = butlast (q # qs)"
  have split: "q # qs = r @ [c]" by (simp add: c_def r_def)
  have set: "set (q # qs) = insert c (set r)" unfolding split by simp
  show ?case
  proof (cases "getKind c = AND_K")
    case True
    from set have "c \<in> set (q # qs)" by blast
    with 2(4) have "typeOf c = Some BooleanType" by blast
    with True obtain ts where ts: "c = App AND_K ts"
        and cty: "2 \<le> length ts" "\<forall>t\<in>set ts. typeOf t = Some BooleanType"
      by (cases c) auto
    have "r @ filter (\<lambda>n. n \<notin> set nodes) ts \<noteq> [] \<or> nodes \<noteq> []"
      using cty(1) by (cases ts) auto
    moreover have "flattenAnd_loop (q # qs) nodes = flattenAnd_loop (r @ filter (\<lambda>n. n \<notin> set nodes) ts) nodes"
      using True ts by (simp add: Let_def c_def r_def)
    moreover have "\<forall>n\<in>set (r @ filter (\<lambda>n. n \<notin> set nodes) ts). typeOf n = Some BooleanType"
      using 2(4) set cty by auto
    ultimately show ?thesis
      using 2(1) [OF c_def r_def True] ts by simp
  next
    case False
    let ?nodes = "if c \<in> set nodes then nodes else nodes @ [c]"
    have "flattenAnd_loop (q # qs) nodes = flattenAnd_loop r ?nodes"
      using False by (simp add: Let_def c_def r_def)
    moreover have "?nodes \<noteq> []" by (cases nodes) auto
    moreover have "\<forall>n\<in>set r. typeOf n = Some BooleanType"
      using 2(4) set by blast
    ultimately show ?thesis
      using 2(2) [OF c_def r_def False] by simp
  qed
qed simp

lemma flattenAnd_sound:
  assumes "queue \<noteq> []" "\<forall>n\<in>set queue. typeOf n = Some BooleanType"
  shows "\<exists>n. flattenAnd nid queue = Inr n \<and> typeOf n = Some BooleanType \<and>
    (\<forall>\<sigma>. val_ok \<sigma> \<longrightarrow> eval \<sigma> n = VBool (\<forall>x\<in>set queue. truth (eval \<sigma> x)))"
  unfolding flattenAnd_def
  using mkAnd_sound [of "flattenAnd_loop queue []" nid] flattenAnd_loop_ne [of queue "[]"]
    flattenAnd_loop_set [of queue "[]"] assms by simp

subsection \<open>Integers and bit-vectors\<close>

lemma bv2nat_loop_typed:
  assumes "typeOf x = Some (BitVectorType w)"
  shows "b + n \<le> w \<Longrightarrow> \<forall>t\<in>set (bv2nat_loop x b n i). typeOf t = Some IntegerType"
proof (induction n arbitrary: b i)
  case (Suc n)
  then show ?case using assms Suc.IH [of "Suc b" "i * 2"] by auto
qed simp

lemma extract_bit: "sem_extract i i x = of_bool (bit x i)"
  by (simp add: sem_extract_def take_bit_Suc bit_iff_odd_drop_bit mod_2_eq_odd)

lemma bv2nat_loop_sum:
  assumes "val_ok \<sigma>"
  shows "sum_list (map (num \<circ> eval \<sigma>) (bv2nat_loop x b n i)) = i * take_bit n (drop_bit b (num (eval \<sigma> x)))"
proof (induction n arbitrary: b i)
  case (Suc n)
  have "i * take_bit (Suc n) (drop_bit b (num (eval \<sigma> x))) =
     i * of_bool (bit (num (eval \<sigma> x)) b) + i * 2 * take_bit n (drop_bit (Suc b) (num (eval \<sigma> x)))"
    by (simp add: take_bit_Suc bit_iff_odd_drop_bit mod_2_eq_odd drop_bit_Suc distrib_left flip: drop_bit_half)
  with Suc show ?case by (simp add: extract_bit)
qed simp

lemma length_bv2nat_loop [simp]: "length (bv2nat_loop x b n i) = n"
  by (induction n arbitrary: b i) simp_all

lemma eliminateBv2Nat_equiv:
  assumes "typeOf (App BITVECTOR_TO_NAT [x]) = Some T"
  shows "equiv (eliminateBv2Nat (App BITVECTOR_TO_NAT [x])) (App BITVECTOR_TO_NAT [x])"
proof -
  from assms obtain w where x: "typeOf x = Some (BitVectorType w)" and T: "T = IntegerType"
    by (auto simp: isBitVector_iff)
  define cs where "cs = bv2nat_loop x 0 w 1"
  have w: "0 < w" using typeOf_bv_width [OF x] by simp
  have cs: "length cs = w" "\<forall>t\<in>set cs. typeOf t = Some IntegerType"
    using bv2nat_loop_typed [OF x, of 0 w 1] by (simp_all add: cs_def)
  have sum: "sum_list (map (num \<circ> eval \<sigma>) cs) = num (eval \<sigma> x)" if "val_ok \<sigma>" for \<sigma>
    using bv2nat_loop_sum [OF that, of x 0 w 1] x that by (simp add: cs_def take_bit_id)
  have elim: "eliminateBv2Nat (App BITVECTOR_TO_NAT [x]) = (if w = 1 then cs ! 0 else App PLUS cs)"
    using x by (simp add: eliminateBv2Nat_def cs_def)
  show ?thesis
  proof (cases "w = 1")
    case True
    then obtain c where "cs = [c]" using cs(1) by (auto simp: length_Suc_conv)
    then show ?thesis
      using elim True cs(2) sum by (intro equivI [OF assms]) (auto simp: T)
  next
    case False
    with elim w cs sum show ?thesis by (intro equivI [OF assms]) (auto simp: T o_def)
  qed
qed

lemma int2bv_loop_typed:
  assumes "typeOf x = Some IntegerType"
  shows "\<forall>t\<in>set (int2bv_loop x n i). typeOf t = Some (BitVectorType 1)"
  using assms by (induction n arbitrary: i) auto

lemma length_int2bv_loop [simp]: "length (int2bv_loop x n i) = n"
  by (induction n arbitrary: i) simp_all

lemma mod_ge_bit: "(x::int) mod 2 ^ Suc k \<ge> 2 ^ k \<longleftrightarrow> bit x k"
proof -
  have "x mod 2 ^ Suc k = 2 ^ k * of_bool (bit x k) + take_bit k x"
    using take_bit_Suc_from_most [of k x] by (simp add: take_bit_eq_mod)
  moreover have "0 \<le> take_bit k x" "take_bit k x < 2 ^ k" by simp_all
  ultimately show ?thesis by (cases "bit x k") (simp, simp only: of_bool_eq mult_zero_right add_0 not_le [symmetric])
qed

lemma int2bv_loop_value:
  assumes "val_ok \<sigma>"
  shows "cat_value (rev (map (eval \<sigma>) (int2bv_loop x n (2 ^ Suc k)))) = take_bit n (drop_bit k (num (eval \<sigma> x)))
     \<and> sum_list (map wd (rev (map (eval \<sigma>) (int2bv_loop x n (2 ^ Suc k))))) = n"
proof (induction n arbitrary: k)
  case (Suc n)
  let ?y = "num (eval \<sigma> x)"
  have "take_bit (Suc n) (drop_bit k ?y) = of_bool (bit ?y k) + 2 * take_bit n (drop_bit (Suc k) ?y)"
    by (simp add: take_bit_Suc bit_iff_odd_drop_bit mod_2_eq_odd drop_bit_Suc flip: drop_bit_half)
  with Suc [of "Suc k"] mod_ge_bit [of k ?y] show ?case
    by (simp add: cat_value_append sem_concat_def mult.commute)
qed simp

lemma eliminateInt2Bv_equiv:
  assumes "typeOf (App (INT_TO_BITVECTOR n) [x]) = Some T"
  shows "equiv (eliminateInt2Bv (App (INT_TO_BITVECTOR n) [x])) (App (INT_TO_BITVECTOR n) [x])"
proof -
  from assms have x: "typeOf x = Some IntegerType" and T: "T = BitVectorType n" and n: "0 < n" "n < 2 ^ 31"
    by (auto split: if_splits)
  define v where "v = int2bv_loop x n 2"
  have v: "length v = n" "\<forall>t\<in>set v. typeOf t = Some (BitVectorType 1)"
    using int2bv_loop_typed [OF x, of n 2] by (simp_all add: v_def)
  have val: "cat_value (rev (map (eval \<sigma>) v)) = take_bit n (num (eval \<sigma> x))" "sum_list (rev (map (wd \<circ> eval \<sigma>) v)) = n" if "val_ok \<sigma>" for \<sigma>
    using int2bv_loop_value [OF that, of x n 0] by (simp_all add: v_def rev_map)
  have widths: "sum_list (map getSize v) = n"
  proof -
    have "sum_list (map getSize v) = length v" using v(2) by (induction v) auto
    then show ?thesis using v(1) by simp
  qed
  have elim: "eliminateInt2Bv (App (INT_TO_BITVECTOR n) [x]) = (if n = 1 then v ! 0 else App BITVECTOR_CONCAT (rev v))"
    by (simp add: eliminateInt2Bv_def v_def)
  show ?thesis
  proof (cases "n = 1")
    case True
    then obtain c where c: "v = [c]" using v(1) by (auto simp: length_Suc_conv)
    then show ?thesis
      using elim True v(2) val by (intro equivI [OF assms]) (auto simp: T sem_concat_def)
  next
    case False
    have rs: "rev (map getSize v) = map getSize (rev v)" by (simp add: rev_map)
    have "sum_list (map getSize (rev v)) = n" using widths by (simp flip: rs)
    with False elim n v val T show ?thesis
      by (intro equivI [OF assms]) (auto simp: rev_map simp flip: rev_map)
  qed
qed

subsection \<open>Multiplication overflow\<close>

lemma bit_top: "0 \<le> z \<Longrightarrow> z < 2 ^ Suc k \<Longrightarrow> bit z k \<longleftrightarrow> 2 ^ k \<le> (z::int)"
  using mod_ge_bit [of k z] by simp

lemma drop_bit_nonzero: "0 \<le> (x::int) \<Longrightarrow> drop_bit k x \<noteq> 0 \<longleftrightarrow> 2 ^ k \<le> x"
  using pos_imp_zdiv_pos_iff [of "2 ^ k" x] div_int_pos_iff [of x "2 ^ k"] by (auto simp: drop_bit_eq_div)

lemma leading_bit: "0 < (y::int) \<Longrightarrow> y < 2 ^ w \<Longrightarrow> \<exists>j < w. 2 ^ j \<le> y \<and> y < 2 ^ Suc j"
proof (induction w)
  case (Suc w)
  show ?case
  proof (cases "y < 2 ^ w")
    case True
    with Suc obtain j where "j < w" "2 ^ j \<le> y \<and> y < 2 ^ Suc j" by blast
    then show ?thesis by (intro exI [of _ j]) auto
  next
    case False
    with Suc(3) show ?thesis by (intro exI [of _ w]) auto
  qed
qed simp

lemma bit_le: "0 \<le> y \<Longrightarrow> bit y j \<Longrightarrow> 2 ^ j \<le> (y::int)"
  using mod_ge_bit [of j y] zmod_le_nonneg_dividend [of y "2 ^ Suc j"] by linarith

lemma umulo_bits:
  assumes x: "0 \<le> x" "x < 2 ^ w" and y: "0 \<le> y" "y < 2 ^ w"
  shows "(\<exists>j\<ge>1. j < w \<and> bit y j \<and> drop_bit (w - j) x \<noteq> 0) \<or> bit (take_bit (w + 1) (x * y)) w \<longleftrightarrow> x * y \<ge> (2::int) ^ w"
    (is "?hi \<or> ?bit \<longleftrightarrow> _")
proof (cases ?hi)
  case True
  then obtain j where j: "j < w" "2 ^ j \<le> y" "2 ^ (w - j) \<le> x"
    using bit_le [OF y(1)] x(1) by (auto simp: drop_bit_nonzero)
  have "(2::int) ^ (w - j) * 2 ^ j \<le> x * y" by (rule mult_mono) (use j x in auto)
  with j(1) show ?thesis using True by (simp flip: power_add)
next
  case False
  have xy: "0 \<le> x * y" using x y by simp
  have small: "x * y < 2 ^ Suc w"
  proof (cases "y \<le> 1")
    case True
    then have "x * y \<le> x * 1" using x by (intro mult_left_mono) auto
    with x show ?thesis by simp
  next
    case False
    then obtain j where j: "j < w" "2 ^ j \<le> y" "y < 2 ^ Suc j" using leading_bit [of y w] y by auto
    have "1 \<le> j" using j False by (cases j) auto
    moreover have "bit y j" using bit_top [of y j] j y by simp
    ultimately have "\<not> 2 ^ (w - j) \<le> x" using \<open>\<not> ?hi\<close> j(1) drop_bit_nonzero [OF x(1)] by blast
    then have "x < 2 ^ (w - j)" by simp
    moreover have "x * y < 2 ^ (w - j) * 2 ^ Suc j"
    proof -
      have "x * y \<le> 2 ^ (w - j) * y" using calculation y by (intro mult_right_mono) auto
      also have "\<dots> < 2 ^ (w - j) * 2 ^ Suc j" using j(3) by (intro mult_strict_left_mono) auto
      finally show ?thesis .
    qed
    moreover have "(2::int) ^ (w - j) * 2 ^ Suc j = 2 ^ Suc w"
      using j(1) by (simp flip: power_add power_Suc)
    ultimately show ?thesis by simp
  qed
  then have "take_bit (w + 1) (x * y) = x * y" using xy by (intro take_bit_id) auto
  then show ?thesis using False bit_top [OF xy small] by auto
qed

lemma mkUmulo_loop_sound:
  assumes t: "typeOf t1 = Some (BitVectorType w)" "typeOf t2 = Some (BitVectorType w)" "val_ok \<sigma>"
  defines "x \<equiv> num (eval \<sigma> t1)" and "y \<equiv> num (eval \<sigma> t2)"
  shows "i + n = w \<Longrightarrow> 1 \<le> i \<Longrightarrow> typeOf uppc = Some (BitVectorType 1) \<Longrightarrow>
    num (eval \<sigma> uppc) = of_bool (drop_bit (w - i) x \<noteq> 0) \<Longrightarrow> \<forall>t\<in>set tmp. typeOf t = Some (BitVectorType 1) \<Longrightarrow>
    (let r = mkUmulo_loop t1 t2 w i n uppc tmp in
      length r = length tmp + n \<and> (\<forall>t\<in>set r. typeOf t = Some (BitVectorType 1)) \<and>
      ((\<exists>t\<in>set r. num (eval \<sigma> t) = 1) \<longleftrightarrow> (\<exists>t\<in>set tmp. num (eval \<sigma> t) = 1) \<or>
        (\<exists>j\<ge>i. j < w \<and> bit y j \<and> drop_bit (w - j) x \<noteq> 0)))"
proof (induction n arbitrary: i uppc tmp)
  case (Suc n)
  let ?bit = "App BITVECTOR_AND [mkExtract t2 i i, uppc]"
  let ?uppc = "App BITVECTOR_OR [mkExtract t1 (w - 1 - i) (w - 1 - i), uppc]"
  have i: "i < w" "w - i = Suc (w - 1 - i)" using Suc.prems by auto
  have up: "drop_bit (w - 1 - i) x \<noteq> 0 \<longleftrightarrow> bit x (w - 1 - i) \<or> drop_bit (w - i) x \<noteq> 0"
  proof -
    have "drop_bit (w - 1 - i) x = of_bool (bit x (w - 1 - i)) + 2 * drop_bit (w - i) x"
      unfolding i(2) drop_bit_Suc drop_bit_half bit_iff_odd_drop_bit
      by (simp add: odd_two_times_div_two_succ flip: mod_2_eq_odd)
    then show ?thesis by (cases "bit x (w - 1 - i)") (simp_all, presburger)
  qed
  have "typeOf ?uppc = Some (BitVectorType 1)" "num (eval \<sigma> ?uppc) = of_bool (drop_bit (w - (i + 1)) x \<noteq> 0)"
     "typeOf ?bit = Some (BitVectorType 1)" "num (eval \<sigma> ?bit) = of_bool (bit y i \<and> drop_bit (w - i) x \<noteq> 0)"
    using Suc.prems t i up by (auto simp: extract_bit x_def y_def)
  then have IH: "let r = mkUmulo_loop t1 t2 w (i + 1) n ?uppc (tmp @ [?bit]) in
      length r = length (tmp @ [?bit]) + n \<and> (\<forall>t\<in>set r. typeOf t = Some (BitVectorType 1)) \<and>
      ((\<exists>t\<in>set r. num (eval \<sigma> t) = 1) \<longleftrightarrow> (\<exists>t\<in>set (tmp @ [?bit]). num (eval \<sigma> t) = 1) \<or>
        (\<exists>j\<ge>i + 1. j < w \<and> bit y j \<and> drop_bit (w - j) x \<noteq> 0))"
    using Suc.prems by (intro Suc.IH) auto
  have ex: "(\<exists>j\<ge>i. P j) \<longleftrightarrow> P i \<or> (\<exists>j\<ge>i + 1. P j)" for P
    by (metis Suc_eq_plus1 Suc_leD le_antisym not_less_eq_eq order_refl)
  show ?case
    using IH i \<open>num (eval \<sigma> ?bit) = _\<close> unfolding ex [of "\<lambda>j. j < w \<and> bit y j \<and> drop_bit (w - j) x \<noteq> 0"]
    by (simp add: Let_def) blast
qed (simp add: Let_def, auto)

lemma foldr_or_bits:
  "\<forall>t\<in>set ts. f t = 0 \<or> f t = (1::int) \<Longrightarrow> foldr (OR) (map f ts) 0 = of_bool (\<exists>t\<in>set ts. f t = 1)"
  by (induction ts) auto

lemma mkUmulo_sound:
  assumes t: "typeOf t1 = Some (BitVectorType w)" "typeOf t2 = Some (BitVectorType w)" "val_ok \<sigma>" and w: "Suc w < 2 ^ 31"
  shows "typeOf (mkUmulo t1 t2) = Some BooleanType \<and>
    eval \<sigma> (mkUmulo t1 t2) = VBool (num (eval \<sigma> t1) * num (eval \<sigma> t2) \<ge> 2 ^ w)"
proof -
  have w0: "0 < w" using typeOf_bv_width [OF t(1)] by simp
  define x y where "x = num (eval \<sigma> t1)" and "y = num (eval \<sigma> t2)"
  have x: "0 \<le> x" "x < 2 ^ w" and y: "0 \<le> y" "y < 2 ^ w" using t by (simp_all add: x_def y_def)
  show ?thesis
  proof (cases "w = 1")
    case True
    then have "x < 2" "y < 2" using x y by simp_all
    then have "x = 0 \<or> x = 1" "y = 0 \<or> y = 1" using x y by auto
    then have "\<not> x * y \<ge> 2 ^ w" using True by auto
    with True t show ?thesis by (simp add: mkUmulo_def x_def y_def)
  next
    case False
    define top where "top = mkExtract t1 (w - 1) (w - 1)"
    define tmp where "tmp = mkUmulo_loop t1 t2 w 1 (w - 1) top []"
    define mul where "mul = mkExtract (App BITVECTOR_MULT [mkConcat2 (mkZero 1) t1, mkConcat2 (mkZero 1) t2]) w w"
    have drop: "drop_bit (w - 1) x \<noteq> 0 \<longleftrightarrow> bit x (w - 1)"
      using bit_top [of x "w - 1"] x w0 by (simp add: drop_bit_nonzero)
    have "typeOf top = Some (BitVectorType 1)" "num (eval \<sigma> top) = of_bool (drop_bit (w - 1) x \<noteq> 0)"
      unfolding drop using t w0 by (simp_all add: top_def extract_bit x_def)
    then have tmp: "length tmp = w - 1" "\<forall>t\<in>set tmp. typeOf t = Some (BitVectorType 1)"
      "(\<exists>t\<in>set tmp. num (eval \<sigma> t) = 1) \<longleftrightarrow> (\<exists>j\<ge>1. j < w \<and> bit y j \<and> drop_bit (w - j) x \<noteq> 0)"
      using mkUmulo_loop_sound [OF t, of 1 "w - 1" top "[]"] w0
      by (simp_all add: Let_def tmp_def x_def y_def)
    have mul: "typeOf mul = Some (BitVectorType 1)" "num (eval \<sigma> mul) = of_bool (bit (take_bit (w + 1) (x * y)) w)"
      using t w by (simp_all add: mul_def extract_bit sem_concat_def x_def y_def)
    have ty: "\<forall>t\<in>set (tmp @ [mul]). typeOf t = Some (BitVectorType 1)" using tmp mul by simp
    have "\<forall>t\<in>set (tmp @ [mul]). num (eval \<sigma> t) = 0 \<or> num (eval \<sigma> t) = 1"
    proof
      fix u assume "u \<in> set (tmp @ [mul])"
      then have "typeOf u = Some (BitVectorType 1)" using ty by blast
      then have "0 \<le> num (eval \<sigma> u)" "num (eval \<sigma> u) < 2 ^ 1" using t(3) by (simp_all only: eval_bv)
      then show "num (eval \<sigma> u) = 0 \<or> num (eval \<sigma> u) = 1" by auto
    qed
    then have "foldr (OR) (map (num \<circ> eval \<sigma>) (tmp @ [mul])) 0 = of_bool (\<exists>t\<in>set (tmp @ [mul]). num (eval \<sigma> t) = 1)"
      using foldr_or_bits [of "tmp @ [mul]" "num \<circ> eval \<sigma>"] by simp
    also have "(\<exists>t\<in>set (tmp @ [mul]). num (eval \<sigma> t) = 1) \<longleftrightarrow> x * y \<ge> 2 ^ w"
      using umulo_bits [OF x y] tmp(3) mul(2) by simp blast
    finally have val: "foldr (OR) (map (num \<circ> eval \<sigma>) (tmp @ [mul])) 0 = of_bool (x * y \<ge> 2 ^ w)" .
    obtain u us where us: "tmp @ [mul] = u # us" "us \<noteq> []" using tmp(1) False w0 by (cases tmp) auto
    have "eval \<sigma> (App BITVECTOR_OR (tmp @ [mul])) = VBV 1 (of_bool (x * y \<ge> 2 ^ w))"
      using val ty t(3) unfolding us by (simp add: o_def)
    moreover have "typeOf (App BITVECTOR_OR (tmp @ [mul])) = Some (BitVectorType 1)"
      using ty us by (cases us) (simp_all add: us)
    moreover have "mkUmulo t1 t2 = App EQUAL [App BITVECTOR_OR (tmp @ [mul]), mkOne 1]"
      using False t(1) by (simp add: mkUmulo_def Let_def tmp_def top_def mul_def)
    moreover have "eval \<sigma> (App EQUAL [n, mkOne 1]) = VBool (eval \<sigma> n = VBV 1 1)"
      "typeOf n = Some (BitVectorType 1) \<Longrightarrow> typeOf (App EQUAL [n, mkOne 1]) = Some BooleanType" for n
      by simp_all
    ultimately show ?thesis by (simp only: val.inject of_bool_eq_1_iff x_def y_def) simp
  qed
qed

subsection \<open>Properties\<close>

text \<open>C12: the node \<open>mkUmulo\<close> builds is true exactly when the product of its two arguments does
  not fit in their width, for every width whose successor is a width.\<close>

theorem mkUmulo_correct:
  assumes "typeOf t1 = Some (BitVectorType w)" "typeOf t2 = Some (BitVectorType w)" "Suc w < 2 ^ 31" "val_ok \<sigma>"
  shows "typeOf (mkUmulo t1 t2) = Some BooleanType \<and>
    eval \<sigma> (mkUmulo t1 t2) = VBool (2 ^ w \<le> num (eval \<sigma> t1) * num (eval \<sigma> t2))"
  using mkUmulo_sound [OF assms(1,2,4,3)] by simp

theorem mkUmulo_correct_witness:
  "eval zero_val (mkUmulo (mkConst 8 16) (mkConst 8 16)) = VBool True"
  using mkUmulo_correct [of "mkConst 8 16" 8 "mkConst 8 16" zero_val] by simp

text \<open>\<open>flattenAnd\<close> of a non-empty queue of formulas terminates, does not hit the assertion of
  \<open>mkAnd\<close>, and returns a formula equivalent to the conjunction of the queue.\<close>

theorem flattenAnd_correct:
  assumes "queue \<noteq> []" "\<forall>n\<in>set queue. typeOf n = Some BooleanType"
  shows "\<exists>n. flattenAnd nid queue = Inr n \<and> typeOf n = Some BooleanType \<and>
    (\<forall>\<sigma>. val_ok \<sigma> \<longrightarrow> eval \<sigma> n = VBool (\<forall>x\<in>set queue. truth (eval \<sigma> x)))"
  using assms by (rule flattenAnd_sound)

theorem flattenAnd_correct_witness:
  "\<exists>n. flattenAnd (\<lambda>_. 0) [App AND_K [Var 0 BooleanType, App AND_K [Var 1 BooleanType, mkTrue]], Var 2 BooleanType] = Inr n
     \<and> typeOf n = Some BooleanType"
  using flattenAnd_correct [of "[App AND_K [Var 0 BooleanType, App AND_K [Var 1 BooleanType, mkTrue]], Var 2 BooleanType]" "\<lambda>_. 0"]
  by fastforce

text \<open>\<open>mkAnd\<close> and \<open>mkOr\<close>, which drop duplicates and order their arguments, build a formula
  equivalent to the conjunction and to the disjunction of a non-empty list.\<close>

theorem mkAnd_mkOr_correct:
  assumes "xs \<noteq> []" "\<forall>x\<in>set xs. typeOf x = Some BooleanType"
  shows "(\<exists>n. mkAnd nid xs = Inr n \<and> typeOf n = Some BooleanType \<and>
      (\<forall>\<sigma>. val_ok \<sigma> \<longrightarrow> eval \<sigma> n = VBool (\<forall>x\<in>set xs. truth (eval \<sigma> x))))
    \<and> (\<exists>n. mkOr nid xs = Inr n \<and> typeOf n = Some BooleanType \<and>
      (\<forall>\<sigma>. val_ok \<sigma> \<longrightarrow> eval \<sigma> n = VBool (\<exists>x\<in>set xs. truth (eval \<sigma> x))))"
  using mkAnd_sound [OF assms] mkOr_sound [OF assms] by blast

theorem mkAnd_mkOr_correct_witness:
  "\<exists>n. mkOr (\<lambda>_. 0) [mkFalse, mkTrue, mkFalse] = Inr n \<and> typeOf n = Some BooleanType"
  using mkAnd_mkOr_correct [of "[mkFalse, mkTrue, mkFalse]" "\<lambda>_. 0"] by fastforce

text \<open>Sorting the children of a bit-wise node does not change what it denotes, and the
  assertion on the number of children never fails on a typed node.\<close>

theorem mkSortedNode_correct:
  assumes "typeOf (App k cs) = Some T" "k \<in> {BITVECTOR_AND, BITVECTOR_OR, BITVECTOR_XOR}"
  shows "\<exists>n. mkSortedNode nid k cs = Inr n \<and> equiv n (App k cs)"
  using assms by (rule mkSortedNode_equiv)

theorem mkSortedNode_correct_witness:
  "\<exists>n. mkSortedNode (\<lambda>n. if n = mkZero 8 then 0 else 1) BITVECTOR_XOR [Var 0 (BitVectorType 8), mkZero 8] = Inr n
    \<and> equiv n (App BITVECTOR_XOR [Var 0 (BitVectorType 8), mkZero 8])"
  by (rule mkSortedNode_correct [where T = "BitVectorType 8"]) simp_all

text \<open>A constant that \<open>isPow2Const\<close> recognises with result \<open>p\<close> is \<open>2 ^ (p - 1)\<close>, or its
  negation when the flag comes back set, and \<open>p\<close> is at most the width.\<close>

theorem isPow2Const_correct:
  assumes "typeOf n = Some (BitVectorType w)" "isPow2Const n neg = Inr (p, neg')" "p \<noteq> 0"
  shows "n = mkConst w (if neg' then - (2 ^ (p - 1)) else 2 ^ (p - 1)) \<and> p \<le> w"
  using assms by (rule isPow2Const_eq)

theorem isPow2Const_correct_witness:
  "mkConst 8 248 = mkConst 8 (- (2 ^ 3)) \<and> (4::nat) \<le> 8"
  using isPow2Const_correct [of "mkConst 8 248" 8 False 4 True]
  by (simp add: isPow2Const_def mkConst_def bv_isPow2_def isPow2_def popcount.simps scan1.simps bv_neg_def bv_add_def bv_not_def
    mkBitVector_def modByPow2_def bitwiseNot_def Let_def)

text \<open>C13: \<open>eliminateBv2Nat\<close> and \<open>eliminateInt2Bv\<close> replace the two conversions by equivalent
  arithmetic: a sum of weighted bits, and a concatenation of bits read off by remainders.\<close>

theorem conversion_elimination_correct:
  assumes "typeOf (App BITVECTOR_TO_NAT [x]) = Some T" "typeOf (App (INT_TO_BITVECTOR w) [y]) = Some U"
  shows "equiv (eliminateBv2Nat (App BITVECTOR_TO_NAT [x])) (App BITVECTOR_TO_NAT [x])
    \<and> equiv (eliminateInt2Bv (App (INT_TO_BITVECTOR w) [y])) (App (INT_TO_BITVECTOR w) [y])"
  using eliminateBv2Nat_equiv [OF assms(1)] eliminateInt2Bv_equiv [OF assms(2)] by simp

theorem conversion_elimination_correct_witness:
  "equiv (eliminateBv2Nat (App BITVECTOR_TO_NAT [Var 0 (BitVectorType 4)])) (App BITVECTOR_TO_NAT [Var 0 (BitVectorType 4)])"
  using conversion_elimination_correct [of "Var 0 (BitVectorType 4)" IntegerType 4 "ConstInt (-3)" "BitVectorType 4"] by simp

text \<open>C14: the two eliminations are inverse to each other: converting a bit-vector to an integer and
  back, each conversion eliminated, gives its value.\<close>

theorem conversion_roundtrip:
  assumes "typeOf x = Some (BitVectorType w)" "val_ok \<sigma>"
  shows "eval \<sigma> (eliminateInt2Bv (App (INT_TO_BITVECTOR w) [eliminateBv2Nat (App BITVECTOR_TO_NAT [x])])) = eval \<sigma> x"
proof -
  have w: "0 < w" "w < 2147483648" using typeOf_bv_width [OF assms(1)] by auto
  let ?n = "eliminateBv2Nat (App BITVECTOR_TO_NAT [x])"
  have n: "equiv ?n (App BITVECTOR_TO_NAT [x])" using assms(1) by (intro eliminateBv2Nat_equiv) simp
  then have ty: "typeOf ?n = Some IntegerType" using assms(1) by (simp add: equiv_def)
  then have "equiv (eliminateInt2Bv (App (INT_TO_BITVECTOR w) [?n])) (App (INT_TO_BITVECTOR w) [?n])"
    using w by (intro eliminateInt2Bv_equiv) simp
  then have "eval \<sigma> (eliminateInt2Bv (App (INT_TO_BITVECTOR w) [?n])) = eval \<sigma> (App (INT_TO_BITVECTOR w) [?n])"
    using assms(2) by (simp add: equiv_def)
  also have "\<dots> = eval \<sigma> x"
    using n assms by (simp add: equiv_def take_bit_id)
  finally show ?thesis .
qed

theorem conversion_roundtrip_witness:
  "eval zero_val (eliminateInt2Bv (App (INT_TO_BITVECTOR 8) [eliminateBv2Nat (App BITVECTOR_TO_NAT [mkConst 8 200])]))
     = VBV 8 200"
  using conversion_roundtrip [of "mkConst 8 200" 8 zero_val] by simp

end
