(* ===== verification/Sem_Lemmas.thy ===== *)
theory Sem_Lemmas
  imports BV_Utils_Correct
begin

section \<open>Identities between operators\<close>

text \<open>
  The arithmetic behind the rewrite rules: signed operators through absolute values and the
  unsigned ones, the bias that turns signed comparison into unsigned comparison, rotations and
  sign extension as concatenations.
\<close>

unbundle bit_operations_syntax

lemma sem_neg_eq: "0 \<le> x \<Longrightarrow> x < 2 ^ w \<Longrightarrow> sem_neg w x = (if x = 0 then 0 else 2 ^ w - x)"
proof -
  assume x: "0 \<le> x" "x < 2 ^ w"
  have "take_bit w (- x) = take_bit w (2 ^ w - x)"
    by (simp add: take_bit_eq_mod mod_diff_eq [symmetric, of "2 ^ w"]) 
  with x show ?thesis by (cases "x = 0") (auto simp: sem_neg_def take_bit_id)
qed

lemma sem_neg_0_iff: "0 \<le> x \<Longrightarrow> x < 2 ^ w \<Longrightarrow> sem_neg w x = 0 \<longleftrightarrow> x = 0"
  by (simp add: sem_neg_eq)

lemma sem_neg_neg: "0 \<le> x \<Longrightarrow> x < 2 ^ w \<Longrightarrow> sem_neg w (sem_neg w x) = x"
  by (simp add: sem_neg_def take_bit_minus take_bit_id)

definition sem_abs :: "nat \<Rightarrow> int \<Rightarrow> int" where
  "sem_abs w x = (if 2 ^ (w - 1) \<le> x then sem_neg w x else x)"

lemma sem_abs_eq: "0 < w \<Longrightarrow> 0 \<le> x \<Longrightarrow> x < 2 ^ w \<Longrightarrow> sem_abs w x = \<bar>sval w x\<bar>"
  by (auto simp: sem_abs_def sval_eq sem_neg_eq) 

lemma sval_neg_iff: "0 < w \<Longrightarrow> 0 \<le> x \<Longrightarrow> x < 2 ^ w \<Longrightarrow> sval w x < 0 \<longleftrightarrow> 2 ^ (w - 1) \<le> x"
  by (auto simp: sval_eq)

lemma sval_0_iff: "0 < w \<Longrightarrow> 0 \<le> x \<Longrightarrow> x < 2 ^ w \<Longrightarrow> sval w x = 0 \<longleftrightarrow> x = 0"
  by (auto simp: sval_eq)

lemma take_bit_sval: "0 < w \<Longrightarrow> 0 \<le> x \<Longrightarrow> x < 2 ^ w \<Longrightarrow> take_bit w (sval w x) = x"
  by (simp add: sval_def take_bit_signed_take_bit take_bit_id)

lemma sem_abs_range: "0 < w \<Longrightarrow> 0 \<le> x \<Longrightarrow> x < 2 ^ w \<Longrightarrow> 0 \<le> sem_abs w x \<and> sem_abs w x < 2 ^ w"
  by (auto simp: sem_abs_def sem_neg_def)

lemma take_bit_mask_neg: "take_bit w (- mask w) = take_bit w (1::int)"
proof -
  have "take_bit w (- mask w) = take_bit w (1 - 2 ^ w :: int)" by (simp add: mask_int)
  also have "\<dots> = take_bit w 1" by (simp add: take_bit_eq_mod)
  finally show ?thesis .
qed

lemma sdiv_elim:
  assumes w: "0 < w" and x: "0 \<le> x" "x < 2 ^ w" and y: "0 \<le> y" "y < 2 ^ w"
  shows "sem_sdiv w x y = (let q = sem_udiv w (sem_abs w x) (sem_abs w y) in
    if (2 ^ (w - 1) \<le> x) \<noteq> (2 ^ (w - 1) \<le> y) then sem_neg w q else q)"
proof (cases "y = 0")
  case True
  then show ?thesis
    using w x by (auto simp: sem_sdiv_def sem_udiv_def sem_neg_def sem_abs_def sval_neg_iff take_bit_mask_neg)
next
  case False
  define q where "q = \<bar>sval w x\<bar> div \<bar>sval w y\<bar>"
  have q: "0 \<le> q" "q < 2 ^ w"
    using div_range [of "sem_abs w x" "2 ^ w" "sem_abs w y"] sem_abs_range [OF w x] sem_abs_range [OF w y]
    by (simp_all add: q_def sem_abs_eq w x y)
  have y0: "sval w y \<noteq> 0" using False sval_0_iff [OF w y] by simp
  then have udiv: "sem_udiv w (sem_abs w x) (sem_abs w y) = q"
    by (simp add: sem_udiv_def sem_abs_eq w x y q_def)
  have "sval w x sdiv sval w y = (if (sval w x < 0) \<noteq> (sval w y < 0) then - q else q)"
    using y0 by (auto simp: signed_divide_int_def q_def sgn_if)
  then show ?thesis
    using False q by (simp add: sem_sdiv_def udiv sval_neg_iff w x y sem_neg_def take_bit_id)
qed

lemma srem_elim:
  assumes w: "0 < w" and x: "0 \<le> x" "x < 2 ^ w" and y: "0 \<le> y" "y < 2 ^ w"
  shows "sem_srem w x y = (let r = sem_urem w (sem_abs w x) (sem_abs w y) in
    if 2 ^ (w - 1) \<le> x then sem_neg w r else r)"
proof (cases "y = 0")
  case True
  then show ?thesis
    using w x by (auto simp: sem_srem_def sem_urem_def sem_abs_def sem_neg_def take_bit_minus take_bit_id)
next
  case False
  define r where "r = \<bar>sval w x\<bar> mod \<bar>sval w y\<bar>"
  have y0: "sval w y \<noteq> 0" using False sval_0_iff [OF w y] by simp
  then have urem: "sem_urem w (sem_abs w x) (sem_abs w y) = r"
    by (simp add: sem_urem_def sem_abs_eq w x y r_def)
  have r: "0 \<le> r" "r < 2 ^ w" 
    using sem_urem_range [of "sem_abs w x" w "sem_abs w y"] sem_abs_range [OF w x] sem_abs_range [OF w y] urem
    by simp_all
  have "sval w x smod sval w y = (if sval w x < 0 then - r else r)"
    using y0 by (auto simp: signed_modulo_int_def signed_divide_int_def r_def sgn_if minus_div_mult_eq_mod [symmetric] abs_if)
  then show ?thesis
    using False r by (simp add: sem_srem_def urem sval_neg_iff w x y sem_neg_def take_bit_id)
qed

lemma smod_elim:
  assumes w: "0 < w" and x: "0 \<le> x" "x < 2 ^ w" and y: "0 \<le> y" "y < 2 ^ w"
  shows "sem_smod w x y = (let u = sem_urem w (sem_abs w x) (sem_abs w y) in
    if u = 0 then u
    else if x < 2 ^ (w - 1) \<and> y < 2 ^ (w - 1) then u
    else if 2 ^ (w - 1) \<le> x \<and> y < 2 ^ (w - 1) then take_bit w (sem_neg w u + y)
    else if x < 2 ^ (w - 1) \<and> 2 ^ (w - 1) \<le> y then take_bit w (u + y)
    else sem_neg w u)"
proof (cases "y = 0")
  case True
  then show ?thesis
    using w x sem_ranges(1,2) [of w]
    by (auto simp: sem_smod_def sem_urem_def sem_abs_def sem_neg_0_iff sem_neg_neg take_bit_id)
next
  case False
  define a b where "a = sval w x" and "b = sval w y"
  define u where "u = \<bar>a\<bar> mod \<bar>b\<bar>"
  have b0: "b \<noteq> 0" using False sval_0_iff [OF w y] by (simp add: b_def)
  then have urem: "sem_urem w (sem_abs w x) (sem_abs w y) = u"
    by (simp add: sem_urem_def sem_abs_eq w x y u_def a_def b_def)
  have u: "0 \<le> u" "u < 2 ^ w" 
    using sem_urem_range [of "sem_abs w x" w "sem_abs w y"] sem_abs_range [OF w x] sem_abs_range [OF w y] urem
    by simp_all
  have yb: "take_bit w (c + y) = take_bit w (c + b)" for c
    using take_bit_sval [OF w y] by (metis b_def take_bit_add_right)
  have "a mod b = (if u = 0 then 0 else if 0 \<le> a \<and> 0 \<le> b then u else if a < 0 \<and> 0 \<le> b then - u + b
     else if 0 \<le> a \<and> b < 0 then u + b else - u)"
    using zmod_zminus1_eq_if [of "- a" b] zmod_zminus2_eq_if [of a "- b"] by (auto simp: u_def abs_if)
  then have "sem_smod w x y = take_bit w (if u = 0 then 0 else if 0 \<le> a \<and> 0 \<le> b then u else if a < 0 \<and> 0 \<le> b then - u + b
     else if 0 \<le> a \<and> b < 0 then u + b else - u)"
    using False by (simp add: sem_smod_def a_def b_def)
  moreover have "a < 0 \<longleftrightarrow> 2 ^ (w - 1) \<le> x" "b < 0 \<longleftrightarrow> 2 ^ (w - 1) \<le> y"
    by (simp_all add: a_def b_def sval_neg_iff w x y)
  ultimately show ?thesis
    unfolding urem using u yb [of "- u"] by (auto simp: yb sem_neg_def take_bit_id take_bit_add_left not_le [symmetric])
qed


lemma slt_biased:
  assumes "0 < w" "0 \<le> x" "x < 2 ^ w" "0 \<le> y" "y < 2 ^ w"
  shows "sem_slt w x y \<longleftrightarrow> take_bit w (x + 2 ^ (w - 1)) < take_bit w (y + 2 ^ (w - 1))"
proof -
  obtain v where v: "w = Suc v" using assms(1) by (cases w) auto
  have bias: "take_bit w (z + 2 ^ (w - 1)) = sval w z + 2 ^ (w - 1)" if z: "0 \<le> z" "z < 2 ^ w" for z
  proof (cases "z < 2 ^ (w - 1)")
    case True
    then show ?thesis using z by (simp add: sval_eq assms(1) v take_bit_id)
  next
    case False
    then have "take_bit w (z - 2 ^ (w - 1)) = z - 2 ^ (w - 1)" using z by (simp add: take_bit_id v)
    moreover have "take_bit w (z + 2 ^ (w - 1)) = take_bit w (z - 2 ^ (w - 1) + 2 ^ w)" by (simp add: v add.commute)
    moreover have "\<dots> = take_bit w (z - 2 ^ (w - 1))" by (simp add: take_bit_eq_mod)
    ultimately show ?thesis using False z by (simp add: sval_eq assms(1) v)
  qed
  show ?thesis using assms bias [of x] bias [of y] by (simp add: sem_slt_def)
qed

lemma or_and_sum: "(x::int) + y - (x AND y) = x OR y"
  using plus_and_or [of x y] by linarith

lemma xor_or_and: "(x OR y) - (x AND y) = (x XOR (y::int))"
proof -
  have "(x OR y) = (x AND y) OR (x XOR y)" by (rule bit_eqI) (auto simp: bit_simps)
  also have "\<dots> = (x AND y) + (x XOR y)"
    by (rule disjunctive_add [symmetric]) (auto simp: bit_simps)
  finally show ?thesis by simp
qed

lemma not_plus_one: "take_bit w (sem_not w x + 1) = sem_neg w x"
proof -
  have "sem_not w x + 1 = - x + 2 ^ w" by (simp add: sem_not_def mask_int)
  then show ?thesis by (simp add: sem_neg_def take_bit_eq_mod)
qed

lemma plus_neg: "take_bit w (x + sem_neg w y) = sem_sub w x y"
  by (simp add: sem_neg_def sem_sub_def take_bit_add_right)

lemma foldl_cat_replicate: "sum_list (map wd (replicate n v)) = n * wd v"
  by (simp add: sum_list_replicate)

lemma sign_fill: "cat_value (replicate n (VBV 1 (of_bool b))) = (if b then mask n else 0)"
proof (induction n)
  case (Suc n)
  then show ?case by (simp add: sem_concat_def sum_list_replicate push_bit_eq_mult mask_int)
qed simp

lemma high_bit_less: "0 \<le> x \<Longrightarrow> x < 2 ^ w \<Longrightarrow> bit (x::int) i \<Longrightarrow> i < w"
  using high_bits not_le by blast

lemma sign_extend_concat:
  assumes "0 < w" "0 \<le> x" "x < 2 ^ w"
  shows "sem_concat (if bit x (w - 1) then mask n else 0) w x = sem_sign_extend w n x"
proof -
  have "sem_concat (if bit x (w - 1) then mask n else 0) w x = push_bit w (if bit x (w - 1) then mask n else 0) OR x"
    unfolding sem_concat_def
    by (rule disjunctive_add) (use high_bits [OF assms(2,3)] in \<open>auto simp: bit_simps\<close>)
  also have "\<dots> = sem_sign_extend w n x"
  proof (rule bit_eqI)
    fix i
    show "bit (push_bit w (if bit x (w - 1) then mask n else 0) OR x) i = bit (sem_sign_extend w n x) i"
      using assms(1) high_bits [OF assms(2,3), of i]
      by (cases "i = w - 1"; cases "i < w") (auto simp: sem_sign_extend_def sval_def bit_simps min_def not_le)
  qed
  finally show ?thesis .
qed

lemma sign_extend_bits:
  assumes "0 < w" "0 \<le> x" "x < 2 ^ w"
  shows "bit x (w - Suc 0) \<Longrightarrow> sem_concat (mask n) w x = sem_sign_extend w n x"
    "bit x (w - Suc 0) \<Longrightarrow> sem_concat 1 w x = sem_sign_extend w (Suc 0) x"
    "\<not> bit x (w - Suc 0) \<Longrightarrow> sem_sign_extend w n x = x"
  using sign_extend_concat [OF assms, of n] sign_extend_concat [OF assms, of 1]
  by (simp_all add: sem_concat_def)

lemma rotl_extract:
  assumes "0 < k" "k < w" "0 \<le> x" "x < 2 ^ w"
  shows "sem_concat (sem_extract (w - 1 - k) 0 x) k (sem_extract (w - 1) (w - k) x) = take_bit w (push_bit k x) + drop_bit (w - k) x"
proof -
  have "take_bit w (push_bit k x) = push_bit k (take_bit (w - k) x)" by (simp add: take_bit_push_bit)
  moreover have "drop_bit (w - k) x = take_bit k (drop_bit (w - k) x)"
    using assms(2) by (intro bit_eqI) (auto simp: bit_simps dest: high_bit_less [OF assms(3,4)])
  moreover have "w - 1 - k - 0 + 1 = w - k" "w - 1 - (w - k) + 1 = k" using assms by auto
  ultimately show ?thesis by (simp add: sem_concat_def sem_extract_def)
qed

lemma rotr_extract:
  assumes "0 < k" "k < w" "0 \<le> x" "x < 2 ^ w"
  shows "sem_concat (sem_extract (k - 1) 0 x) (w - k) (sem_extract (w - 1) k x) = take_bit w (push_bit (w - k) x) + drop_bit k x"
  using rotl_extract [of "w - k" w x] assms by simp

lemma rot_0:
  "w dvd i \<Longrightarrow> 0 \<le> x \<Longrightarrow> x < 2 ^ w \<Longrightarrow> sem_rotl w i x = x"
  "w dvd i \<Longrightarrow> 0 \<le> x \<Longrightarrow> x < 2 ^ w \<Longrightarrow> sem_rotr w i x = x"
  by (auto simp: sem_rotl_def sem_rotr_def take_bit_id drop_bit_eq_div div_pos_pos_trivial take_bit_push_bit elim!: dvdE)

lemma sign_extend_0: "0 < w \<Longrightarrow> 0 \<le> x \<Longrightarrow> x < 2 ^ w \<Longrightarrow> sem_sign_extend w 0 x = x"
  by (simp add: sem_sign_extend_def take_bit_sval)

lemma sem_concat_0 [simp]: "sem_concat x 0 0 = x" "sem_concat 0 w y = y"
  by (simp_all add: sem_concat_def)

lemma typeOf_width: 
  "typeOf n = Some (BitVectorType w) \<Longrightarrow> 0 < w"
  "typeOf n = Some (BitVectorType w) \<Longrightarrow> w < 2147483648"
  "typeOf n = Some (BitVectorType w) \<Longrightarrow> w - Suc 0 < w"
  using typeOf_bv_width by auto

lemma msb_iff:
  assumes "typeOf a = Some (BitVectorType w)" "val_ok \<sigma>"
  shows "bit (num (eval \<sigma> a)) (w - Suc 0) \<longleftrightarrow> 2 ^ (w - Suc 0) \<le> num (eval \<sigma> a)"
  using bit_top [of "num (eval \<sigma> a)" "w - 1"] typeOf_bv_width [OF assms(1)] assms by simp

end
