(* ===== verification/Rewrite_Rules.thy ===== *)
theory Rewrite_Rules
  imports Sem_Lemmas
begin

section \<open>Rewrite rules and strategies\<close>

text \<open>
  \<open>theory/bv/theory_bv_rewrite_rules.h\<close>: a rewrite rule is a pair of static functions
  \<open>applies\<close> and \<open>apply\<close>, \<open>run\<close> guards one with the other, and two templates combine up
  to twenty rules: \<open>LinearRewriteStrategy\<close> tries each once, in order, and
  \<open>FixpointRewriteStrategy\<close> repeats the pass until it changes nothing. The template
  parameters left at \<open>EmptyRule\<close>, which never applies, are left out of the list. A rule
  is sound when it returns a node of the same type and the same value, for every typed node it
  applies to; the locale \<open>rewrite_strategy\<close> carries soundness from the rules to the
  strategies.
\<close>

subsection \<open>Rules and strategies\<close>

record rule =
  rule_applies :: "node \<Rightarrow> bool"
  rule_apply :: "node \<Rightarrow> node result"

definition RewriteRule_run :: "bool \<Rightarrow> rule \<Rightarrow> node \<Rightarrow> node result" where
  "RewriteRule_run checkApplies r n =
     (if \<not> checkApplies \<or> rule_applies r n then rule_apply r n else Inr n)"

definition EmptyRule :: rule where
  "EmptyRule = \<lparr>rule_applies = (\<lambda>n. False), rule_apply = (\<lambda>n. Inl UnreachableCode)\<rparr>"

fun LinearRewriteStrategy :: "rule list \<Rightarrow> node \<Rightarrow> node result" where
  "LinearRewriteStrategy [] current = Inr current"
| "LinearRewriteStrategy (r # rs) current =
     (if rule_applies r current
      then and_then (RewriteRule_run False r current) (LinearRewriteStrategy rs)
      else LinearRewriteStrategy rs current)"

text \<open>\<open>None\<close>: the loop does not end.\<close>

partial_function (option) FixpointRewriteStrategy :: "rule list \<Rightarrow> node \<Rightarrow> node result option" where
  "FixpointRewriteStrategy rs previous =
     (case LinearRewriteStrategy rs previous of
        Inl e \<Rightarrow> Some (Inl e)
      | Inr current \<Rightarrow>
          if previous \<noteq> current then FixpointRewriteStrategy rs current else Some (Inr current))"

subsection \<open>Soundness\<close>

definition rewrites_to :: "node result \<Rightarrow> ntype \<Rightarrow> node \<Rightarrow> bool" where
  "rewrites_to r T n \<longleftrightarrow> (\<exists>n'. r = Inr n' \<and> typeOf n' = Some T \<and> (\<forall>\<sigma>. val_ok \<sigma> \<longrightarrow> eval \<sigma> n' = eval \<sigma> n))"

definition sound_rule :: "rule \<Rightarrow> bool" where
  "sound_rule r \<longleftrightarrow> (\<forall>n T. typeOf n = Some T \<longrightarrow> rule_applies r n \<longrightarrow> rewrites_to (rule_apply r n) T n)"

lemma rewrites_to_Inr [simp]:
  "rewrites_to (Inr n') T n \<longleftrightarrow> typeOf n' = Some T \<and> (\<forall>\<sigma>. val_ok \<sigma> \<longrightarrow> eval \<sigma> n' = eval \<sigma> n)"
  by (simp add: rewrites_to_def)

lemma rewrites_to_Inl [simp]: "\<not> rewrites_to (Inl e) T n"
  by (simp add: rewrites_to_def)

lemma rewrites_to_equiv: "typeOf n = Some T \<Longrightarrow> rewrites_to r T n \<longleftrightarrow> (\<exists>n'. r = Inr n' \<and> equiv n' n)"
  by (auto simp: rewrites_to_def equiv_def)

text \<open>A rule that looks for a kind with children only fires on applications.\<close>

lemma sound_kind:
  assumes "\<And>n. rule_applies r n \<Longrightarrow> getKind n \<notin> {VARIABLE, CONST_BOOLEAN, CONST_RATIONAL, CONST_BITVECTOR}"
    "\<And>k ts T. typeOf (App k ts) = Some T \<Longrightarrow> rule_applies r (App k ts) \<Longrightarrow> rewrites_to (rule_apply r (App k ts)) T (App k ts)"
  shows "sound_rule r"
  unfolding sound_rule_def
proof (intro allI impI)
  fix n T assume *: "typeOf n = Some T" "rule_applies r n"
  with assms(1) [of n] obtain k ts where "n = App k ts" by (cases n) auto
  with * assms(2) show "rewrites_to (rule_apply r n) T n" by simp
qed

lemma sound_kind_equiv:
  assumes "\<And>n. rule_applies r n \<Longrightarrow> getKind n \<notin> {VARIABLE, CONST_BOOLEAN, CONST_RATIONAL, CONST_BITVECTOR}"
    "\<And>k ts T. typeOf (App k ts) = Some T \<Longrightarrow> rule_applies r (App k ts) \<Longrightarrow>
       \<exists>n'. rule_apply r (App k ts) = Inr n' \<and> equiv n' (App k ts)"
  shows "sound_rule r"
  by (rule sound_kind) (use assms in \<open>auto simp: rewrites_to_equiv\<close>)

lemmas rule_sem = typeOf_width isBitVector_iff is_bv_def Let_def

lemma RewriteRule_run_sound:
  "sound_rule r \<Longrightarrow> typeOf n = Some T \<Longrightarrow> check \<or> rule_applies r n \<Longrightarrow> rewrites_to (RewriteRule_run check r n) T n"
  by (auto simp: RewriteRule_run_def sound_rule_def)

lemma EmptyRule_sound: "sound_rule EmptyRule"
  by (simp add: sound_rule_def EmptyRule_def)

lemma rewrites_to_and_then:
  "rewrites_to r T n \<Longrightarrow> (\<And>m. typeOf m = Some T \<Longrightarrow> rewrites_to (k m) T m) \<Longrightarrow> rewrites_to (and_then r k) T n"
  by (force simp: rewrites_to_def)

subsection \<open>The interface of the strategies\<close>

locale rewrite_strategy =
  fixes rules :: "rule list"
  assumes rules_sound: "r \<in> set rules \<Longrightarrow> sound_rule r"
begin

lemma linear_prefix: "set rs \<subseteq> set rules \<Longrightarrow> typeOf n = Some T \<Longrightarrow> rewrites_to (LinearRewriteStrategy rs n) T n"
proof (induction rs arbitrary: n)
  case (Cons r rs)
  then have "rewrites_to (RewriteRule_run False r n) T n" if "rule_applies r n"
    using that rules_sound by (intro RewriteRule_run_sound) auto
  with Cons show ?case by (auto intro: rewrites_to_and_then)
qed simp

lemma linear_sound: "typeOf n = Some T \<Longrightarrow> rewrites_to (LinearRewriteStrategy rules n) T n"
  using linear_prefix by blast

lemma fixpoint_step:
  assumes IH: "\<And>rs n r. step rs n = Some r \<Longrightarrow> rs = rules \<longrightarrow> typeOf n = Some T \<longrightarrow> rewrites_to r T n"
    and eq: "(case LinearRewriteStrategy rs n of Inl e \<Rightarrow> Some (Inl e)
      | Inr current \<Rightarrow> if n \<noteq> current then step rs current else Some (Inr current)) = Some r"
  shows "rs = rules \<longrightarrow> typeOf n = Some T \<longrightarrow> rewrites_to r T n"
proof (intro impI)
  assume prem: "rs = rules" "typeOf n = Some T"
  then have "rewrites_to (LinearRewriteStrategy rs n) T n" using linear_sound by simp
  then obtain current where c: "LinearRewriteStrategy rs n = Inr current" "typeOf current = Some T"
    "\<forall>\<sigma>. val_ok \<sigma> \<longrightarrow> eval \<sigma> current = eval \<sigma> n"
    by (auto simp: rewrites_to_def)
  show "rewrites_to r T n"
  proof (cases "n = current")
    case True
    with eq c show ?thesis by auto
  next
    case False
    with eq c have "step rs current = Some r" by simp
    from IH [OF this] prem c(2,3) show ?thesis by (auto simp: rewrites_to_def)
  qed
qed

lemma fixpoint_sound:
  assumes "FixpointRewriteStrategy rules n = Some r" "typeOf n = Some T"
  shows "rewrites_to r T n"
proof -
  have "rules = rules \<longrightarrow> typeOf n = Some T \<longrightarrow> rewrites_to r T n"
    by (rule FixpointRewriteStrategy.raw_induct [OF _ assms(1)], rule fixpoint_step)
  with assms(2) show ?thesis by blast
qed

end

end
