(* ===== verification/Rules_OpElim.thy ===== *)
theory Rules_OpElim
  imports Rewrite_Rules
begin

section \<open>Operator elimination\<close>

text \<open>
  \<open>theory_bv_rewrite_rules_operator_elimination.h\<close>: the rules that replace an operator by
  others, among them the definitions of signed division, remainder and modulus by the unsigned
  ones. \<open>bitvectorDivByZeroConst\<close>, an option, is the parameter \<open>dz\<close>. The rules for
  \<open>BITVECTOR_OR\<close> and \<open>BITVECTOR_XOR\<close> read only the first two children of what may be an
  n-ary node.
\<close>

unbundle bit_operations_syntax

definition node_negate :: "node \<Rightarrow> node" where
  "node_negate n = (if getKind n = NOT_K then child n 0 else App NOT_K [n])"

definition NegEliminate :: rule where
  [rule_defs]: "NegEliminate = \<lparr>
    rule_applies = (\<lambda>node. getKind node = BITVECTOR_NEG),
    rule_apply = (\<lambda>node.
      let a = child node 0;
          sz = getSize a;
          one = mkOne sz;
          nota = App BITVECTOR_NOT [a];
          bvadd = App BITVECTOR_PLUS [nota, one]
      in Inr bvadd)\<rparr>"

definition OrEliminate :: rule where
  [rule_defs]: "OrEliminate = \<lparr>
    rule_applies = (\<lambda>node. getKind node = BITVECTOR_OR),
    rule_apply = (\<lambda>node.
      let a = child node 0; b = child node 1;
          bvadd = App BITVECTOR_PLUS [a, b];
          bvand = App BITVECTOR_AND [a, b]
      in Inr (App BITVECTOR_SUB [bvadd, bvand]))\<rparr>"

definition XorEliminate :: rule where
  [rule_defs]: "XorEliminate = \<lparr>
    rule_applies = (\<lambda>node. getKind node = BITVECTOR_XOR),
    rule_apply = (\<lambda>node.
      let a = child node 0; b = child node 1;
          bvor = App BITVECTOR_OR [a, b];
          bvand = App BITVECTOR_AND [a, b]
      in Inr (App BITVECTOR_SUB [bvor, bvand]))\<rparr>"

definition UgtEliminate :: rule where
  [rule_defs]: "UgtEliminate = \<lparr>
    rule_applies = (\<lambda>node. getKind node = BITVECTOR_UGT),
    rule_apply = (\<lambda>node.
      let a = child node 0; b = child node 1 in Inr (App BITVECTOR_ULT [b, a]))\<rparr>"

definition UgeEliminate :: rule where
  [rule_defs]: "UgeEliminate = \<lparr>
    rule_applies = (\<lambda>node. getKind node = BITVECTOR_UGE),
    rule_apply = (\<lambda>node.
      let a = child node 0; b = child node 1 in Inr (App BITVECTOR_ULE [b, a]))\<rparr>"

definition SgtEliminate :: rule where
  [rule_defs]: "SgtEliminate = \<lparr>
    rule_applies = (\<lambda>node. getKind node = BITVECTOR_SGT),
    rule_apply = (\<lambda>node.
      let a = child node 0; b = child node 1 in Inr (App BITVECTOR_SLT [b, a]))\<rparr>"

definition SgeEliminate :: rule where
  [rule_defs]: "SgeEliminate = \<lparr>
    rule_applies = (\<lambda>node. getKind node = BITVECTOR_SGE),
    rule_apply = (\<lambda>node.
      let a = child node 0; b = child node 1 in Inr (App BITVECTOR_SLE [b, a]))\<rparr>"

definition SltEliminate :: rule where
  [rule_defs]: "SltEliminate = \<lparr>
    rule_applies = (\<lambda>node. getKind node = BITVECTOR_SLT),
    rule_apply = (\<lambda>node.
      let sz = getSize (child node 0);
          val = multiplyByPow2 1 (sz - 1);
          pow_two = mkConst sz val;
          a = App BITVECTOR_PLUS [child node 0, pow_two];
          b = App BITVECTOR_PLUS [child node 1, pow_two]
      in Inr (App BITVECTOR_ULT [a, b]))\<rparr>"

definition SleEliminate :: rule where
  [rule_defs]: "SleEliminate = \<lparr>
    rule_applies = (\<lambda>node. getKind node = BITVECTOR_SLE),
    rule_apply = (\<lambda>node.
      let a = child node 0; b = child node 1;
          b_slt_a = App BITVECTOR_SLT [b, a]
      in Inr (App NOT_K [b_slt_a]))\<rparr>"

definition UleEliminate :: rule where
  [rule_defs]: "UleEliminate = \<lparr>
    rule_applies = (\<lambda>node. getKind node = BITVECTOR_ULE),
    rule_apply = (\<lambda>node.
      let a = child node 0; b = child node 1;
          b_ult_a = App BITVECTOR_ULT [b, a]
      in Inr (App NOT_K [b_ult_a]))\<rparr>"

definition CompEliminate :: rule where
  [rule_defs]: "CompEliminate = \<lparr>
    rule_applies = (\<lambda>node. getKind node = BITVECTOR_COMP),
    rule_apply = (\<lambda>node.
      let comp = App EQUAL [child node 0, child node 1];
          one = mkConst 1 1;
          zero = mkConst 1 0
      in Inr (App ITE [comp, one, zero]))\<rparr>"

definition SubEliminate :: rule where
  [rule_defs]: "SubEliminate = \<lparr>
    rule_applies = (\<lambda>node. getKind node = BITVECTOR_SUB),
    rule_apply = (\<lambda>node.
      let negb = App BITVECTOR_NEG [child node 1]; a = child node 0
      in Inr (App BITVECTOR_PLUS [a, negb]))\<rparr>"

definition RepeatEliminate :: rule where
  [rule_defs]: "RepeatEliminate = \<lparr>
    rule_applies = (\<lambda>node. is_REPEAT (getKind node)),
    rule_apply = (\<lambda>node.
      let a = child node 0; amount = d_repeatAmount (getKind node)
      in Assert (amount \<ge> 1)
        (if amount = 1 then Inr a
         else Inr (App BITVECTOR_CONCAT (replicate amount (child node 0)))))\<rparr>"

definition RotateLeftEliminate :: rule where
  [rule_defs]: "RotateLeftEliminate = \<lparr>
    rule_applies = (\<lambda>node. is_ROTATE_LEFT (getKind node)),
    rule_apply = (\<lambda>node.
      let a = child node 0;
          amount = d_rotateLeftAmount (getKind node) mod getSize a
      in if amount = 0 then Inr a
         else let left = mkExtract a (getSize a - 1 - amount) 0;
                  right = mkExtract a (getSize a - 1) (getSize a - amount)
              in Inr (mkConcat2 left right))\<rparr>"

definition RotateRightEliminate :: rule where
  [rule_defs]: "RotateRightEliminate = \<lparr>
    rule_applies = (\<lambda>node. is_ROTATE_RIGHT (getKind node)),
    rule_apply = (\<lambda>node.
      let a = child node 0;
          amount = d_rotateRightAmount (getKind node) mod getSize a
      in if amount = 0 then Inr a
         else let left = mkExtract a (amount - 1) 0;
                  right = mkExtract a (getSize a - 1) amount
              in Inr (mkConcat2 left right))\<rparr>"

definition BVToNatEliminate :: rule where
  [rule_defs]: "BVToNatEliminate = \<lparr>
    rule_applies = (\<lambda>node. getKind node = BITVECTOR_TO_NAT),
    rule_apply = (\<lambda>node. Inr (eliminateBv2Nat node))\<rparr>"

definition IntToBVEliminate :: rule where
  [rule_defs]: "IntToBVEliminate = \<lparr>
    rule_applies = (\<lambda>node. is_INT_TO_BITVECTOR (getKind node)),
    rule_apply = (\<lambda>node. Inr (eliminateInt2Bv node))\<rparr>"

definition NandEliminate :: rule where
  [rule_defs]: "NandEliminate = \<lparr>
    rule_applies = (\<lambda>node. getKind node = BITVECTOR_NAND \<and> getNumChildren node = 2),
    rule_apply = (\<lambda>node.
      let a = child node 0; b = child node 1; andNode = App BITVECTOR_AND [a, b]
      in Inr (App BITVECTOR_NOT [andNode]))\<rparr>"

definition NorEliminate :: rule where
  [rule_defs]: "NorEliminate = \<lparr>
    rule_applies = (\<lambda>node. getKind node = BITVECTOR_NOR \<and> getNumChildren node = 2),
    rule_apply = (\<lambda>node.
      let a = child node 0; b = child node 1; orNode = App BITVECTOR_OR [a, b]
      in Inr (App BITVECTOR_NOT [orNode]))\<rparr>"

definition XnorEliminate :: rule where
  [rule_defs]: "XnorEliminate = \<lparr>
    rule_applies = (\<lambda>node. getKind node = BITVECTOR_XNOR \<and> getNumChildren node = 2),
    rule_apply = (\<lambda>node.
      let a = child node 0; b = child node 1; xorNode = App BITVECTOR_XOR [a, b]
      in Inr (App BITVECTOR_NOT [xorNode]))\<rparr>"

definition SdivEliminate :: "bool \<Rightarrow> rule" where
  [rule_defs]: "SdivEliminate dz = \<lparr>
    rule_applies = (\<lambda>node. getKind node = BITVECTOR_SDIV),
    rule_apply = (\<lambda>node.
      let a = child node 0; b = child node 1; sz = getSize a;
          one = mkConst 1 1;
          a_lt_0 = App EQUAL [mkExtract a (sz - 1) (sz - 1), one];
          b_lt_0 = App EQUAL [mkExtract b (sz - 1) (sz - 1), one];
          abs_a = App ITE [a_lt_0, App BITVECTOR_NEG [a], a];
          abs_b = App ITE [b_lt_0, App BITVECTOR_NEG [b], b];
          a_udiv_b = App (if dz then BITVECTOR_UDIV_TOTAL else BITVECTOR_UDIV) [abs_a, abs_b];
          neg_result = App BITVECTOR_NEG [a_udiv_b];
          condition = App XOR_K [a_lt_0, b_lt_0]
      in Inr (App ITE [condition, neg_result, a_udiv_b]))\<rparr>"

definition SdivEliminateFewerBitwiseOps :: "bool \<Rightarrow> rule" where
  [rule_defs]: "SdivEliminateFewerBitwiseOps dz = \<lparr>
    rule_applies = (\<lambda>node. getKind node = BITVECTOR_SDIV),
    rule_apply = (\<lambda>node.
      let a = child node 0; b = child node 1; sz = getSize a
      in and_then (mkMinSigned sz) (\<lambda>min_signed.
      let a_lt_0 = App BITVECTOR_UGE [a, min_signed];
          b_lt_0 = App BITVECTOR_UGE [b, min_signed];
          abs_a = App ITE [a_lt_0, App BITVECTOR_NEG [a], a];
          abs_b = App ITE [b_lt_0, App BITVECTOR_NEG [b], b];
          a_udiv_b = App (if dz then BITVECTOR_UDIV_TOTAL else BITVECTOR_UDIV) [abs_a, abs_b];
          neg_result = App BITVECTOR_NEG [a_udiv_b]
      in Inr (App ITE [App XOR_K [a_lt_0, b_lt_0], neg_result, a_udiv_b])))\<rparr>"

definition SremEliminate :: "bool \<Rightarrow> rule" where
  [rule_defs]: "SremEliminate dz = \<lparr>
    rule_applies = (\<lambda>node. getKind node = BITVECTOR_SREM),
    rule_apply = (\<lambda>node.
      let a = child node 0; b = child node 1; sz = getSize a;
          one = mkConst 1 1;
          a_lt_0 = App EQUAL [mkExtract a (sz - 1) (sz - 1), one];
          b_lt_0 = App EQUAL [mkExtract b (sz - 1) (sz - 1), one];
          abs_a = App ITE [a_lt_0, App BITVECTOR_NEG [a], a];
          abs_b = App ITE [b_lt_0, App BITVECTOR_NEG [b], b];
          a_urem_b = App (if dz then BITVECTOR_UREM_TOTAL else BITVECTOR_UREM) [abs_a, abs_b];
          neg_result = App BITVECTOR_NEG [a_urem_b]
      in Inr (App ITE [a_lt_0, neg_result, a_urem_b]))\<rparr>"

definition SremEliminateFewerBitwiseOps :: "bool \<Rightarrow> rule" where
  [rule_defs]: "SremEliminateFewerBitwiseOps dz = \<lparr>
    rule_applies = (\<lambda>node. getKind node = BITVECTOR_SREM),
    rule_apply = (\<lambda>node.
      let a = child node 0; b = child node 1; sz = getSize a
      in and_then (mkMinSigned sz) (\<lambda>min_signed.
      let a_lt_0 = App BITVECTOR_UGE [a, min_signed];
          b_lt_0 = App BITVECTOR_UGE [b, min_signed];
          abs_a = App ITE [a_lt_0, App BITVECTOR_NEG [a], a];
          abs_b = App ITE [b_lt_0, App BITVECTOR_NEG [b], b];
          a_urem_b = App (if dz then BITVECTOR_UREM_TOTAL else BITVECTOR_UREM) [abs_a, abs_b];
          neg_result = App BITVECTOR_NEG [a_urem_b]
      in Inr (App ITE [a_lt_0, neg_result, a_urem_b])))\<rparr>"

definition SmodEliminate :: rule where
  [rule_defs]: "SmodEliminate = \<lparr>
    rule_applies = (\<lambda>node. getKind node = BITVECTOR_SMOD),
    rule_apply = (\<lambda>node.
      let s = child node 0; t = child node 1; sz = getSize s;
          msb_s = mkExtract s (sz - 1) (sz - 1);
          msb_t = mkExtract t (sz - 1) (sz - 1);
          bit1 = mkConst 1 1;
          bit0 = mkConst 1 0;
          abs_s = App ITE [App EQUAL [msb_s, bit0], s, App BITVECTOR_NEG [s]];
          abs_t = App ITE [App EQUAL [msb_t, bit0], t, App BITVECTOR_NEG [t]];
          u = App BITVECTOR_UREM [abs_s, abs_t];
          neg_u = App BITVECTOR_NEG [u];
          cond0 = App EQUAL [u, mkConst sz 0];
          cond1 = App AND_K [App EQUAL [msb_s, bit0], App EQUAL [msb_t, bit0]];
          cond2 = App AND_K [App EQUAL [msb_s, bit1], App EQUAL [msb_t, bit0]];
          cond3 = App AND_K [App EQUAL [msb_s, bit0], App EQUAL [msb_t, bit1]]
      in Inr (App ITE [cond0, u,
           App ITE [cond1, u,
             App ITE [cond2, App BITVECTOR_PLUS [neg_u, t],
               App ITE [cond3, App BITVECTOR_PLUS [u, t], neg_u]]]]))\<rparr>"

definition SmodEliminateFewerBitwiseOps :: rule where
  [rule_defs]: "SmodEliminateFewerBitwiseOps = \<lparr>
    rule_applies = (\<lambda>node. getKind node = BITVECTOR_SMOD),
    rule_apply = (\<lambda>node.
      let s = child node 0; t = child node 1; sz = getSize s
      in and_then (mkMinSigned sz) (\<lambda>min_signed.
      let s_lt_0 = App BITVECTOR_UGE [s, min_signed];
          t_lt_0 = App BITVECTOR_UGE [t, min_signed];
          abs_s = App ITE [s_lt_0, App BITVECTOR_NEG [s], s];
          abs_t = App ITE [t_lt_0, App BITVECTOR_NEG [t], t];
          u = App BITVECTOR_UREM [abs_s, abs_t];
          neg_u = App BITVECTOR_NEG [u];
          cond0 = App EQUAL [u, mkConst sz 0];
          cond1 = App AND_K [App NOT_K [s_lt_0], App NOT_K [t_lt_0]];
          cond2 = App AND_K [s_lt_0, App NOT_K [t_lt_0]];
          cond3 = App AND_K [App NOT_K [s_lt_0], t_lt_0]
      in Inr (App ITE [cond0, u,
           App ITE [cond1, u,
             App ITE [cond2, App BITVECTOR_PLUS [neg_u, t],
               App ITE [cond3, App BITVECTOR_PLUS [u, t], neg_u]]]])))\<rparr>"

definition ZeroExtendEliminate :: rule where
  [rule_defs]: "ZeroExtendEliminate = \<lparr>
    rule_applies = (\<lambda>node. is_ZERO_EXTEND (getKind node)),
    rule_apply = (\<lambda>node.
      let amount = d_zeroExtendAmount (getKind node)
      in if amount = 0 then Inr (child node 0)
         else let zero = mkConst amount 0 in Inr (mkConcat2 zero (child node 0)))\<rparr>"

definition SignExtendEliminate :: rule where
  [rule_defs]: "SignExtendEliminate = \<lparr>
    rule_applies = (\<lambda>node. is_SIGN_EXTEND (getKind node)),
    rule_apply = (\<lambda>node.
      let amount = d_signExtendAmount (getKind node)
      in if amount = 0 then Inr (child node 0)
         else let sz = getSize (child node 0);
                  sign_bit = mkExtract (child node 0) (sz - 1) (sz - 1)
              in and_then (mkConcatRepeat sign_bit amount) (\<lambda>extension.
                   Inr (mkConcat2 extension (child node 0))))\<rparr>"

definition RedorEliminate :: rule where
  [rule_defs]: "RedorEliminate = \<lparr>
    rule_applies = (\<lambda>node. getKind node = BITVECTOR_REDOR),
    rule_apply = (\<lambda>node.
      let a = child node 0; sz = getSize (child node 0);
          result = App EQUAL [a, mkConst sz 0]
      in Inr (node_negate result))\<rparr>"

definition RedandEliminate :: rule where
  [rule_defs]: "RedandEliminate = \<lparr>
    rule_applies = (\<lambda>node. getKind node = BITVECTOR_REDAND),
    rule_apply = (\<lambda>node.
      let a = child node 0; sz = getSize (child node 0)
      in and_then (mkOnes sz) (\<lambda>ones. Inr (App EQUAL [a, ones])))\<rparr>"

subsection \<open>Soundness\<close>

lemma compare_elim_sound:
  "sound_rule UgtEliminate" "sound_rule UgeEliminate" "sound_rule SgtEliminate" "sound_rule SgeEliminate"
  "sound_rule SleEliminate" "sound_rule UleEliminate" "sound_rule CompEliminate"
  by (rule sound_kind; auto simp: rule_defs rule_sem sem_sle_def sem_slt_def not_less)+

lemma SltEliminate_sound: "sound_rule SltEliminate"
  by (rule sound_kind; auto simp: rule_defs rule_sem integer_defs take_bit_id slt_biased)

lemma arith_elim_sound:
  "sound_rule NegEliminate" "sound_rule SubEliminate" "sound_rule NandEliminate" "sound_rule NorEliminate"
  "sound_rule XnorEliminate"
  by (rule sound_kind; auto simp: rule_defs rule_sem not_plus_one plus_neg)+

lemma RepeatEliminate_sound: "sound_rule RepeatEliminate"
  by (rule sound_kind; auto simp: rule_defs rule_sem sum_list_replicate)

lemma rotate_concat:
  assumes a: "typeOf a = Some (BitVectorType w)" and k: "0 < k" "k < w"
  shows "rewrites_to (Inr (mkConcat2 (mkExtract a (w - 1 - k) 0) (mkExtract a (w - 1) (w - k)))) (BitVectorType w)
    (App (BITVECTOR_ROTATE_LEFT k) [a])"
proof -
  have "w - 1 - k - 0 + 1 = w - k" "w - 1 - (w - k) + 1 = k" "w - k + k = w" using k by auto
  moreover have "sem_concat (sem_extract (w - 1 - k) 0 x) k (sem_extract (w - 1) (w - k) x) = sem_rotl w k x"
    if "0 \<le> x" "x < 2 ^ w" for x
    using rotl_extract [OF k that] k by (simp add: sem_rotl_def)
  ultimately show ?thesis using a k typeOf_width [OF a] by (simp del: One_nat_def add_Suc_right)
qed

lemma RotateLeftEliminate_sound: "sound_rule RotateLeftEliminate"
proof (rule sound_kind)
  fix k ts T assume *: "typeOf (App k ts) = Some T" "rule_applies RotateLeftEliminate (App k ts)"
  then obtain i a w where n: "k = BITVECTOR_ROTATE_LEFT i" "ts = [a]" "T = BitVectorType w"
      and a: "typeOf a = Some (BitVectorType w)" by (auto simp: rule_defs rule_sem)
  have "eval \<sigma> (App (BITVECTOR_ROTATE_LEFT (i mod w)) [a]) = eval \<sigma> (App (BITVECTOR_ROTATE_LEFT i) [a])" if "val_ok \<sigma>" for \<sigma>
    using a that by (simp add: sem_rotl_def)
  then show "rewrites_to (rule_apply RotateLeftEliminate (App k ts)) T (App k ts)"
    using a typeOf_width [OF a] rotate_concat [OF a, of "i mod w"]
    by (cases "i mod w = 0") (auto simp: rule_defs rule_sem n rot_0 mod_0_imp_dvd)
qed (auto simp: rule_defs rule_sem)

lemma RotateRightEliminate_sound: "sound_rule RotateRightEliminate"
proof (rule sound_kind)
  fix k ts T assume *: "typeOf (App k ts) = Some T" "rule_applies RotateRightEliminate (App k ts)"
  then obtain i a w where n: "k = BITVECTOR_ROTATE_RIGHT i" "ts = [a]" "T = BitVectorType w"
      and a: "typeOf a = Some (BitVectorType w)" by (auto simp: rule_defs rule_sem)
  have w: "0 < w" using typeOf_width [OF a] by simp
  have rr: "sem_rotl w (w - i mod w) x = sem_rotr w i x" if "i mod w \<noteq> 0" for x
    using that w by (simp add: sem_rotl_def sem_rotr_def Let_def)
  have ext: "w - 1 - (w - i mod w) = i mod w - 1" "w - (w - i mod w) = i mod w"
    using w by (simp_all add: order_less_imp_le)
  show "rewrites_to (rule_apply RotateRightEliminate (App k ts)) T (App k ts)"
  proof (cases "i mod w = 0")
    case True
    then show ?thesis using a w by (auto simp: rule_defs rule_sem n rot_0 mod_0_imp_dvd)
  next
    case False
    then show ?thesis
      using a w rotate_concat [OF a, of "w - i mod w", unfolded ext] by (auto simp: rule_defs rule_sem n rr)
  qed
qed (auto simp: rule_defs rule_sem)

lemma BVToNatEliminate_sound: "sound_rule BVToNatEliminate"
proof (rule sound_kind_equiv)
  fix k ts T assume *: "typeOf (App k ts) = Some T" "rule_applies BVToNatEliminate (App k ts)"
  then obtain x where "k = BITVECTOR_TO_NAT" "ts = [x]" by (auto simp: rule_defs)
  with * eliminateBv2Nat_equiv [of x T]
  show "\<exists>n'. rule_apply BVToNatEliminate (App k ts) = Inr n' \<and> equiv n' (App k ts)"
    by (simp add: rule_defs)
qed (simp add: rule_defs)

lemma IntToBVEliminate_sound: "sound_rule IntToBVEliminate"
proof (rule sound_kind_equiv)
  fix k ts T assume *: "typeOf (App k ts) = Some T" "rule_applies IntToBVEliminate (App k ts)"
  then obtain i x where "k = INT_TO_BITVECTOR i" "ts = [x]" by (auto simp: rule_defs)
  with * eliminateInt2Bv_equiv [of i x T]
  show "\<exists>n'. rule_apply IntToBVEliminate (App k ts) = Inr n' \<and> equiv n' (App k ts)"
    by (simp add: rule_defs)
qed (auto simp: rule_defs)

lemmas signed_elim = sdiv_elim srem_elim smod_elim sem_abs_def extract_bit msb_iff not_le
  mkMinSigned_eq take_bit_id plus_neg

lemma SdivEliminate_sound: "sound_rule (SdivEliminate dz)"
  by (rule sound_kind; auto simp: rule_defs rule_sem signed_elim)
lemma SdivEliminateFewerBitwiseOps_sound: "sound_rule (SdivEliminateFewerBitwiseOps dz)"
  by (rule sound_kind; auto simp: rule_defs rule_sem signed_elim)
lemma SremEliminate_sound: "sound_rule (SremEliminate dz)"
  by (rule sound_kind; auto simp: rule_defs rule_sem signed_elim)
lemma SremEliminateFewerBitwiseOps_sound: "sound_rule (SremEliminateFewerBitwiseOps dz)"
  by (rule sound_kind; auto simp: rule_defs rule_sem signed_elim)
lemma SmodEliminate_sound: "sound_rule SmodEliminate"
  by (rule sound_kind; auto simp: rule_defs rule_sem signed_elim)
lemma SmodEliminateFewerBitwiseOps_sound: "sound_rule SmodEliminateFewerBitwiseOps"
  by (rule sound_kind; auto simp: rule_defs rule_sem signed_elim)

lemma RedorEliminate_sound: "sound_rule RedorEliminate"
  by (rule sound_kind; auto simp: rule_defs rule_sem node_negate_def)
lemma RedandEliminate_sound: "sound_rule RedandEliminate"
  by (rule sound_kind; auto simp: rule_defs rule_sem mkOnes_eq)
lemma ZeroExtendEliminate_sound: "sound_rule ZeroExtendEliminate"
  by (rule sound_kind; auto simp: rule_defs rule_sem)
lemma SignExtendEliminate_sound: "sound_rule SignExtendEliminate"
  by (rule sound_kind; auto simp: rule_defs rule_sem sign_extend_0 mkConcatRepeat_def sum_list_replicate extract_bit
    sign_fill [simplified] sign_extend_bits)

text \<open>The two rules that read only two children are sound for binary nodes.\<close>

lemma OrEliminate_binary:
  "typeOf (App BITVECTOR_OR [a, b]) = Some T \<Longrightarrow>
   rewrites_to (rule_apply OrEliminate (App BITVECTOR_OR [a, b])) T (App BITVECTOR_OR [a, b])"
  by (auto simp: rule_defs rule_sem sem_sub_def take_bit_eq_mod mod_simps or_and_sum)

lemma XorEliminate_binary:
  "typeOf (App BITVECTOR_XOR [a, b]) = Some T \<Longrightarrow>
   rewrites_to (rule_apply XorEliminate (App BITVECTOR_XOR [a, b])) T (App BITVECTOR_XOR [a, b])"
  by (auto simp: rule_defs rule_sem sem_sub_def take_bit_eq_mod mod_simps xor_or_and)

subsection \<open>Properties\<close>

lemmas op_elim_sound = compare_elim_sound SltEliminate_sound arith_elim_sound RepeatEliminate_sound
  RotateLeftEliminate_sound RotateRightEliminate_sound BVToNatEliminate_sound IntToBVEliminate_sound
  SdivEliminate_sound SdivEliminateFewerBitwiseOps_sound SremEliminate_sound SremEliminateFewerBitwiseOps_sound
  SmodEliminate_sound SmodEliminateFewerBitwiseOps_sound RedorEliminate_sound RedandEliminate_sound
  ZeroExtendEliminate_sound SignExtendEliminate_sound



text \<open>C8: the rewriting of signed division, remainder and modulus into unsigned operators, in both
  variants of each rule, keeps the value for every sign of the operands and for a zero divisor.\<close>

theorem signed_division_elimination_sound:
  assumes "r \<in> {SdivEliminate dz, SdivEliminateFewerBitwiseOps dz, SremEliminate dz, SremEliminateFewerBitwiseOps dz,
      SmodEliminate, SmodEliminateFewerBitwiseOps}"
    and "typeOf n = Some T" "rule_applies r n"
  shows "\<exists>n'. rule_apply r n = Inr n' \<and> equiv n' n"
proof -
  have "sound_rule r" using assms(1) op_elim_sound by blast
  with assms(2,3) show ?thesis by (auto simp: sound_rule_def rewrites_to_equiv)
qed

theorem signed_division_elimination_sound_witness:
  "\<exists>n'. rule_apply SmodEliminate (App BITVECTOR_SMOD [Var 0 (BitVectorType 8), mkConst 8 249]) = Inr n'
    \<and> equiv n' (App BITVECTOR_SMOD [Var 0 (BitVectorType 8), mkConst 8 249])"
  by (rule signed_division_elimination_sound [where T = "BitVectorType 8"]) (simp_all add: rule_defs)


text \<open>On nodes with two children those two rules are sound.\<close>

theorem or_xor_elimination_binary:
  assumes "typeOf (App k [a, b]) = Some T" "(k, r) \<in> {(BITVECTOR_OR, OrEliminate), (BITVECTOR_XOR, XorEliminate)}"
  shows "\<exists>n'. rule_apply r (App k [a, b]) = Inr n' \<and> equiv n' (App k [a, b])"
  using assms OrEliminate_binary [of a b T] XorEliminate_binary [of a b T]
  by (auto simp: rewrites_to_equiv)

theorem or_xor_elimination_binary_witness:
  "\<exists>n'. rule_apply XorEliminate (App BITVECTOR_XOR [Var 0 (BitVectorType 8), Var 1 (BitVectorType 8)]) = Inr n'
    \<and> equiv n' (App BITVECTOR_XOR [Var 0 (BitVectorType 8), Var 1 (BitVectorType 8)])"
  by (rule or_xor_elimination_binary [where T = "BitVectorType 8"]) simp_all

end
