(* ===== verification/Rules_ConstEval.thy ===== *)
theory Rules_ConstEval
  imports Rewrite_Rules
begin

section \<open>Constant evaluation\<close>

text \<open>
  \<open>theory_bv_rewrite_rules_constant_evaluation.h\<close>: operators applied to constants are
  computed with the class \<open>BitVector\<close>; an exception thrown there is the result of the rule.
  The rules \<open>EvalAnd\<close>, \<open>EvalOr\<close> and \<open>EvalXor\<close> of the file start with
  \<open>Unreachable()\<close> and are not modelled. Soundness includes that no exception is thrown.
\<close>

unbundle bit_operations_syntax

definition const_result :: "BitVector result \<Rightarrow> node result" where
  "const_result r = and_then r (\<lambda>res. Inr (mkConstBV res))"

definition bool_result :: "bool result \<Rightarrow> node \<Rightarrow> node \<Rightarrow> node result" where
  "bool_result r t e = and_then r (\<lambda>b. if b then Inr t else Inr e)"

definition EvalNot :: rule where
  [rule_defs]: "EvalNot = \<lparr>
    rule_applies = (\<lambda>node. getKind node = BITVECTOR_NOT \<and> isBvConstTerm node),
    rule_apply = (\<lambda>node.
      let a = getConstBV (child node 0); res = bv_not a in Inr (mkConstBV res))\<rparr>"

text \<open>The loops over the remaining children.\<close>

fun EvalMult_loop :: "BitVector \<Rightarrow> node list \<Rightarrow> BitVector result" where
  "EvalMult_loop res [] = Inr res"
| "EvalMult_loop res (c # cs) = and_then (bv_mult res (getConstBV c)) (\<lambda>r. EvalMult_loop r cs)"

definition EvalMult :: rule where
  [rule_defs]: "EvalMult = \<lparr>
    rule_applies = (\<lambda>node. getKind node = BITVECTOR_MULT \<and> isBvConstTerm node),
    rule_apply = (\<lambda>node.
      const_result (EvalMult_loop (getConstBV (hd (children node))) (tl (children node))))\<rparr>"

fun EvalPlus_loop :: "BitVector \<Rightarrow> node list \<Rightarrow> BitVector result" where
  "EvalPlus_loop res [] = Inr res"
| "EvalPlus_loop res (c # cs) = and_then (bv_add res (getConstBV c)) (\<lambda>r. EvalPlus_loop r cs)"

definition EvalPlus :: rule where
  [rule_defs]: "EvalPlus = \<lparr>
    rule_applies = (\<lambda>node. getKind node = BITVECTOR_PLUS \<and> isBvConstTerm node),
    rule_apply = (\<lambda>node.
      const_result (EvalPlus_loop (getConstBV (hd (children node))) (tl (children node))))\<rparr>"

definition EvalNeg :: rule where
  [rule_defs]: "EvalNeg = \<lparr>
    rule_applies = (\<lambda>node. getKind node = BITVECTOR_NEG \<and> isBvConstTerm node),
    rule_apply = (\<lambda>node. let a = getConstBV (child node 0) in const_result (bv_neg a))\<rparr>"

definition EvalUdiv :: rule where
  [rule_defs]: "EvalUdiv = \<lparr>
    rule_applies = (\<lambda>node. isBvConstTerm node \<and> (getKind node = BITVECTOR_UDIV_TOTAL \<or>
      getKind node = BITVECTOR_UDIV \<and> isConst (child node 1))),
    rule_apply = (\<lambda>node.
      let a = getConstBV (child node 0); b = getConstBV (child node 1)
      in const_result (unsignedDivTotal a b))\<rparr>"

definition EvalUrem :: rule where
  [rule_defs]: "EvalUrem = \<lparr>
    rule_applies = (\<lambda>node. isBvConstTerm node \<and> (getKind node = BITVECTOR_UREM_TOTAL \<or>
      getKind node = BITVECTOR_UREM \<and> isConst (child node 1))),
    rule_apply = (\<lambda>node.
      let a = getConstBV (child node 0); b = getConstBV (child node 1)
      in const_result (unsignedRemTotal a b))\<rparr>"

definition EvalShl :: rule where
  [rule_defs]: "EvalShl = \<lparr>
    rule_applies = (\<lambda>node. getKind node = BITVECTOR_SHL \<and> isBvConstTerm node),
    rule_apply = (\<lambda>node.
      let a = getConstBV (child node 0); b = getConstBV (child node 1)
      in const_result (leftShift a b))\<rparr>"

definition EvalLshr :: rule where
  [rule_defs]: "EvalLshr = \<lparr>
    rule_applies = (\<lambda>node. getKind node = BITVECTOR_LSHR \<and> isBvConstTerm node),
    rule_apply = (\<lambda>node.
      let a = getConstBV (child node 0); b = getConstBV (child node 1)
      in const_result (logicalRightShift a b))\<rparr>"

definition EvalAshr :: rule where
  [rule_defs]: "EvalAshr = \<lparr>
    rule_applies = (\<lambda>node. getKind node = BITVECTOR_ASHR \<and> isBvConstTerm node),
    rule_apply = (\<lambda>node.
      let a = getConstBV (child node 0); b = getConstBV (child node 1)
      in const_result (arithRightShift a b))\<rparr>"

definition EvalUlt :: rule where
  [rule_defs]: "EvalUlt = \<lparr>
    rule_applies = (\<lambda>node. getKind node = BITVECTOR_ULT \<and> isBvConstTerm node),
    rule_apply = (\<lambda>node.
      let a = getConstBV (child node 0); b = getConstBV (child node 1)
      in bool_result (unsignedLessThan a b) mkTrue mkFalse)\<rparr>"

definition EvalUltBv :: rule where
  [rule_defs]: "EvalUltBv = \<lparr>
    rule_applies = (\<lambda>node. getKind node = BITVECTOR_ULTBV \<and> isBvConstTerm node),
    rule_apply = (\<lambda>node.
      let a = getConstBV (child node 0); b = getConstBV (child node 1)
      in bool_result (unsignedLessThan a b) (mkConst 1 1) (mkConst 1 0))\<rparr>"

definition EvalSlt :: rule where
  [rule_defs]: "EvalSlt = \<lparr>
    rule_applies = (\<lambda>node. getKind node = BITVECTOR_SLT \<and> isBvConstTerm node),
    rule_apply = (\<lambda>node.
      let a = getConstBV (child node 0); b = getConstBV (child node 1)
      in bool_result (signedLessThan a b) mkTrue mkFalse)\<rparr>"

definition EvalSltBv :: rule where
  [rule_defs]: "EvalSltBv = \<lparr>
    rule_applies = (\<lambda>node. getKind node = BITVECTOR_SLTBV \<and> isBvConstTerm node),
    rule_apply = (\<lambda>node.
      let a = getConstBV (child node 0); b = getConstBV (child node 1)
      in bool_result (signedLessThan a b) (mkConst 1 1) (mkConst 1 0))\<rparr>"

definition EvalITEBv :: rule where
  [rule_defs]: "EvalITEBv = \<lparr>
    rule_applies = (\<lambda>node. getKind node = BITVECTOR_ITE \<and> isBvConstTerm node),
    rule_apply = (\<lambda>node.
      if child node 0 = mkConst 1 1 then Inr (child node 1)
      else Assert (child node 0 = mkConst 1 0) (Inr (child node 2)))\<rparr>"

definition EvalUle :: rule where
  [rule_defs]: "EvalUle = \<lparr>
    rule_applies = (\<lambda>node. getKind node = BITVECTOR_ULE \<and> isBvConstTerm node),
    rule_apply = (\<lambda>node.
      let a = getConstBV (child node 0); b = getConstBV (child node 1)
      in bool_result (unsignedLessThanEq a b) mkTrue mkFalse)\<rparr>"

definition EvalSle :: rule where
  [rule_defs]: "EvalSle = \<lparr>
    rule_applies = (\<lambda>node. getKind node = BITVECTOR_SLE \<and> isBvConstTerm node),
    rule_apply = (\<lambda>node.
      let a = getConstBV (child node 0); b = getConstBV (child node 1)
      in bool_result (signedLessThanEq a b) mkTrue mkFalse)\<rparr>"

definition EvalExtract :: rule where
  [rule_defs]: "EvalExtract = \<lparr>
    rule_applies = (\<lambda>node. is_EXTRACT (getKind node) \<and> isBvConstTerm node),
    rule_apply = (\<lambda>node.
      let a = getConstBV (child node 0); lo = getExtractLow node; hi = getExtractHigh node
      in const_result (bv_extract a hi lo))\<rparr>"

fun EvalConcat_loop :: "BitVector \<Rightarrow> node list \<Rightarrow> BitVector" where
  "EvalConcat_loop res [] = res"
| "EvalConcat_loop res (c # cs) = (let a = getConstBV c in EvalConcat_loop (bv_concat res a) cs)"

definition EvalConcat :: rule where
  [rule_defs]: "EvalConcat = \<lparr>
    rule_applies = (\<lambda>node. getKind node = BITVECTOR_CONCAT \<and> isBvConstTerm node),
    rule_apply = (\<lambda>node.
      Inr (mkConstBV (EvalConcat_loop (getConstBV (child node 0)) (tl (children node)))))\<rparr>"

definition EvalSignExtend :: rule where
  [rule_defs]: "EvalSignExtend = \<lparr>
    rule_applies = (\<lambda>node. is_SIGN_EXTEND (getKind node) \<and> isBvConstTerm node),
    rule_apply = (\<lambda>node.
      let a = getConstBV (child node 0); amount = d_signExtendAmount (getKind node);
          res = signExtend a amount
      in Inr (mkConstBV res))\<rparr>"

definition EvalEquals :: rule where
  [rule_defs]: "EvalEquals = \<lparr>
    rule_applies = (\<lambda>node. getKind node = EQUAL \<and> isBvConstTerm node),
    rule_apply = (\<lambda>node.
      let a = getConstBV (child node 0); b = getConstBV (child node 1)
      in if bv_eq a b then Inr mkTrue else Inr mkFalse)\<rparr>"

definition EvalComp :: rule where
  [rule_defs]: "EvalComp = \<lparr>
    rule_applies = (\<lambda>node. getKind node = BITVECTOR_COMP \<and> isBvConstTerm node),
    rule_apply = (\<lambda>node.
      let a = getConstBV (child node 0); b = getConstBV (child node 1)
      in if bv_eq a b then Inr (mkConst 1 1) else Inr (mkConst 1 0))\<rparr>"

subsection \<open>Soundness\<close>

lemma isConst_iff: "typeOf a = Some (BitVectorType w) \<Longrightarrow> isConst a \<longleftrightarrow> (\<exists>b. a = ConstBV b \<and> bv_ok b \<and> d_size b = w)"
  by (cases a) auto

lemma bv_ok_rec: "bv_ok \<lparr>d_size = w, d_value = x\<rparr> \<longleftrightarrow> 0 < w \<and> w < 4294967296 \<and> 0 \<le> x \<and> x < 2 ^ w"
  by (simp add: bv_ok_def)

lemma bv_ok_simps: 
  "bv_ok b \<Longrightarrow> 0 < d_size b" "bv_ok b \<Longrightarrow> 0 \<le> d_value b" "bv_ok b \<Longrightarrow> d_value b < 2 ^ d_size b"
  by (simp_all add: bv_ok_def)

lemmas const_eval = rule_defs rule_sem isBvConstTerm_def isConst_iff const_result_def bool_result_def
  mkConstBV_def bv_ok_rec bv_ok_simps op_ranges

lemma EvalNot_sound: "sound_rule EvalNot"
  by (rule sound_kind; auto simp: const_eval bv_not_sem)

lemma EvalNeg_sound: "sound_rule EvalNeg"
  by (rule sound_kind; auto simp: const_eval bv_neg_sem)

lemma EvalDiv_sound: "sound_rule EvalUdiv" "sound_rule EvalUrem"
  by (rule sound_kind; auto simp: const_eval unsignedDivTotal_sem unsignedRemTotal_sem)+

lemma EvalShift_sound: "sound_rule EvalShl" "sound_rule EvalLshr" "sound_rule EvalAshr"
  by (rule sound_kind; auto simp: const_eval leftShift_sem logicalRightShift_sem arithRightShift_sem)+

lemma EvalCompare_sound:
  "sound_rule EvalUlt" "sound_rule EvalUltBv" "sound_rule EvalSlt" "sound_rule EvalSltBv"
  "sound_rule EvalUle" "sound_rule EvalSle"
  by (rule sound_kind; auto simp: const_eval comparisons_sem)+

lemma EvalComp_sound: "sound_rule EvalComp"
  by (rule sound_kind; auto simp: const_eval bv_eq_def)

lemma EvalITEBv_sound: "sound_rule EvalITEBv"
proof (rule sound_kind)
  fix k ts T assume *: "typeOf (App k ts) = Some T" "rule_applies EvalITEBv (App k ts)"
  then obtain b t e where n: "k = BITVECTOR_ITE" "ts = [ConstBV b, t, e]" and b: "bv_ok b" "d_size b = 1"
      and te: "typeOf t = Some T" "typeOf e = Some T"
    by (auto simp: const_eval)
  then have "d_value b = 0 \<or> d_value b = 1" by (auto simp: bv_ok_def)
  with n b te show "rewrites_to (rule_apply EvalITEBv (App k ts)) T (App k ts)"
    by (auto simp: rule_defs mkConst_def bv_eq_iff bitvector_defs integer_defs)
qed (simp add: rule_defs)

lemma EvalExtract_sound: "sound_rule EvalExtract"
  by (rule sound_kind; auto simp: const_eval util_defs bv_extract_sem; linarith)

lemma EvalSignExtend_sound: "sound_rule EvalSignExtend"
  by (rule sound_kind; auto simp: const_eval signExtend_sem add.commute)

text \<open>\<open>EvalEquals\<close> reads its constants as bit-vectors: the rewriter calls it on those only.\<close>

lemma EvalEquals_sound:
  assumes "typeOf (App EQUAL [a, b]) = Some T" "typeOf a = Some (BitVectorType w)"
    "rule_applies EvalEquals (App EQUAL [a, b])"
  shows "rewrites_to (rule_apply EvalEquals (App EQUAL [a, b])) T (App EQUAL [a, b])"
  using assms by (auto simp: const_eval bv_eq_def)

lemma EvalPlus_loop_sem:
  "bv_ok res \<Longrightarrow> \<forall>c\<in>set cs. isConst c \<and> typeOf c = Some (BitVectorType (d_size res)) \<Longrightarrow>
   \<exists>r. EvalPlus_loop res cs = Inr r \<and> bv_ok r \<and> d_size r = d_size res \<and>
     (\<forall>\<sigma>. d_value r = take_bit (d_size res) (d_value res + foldr (+) (map (num \<circ> eval \<sigma>) cs) 0))"
proof (induction cs arbitrary: res)
  case Nil
  then show ?case by (simp add: bv_ok_def take_bit_id)
next
  case (Cons c cs)
  then obtain b where b: "c = ConstBV b" "bv_ok b" "d_size b = d_size res" by (auto simp: isConst_iff)
  define r where "r = \<lparr>d_size = d_size res, d_value = sem_add (d_size res) (d_value res) (d_value b)\<rparr>"
  have "bv_ok r" using Cons.prems(1) by (simp add: bv_ok_def r_def sem_add_def)
  with Cons.IH [of r] Cons.prems(2) b show ?case
    by (auto simp: bv_add_sem r_def sem_add_def take_bit_add_left add.assoc)
qed

lemma EvalMult_loop_sem:
  "bv_ok res \<Longrightarrow> \<forall>c\<in>set cs. isConst c \<and> typeOf c = Some (BitVectorType (d_size res)) \<Longrightarrow>
   \<exists>r. EvalMult_loop res cs = Inr r \<and> bv_ok r \<and> d_size r = d_size res \<and>
     (\<forall>\<sigma>. d_value r = take_bit (d_size res) (d_value res * foldr (*) (map (num \<circ> eval \<sigma>) cs) 1))"
proof (induction cs arbitrary: res)
  case Nil
  then show ?case by (simp add: bv_ok_def take_bit_id)
next
  case (Cons c cs)
  then obtain b where b: "c = ConstBV b" "bv_ok b" "d_size b = d_size res" by (auto simp: isConst_iff)
  define r where "r = \<lparr>d_size = d_size res, d_value = sem_mul (d_size res) (d_value res) (d_value b)\<rparr>"
  have "bv_ok r" using Cons.prems(1) by (simp add: bv_ok_def r_def sem_mul_def)
  moreover have "take_bit w (take_bit w x * y) = take_bit w (x * (y::int))" for w x y
    by (simp add: take_bit_eq_mod mod_simps)
  ultimately show ?case using Cons.IH [of r] Cons.prems(2) b
    by (auto simp: bv_mult_sem r_def sem_mul_def mult.assoc)
qed

lemma EvalArith_sound: "sound_rule EvalPlus" "sound_rule EvalMult"
proof -
  have *: "rewrites_to (rule_apply EvalPlus (App BITVECTOR_PLUS ts)) T (App BITVECTOR_PLUS ts)"
     "rewrites_to (rule_apply EvalMult (App BITVECTOR_MULT ts)) T (App BITVECTOR_MULT ts)"
    if ts: "2 \<le> length ts" "isBitVector T" "\<forall>t\<in>set ts. typeOf t = Some T" "\<forall>t\<in>set ts. isConst t" for ts T
  proof -
    obtain t ts' where t: "ts = t # ts'" using ts(1) by (cases ts) auto
    obtain w where w: "T = BitVectorType w" using ts(2) by (auto simp: isBitVector_iff)
    obtain b where b: "t = ConstBV b" "bv_ok b" "d_size b = w" "w < 2147483648"
      using ts t w by (auto simp: isConst_iff typeOf_width)
    show "rewrites_to (rule_apply EvalPlus (App BITVECTOR_PLUS ts)) T (App BITVECTOR_PLUS ts)"
     "rewrites_to (rule_apply EvalMult (App BITVECTOR_MULT ts)) T (App BITVECTOR_MULT ts)"
      using EvalPlus_loop_sem [of b ts'] EvalMult_loop_sem [of b ts'] b ts t w
      by (auto simp: rule_defs const_result_def mkConstBV_def o_def)
  qed
  show "sound_rule EvalPlus"
    by (rule sound_kind) (auto simp: isBvConstTerm_def EvalPlus_def split: if_splits intro!: *(1) [unfolded EvalPlus_def, simplified])
  show "sound_rule EvalMult"
    by (rule sound_kind) (auto simp: isBvConstTerm_def EvalMult_def split: if_splits intro!: *(2) [unfolded EvalMult_def, simplified])
qed

lemma EvalConcat_loop_sem:
  "bv_ok res \<Longrightarrow> \<forall>c\<in>set cs. isConst c \<and> is_bv c \<Longrightarrow> d_size res + sum_list (map getSize cs) < 2147483648 \<Longrightarrow>
   let r = EvalConcat_loop res cs; n = sum_list (map getSize cs) in
     bv_ok r \<and> d_size r = d_size res + n \<and>
     (\<forall>\<sigma>. d_value r = sem_concat (d_value res) n (cat_value (map (eval \<sigma>) cs)) \<and> sum_list (map (wd \<circ> eval \<sigma>) cs) = n)"
proof (induction cs arbitrary: res)
  case (Cons c cs)
  then obtain b where b: "c = ConstBV b" "bv_ok b" "d_size b < 2147483648" by (auto simp: isConst_iff is_bv_def)
  define r where "r = \<lparr>d_size = d_size res + d_size b, d_value = sem_concat (d_value res) (d_size b) (d_value b)\<rparr>"
  have "bv_ok r"
    using Cons.prems(1,3) b sem_concat_range [of "d_value res" "d_size res" "d_value b" "d_size b"]
    by (simp add: bv_ok_def r_def)
  with Cons.IH [of r] Cons.prems b show ?case
    by (simp add: bv_concat_sem r_def Let_def sem_concat_def push_bit_add push_bit_push_bit add.assoc)
       (simp add: add.commute o_def)
qed (simp add: Let_def)

lemma EvalConcat_sound: "sound_rule EvalConcat"
proof (rule sound_kind)
  fix k ts T assume *: "typeOf (App k ts) = Some T" "rule_applies EvalConcat (App k ts)"
  then have k: "k = BITVECTOR_CONCAT" by (simp add: rule_defs)
  with * obtain t ts' where ts: "ts = t # ts'" by (cases ts) auto
  with * k obtain b where b: "t = ConstBV b" "bv_ok b" "d_size b < 2147483648"
    by (auto simp: rule_defs isBvConstTerm_def is_bv_def isConst_iff)
  show "rewrites_to (rule_apply EvalConcat (App k ts)) T (App k ts)"
    using EvalConcat_loop_sem [of b ts'] * b ts k
    by (auto simp: rule_defs isBvConstTerm_def Let_def mkConstBV_def o_def)
qed (simp add: rule_defs)

subsection \<open>Properties\<close>

lemmas const_eval_sound = EvalNot_sound EvalNeg_sound EvalDiv_sound EvalShift_sound EvalCompare_sound EvalComp_sound
  EvalITEBv_sound EvalExtract_sound EvalSignExtend_sound EvalArith_sound EvalConcat_sound

text \<open>C11: constant evaluation of a typed node never throws (no width mismatch reaches the class
  \<open>BitVector\<close>) and returns a node that denotes the same value; for the operators without a Boolean
  result that node is a constant.\<close>

theorem constant_evaluation_sound:
  assumes "r \<in> {EvalNot, EvalNeg, EvalMult, EvalPlus, EvalUdiv, EvalUrem, EvalShl, EvalLshr, EvalAshr, EvalUlt,
      EvalUltBv, EvalSlt, EvalSltBv, EvalITEBv, EvalUle, EvalSle, EvalExtract, EvalConcat, EvalSignExtend, EvalComp}"
    and "typeOf n = Some T" "rule_applies r n"
  shows "\<exists>n'. rule_apply r n = Inr n' \<and> equiv n' n"
proof -
  have "sound_rule r" using assms(1) const_eval_sound by blast
  with assms(2,3) show ?thesis by (auto simp: sound_rule_def rewrites_to_equiv)
qed

theorem constant_evaluation_sound_witness:
  "\<exists>n'. rule_apply EvalAshr (App BITVECTOR_ASHR [mkConst 8 200, mkConst 8 3]) = Inr n'
    \<and> equiv n' (App BITVECTOR_ASHR [mkConst 8 200, mkConst 8 3])"
  by (rule constant_evaluation_sound [where T = "BitVectorType 8"]) (simp_all add: rule_defs isBvConstTerm_def mkConst_def bv_ok_def mkBitVector_def modByPow2_def)

text \<open>An equality of two bit-vector constants evaluates to its truth value.\<close>

theorem EvalEquals_correct:
  assumes "typeOf (App EQUAL [a, b]) = Some T" "typeOf a = Some (BitVectorType w)"
    "rule_applies EvalEquals (App EQUAL [a, b])"
  shows "rule_apply EvalEquals (App EQUAL [a, b]) = Inr (if a = b then mkTrue else mkFalse)"
  using assms by (auto simp: const_eval bv_eq_def mkTrue_def mkFalse_def)

theorem EvalEquals_correct_witness:
  "rule_apply EvalEquals (App EQUAL [mkConst 8 3, mkConst 8 259]) = Inr mkTrue"
  using EvalEquals_correct [of "mkConst 8 3" "mkConst 8 259" BooleanType 8]
  by (simp add: rule_defs isBvConstTerm_def mkConst_def mkBitVector_def modByPow2_def bv_ok_def bv_eq_def)

end
