(* ===== verification/Rules_Core.thy ===== *)
theory Rules_Core
  imports Rewrite_Rules
begin

section \<open>Core rules\<close>

text \<open>
  \<open>theory_bv_rewrite_rules_core.h\<close>: the rules of the core theory of concatenation,
  extraction and equality. A work stack whose back is the top is a list whose head is the top;
  the variables of a loop are the arguments of a recursive function, and a vector filled with
  \<open>push_back\<close> is its last argument or its result. \<open>ExtractConcat\<close> stores unsigned
  widths and indices in \<open>int\<close> variables (\<open>to_int\<close>).
\<close>

unbundle bit_operations_syntax

definition to_int :: "nat \<Rightarrow> int" where
  "to_int n = sint (word_of_nat n :: 32 word)"

lemma to_int_small: "n < 2147483648 \<Longrightarrow> to_int n = int n"
  by (simp add: to_int_def signed_of_nat signed_take_bit_int_eq_self)

function ConcatFlatten_loop :: "node list \<Rightarrow> node list" where
  "ConcatFlatten_loop [] = []"
| "ConcatFlatten_loop (current # processing_stack) =
     (if getKind current = BITVECTOR_CONCAT
      then ConcatFlatten_loop (children current @ processing_stack)
      else current # ConcatFlatten_loop processing_stack)"
  by pat_completeness auto

lemma size_concat_children: "getKind n = BITVECTOR_CONCAT \<Longrightarrow> size_list size (children n) < size n"
  by (cases n) auto

termination ConcatFlatten_loop
  by (relation "measure (size_list size)") (auto dest: size_concat_children)

definition ConcatFlatten :: rule where
  [rule_defs]: "ConcatFlatten = \<lparr>
    rule_applies = (\<lambda>node. getKind node = BITVECTOR_CONCAT),
    rule_apply = (\<lambda>node. Inr (App BITVECTOR_CONCAT (ConcatFlatten_loop [node])))\<rparr>"

fun ConcatExtractMerge_loop ::
  "node \<Rightarrow> bool \<Rightarrow> nat \<Rightarrow> nat \<Rightarrow> node list \<Rightarrow> node list \<Rightarrow> node list" where
  "ConcatExtractMerge_loop current mergeStarted currentHigh currentLow [] mergedExtracts =
     (if \<not> mergeStarted then mergedExtracts @ [current]
      else mergedExtracts @ [mkExtract (child current 0) currentHigh currentLow])"
| "ConcatExtractMerge_loop current mergeStarted currentHigh currentLow (next # rest) mergedExtracts =
     (if \<not> is_EXTRACT (getKind current)
      then ConcatExtractMerge_loop next mergeStarted currentHigh currentLow rest (mergedExtracts @ [current])
      else
        let (high, low) = (if \<not> mergeStarted then (getExtractHigh current, getExtractLow current)
                           else (currentHigh, currentLow));
            merged = (is_EXTRACT (getKind next) \<and> child current 0 = child next 0 \<and>
                      getExtractHigh next + 1 = low)
        in if merged
           then ConcatExtractMerge_loop current True high (getExtractLow next) rest mergedExtracts
           else ConcatExtractMerge_loop next False high low rest
             (mergedExtracts @
               [if \<not> mergeStarted then current else mkExtract (child current 0) high low]))"

definition ConcatExtractMerge :: rule where
  [rule_defs]: "ConcatExtractMerge = \<lparr>
    rule_applies = (\<lambda>node. getKind node = BITVECTOR_CONCAT),
    rule_apply = (\<lambda>node.
      Inr (mkConcat (ConcatExtractMerge_loop (child node 0) False 0 0 (tl (children node)) [])))\<rparr>"

function ConcatConstantMerge_loop :: "node list \<Rightarrow> node list" where
  "ConcatConstantMerge_loop [] = []"
| "ConcatConstantMerge_loop (n # ns) =
     (if getKind n \<noteq> CONST_BITVECTOR then n # ConcatConstantMerge_loop ns
      else let consts = takeWhile (\<lambda>m. getKind m = CONST_BITVECTOR) ns;
               rest = dropWhile (\<lambda>m. getKind m = CONST_BITVECTOR) ns;
               current = foldl (\<lambda>c m. bv_concat c (getConstBV m)) (getConstBV n) consts
           in mkConstBV current # ConcatConstantMerge_loop rest)"
  by pat_completeness auto

termination ConcatConstantMerge_loop
  by (relation "measure length") (auto simp: length_dropWhile_le le_imp_less_Suc)

definition ConcatConstantMerge :: rule where
  [rule_defs]: "ConcatConstantMerge = \<lparr>
    rule_applies = (\<lambda>node. getKind node = BITVECTOR_CONCAT),
    rule_apply = (\<lambda>node. Inr (mkConcat (ConcatConstantMerge_loop (children node))))\<rparr>"

definition ExtractWhole :: rule where
  [rule_defs]: "ExtractWhole = \<lparr>
    rule_applies = (\<lambda>node.
      if \<not> is_EXTRACT (getKind node) then False
      else let len = getSize (child node 0); extractHigh = getExtractHigh node
           in if extractHigh \<noteq> len - 1 then False
              else let extractLow = getExtractLow node in extractLow = 0),
    rule_apply = (\<lambda>node. Inr (child node 0))\<rparr>"

definition ExtractConstant :: rule where
  [rule_defs]: "ExtractConstant = \<lparr>
    rule_applies = (\<lambda>node. is_EXTRACT (getKind node) \<and> getKind (child node 0) = CONST_BITVECTOR),
    rule_apply = (\<lambda>node.
      let childValue = getConstBV (child node 0)
      in and_then (bv_extract childValue (getExtractHigh node) (getExtractLow node))
           (\<lambda>b. Inr (mkConstBV b)))\<rparr>"

text \<open>The loop runs over the children from the last one; its result is in \<open>push_back\<close> order.\<close>

fun ExtractConcat_loop :: "node list \<Rightarrow> int \<Rightarrow> int \<Rightarrow> node list" where
  "ExtractConcat_loop [] extract_high extract_low = []"
| "ExtractConcat_loop (concatChild # cs) extract_high extract_low =
     (if extract_high \<ge> 0 then
        let concatChildSize = to_int (getSize concatChild);
            extract_start = (if extract_low < 0 then 0 else extract_low);
            extract_end = (if extract_high < concatChildSize then extract_high else concatChildSize - 1);
            rest = ExtractConcat_loop cs (extract_high - concatChildSize) (extract_low - concatChildSize)
        in if extract_low < concatChildSize
           then mkExtract concatChild (nat extract_end) (nat extract_start) # rest
           else rest
      else [])"

definition ExtractConcat :: rule where
  [rule_defs]: "ExtractConcat = \<lparr>
    rule_applies = (\<lambda>node. is_EXTRACT (getKind node) \<and> getKind (child node 0) = BITVECTOR_CONCAT),
    rule_apply = (\<lambda>node.
      let extract_high = to_int (getExtractHigh node);
          extract_low = to_int (getExtractLow node);
          concat = child node 0;
          resultChildren = ExtractConcat_loop (rev (children concat)) extract_high extract_low
      in Inr (mkConcat (rev resultChildren)))\<rparr>"

definition ExtractExtract :: rule where
  [rule_defs]: "ExtractExtract = \<lparr>
    rule_applies = (\<lambda>node. is_EXTRACT (getKind node) \<and> is_EXTRACT (getKind (child node 0))),
    rule_apply = (\<lambda>node.
      let c = child node 0; k = getExtractHigh node; l = getExtractLow node; j = getExtractLow c
      in Inr (mkExtract (child c 0) (k + j) (l + j)))\<rparr>"

definition FailEq :: rule where
  [rule_defs]: "FailEq = \<lparr>
    rule_applies = (\<lambda>node. getKind node = EQUAL \<and> getKind (child node 0) = CONST_BITVECTOR \<and>
      getKind (child node 1) = CONST_BITVECTOR \<and> child node 0 \<noteq> child node 1),
    rule_apply = (\<lambda>node. Inr mkFalse)\<rparr>"

definition SimplifyEq :: rule where
  [rule_defs]: "SimplifyEq = \<lparr>
    rule_applies = (\<lambda>node. getKind node = EQUAL \<and> child node 0 = child node 1),
    rule_apply = (\<lambda>node. Inr mkTrue)\<rparr>"

definition ReflexivityEq :: "(node \<Rightarrow> nat) \<Rightarrow> rule" where
  [rule_defs]: "ReflexivityEq nid = \<lparr>
    rule_applies = (\<lambda>node. getKind node = EQUAL \<and> nid (child node 0) < nid (child node 1)),
    rule_apply = (\<lambda>node. Inr (App EQUAL [child node 1, child node 0]))\<rparr>"

subsection \<open>Concatenations as lists of parts\<close>

text \<open>Two lists of bit-vector terms that denote the same concatenation.\<close>

definition same_parts :: "node list \<Rightarrow> node list \<Rightarrow> bool" where
  "same_parts xs ys \<longleftrightarrow> (\<forall>x\<in>set xs. is_bv x) \<longrightarrow> (\<forall>y\<in>set ys. is_bv y) \<and>
     sum_list (map getSize ys) = sum_list (map getSize xs) \<and>
     (\<forall>\<sigma>. val_ok \<sigma> \<longrightarrow> cat_value (map (eval \<sigma>) ys) = cat_value (map (eval \<sigma>) xs))"

lemma wd_getSize: "is_bv x \<Longrightarrow> val_ok \<sigma> \<Longrightarrow> wd (eval \<sigma> x) = getSize x"
  by (auto simp: is_bv_def)

lemma sum_wd: "\<forall>x\<in>set xs. is_bv x \<Longrightarrow> val_ok \<sigma> \<Longrightarrow> sum_list (map (\<lambda>x. wd (eval \<sigma> x)) xs) = sum_list (map getSize xs)"
  by (induction xs) (auto simp: wd_getSize)

lemma same_parts_refl [simp]: "same_parts xs xs"
  by (simp add: same_parts_def)

lemma same_parts_trans: "same_parts xs ys \<Longrightarrow> same_parts ys zs \<Longrightarrow> same_parts xs zs"
  unfolding same_parts_def by presburger

lemma same_parts_append:
  assumes "same_parts xs xs'" "same_parts ys ys'"
  shows "same_parts (xs @ ys) (xs' @ ys')"
  unfolding same_parts_def
proof (intro impI)
  assume "\<forall>x\<in>set (xs @ ys). is_bv x"
  then have xs: "\<forall>x\<in>set xs. is_bv x" and ys: "\<forall>y\<in>set ys. is_bv y" by auto
  note X = assms(1) [unfolded same_parts_def, THEN mp, OF xs]
    and Y = assms(2) [unfolded same_parts_def, THEN mp, OF ys]
  have cat: "cat_value (map (eval \<sigma>) (xs' @ ys')) = cat_value (map (eval \<sigma>) (xs @ ys))" if \<sigma>: "val_ok \<sigma>" for \<sigma>
  proof -
    have "sum_list (map wd (map (eval \<sigma>) ys')) = sum_list (map wd (map (eval \<sigma>) ys))"
      using sum_wd [OF ys \<sigma>] sum_wd [OF conjunct1 [OF Y] \<sigma>] conjunct1 [OF conjunct2 [OF Y]] by (simp add: o_def)
    moreover have "cat_value (map (eval \<sigma>) xs') = cat_value (map (eval \<sigma>) xs)"
      "cat_value (map (eval \<sigma>) ys') = cat_value (map (eval \<sigma>) ys)"
      using X Y \<sigma> by blast+
    ultimately show ?thesis by (simp only: map_append cat_value_append)
  qed
  show "(\<forall>y\<in>set (xs' @ ys'). is_bv y) \<and>
    sum_list (map getSize (xs' @ ys')) = sum_list (map getSize (xs @ ys)) \<and>
    (\<forall>\<sigma>. val_ok \<sigma> \<longrightarrow> cat_value (map (eval \<sigma>) (xs' @ ys')) = cat_value (map (eval \<sigma>) (xs @ ys)))"
  proof (intro conjI allI impI cat)
    show "\<forall>y\<in>set (xs' @ ys'). is_bv y" unfolding set_append ball_Un using X Y by blast
    show "sum_list (map getSize (xs' @ ys')) = sum_list (map getSize (xs @ ys))"
      unfolding map_append sum_list_append using X Y by argo
  qed
qed

lemma mkConcat_sound:
  assumes "typeOf (App BITVECTOR_CONCAT xs) = Some T" "same_parts xs ys" "ys \<noteq> []"
  shows "rewrites_to (Inr (mkConcat ys)) T (App BITVECTOR_CONCAT xs)"
proof (cases "length ys > 1")
  case True
  with assms sum_wd [of xs] sum_wd [of ys] show ?thesis
    by (auto simp: mkConcat_def same_parts_def o_def)
next
  case False
  with assms(3) obtain y where y: "ys = [y]" by (cases ys) auto
  with assms obtain w where "typeOf y = Some (BitVectorType w)" by (auto simp: same_parts_def is_bv_def)
  with y assms sum_wd [of xs] show ?thesis
    by (auto simp: mkConcat_def same_parts_def o_def)
qed

subsection \<open>Soundness\<close>

lemma Eq_sound: "sound_rule FailEq" "sound_rule SimplifyEq" "sound_rule (ReflexivityEq nid)"
proof -
  have c: "getKind a = CONST_BITVECTOR \<Longrightarrow> typeOf a = Some T \<Longrightarrow> \<exists>b. a = ConstBV b \<and> T = BitVectorType (d_size b)" for a T
    by (cases a) auto
  show "sound_rule FailEq"
    by (rule sound_kind) (auto simp: rule_defs bv_eq_iff dest!: c)
  show "sound_rule SimplifyEq" "sound_rule (ReflexivityEq nid)"
    by (rule sound_kind; auto simp: rule_defs)+
qed

lemma ExtractConstant_sound: "sound_rule ExtractConstant"
proof (rule sound_kind)
  fix k ts T assume *: "typeOf (App k ts) = Some T" "rule_applies ExtractConstant (App k ts)"
  then obtain high low a where n: "k = BITVECTOR_EXTRACT high low" "ts = [a]" by (auto simp: rule_defs)
  with * obtain b where b: "a = ConstBV b" "bv_ok b" "low \<le> high" "high < d_size b" "d_size b < 2147483648"
    by (cases a) (auto simp: rule_defs)
  with * n show "rewrites_to (rule_apply ExtractConstant (App k ts)) T (App k ts)"
    using sem_ranges(15,16) [of high low "d_value b"]
    by (auto simp: rule_defs bv_extract_sem mkConstBV_def bv_ok_def util_defs)
qed (auto simp: rule_defs)

lemma extract_whole: "0 < w \<Longrightarrow> 0 \<le> x \<Longrightarrow> x < 2 ^ w \<Longrightarrow> sem_extract (w - Suc 0) 0 x = x"
  by (simp add: sem_extract_def take_bit_id)

lemma ExtractWhole_sound: "sound_rule ExtractWhole"
  by (rule sound_kind; auto simp: rule_defs rule_sem util_defs extract_whole split: if_splits)

lemma extract_extract: "l \<le> k \<Longrightarrow> k \<le> i - j \<Longrightarrow> sem_extract k l (sem_extract i j x) = sem_extract (k + j) (l + j) x"
  by (rule bit_eqI) (auto simp: sem_extract_def bit_simps ac_simps)

lemma ExtractExtract_sound: "sound_rule ExtractExtract"
proof (rule sound_kind)
  fix n k ts T assume *: "typeOf (App k ts) = Some T" "rule_applies ExtractExtract (App k ts)"
  then obtain k' l a i j b where n: "k = BITVECTOR_EXTRACT k' l" "ts = [a]" "a = App (BITVECTOR_EXTRACT i j) b" 
    by (auto simp: rule_defs elim!: getKind.elims)
  with * show "rewrites_to (rule_apply ExtractExtract (App k ts)) T (App k ts)"
    by (auto simp: rule_defs util_defs extract_extract)
qed (auto simp: rule_defs)

lemma concat_node: "getKind n = BITVECTOR_CONCAT \<Longrightarrow> is_bv n \<Longrightarrow> \<exists>ts. n = App BITVECTOR_CONCAT ts \<and> 2 \<le> length ts \<and> (\<forall>t\<in>set ts. is_bv t)"
  by (cases n) (auto simp: is_bv_def)

lemma same_parts_single_concat:
  "typeOf (App BITVECTOR_CONCAT ts) = Some T \<Longrightarrow> same_parts [App BITVECTOR_CONCAT ts] ts"
  by (auto simp: same_parts_def)

lemma ConcatFlatten_parts: "same_parts ns (ConcatFlatten_loop ns)"
proof (induction ns rule: ConcatFlatten_loop.induct)
  case (2 c ns)
  show ?case
  proof (cases "getKind c = BITVECTOR_CONCAT")
    case True
    have "same_parts (c # ns) (children c @ ns)"
    proof (cases "is_bv c")
      case c: True
      then obtain ts T where "c = App BITVECTOR_CONCAT ts" "typeOf c = Some T" 
        using concat_node [OF True] by (auto simp: is_bv_def)
      then have "same_parts [c] (children c)" using same_parts_single_concat by simp
      then show ?thesis using same_parts_append [of "[c]" "children c" ns ns] by simp
    qed (simp add: same_parts_def)
    with 2(1) [OF True] True show ?thesis using same_parts_trans by simp
  next
    case False
    with 2(2) [OF False] show ?thesis using same_parts_append [of "[c]" "[c]"] by simp
  qed
qed simp

lemma ConcatFlatten_length: "\<forall>n\<in>set ns. is_bv n \<Longrightarrow> length ns \<le> length (ConcatFlatten_loop ns)"
proof (induction ns rule: ConcatFlatten_loop.induct)
  case (2 c ns)
  show ?case
  proof (cases "getKind c = BITVECTOR_CONCAT")
    case True
    then obtain ts where "c = App BITVECTOR_CONCAT ts" "2 \<le> length ts" "\<forall>t\<in>set ts. is_bv t"
      using concat_node 2(3) by force
    with 2(1) [OF True] 2(3) True show ?thesis by (auto simp: ball_Un)
  next
    case False
    with 2(2,3) show ?thesis by simp
  qed
qed simp

lemma ConcatFlatten_sound: "sound_rule ConcatFlatten"
proof (rule sound_kind)
  fix k ts T assume *: "typeOf (App k ts) = Some T" "rule_applies ConcatFlatten (App k ts)"
  then have k: "k = BITVECTOR_CONCAT" by (simp add: rule_defs)
  define ys where "ys = ConcatFlatten_loop ts"
  have ys': "ConcatFlatten_loop [App k ts] = ys" using k by (simp add: ys_def)
  have ys: "same_parts ts ys" "length ts \<le> length ys"
    using * k ConcatFlatten_parts [of ts] ConcatFlatten_length [of ts] by (auto simp: ys_def)
  have "rule_apply ConcatFlatten (App BITVECTOR_CONCAT ts) = Inr (mkConcat ys)"
    using ys' ys * k by (auto simp: rule_defs mkConcat_def)
  with mkConcat_sound [of ts T ys] ys * k show "rewrites_to (rule_apply ConcatFlatten (App k ts)) T (App k ts)"
    by (metis One_nat_def length_0_conv le_zero_eq not_numeral_le_zero typeOf_concat)
qed (simp add: rule_defs)

lemma bit_sem_extract: "bit (sem_extract high low x) i \<longleftrightarrow> i < high - low + 1 \<and> bit x (low + i)"
  by (simp add: sem_extract_def bit_simps)

lemma bit_sem_concat: "0 \<le> y \<Longrightarrow> y < 2 ^ n \<Longrightarrow> bit (sem_concat x n y) i \<longleftrightarrow> (if i < n then bit y i else bit x (i - n))"
proof -
  assume y: "0 \<le> y" "y < 2 ^ n"
  then have bits: "bit y j \<Longrightarrow> j < n" for j
    by (metis bit_take_bit_iff take_bit_int_eq_self)
  have "sem_concat x n y = push_bit n x OR y"
    unfolding sem_concat_def by (rule disjunctive_add) (auto simp: bit_push_bit_iff dest: bits)
  then show ?thesis using bits by (auto simp: bit_simps)
qed

lemma concat_extracts: "low \<le> mid \<Longrightarrow> mid < high \<Longrightarrow> 0 \<le> x \<Longrightarrow>
  sem_concat (sem_extract high (Suc mid) x) (mid - low + 1) (sem_extract mid low x) = sem_extract high low x"
proof -
  assume *: "low \<le> mid" "mid < high" "0 \<le> x"
  define n where "n = mid - low + 1"
  have "0 \<le> sem_extract mid low x" "sem_extract mid low x < 2 ^ n"
    unfolding sem_extract_def n_def by (rule take_bit_nonnegative, rule take_bit_int_less_exp)
  then have "sem_concat (sem_extract high (Suc mid) x) n (sem_extract mid low x) = sem_extract high low x"
    using * by (intro bit_eqI) (auto simp: bit_sem_concat bit_sem_extract n_def add.commute)
  then show ?thesis by (simp add: n_def)
qed

lemma merge_extracts:
  assumes "is_bv (mkExtract b high (Suc mid))" "is_bv (mkExtract b mid low)"
  shows "same_parts (mkExtract b high (Suc mid) # mkExtract b mid low # xs) (mkExtract b high low # xs)"
proof -
  obtain w where b: "typeOf b = Some (BitVectorType w)" "high < w" "mid < high" "low \<le> mid"
    using assms by (auto simp: is_bv_def)
  have "same_parts [mkExtract b high (Suc mid), mkExtract b mid low] [mkExtract b high low]"
    using b concat_extracts [of low mid high] by (simp add: same_parts_def is_bv_def add.commute)
  then show ?thesis using same_parts_append [OF _ same_parts_refl [of xs]] by fastforce
qed

text \<open>The extract under construction, as a term.\<close>

definition pending :: "node \<Rightarrow> bool \<Rightarrow> nat \<Rightarrow> nat \<Rightarrow> node" where
  "pending current started high low = (if \<not> started then current else mkExtract (child current 0) high low)"

lemma extract_node: "is_EXTRACT (getKind n) \<Longrightarrow> is_bv n \<Longrightarrow>
  n = mkExtract (child n 0) (getExtractHigh n) (getExtractLow n)"
  by (cases n) (auto simp: is_bv_def util_defs)

lemma ExtractMerge_parts:
  "(started \<longrightarrow> is_EXTRACT (getKind current)) \<Longrightarrow> is_bv (pending current started high low) \<Longrightarrow>
   \<forall>n\<in>set ns. is_bv n \<Longrightarrow>
   \<exists>ys. ConcatExtractMerge_loop current started high low ns acc = acc @ ys \<and> ys \<noteq> [] \<and>
     same_parts (pending current started high low # ns) ys"
proof (induction ns arbitrary: current started high low acc)
  case Nil
  then show ?case by (auto simp: pending_def)
next
  case (Cons n ns)
  show ?case
  proof (cases "is_EXTRACT (getKind current)")
    case False
    then have "\<not> started" using Cons.prems by simp
    with Cons.IH [of False n 0 0 "acc @ [current]"] Cons.IH [of started n high low "acc @ [current]"] Cons.prems False
    obtain ys where ys: "ConcatExtractMerge_loop n started high low ns (acc @ [current]) = (acc @ [current]) @ ys"
      "same_parts (n # ns) ys" by (auto simp: pending_def)
    then show ?thesis
      using \<open>\<not> started\<close> False same_parts_append [of "[current]" "[current]" "n # ns" ys] by (auto simp: pending_def)
  next
    case True
    define h l where "h = (if \<not> started then getExtractHigh current else high)"
      and "l = (if \<not> started then getExtractLow current else low)"
    have pend: "pending current started high low = mkExtract (child current 0) h l"
      using True Cons.prems(2) extract_node [of current] by (auto simp: pending_def h_def l_def)
    show ?thesis
    proof (cases "is_EXTRACT (getKind n) \<and> child current 0 = child n 0 \<and> getExtractHigh n + 1 = l")
      case merged: True
      have n: "n = mkExtract (child current 0) (getExtractHigh n) (getExtractLow n)"
        using merged Cons.prems(3) extract_node [of n] by auto
      define low' where "low' = getExtractLow n"
      have step: "ConcatExtractMerge_loop current started high low (n # ns) acc =
        ConcatExtractMerge_loop current True h low' ns acc"
        using True merged by (auto simp: h_def l_def low'_def)
      have l: "l = Suc (getExtractHigh n)" using merged by simp
      have bv: "is_bv (mkExtract (child current 0) h (Suc (getExtractHigh n)))"
        "is_bv (mkExtract (child current 0) (getExtractHigh n) low')"
        using Cons.prems(2,3) pend l n by (auto simp: low'_def)
      have parts: "same_parts (mkExtract (child current 0) h l # n # ns) (mkExtract (child current 0) h low' # ns)"
        unfolding l using merge_extracts [OF bv, of ns] n by (simp add: low'_def)
      have "is_bv (mkExtract (child current 0) h low')"
        using bv by (auto simp: is_bv_def)
      then obtain ys where "ConcatExtractMerge_loop current True h low' ns acc = acc @ ys" "ys \<noteq> []"
         "same_parts (mkExtract (child current 0) h low' # ns) ys"
        using Cons.IH [of True current h low' acc] Cons.prems True by (auto simp: pending_def)
      then show ?thesis using step same_parts_trans [OF parts] pend by auto
    next
      case False
      have step: "ConcatExtractMerge_loop current started high low (n # ns) acc =
        ConcatExtractMerge_loop n False h l ns (acc @ [pending current started high low])"
        using True False by (auto simp: h_def l_def pending_def)
      then show ?thesis
        using Cons.IH [of False n h l "acc @ [pending current started high low]"] Cons.prems
          same_parts_append [of "[pending current started high low]" "[pending current started high low]" "n # ns"]
        by (auto simp: pending_def [of n])
    qed
  qed
qed

lemma ConcatExtractMerge_sound: "sound_rule ConcatExtractMerge"
proof (rule sound_kind)
  fix k ts T assume *: "typeOf (App k ts) = Some T" "rule_applies ConcatExtractMerge (App k ts)"
  then have k: "k = BITVECTOR_CONCAT" by (simp add: rule_defs)
  with * obtain t ts' where ts: "ts = t # ts'" "is_bv t" "\<forall>n\<in>set ts'. is_bv n" by (cases ts) auto
  from ts ExtractMerge_parts [of False t 0 0 ts' "[]"] obtain ys where
    "ConcatExtractMerge_loop t False 0 0 ts' [] = ys" "ys \<noteq> []" "same_parts ts ys"
    by (auto simp: pending_def)
  with mkConcat_sound [of ts T ys] * k ts
  show "rewrites_to (rule_apply ConcatExtractMerge (App k ts)) T (App k ts)" by (simp add: rule_defs)
qed (simp add: rule_defs)

subsection \<open>Merging constants\<close>

lemma const_node: "getKind n = CONST_BITVECTOR \<Longrightarrow> is_bv n \<Longrightarrow> \<exists>b. n = ConstBV b \<and> bv_ok b \<and> d_size b < 2147483648"
  by (cases n) (auto simp: is_bv_def)

lemma const_fold:
  "bv_ok b \<Longrightarrow> \<forall>m\<in>set ms. getKind m = CONST_BITVECTOR \<and> is_bv m \<Longrightarrow>
   d_size b + sum_list (map getSize ms) < 2147483648 \<Longrightarrow>
   let c = foldl (\<lambda>c m. bv_concat c (getConstBV m)) b ms in
     bv_ok c \<and> d_size c = d_size b + sum_list (map getSize ms) \<and> same_parts (ConstBV b # ms) [ConstBV c]"
proof (induction ms arbitrary: b)
  case (Cons m ms)
  then obtain d where d: "m = ConstBV d" "bv_ok d" "d_size d < 2147483648" using const_node by force
  define e where "e = bv_concat b d"
  have e: "e = \<lparr>d_size = d_size b + d_size d, d_value = sem_concat (d_value b) (d_size d) (d_value d)\<rparr>" "bv_ok e"
    using Cons.prems d sem_concat_range [of "d_value b" "d_size b" "d_value d" "d_size d"]
    by (auto simp: e_def bv_concat_sem bv_ok_def)
  have "same_parts [ConstBV b, ConstBV d] [ConstBV e]"
    using e Cons.prems d by (auto simp: same_parts_def is_bv_def)
  then have "same_parts (ConstBV b # m # ms) (ConstBV e # ms)"
    using same_parts_append [OF _ same_parts_refl [of ms]] d by fastforce
  with Cons.IH [of e] Cons.prems d e same_parts_trans show ?case
    by (auto simp: Let_def simp flip: e_def)
qed (simp add: Let_def)

lemma ConstantMerge_parts:
  "sum_list (map getSize ns) < 2147483648 \<Longrightarrow> \<forall>n\<in>set ns. is_bv n \<Longrightarrow> same_parts ns (ConcatConstantMerge_loop ns)"
proof (induction ns rule: ConcatConstantMerge_loop.induct)
  case (2 n ns)
  show ?case
  proof (cases "getKind n = CONST_BITVECTOR")
    case False
    with 2 same_parts_append [of "[n]" "[n]" ns] show ?thesis by auto
  next
    case True
    define P where "P = (\<lambda>m. getKind m = CONST_BITVECTOR)"
    define cs rest where "cs = takeWhile P ns" and "rest = dropWhile P ns"
    have ns: "ns = cs @ rest" by (simp add: cs_def rest_def)
    obtain b where b: "n = ConstBV b" "bv_ok b" "d_size b < 2147483648" using True 2 const_node by force
    define c where "c = foldl (\<lambda>c m. bv_concat c (getConstBV m)) b cs"
    have "\<forall>m\<in>set cs. getKind m = CONST_BITVECTOR" unfolding cs_def P_def by (metis set_takeWhileD)
    with 2(3,4) ns b have c: "same_parts (n # cs) [ConstBV c]"
      using const_fold [of b cs] by (auto simp: Let_def c_def)
    have step: "ConcatConstantMerge_loop (n # ns) = ConstBV c # ConcatConstantMerge_loop rest"
      using True b by (simp add: Let_def c_def cs_def rest_def P_def mkConstBV_def)
    have "same_parts rest (ConcatConstantMerge_loop rest)"
      using 2(2) [OF _ cs_def [unfolded P_def] rest_def [unfolded P_def]] True 2(3,4) ns by auto
    from same_parts_append [OF c this] show ?thesis unfolding step using ns by simp
  qed
qed simp

lemma ConcatConstantMerge_sound: "sound_rule ConcatConstantMerge"
proof (rule sound_kind)
  fix k ts T assume *: "typeOf (App k ts) = Some T" "rule_applies ConcatConstantMerge (App k ts)"
  then have k: "k = BITVECTOR_CONCAT" by (simp add: rule_defs)
  with * obtain t ts' where "ts = t # ts'" by (cases ts) auto
  then have "ConcatConstantMerge_loop ts \<noteq> []" by (simp add: Let_def)
  with mkConcat_sound [of ts T "ConcatConstantMerge_loop ts"] ConstantMerge_parts [of ts] * k
  show "rewrites_to (rule_apply ConcatConstantMerge (App k ts)) T (App k ts)" by (simp add: rule_defs)
qed (simp add: rule_defs)


subsection \<open>Extracting from a concatenation\<close>

lemma getSize_pos: "is_bv c \<Longrightarrow> 0 < getSize c"
  by (auto simp: is_bv_def dest: typeOf_bv_width)

lemma eval_bv_value: "is_bv c \<Longrightarrow> val_ok \<sigma> \<Longrightarrow>
   \<exists>x. eval \<sigma> c = VBV (getSize c) x \<and> 0 \<le> x \<and> x < 2 ^ getSize c"
  by (auto simp: is_bv_def)

lemma extract_low_part:
  "0 \<le> x \<Longrightarrow> x < 2 ^ s \<Longrightarrow> b \<le> e \<Longrightarrow> e < s \<Longrightarrow>
   sem_extract e b x = take_bit (e - b + 1) (drop_bit b (sem_concat X s x))"
  by (rule bit_eqI) (auto simp: bit_sem_extract bit_sem_concat bit_take_bit_iff bit_drop_bit_eq)

lemma extract_across:
  assumes x: "0 \<le> x" "x < 2 ^ s" and b: "b < s" "s \<le> h"
  shows "sem_concat (take_bit (h - s + 1) X) (s - 1 - b + 1) (sem_extract (s - 1) b x) =
    take_bit (h - b + 1) (drop_bit b (sem_concat X s x))"
proof (rule bit_eqI)
  fix n
  define k where "k = s - 1 - b + 1"
  then have k: "s = b + k" "0 < k" using b by auto
  have "0 \<le> sem_extract (s - 1) b x" "sem_extract (s - 1) b x < 2 ^ k"
    unfolding sem_extract_def k_def by (rule take_bit_nonnegative, rule take_bit_int_less_exp)
  then have L: "bit (sem_concat (take_bit (h - s + 1) X) k (sem_extract (s - 1) b x)) n \<longleftrightarrow>
      (if n < k then bit x (b + n) else n - k < h - s + 1 \<and> bit X (n - k))"
    using k by (simp add: bit_sem_concat bit_sem_extract bit_take_bit_iff)
  have R: "bit (take_bit (h - b + 1) (drop_bit b (sem_concat X s x))) n \<longleftrightarrow>
      n < h - b + 1 \<and> (if b + n < s then bit x (b + n) else bit X (b + n - s))"
    using bit_sem_concat [OF x] by (simp add: bit_take_bit_iff bit_drop_bit_eq)
  show "bit (sem_concat (take_bit (h - s + 1) X) (s - 1 - b + 1) (sem_extract (s - 1) b x)) n \<longleftrightarrow>
      bit (take_bit (h - b + 1) (drop_bit b (sem_concat X s x))) n"
    unfolding k_def [symmetric] L R using k b by auto
qed

lemma ExtractConcat_parts:
  assumes "val_ok \<sigma>"
  shows "\<forall>c\<in>set cs. is_bv c \<Longrightarrow> sum_list (map getSize cs) < 2147483648 \<Longrightarrow>
     hi < int (sum_list (map getSize cs)) \<Longrightarrow> lo \<le> hi \<Longrightarrow>
     (\<forall>y\<in>set (ExtractConcat_loop cs hi lo). is_bv y) \<and>
     sum_list (map getSize (ExtractConcat_loop cs hi lo)) = nat (hi - max 0 lo + 1) \<and>
     cat_value (map (eval \<sigma>) (rev (ExtractConcat_loop cs hi lo))) =
       take_bit (nat (hi - max 0 lo + 1)) (drop_bit (nat lo) (cat_value (map (eval \<sigma>) (rev cs))))"
proof (induction cs arbitrary: hi lo)
  case (Cons c cs)
  show ?case
  proof (cases "0 \<le> hi")
    case False
    with Cons.prems show ?thesis by simp
  next
    case True
    define s where "s = getSize c"
    obtain x where x: "eval \<sigma> c = VBV s x" "0 \<le> x" "x < 2 ^ s"
      using eval_bv_value [OF _ assms, of c] Cons.prems by (auto simp: s_def)
    have size: "to_int (getSize c) = int s" using Cons.prems by (simp add: to_int_small s_def)
    define R X where "R = ExtractConcat_loop cs (hi - int s) (lo - int s)"
      and "X = cat_value (map (eval \<sigma>) (rev cs))"
    have IH: "\<forall>y\<in>set R. is_bv y" "sum_list (map getSize R) = nat (hi - int s - max 0 (lo - int s) + 1)"
      "cat_value (map (eval \<sigma>) (rev R)) =
         take_bit (nat (hi - int s - max 0 (lo - int s) + 1)) (drop_bit (nat (lo - int s)) X)"
      using Cons.IH [of "hi - int s" "lo - int s"] Cons.prems by (auto simp: R_def X_def s_def)
    have cat: "cat_value (map (eval \<sigma>) (rev (c # cs))) = sem_concat X s x"
      using x by (simp add: cat_value_append X_def)
    show ?thesis
    proof (cases "lo < int s")
      case False
      then have "ExtractConcat_loop (c # cs) hi lo = R" using True by (simp add: size R_def Let_def)
      moreover have "take_bit (nat (hi - int s - max 0 (lo - int s) + 1)) (drop_bit (nat (lo - int s)) X) =
        take_bit (nat (hi - max 0 lo + 1)) (drop_bit (nat lo) (sem_concat X s x))"
        using False x by (intro bit_eqI) (auto simp: bit_simps bit_sem_concat max_def nat_diff_distrib)
      ultimately show ?thesis using IH False cat by (auto simp: max_def)
    next
      case lo: True
      define b e where "b = nat (max 0 lo)" and "e = nat (min hi (int s - 1))"
      have be: "b \<le> e" "e < s" using lo True Cons.prems getSize_pos [of c] by (auto simp: b_def e_def s_def)
      have eq: "ExtractConcat_loop (c # cs) hi lo = mkExtract c e b # R"
        using True lo by (auto simp: size R_def Let_def b_def e_def min_def max_def intro!: arg_cong2 [where f = "mkExtract c"])
      have cT: "typeOf c = Some (BitVectorType s)" using Cons.prems by (auto simp: is_bv_def s_def)
      then have bv: "is_bv (mkExtract c e b)" and ev: "eval \<sigma> (mkExtract c e b) = VBV (e - b + 1) (sem_extract e b x)"
        and sz: "getSize (mkExtract c e b) = e - b + 1"
        using be x by (auto simp: is_bv_def)
      have "sem_concat (cat_value (map (eval \<sigma>) (rev R))) (e - b + 1) (sem_extract e b x) =
        take_bit (nat (hi - max 0 lo + 1)) (drop_bit (nat lo) (sem_concat X s x))"
      proof (cases "hi < int s")
        case True
        then have "e = nat hi" "nat lo = b" "nat (hi - max 0 lo + 1) = e - b + 1"
          using \<open>0 \<le> hi\<close> Cons.prems by (auto simp: e_def b_def max_def nat_add_distrib nat_diff_distrib)
        then show ?thesis unfolding IH(3) using True lo extract_low_part [OF x(2,3) be] by simp
      next
        case False
        define h where "h = nat hi"
        then have hs: "hi = int h" "s \<le> h" "e = s - 1" using False be by (auto simp: e_def)
        have idx: "nat (hi - int s - max 0 (lo - int s) + 1) = h - s + 1" "nat (lo - int s) = 0"
          "nat lo = b" "nat (hi - max 0 lo + 1) = h - b + 1"
          using hs be lo by (auto simp: b_def max_def nat_add_distrib nat_diff_distrib)
        show ?thesis unfolding IH(3) idx using extract_across [OF x(2,3), of b h X] be hs by simp
      qed
      moreover have "sum_list (map getSize (mkExtract c e b # R)) = nat (hi - max 0 lo + 1)"
      proof -
        have "e - b + 1 + nat (hi - int s - max 0 (lo - int s) + 1) = nat (hi - max 0 lo + 1)"
        proof (cases "hi < int s")
          case True
          then show ?thesis using be lo \<open>0 \<le> hi\<close> Cons.prems(4)
            by (auto simp: b_def e_def max_def min_def nat_add_distrib nat_diff_distrib)
        next
          case False
          then have "e = s - 1" "int b = max 0 lo" using be by (auto simp: b_def e_def)
          then show ?thesis using be lo False by auto
        qed
        then show ?thesis using IH(2) sz by (simp only: list.map sum_list.Cons)
      qed
      ultimately show ?thesis unfolding eq cat using IH(1) bv ev
        by (simp add: cat_value_append)
    qed
  qed
qed simp


lemma val_ok_exists: "\<exists>\<sigma>. val_ok \<sigma>"
  by (rule exI [of _ "\<lambda>_ T. case T of BooleanType \<Rightarrow> VBool False | IntegerType \<Rightarrow> VInt 0 | BitVectorType w \<Rightarrow> VBV w 0"])
     (auto simp: val_ok_def split: ntype.splits)

lemma sum_list_map_rev: "sum_list (map f (rev xs)) = sum_list (map f xs)" for f :: "'a \<Rightarrow> nat"
  by (induction xs) auto

lemma rewrites_to_mkConcat:
  assumes "T = BitVectorType w" "w < 2147483648" "0 < w" "\<forall>y\<in>set ys. is_bv y" "sum_list (map getSize ys) = w"
    "\<And>\<sigma>. val_ok \<sigma> \<Longrightarrow> eval \<sigma> n = VBV w (cat_value (map (eval \<sigma>) ys))"
  shows "rewrites_to (Inr (mkConcat ys)) T n"
proof (cases "length ys > 1")
  case True
  with assms sum_wd [of ys] show ?thesis by (auto simp: mkConcat_def o_def)
next
  case False
  with assms obtain y where "ys = [y]" by (cases ys) auto
  with assms show ?thesis by (auto simp: mkConcat_def is_bv_def)
qed

lemma ExtractConcat_sound: "sound_rule ExtractConcat"
proof (rule sound_kind)
  fix k ts T assume *: "typeOf (App k ts) = Some T" "rule_applies ExtractConcat (App k ts)"
  then obtain hi lo a where k: "k = BITVECTOR_EXTRACT hi lo" "ts = [a]" "getKind a = BITVECTOR_CONCAT"
    by (auto simp: rule_defs)
  with * have a: "is_bv a" "lo \<le> hi" "hi < getSize a" "getSize a < 2147483648" "T = BitVectorType (hi - lo + 1)"
    by (auto simp: is_bv_def dest: typeOf_bv_width)
  obtain cs where cs: "a = App BITVECTOR_CONCAT cs" "\<forall>c\<in>set cs. is_bv c" "getSize a = sum_list (map getSize cs)"
    using concat_node [OF k(3) a(1)] a(1) by (auto simp: is_bv_def)
  define R where "R = ExtractConcat_loop (rev cs) (int hi) (int lo)"
  have width: "nat (int hi - int lo + 1) = hi - lo + 1" using a by simp
  have parts: "(\<forall>y\<in>set (rev R). is_bv y) \<and> sum_list (map getSize (rev R)) = hi - lo + 1 \<and>
      cat_value (map (eval \<sigma>) (rev R)) = sem_extract hi lo (cat_value (map (eval \<sigma>) cs))" if "val_ok \<sigma>" for \<sigma>
    using ExtractConcat_parts [OF that, of "rev cs" "int hi" "int lo"] a cs width
    by (simp add: R_def sem_extract_def sum_list_map_rev)
  then have R: "\<forall>y\<in>set (rev R). is_bv y" "sum_list (map getSize (rev R)) = hi - lo + 1" using val_ok_exists by blast+
  have "eval \<sigma> (App k ts) = VBV (hi - lo + 1) (cat_value (map (eval \<sigma>) (rev R)))" if "val_ok \<sigma>" for \<sigma>
    using parts [OF that] k cs by simp
  from rewrites_to_mkConcat [OF a(5) _ _ R this]
  have "rewrites_to (Inr (mkConcat (rev R))) T (App k ts)" using a by simp
  then show "rewrites_to (rule_apply ExtractConcat (App k ts)) T (App k ts)"
    using k a cs by (simp add: rule_defs util_defs to_int_small R_def)
qed (auto simp: rule_defs)

subsection \<open>Properties\<close>

lemmas core_sound = Eq_sound ExtractConstant_sound ExtractWhole_sound ExtractExtract_sound ExtractConcat_sound
  ConcatFlatten_sound ConcatExtractMerge_sound ConcatConstantMerge_sound

text \<open>C10: the core rules on concatenations, extractions and equalities return, for every typed
  node they match, a node of the same type and value: flattening nested concatenations, merging
  neighbouring extracts and constants, and pushing an extraction into a concatenation, whose
  indices the code keeps in signed integers.\<close>

theorem core_rules_sound:
  assumes "r \<in> {ConcatFlatten, ConcatExtractMerge, ConcatConstantMerge, ExtractWhole, ExtractConstant, ExtractConcat,
      ExtractExtract, FailEq, SimplifyEq, ReflexivityEq nid}"
    and "typeOf n = Some T" "rule_applies r n"
  shows "\<exists>n'. rule_apply r n = Inr n' \<and> equiv n' n"
proof -
  have "sound_rule r" using assms(1) core_sound by blast
  with assms(2,3) show ?thesis by (auto simp: sound_rule_def rewrites_to_equiv)
qed

theorem core_rules_sound_witness:
  "\<exists>n'. rule_apply ExtractConcat (App (BITVECTOR_EXTRACT 9 3) [App BITVECTOR_CONCAT [Var 0 (BitVectorType 4), Var 1 (BitVectorType 8)]]) = Inr n'
    \<and> equiv n' (App (BITVECTOR_EXTRACT 9 3) [App BITVECTOR_CONCAT [Var 0 (BitVectorType 4), Var 1 (BitVectorType 8)]])"
  by (rule core_rules_sound [where T = "BitVectorType 7"]) (simp_all add: rule_defs is_bv_def getSize_def)

text \<open>Flattening a concatenation ends with no concatenation among the parts, whatever the
  nesting, and the loop over the processing stack terminates.\<close>

theorem ConcatFlatten_flat: "x \<in> set (ConcatFlatten_loop ns) \<Longrightarrow> getKind x \<noteq> BITVECTOR_CONCAT"
  by (induction ns rule: ConcatFlatten_loop.induct) (auto split: if_splits)

theorem ConcatFlatten_flat_witness: "getKind (Var 0 (BitVectorType 4)) \<noteq> BITVECTOR_CONCAT"
  using ConcatFlatten_flat [of "Var 0 (BitVectorType 4)"
     "[App BITVECTOR_CONCAT [App BITVECTOR_CONCAT [Var 0 (BitVectorType 4), Var 1 (BitVectorType 4)], mkZero 8]]"]
  by simp

end
