(* ===== verification/Nary.thy ===== *)
theory Nary
  imports Rewrite_Rules
begin

section \<open>N-ary operators\<close>

text \<open>
  The kinds AND, OR, XOR, PLUS and MULT take two or more children and apply an associative and
  commutative operator whose low bits depend on the low bits of its arguments only. The locale
  \<open>ac_operator\<close> states this contract and derives the facts about folds that the rules which flatten,
  sort and collect children need; it is interpreted on the operators that the five kinds denote.
\<close>

unbundle bit_operations_syntax

subsection \<open>The contract of an n-ary operator\<close>

locale ac_operator =
  fixes f :: "int \<Rightarrow> int \<Rightarrow> int" and z :: int
  assumes assoc: "f (f x y) u = f x (f y u)"
    and comm: "f x y = f y x"
    and unit: "f x z = x"
    and trunc: "take_bit w (f (take_bit w x) y) = take_bit w (f x y)"
begin

lemma unit_left: "f z x = x"
  using comm unit by metis

lemma left_comm: "f x (f y u) = f y (f x u)"
  by (metis assoc comm)

lemma fold_append: "foldr f (xs @ ys) z = f (foldr f xs z) (foldr f ys z)"
  by (induction xs) (simp_all add: unit_left assoc)

lemma fold_mset: "mset xs = mset ys \<Longrightarrow> foldr f xs z = foldr f ys z"
  by (rule foldr_perm) (simp_all add: left_comm)

lemma fold_remove1: "x \<in> set xs \<Longrightarrow> foldr f xs z = f x (foldr f (remove1 x xs) z)"
  using fold_mset [of xs "x # remove1 x xs"] by simp

lemma trunc_right: "take_bit w (f x (take_bit w y)) = take_bit w (f x y)"
  using trunc comm by metis

lemma trunc_cong: "take_bit w x = take_bit w x' \<Longrightarrow> take_bit w y = take_bit w y' \<Longrightarrow> take_bit w (f x y) = take_bit w (f x' y')"
  by (metis trunc trunc_right)

lemma fold_cong: "list_all2 (\<lambda>x y. take_bit w x = take_bit w y) xs ys \<Longrightarrow>
  take_bit w (foldr f xs z) = take_bit w (foldr f ys z)"
  by (induction rule: list_all2_induct) (auto intro: trunc_cong)

end

interpretation and_op: ac_operator "(AND)" "- 1 :: int"
  by unfold_locales (auto simp: ac_simps)

interpretation or_op: ac_operator "(OR)" "0 :: int"
  by unfold_locales (auto simp: ac_simps)

interpretation xor_op: ac_operator "(XOR)" "0 :: int"
  by unfold_locales (auto simp: ac_simps)

interpretation plus_op: ac_operator "(+)" "0 :: int"
  by unfold_locales (auto simp: take_bit_add_left)

interpretation mult_op: ac_operator "(*)" "1 :: int"
  by unfold_locales (auto simp: take_bit_eq_mod mod_mult_left_eq)

subsection \<open>The kinds whose nodes are n-ary\<close>

fun op_fun :: "kind \<Rightarrow> int \<Rightarrow> int \<Rightarrow> int" where
  "op_fun BITVECTOR_AND = (AND)"
| "op_fun BITVECTOR_OR = (OR)"
| "op_fun BITVECTOR_XOR = (XOR)"
| "op_fun BITVECTOR_PLUS = (+)"
| "op_fun k = (*)"

definition op_unit :: "kind \<Rightarrow> int" where
  "op_unit k = (if k = BITVECTOR_AND then - 1 else if k = BITVECTOR_MULT then 1 else 0)"

definition ac_kind :: "kind \<Rightarrow> bool" where
  "ac_kind k \<longleftrightarrow> k \<in> {BITVECTOR_AND, BITVECTOR_OR, BITVECTOR_XOR, BITVECTOR_PLUS, BITVECTOR_MULT}"

lemma ac_kind_simps [simp]:
  "ac_kind BITVECTOR_AND" "ac_kind BITVECTOR_OR" "ac_kind BITVECTOR_XOR" "ac_kind BITVECTOR_PLUS" "ac_kind BITVECTOR_MULT"
  by (simp_all add: ac_kind_def)

lemma op_unit_simps [simp]:
  "op_unit BITVECTOR_AND = - 1" "op_unit BITVECTOR_OR = 0" "op_unit BITVECTOR_XOR = 0" "op_unit BITVECTOR_PLUS = 0"
  "op_unit BITVECTOR_MULT = 1"
  by (simp_all add: op_unit_def)

lemma ac_kind_operator: "ac_kind k \<Longrightarrow> ac_operator (op_fun k) (op_unit k)"
  using and_op.ac_operator_axioms or_op.ac_operator_axioms xor_op.ac_operator_axioms plus_op.ac_operator_axioms
    mult_op.ac_operator_axioms by (auto simp: ac_kind_def)

text \<open>The value of the operator on a list of terms, before it is cut to the width.\<close>

definition fold_num :: "kind \<Rightarrow> valuation \<Rightarrow> node list \<Rightarrow> int" where
  "fold_num k \<sigma> ts = foldr (op_fun k) (map (\<lambda>t. num (eval \<sigma> t)) ts) (op_unit k)"

lemma fold_num_simps [simp]:
  "fold_num k \<sigma> [] = op_unit k" "fold_num k \<sigma> (t # ts) = op_fun k (num (eval \<sigma> t)) (fold_num k \<sigma> ts)"
  by (simp_all add: fold_num_def)

lemma fold_num_append: "ac_kind k \<Longrightarrow> fold_num k \<sigma> (xs @ ys) = op_fun k (fold_num k \<sigma> xs) (fold_num k \<sigma> ys)"
  unfolding fold_num_def map_append by (rule ac_operator.fold_append [OF ac_kind_operator])

lemma fold_num_mset: "ac_kind k \<Longrightarrow> mset xs = mset ys \<Longrightarrow> fold_num k \<sigma> xs = fold_num k \<sigma> ys"
  unfolding fold_num_def by (rule ac_operator.fold_mset [OF ac_kind_operator]) auto

lemma op_trunc: "ac_kind k \<Longrightarrow> take_bit w (op_fun k (take_bit w x) y) = take_bit w (op_fun k x y)"
  "ac_kind k \<Longrightarrow> take_bit w (op_fun k x (take_bit w y)) = take_bit w (op_fun k x y)"
  using ac_operator.trunc [OF ac_kind_operator] ac_operator.trunc_right [OF ac_kind_operator] by blast+

lemma op_unit_id: "ac_kind k \<Longrightarrow> op_fun k x (op_unit k) = x" "ac_kind k \<Longrightarrow> op_fun k (op_unit k) x = x"
  using ac_operator.unit [OF ac_kind_operator] ac_operator.unit_left [OF ac_kind_operator] by blast+

text \<open>Terms of one width.\<close>

definition of_width :: "nat \<Rightarrow> node list \<Rightarrow> bool" where
  "of_width w ts \<longleftrightarrow> (\<forall>t\<in>set ts. typeOf t = Some (BitVectorType w))"

lemma of_width_simps [simp]:
  "of_width w []" "of_width w (t # ts) \<longleftrightarrow> typeOf t = Some (BitVectorType w) \<and> of_width w ts"
  "of_width w (xs @ ys) \<longleftrightarrow> of_width w xs \<and> of_width w ys"
  by (auto simp: of_width_def)

lemma typeOf_ac: "ac_kind k \<Longrightarrow> typeOf (App k ts) = Some T \<longleftrightarrow>
  2 \<le> length ts \<and> (\<exists>w. T = BitVectorType w \<and> of_width w ts)"
  by (cases ts) (auto simp: ac_kind_def isBitVector_iff of_width_def)

lemma eval_ac:
  assumes "ac_kind k" "ts \<noteq> []" "of_width w ts" "val_ok \<sigma>"
  shows "eval \<sigma> (App k ts) = VBV w (take_bit w (fold_num k \<sigma> ts))"
  using assms by (cases ts) (auto simp: ac_kind_def fold_num_def o_def bvn_Cons)

lemma mkNaryNode_ac:
  assumes "ac_kind k" "ts \<noteq> []" "of_width w ts"
  shows "typeOf (mkNaryNode k ts) = Some (BitVectorType w)"
    "val_ok \<sigma> \<Longrightarrow> eval \<sigma> (mkNaryNode k ts) = VBV w (take_bit w (fold_num k \<sigma> ts))"
proof -
  consider t where "ts = [t]" | "2 \<le> length ts" "length ts \<noteq> 1" using assms(2) by (cases ts; cases "tl ts") auto
  then have "typeOf (mkNaryNode k ts) = Some (BitVectorType w) \<and>
    (val_ok \<sigma> \<longrightarrow> eval \<sigma> (mkNaryNode k ts) = VBV w (take_bit w (fold_num k \<sigma> ts)))"
  proof cases
    case 1
    with assms show ?thesis by (simp add: mkNaryNode_def op_unit_id)
  next
    case 2
    then have "mkNaryNode k ts = App k ts" by (simp add: mkNaryNode_def)
    with eval_ac [OF assms] assms 2 show ?thesis by (simp only:) (simp add: typeOf_ac)
  qed
  then show "typeOf (mkNaryNode k ts) = Some (BitVectorType w)"
    "val_ok \<sigma> \<Longrightarrow> eval \<sigma> (mkNaryNode k ts) = VBV w (take_bit w (fold_num k \<sigma> ts))" by blast+
qed

lemma sound_ac:
  assumes "\<And>n. rule_applies r n \<Longrightarrow> getKind n = k" "ac_kind k"
    "\<And>ts w. 2 \<le> length ts \<Longrightarrow> of_width w ts \<Longrightarrow> 0 < w \<Longrightarrow> w < 2147483648 \<Longrightarrow> typeOf (App k ts) = Some (BitVectorType w) \<Longrightarrow>
       rule_applies r (App k ts) \<Longrightarrow> rewrites_to (rule_apply r (App k ts)) (BitVectorType w) (App k ts)"
  shows "sound_rule r"
proof (rule sound_kind)
  fix n assume "rule_applies r n"
  with assms(1) [of n] assms(2) show "getKind n \<notin> {VARIABLE, CONST_BOOLEAN, CONST_RATIONAL, CONST_BITVECTOR}"
    by (auto simp: ac_kind_def)
next
  fix k' ts T assume *: "typeOf (App k' ts) = Some T" "rule_applies r (App k' ts)"
  then have k: "k' = k" using assms(1) [of "App k' ts"] by simp
  with * obtain w where w: "2 \<le> length ts" "T = BitVectorType w" "of_width w ts" by (auto simp: typeOf_ac [OF assms(2)])
  then obtain t where "typeOf t = Some (BitVectorType w)" by (cases ts) auto
  then have "0 < w" "w < 2147483648" using typeOf_width by auto
  with assms(3) [OF w(1,3)] * w(2) k show "rewrites_to (rule_apply r (App k' ts)) T (App k' ts)" by simp
qed

lemma ac_typedD:
  assumes "typeOf (App k ts) = Some (BitVectorType w)" "ac_kind k"
  shows "2 \<le> length ts" "of_width w ts"
  using assms(1) unfolding typeOf_ac [OF assms(2)] by auto

end
