(* ===== verification/Rules_Simplify.thy ===== *)
theory Rules_Simplify
  imports Rules_Core Rules_ConstEval Nary
begin

section \<open>Simplification rules\<close>

text \<open>
  \<open>theory/bv/theory_bv_rewrite_rules_simplification.h\<close>, first part: the rules on the bit-vector
  \<open>ite\<close>, on comparisons and on shifts by constants, the rules that pull concatenations out of bit-wise
  operators, and those on exclusive or and on the orders. Rules whose bodies are \<open>Unreachable()\<close> are left out.
  Some rules rely on others having run before them: \<open>BvIteConstChildren\<close> asserts that its children
  differ, \<open>XorOne\<close> and \<open>XorZero\<close> that a child is left. Their lemmas say so.
\<close>

unbundle bit_operations_syntax

subsection \<open>Bits and conditionals\<close>

definition BitOfConst :: rule where
  [rule_defs]: "BitOfConst = \<lparr>
    rule_applies = (\<lambda>node. is_BITOF (getKind node) \<and> isConst (child node 0)),
    rule_apply = (\<lambda>node. and_then (getBit (child node 0) (d_bitIndex (getKind node)))
      (\<lambda>b. Inr (if b then mkTrue else mkFalse)))\<rparr>"

definition BvIteConstCond :: rule where
  [rule_defs]: "BvIteConstCond = \<lparr>
    rule_applies = (\<lambda>node. getKind node = BITVECTOR_ITE \<and> isConst (child node 0)),
    rule_apply = (\<lambda>node. Inr (if isZero (child node 0) then child node 2 else child node 1))\<rparr>"

definition BvIteEqualChildren :: rule where
  [rule_defs]: "BvIteEqualChildren = \<lparr>
    rule_applies = (\<lambda>node. getKind node = BITVECTOR_ITE \<and> child node 1 = child node 2),
    rule_apply = (\<lambda>node. Inr (child node 1))\<rparr>"

definition BvIteConstChildren :: rule where
  [rule_defs]: "BvIteConstChildren = \<lparr>
    rule_applies = (\<lambda>node. getKind node = BITVECTOR_ITE \<and> getSize (child node 1) = 1 \<and>
      isConst (child node 1) \<and> isConst (child node 2)),
    rule_apply = (\<lambda>node.
      if isOne (child node 1) \<and> isZero (child node 2) then Inr (child node 0)
      else Assert (isZero (child node 1) \<and> isOne (child node 2))
        (Inr (App BITVECTOR_NOT [child node 0])))\<rparr>"

definition BvIteEqualCond :: rule where
  [rule_defs]: "BvIteEqualCond = \<lparr>
    rule_applies = (\<lambda>node. getKind node = BITVECTOR_ITE \<and>
      ((getKind (child node 1) = BITVECTOR_ITE \<and> child node 0 = child (child node 1) 0) \<or>
       (getKind (child node 2) = BITVECTOR_ITE \<and> child node 0 = child (child node 2) 0))),
    rule_apply = (\<lambda>node.
      let t0 = (if getKind (child node 1) = BITVECTOR_ITE \<and> child node 0 = child (child node 1) 0
                then child (child node 1) 1 else child node 1);
          e1 = (if getKind (child node 2) = BITVECTOR_ITE \<and> child node 0 = child (child node 2) 0
                then child (child node 2) 2 else child node 2)
      in Inr (App BITVECTOR_ITE [child node 0, t0, e1]))\<rparr>"

definition BvIteMergeThenIf :: rule where
  [rule_defs]: "BvIteMergeThenIf = \<lparr>
    rule_applies = (\<lambda>node. getKind node = BITVECTOR_ITE \<and> getKind (child node 1) = BITVECTOR_ITE \<and>
      child (child node 1) 1 = child node 2),
    rule_apply = (\<lambda>node. Assert (getKind (child node 1) = BITVECTOR_ITE)
      (let cond = App BITVECTOR_AND [child node 0, App BITVECTOR_NOT [child (child node 1) 0]]
       in Inr (App BITVECTOR_ITE [cond, child (child node 1) 2, child node 2])))\<rparr>"

definition BvIteMergeElseIf :: rule where
  [rule_defs]: "BvIteMergeElseIf = \<lparr>
    rule_applies = (\<lambda>node. getKind node = BITVECTOR_ITE \<and> getKind (child node 1) = BITVECTOR_ITE \<and>
      child (child node 1) 2 = child node 2),
    rule_apply = (\<lambda>node. Assert (getKind (child node 1) = BITVECTOR_ITE)
      (let cond = App BITVECTOR_AND [child node 0, child (child node 1) 0]
       in Inr (App BITVECTOR_ITE [cond, child (child node 1) 1, child node 2])))\<rparr>"

definition BvIteMergeThenElse :: rule where
  [rule_defs]: "BvIteMergeThenElse = \<lparr>
    rule_applies = (\<lambda>node. getKind node = BITVECTOR_ITE \<and> getKind (child node 2) = BITVECTOR_ITE \<and>
      child node 1 = child (child node 2) 1),
    rule_apply = (\<lambda>node. Assert (getKind (child node 2) = BITVECTOR_ITE)
      (let cond = App BITVECTOR_AND [App BITVECTOR_NOT [child node 0], App BITVECTOR_NOT [child (child node 2) 0]]
       in Inr (App BITVECTOR_ITE [cond, child (child node 2) 2, child node 1])))\<rparr>"

definition BvIteMergeElseElse :: rule where
  [rule_defs]: "BvIteMergeElseElse = \<lparr>
    rule_applies = (\<lambda>node. getKind node = BITVECTOR_ITE \<and> getKind (child node 2) = BITVECTOR_ITE \<and>
      child node 1 = child (child node 2) 2),
    rule_apply = (\<lambda>node. Assert (getKind (child node 2) = BITVECTOR_ITE)
      (let cond = App BITVECTOR_AND [App BITVECTOR_NOT [child node 0], child (child node 2) 0]
       in Inr (App BITVECTOR_ITE [cond, child (child node 2) 1, child node 1])))\<rparr>"

definition BvComp :: rule where
  [rule_defs]: "BvComp = \<lparr>
    rule_applies = (\<lambda>node. getKind node = BITVECTOR_COMP \<and> getSize (child node 0) = 1 \<and>
      (isConst (child node 0) \<or> isConst (child node 1))),
    rule_apply = (\<lambda>node.
      if isConst (child node 0)
      then Inr (if isZero (child node 0) then App BITVECTOR_NOT [child node 1] else child node 1)
      else Inr (if isZero (child node 1) then App BITVECTOR_NOT [child node 0] else child node 0))\<rparr>"

subsection \<open>Shifts by constants\<close>

definition ShlByConst :: rule where
  [rule_defs]: "ShlByConst = \<lparr>
    rule_applies = (\<lambda>node. getKind node = BITVECTOR_SHL \<and> getKind (child node 1) = CONST_BITVECTOR),
    rule_apply = (\<lambda>node.
      let amount = toInteger (getConstBV (child node 1)); a = child node 0; sz = getSize (child node 0)
      in if amount = 0 then Inr (child node 0)
         else if amount \<ge> int sz then Inr (mkZero sz)
         else Assert (amount < multiplyByPow2 1 32)
           (let uint32_amount = toUnsignedInt amount;
                left = mkExtract a (sz - 1 - uint32_amount) 0;
                right = mkZero uint32_amount
            in Inr (mkConcat2 left right)))\<rparr>"

definition LshrByConst :: rule where
  [rule_defs]: "LshrByConst = \<lparr>
    rule_applies = (\<lambda>node. getKind node = BITVECTOR_LSHR \<and> getKind (child node 1) = CONST_BITVECTOR),
    rule_apply = (\<lambda>node.
      let amount = toInteger (getConstBV (child node 1)); a = child node 0; sz = getSize (child node 0)
      in if amount = 0 then Inr (child node 0)
         else if amount \<ge> int sz then Inr (mkZero sz)
         else Assert (amount < multiplyByPow2 1 32)
           (let uint32_amount = toUnsignedInt amount;
                right = mkExtract a (sz - 1) uint32_amount;
                left = mkZero uint32_amount
            in Inr (mkConcat2 left right)))\<rparr>"

definition AshrByConst :: rule where
  [rule_defs]: "AshrByConst = \<lparr>
    rule_applies = (\<lambda>node. getKind node = BITVECTOR_ASHR \<and> getKind (child node 1) = CONST_BITVECTOR),
    rule_apply = (\<lambda>node.
      let amount = toInteger (getConstBV (child node 1)); a = child node 0; sz = getSize (child node 0);
          sign_bit = mkExtract a (sz - 1) (sz - 1)
      in if amount = 0 then Inr (child node 0)
         else if amount \<ge> int sz then mkConcatRepeat sign_bit sz
         else Assert (amount < multiplyByPow2 1 32)
           (let uint32_amount = toUnsignedInt amount
            in if uint32_amount = 0 then Inr a
               else and_then (mkConcatRepeat sign_bit uint32_amount) (\<lambda>left.
                 let right = mkExtract a (sz - 1) uint32_amount in Inr (mkConcat2 left right))))\<rparr>"

subsection \<open>Bit-wise operators\<close>

text \<open>The constants that \<open>AndOrXorConcatPullUp\<close> looks for, and an n-ary node or its only child.\<close>

definition special_const :: "node \<Rightarrow> bool" where
  "special_const n \<longleftrightarrow> isZero n \<or> isOne n \<or> isOnes n"

definition single_or_node :: "kind \<Rightarrow> node list \<Rightarrow> node" where
  "single_or_node k ns = (if length ns > 1 then App k ns else ns ! 0)"

definition AndOrXorConcatPullUp :: rule where
  [rule_defs]: "AndOrXorConcatPullUp = \<lparr>
    rule_applies = (\<lambda>node.
      if getKind node \<noteq> BITVECTOR_AND \<and> getKind node \<noteq> BITVECTOR_OR \<and> getKind node \<noteq> BITVECTOR_XOR then False
      else case find (\<lambda>c. getKind c = BITVECTOR_CONCAT) (children node) of
             None \<Rightarrow> False
           | Some c \<Rightarrow> (case find isConst (children c) of None \<Rightarrow> False | Some n \<Rightarrow> isZero n \<or> isOne n \<or> isOnes n)),
    rule_apply = (\<lambda>node.
      let k = getKind node;
          rest = dropWhile (\<lambda>c. getKind c \<noteq> BITVECTOR_CONCAT) (children node);
          concat = hd rest;
          xb = takeWhile (\<lambda>c. getKind c \<noteq> BITVECTOR_CONCAT) (children node) @ tl rest;
          x = single_or_node k xb;
          yb = takeWhile (\<lambda>c. \<not> special_const c) (children concat);
          crest = dropWhile (\<lambda>c. \<not> special_const c) (children concat)
      in Assert (crest \<noteq> [])
        (let c = hd crest; zb = tl crest
         in Assert (yb \<noteq> [] \<or> zb \<noteq> [])
           (let m = getSize x; n = getSize c;
                my = (if yb = [] then 0 else getSize (single_or_node BITVECTOR_CONCAT yb));
                mz = (if zb = [] then 0 else getSize (single_or_node BITVECTOR_CONCAT zb))
            in Assert (mz = m - my - n) (Assert (my \<noteq> 0 \<or> mz \<noteq> 0)
              (Inr (App BITVECTOR_CONCAT
                ((if my \<noteq> 0 then [App k [mkExtract x (m - 1) (m - my), single_or_node BITVECTOR_CONCAT yb]] else [])
                 @ [App k [mkExtract x (m - my - 1) mz, c]]
                 @ (if mz \<noteq> 0 then [App k [mkExtract x (mz - 1) 0, single_or_node BITVECTOR_CONCAT zb]] else []))))))))\<rparr>"

text \<open>The loop of \<open>XorOne\<close>.\<close>

fun XorOne_loop :: "node \<Rightarrow> node list \<Rightarrow> bool \<Rightarrow> node list \<Rightarrow> bool \<times> node list" where
  "XorOne_loop ones [] found_ones cs = (found_ones, cs)"
| "XorOne_loop ones (n # ns) found_ones cs =
     (if n = ones then XorOne_loop ones ns (\<not> found_ones) cs
      else XorOne_loop ones ns found_ones (cs @ [n]))"

definition XorOne :: rule where
  [rule_defs]: "XorOne = \<lparr>
    rule_applies = (\<lambda>node. if getKind node \<noteq> BITVECTOR_XOR then False
      else \<exists>n \<in> set (children node). Inr n = mkOnes (getSize node)),
    rule_apply = (\<lambda>node. and_then (mkOnes (getSize node)) (\<lambda>ones.
      let (found_ones, cs) = XorOne_loop ones (children node) False [];
          result = mkNaryNode BITVECTOR_XOR cs
      in Inr (if found_ones then App BITVECTOR_NOT [result] else result)))\<rparr>"

definition XorZero :: rule where
  [rule_defs]: "XorZero = \<lparr>
    rule_applies = (\<lambda>node. if getKind node \<noteq> BITVECTOR_XOR then False
      else \<exists>n \<in> set (children node). n = mkConst (getSize node) 0),
    rule_apply = (\<lambda>node.
      let zero = mkConst (getSize node) 0
      in Inr (mkNaryNode BITVECTOR_XOR (filter (\<lambda>n. n \<noteq> zero) (children node))))\<rparr>"

definition NotXor :: "(node \<Rightarrow> nat) \<Rightarrow> rule" where
  [rule_defs]: "NotXor nid = \<lparr>
    rule_applies = (\<lambda>node. getKind node = BITVECTOR_NOT \<and> getKind (child node 0) = BITVECTOR_XOR),
    rule_apply = (\<lambda>node.
      let cs = App BITVECTOR_NOT [child (child node 0) 0] # tl (children (child node 0))
      in mkSortedNode nid BITVECTOR_XOR cs)\<rparr>"

definition NotIdemp :: rule where
  [rule_defs]: "NotIdemp = \<lparr>
    rule_applies = (\<lambda>node. getKind node = BITVECTOR_NOT \<and> getKind (child node 0) = BITVECTOR_NOT),
    rule_apply = (\<lambda>node. Inr (child (child node 0) 0))\<rparr>"

subsection \<open>Orders\<close>

definition LtSelf :: rule where
  [rule_defs]: "LtSelf = \<lparr>
    rule_applies = (\<lambda>node. (getKind node = BITVECTOR_ULT \<or> getKind node = BITVECTOR_SLT) \<and> child node 0 = child node 1),
    rule_apply = (\<lambda>node. Inr mkFalse)\<rparr>"

definition LteSelf :: rule where
  [rule_defs]: "LteSelf = \<lparr>
    rule_applies = (\<lambda>node. (getKind node = BITVECTOR_ULE \<or> getKind node = BITVECTOR_SLE) \<and> child node 0 = child node 1),
    rule_apply = (\<lambda>node. Inr mkTrue)\<rparr>"

definition ZeroUlt :: rule where
  [rule_defs]: "ZeroUlt = \<lparr>
    rule_applies = (\<lambda>node. getKind node = BITVECTOR_ULT \<and> child node 0 = mkZero (getSize (child node 0))),
    rule_apply = (\<lambda>node. Inr (App NOT_K [App EQUAL [child node 0, child node 1]]))\<rparr>"

definition UltZero :: rule where
  [rule_defs]: "UltZero = \<lparr>
    rule_applies = (\<lambda>node. getKind node = BITVECTOR_ULT \<and> child node 1 = mkZero (getSize (child node 0))),
    rule_apply = (\<lambda>node. Inr mkFalse)\<rparr>"

definition UltOne :: rule where
  [rule_defs]: "UltOne = \<lparr>
    rule_applies = (\<lambda>node. getKind node = BITVECTOR_ULT \<and> child node 1 = mkOne (getSize (child node 0))),
    rule_apply = (\<lambda>node. Inr (App EQUAL [child node 0, mkZero (getSize (child node 0))]))\<rparr>"

definition SltZero :: rule where
  [rule_defs]: "SltZero = \<lparr>
    rule_applies = (\<lambda>node. getKind node = BITVECTOR_SLT \<and> child node 1 = mkZero (getSize (child node 0))),
    rule_apply = (\<lambda>node.
      let sz = getSize (child node 0);
          most_significant_bit = mkExtract (child node 0) (sz - 1) (sz - 1)
      in Inr (App EQUAL [most_significant_bit, mkOne 1]))\<rparr>"

definition UltSelf :: rule where
  [rule_defs]: "UltSelf = \<lparr>
    rule_applies = (\<lambda>node. getKind node = BITVECTOR_ULT \<and> child node 1 = child node 0),
    rule_apply = (\<lambda>node. Inr mkFalse)\<rparr>"

definition UleZero :: rule where
  [rule_defs]: "UleZero = \<lparr>
    rule_applies = (\<lambda>node. getKind node = BITVECTOR_ULE \<and> child node 1 = mkZero (getSize (child node 0))),
    rule_apply = (\<lambda>node. Inr (App EQUAL [child node 0, child node 1]))\<rparr>"

definition UleSelf :: rule where
  [rule_defs]: "UleSelf = \<lparr>
    rule_applies = (\<lambda>node. getKind node = BITVECTOR_ULE \<and> child node 1 = child node 0),
    rule_apply = (\<lambda>node. Inr mkTrue)\<rparr>"

definition ZeroUle :: rule where
  [rule_defs]: "ZeroUle = \<lparr>
    rule_applies = (\<lambda>node. getKind node = BITVECTOR_ULE \<and> child node 0 = mkZero (getSize (child node 0))),
    rule_apply = (\<lambda>node. Inr mkTrue)\<rparr>"

definition UleMax :: rule where
  [rule_defs]: "UleMax = \<lparr>
    rule_applies = (\<lambda>node. if getKind node \<noteq> BITVECTOR_ULE then False
      else getKind node = BITVECTOR_ULE \<and> Inr (child node 1) = mkOnes (getSize (child node 0))),
    rule_apply = (\<lambda>node. Inr mkTrue)\<rparr>"

definition NotUlt :: rule where
  [rule_defs]: "NotUlt = \<lparr>
    rule_applies = (\<lambda>node. getKind node = NOT_K \<and> getKind (child node 0) = BITVECTOR_ULT),
    rule_apply = (\<lambda>node. let ult = child node 0; a = child ult 0; b = child ult 1 in Inr (App BITVECTOR_ULE [b, a]))\<rparr>"

definition NotUle :: rule where
  [rule_defs]: "NotUle = \<lparr>
    rule_applies = (\<lambda>node. getKind node = NOT_K \<and> getKind (child node 0) = BITVECTOR_ULE),
    rule_apply = (\<lambda>node. let ult = child node 0; a = child ult 0; b = child ult 1 in Inr (App BITVECTOR_ULT [b, a]))\<rparr>"


subsection \<open>Soundness\<close>

lemma getKind_iff: "k \<notin> {VARIABLE, CONST_BOOLEAN, CONST_RATIONAL, CONST_BITVECTOR} \<Longrightarrow> getKind n = k \<longleftrightarrow> (\<exists>ts. n = App k ts)"
  by (cases n) auto

lemma getKind_const: "typeOf n = Some (BitVectorType w) \<Longrightarrow>
  getKind n = CONST_BITVECTOR \<longleftrightarrow> (\<exists>b. n = ConstBV b \<and> bv_ok b \<and> d_size b = w \<and> w < 2147483648)"
  by (cases n) auto

lemma bit1_cases: "typeOf n = Some (BitVectorType (Suc 0)) \<Longrightarrow> val_ok \<sigma> \<Longrightarrow> num (eval \<sigma> n) = 0 \<or> num (eval \<sigma> n) = 1"
proof -
  assume *: "typeOf n = Some (BitVectorType (Suc 0))" "val_ok \<sigma>"
  from eval_bv(2,3) [OF *] show ?thesis by simp linarith
qed

lemma and_1:
  "x = 0 \<or> x = 1 \<Longrightarrow> y = 0 \<or> y = 1 \<Longrightarrow> take_bit (Suc 0) (x AND y) = 1 \<longleftrightarrow> x = 1 \<and> y = (1::int)"
  "x = 0 \<or> x = 1 \<Longrightarrow> y = 0 \<or> y = 1 \<Longrightarrow> take_bit (Suc 0) (x AND (1 - y)) = 1 \<longleftrightarrow> x = 1 \<and> y = (0::int)"
  "x = 0 \<or> x = 1 \<Longrightarrow> y = 0 \<or> y = 1 \<Longrightarrow> take_bit (Suc 0) ((1 - x) AND y) = 1 \<longleftrightarrow> x = 0 \<and> y = (1::int)"
  "x = 0 \<or> x = 1 \<Longrightarrow> y = 0 \<or> y = 1 \<Longrightarrow> take_bit (Suc 0) ((1 - x) AND (1 - y)) = 1 \<longleftrightarrow> x = 0 \<and> y = (0::int)"
  by (elim disjE; simp)+

lemma not_bit1: "typeOf n = Some (BitVectorType (Suc 0)) \<Longrightarrow> val_ok \<sigma> \<Longrightarrow> num (eval \<sigma> n) \<noteq> 1 \<longleftrightarrow> num (eval \<sigma> n) = 0"
  using bit1_cases by fastforce

lemma sem_1: "sem_not (Suc 0) x = 1 - x"
  by (simp add: sem_not_def)

lemma const_1: "bv_ok b \<Longrightarrow> d_size b = Suc 0 \<Longrightarrow> d_value b = 0 \<longleftrightarrow> d_value b \<noteq> 1"
  by (auto simp: bv_ok_def)

lemmas const_nodes = isConst_iff isZero_iff isOne_iff bv_eq_iff util_defs bitvector_defs integer_defs

lemma BitOfConst_sound: "sound_rule BitOfConst"
  by (rule sound_kind; auto simp: rule_defs rule_sem isConst_iff getBit_def bv_extract_sem extract_bit)

lemma ITE_simple_sound: "sound_rule BvIteConstCond" "sound_rule BvIteEqualChildren" "sound_rule BvIteEqualCond"
  subgoal by (rule sound_kind; auto simp: rule_defs rule_sem const_nodes const_1)
  subgoal by (rule sound_kind; auto simp: rule_defs rule_sem)
  subgoal by (rule sound_kind; auto simp: rule_defs rule_sem getKind_iff)
  done

lemma const1_node: "isConst a \<Longrightarrow> typeOf a = Some (BitVectorType (Suc 0)) \<Longrightarrow> a = mkConst 1 0 \<or> a = mkConst 1 1"
proof -
  assume "isConst a" "typeOf a = Some (BitVectorType (Suc 0))"
  then obtain b where b: "a = ConstBV b" "bv_ok b" "d_size b = 1" using isConst_bv by fastforce
  with const_1 [of b] have "d_value b = 0 \<or> d_value b = 1" by auto
  then have "b = mkBitVector 1 0 \<or> b = mkBitVector 1 1"
    using b by (auto simp: bv_eq_iff mkBitVector_def modByPow2_def)
  with b show ?thesis by (auto simp: mkConst_def)
qed

lemma isZero_const: "0 < w \<Longrightarrow> w < 2147483648 \<Longrightarrow> isZero (mkConst w x) \<longleftrightarrow> take_bit w x = 0"
proof -
  assume "0 < w" "w < 2147483648"
  then have "getSize (mkConst w x) = w" using getSize_typed [of "mkConst w x" "BitVectorType w"] by simp
  then show ?thesis by (simp add: isZero_def mkZero_def) (simp add: mkConst_def mkBitVector_def modByPow2_def)
qed

lemma BvComp_sound: "sound_rule BvComp"
proof (rule sound_kind)
  fix k ts T assume *: "typeOf (App k ts) = Some T" "rule_applies BvComp (App k ts)"
  then obtain a b where n: "k = BITVECTOR_COMP" "ts = [a, b]" "typeOf a = Some (BitVectorType 1)" "T = BitVectorType 1"
    "typeOf b = Some (BitVectorType 1)" by (auto simp: rule_defs rule_sem)
  with * consider "isConst a" | "\<not> isConst a" "isConst b" by (auto simp: rule_defs)
  then show "rewrites_to (rule_apply BvComp (App k ts)) T (App k ts)"
  proof cases
    case 1
    with const1_node [of a] n show ?thesis by (auto simp: rule_defs isZero_const sem_1 dest: bit1_cases)
  next
    case 2
    with const1_node [of b] n show ?thesis by (auto simp: rule_defs isZero_const sem_1 dest: bit1_cases)
  qed
qed (simp add: rule_defs)

lemma ITE_merge_sound: "sound_rule BvIteMergeThenIf" "sound_rule BvIteMergeElseIf" "sound_rule BvIteMergeThenElse"
   "sound_rule BvIteMergeElseElse"
  subgoal by (rule sound_kind; auto simp: rule_defs rule_sem getKind_iff sem_1 and_1 bit1_cases not_bit1)
  subgoal by (rule sound_kind; auto simp: rule_defs rule_sem getKind_iff sem_1 and_1 bit1_cases not_bit1)
  subgoal by (rule sound_kind; auto simp: rule_defs rule_sem getKind_iff sem_1 and_1 bit1_cases not_bit1)
  subgoal by (rule sound_kind; auto simp: rule_defs rule_sem getKind_iff sem_1 and_1 bit1_cases not_bit1)
  done

lemma shl_concat: "0 < k \<Longrightarrow> k < w \<Longrightarrow> sem_shl w x (int k) = sem_concat (sem_extract (w - Suc k) 0 x) k 0"
  by (simp add: sem_shl_def sem_concat_def sem_extract_def take_bit_push_bit Suc_diff_Suc)

lemma lshr_concat: "0 < k \<Longrightarrow> k < w \<Longrightarrow> 0 \<le> x \<Longrightarrow> x < 2 ^ w \<Longrightarrow> sem_lshr w x (int k) = sem_extract (w - Suc 0) k x"
  by (simp add: sem_lshr_def sem_extract_def take_bit_drop_bit take_bit_id)

lemma ashr_concat: 
  assumes "0 < k" "k < w" "0 \<le> x" "x < 2 ^ w"
  shows "sem_ashr w x (int k) = sem_concat (if bit x (w - Suc 0) then mask k else 0) (w - k) (sem_extract (w - Suc 0) k x)"
proof -
  have "0 \<le> sem_extract (w - Suc 0) k x" "sem_extract (w - Suc 0) k x < 2 ^ (w - k)"
    using assms by (simp_all add: sem_extract_def Suc_diff_Suc)
  note bits = bit_sem_concat [OF this] bit_sem_extract
  show ?thesis
  proof (rule bit_eqI)
    fix n
    show "bit (sem_ashr w x (int k)) n =
      bit (sem_concat (if bit x (w - Suc 0) then mask k else 0) (w - k) (sem_extract (w - Suc 0) k x)) n"
      using assms high_bits [of x w]
      by (cases "n + k = w - Suc 0") (auto simp: sem_ashr_def sval_def bit_simps bits min_def add.commute)
  qed
qed

lemma ashr_over: "int w \<le> y \<Longrightarrow> 0 \<le> x \<Longrightarrow> x < 2 ^ w \<Longrightarrow> 0 < w \<Longrightarrow> sem_ashr w x y = (if bit x (w - Suc 0) then mask w else 0)"
  by (simp add: sem_ashr_def sval_neg_iff bit_top)

lemma Assert_rewrites [simp]: "rewrites_to (Assert c r) T n \<longleftrightarrow> c \<and> rewrites_to r T n"
  by (cases c) simp_all

lemma const_amount:
  assumes "bv_ok b"
  obtains "d_value b = 0" | "d_value b \<noteq> 0" "int (d_size b) \<le> d_value b"
  | k where "d_value b = int k" "0 < k" "k < d_size b" "toUnsignedInt (int k) = k" "int k < multiplyByPow2 1 32"
proof (cases "int (d_size b) \<le> d_value b")
  case True
  with that show thesis by blast
next
  case False
  obtain k where "d_value b = int k" using assms nonneg_int_cases unfolding bv_ok_def by blast
  with False assms that show thesis
    by (cases "k = 0") (auto simp: bv_ok_def toUnsignedInt_small multiplyByPow2_def)
qed

lemma mkConcatRepeat_typed:
  assumes "typeOf n = Some (BitVectorType w)" "0 < r" "r * w < 2147483648"
  shows "\<exists>m. mkConcatRepeat n r = Inr m \<and> typeOf m = Some (BitVectorType (r * w)) \<and>
    (\<forall>\<sigma>. val_ok \<sigma> \<longrightarrow> eval \<sigma> m = VBV (r * w) (cat_value (replicate r (eval \<sigma> n))))"
  using assms by (cases "r = 1") (auto simp: mkConcatRepeat_def sum_list_replicate)

lemma ShlByConst_sound: "sound_rule ShlByConst"
proof (rule sound_kind)
  fix k ts T assume *: "typeOf (App k ts) = Some T" "rule_applies ShlByConst (App k ts)"
  then obtain a b where n: "k = BITVECTOR_SHL" "ts = [a, ConstBV b]" "bv_ok b"
      "typeOf a = Some (BitVectorType (d_size b))" "T = BitVectorType (d_size b)" "d_size b < 2147483648"
    by (auto simp: rule_defs rule_sem getKind_const)
  from n(3) show "rewrites_to (rule_apply ShlByConst (App k ts)) T (App k ts)"
    by (cases rule: const_amount)
      (use n typeOf_width [OF n(4)] in \<open>simp_all add: rule_defs rule_sem toInteger_def shl_concat, simp_all add: sem_shl_def take_bit_id\<close>)
qed (simp add: rule_defs)

lemma LshrByConst_sound: "sound_rule LshrByConst"
proof (rule sound_kind)
  fix k ts T assume *: "typeOf (App k ts) = Some T" "rule_applies LshrByConst (App k ts)"
  then obtain a b where n: "k = BITVECTOR_LSHR" "ts = [a, ConstBV b]" "bv_ok b"
      "typeOf a = Some (BitVectorType (d_size b))" "T = BitVectorType (d_size b)" "d_size b < 2147483648"
    by (auto simp: rule_defs rule_sem getKind_const)
  from n(3) show "rewrites_to (rule_apply LshrByConst (App k ts)) T (App k ts)"
    by (cases rule: const_amount)
      (use n typeOf_width [OF n(4)] in \<open>simp_all add: rule_defs rule_sem toInteger_def lshr_concat, auto simp: sem_lshr_def take_bit_id\<close>)
qed (simp add: rule_defs)

lemma AshrByConst_sound: "sound_rule AshrByConst"
proof (rule sound_kind)
  fix k ts T assume *: "typeOf (App k ts) = Some T" "rule_applies AshrByConst (App k ts)"
  then obtain a b where n: "k = BITVECTOR_ASHR" "ts = [a, ConstBV b]" "bv_ok b"
      "typeOf a = Some (BitVectorType (d_size b))" "T = BitVectorType (d_size b)" "d_size b < 2147483648"
    by (auto simp: rule_defs rule_sem getKind_const)
  define sign where "sign = mkExtract a (d_size b - Suc 0) (d_size b - Suc 0)"
  have sign: "typeOf sign = Some (BitVectorType 1)"
    "eval \<sigma> sign = VBV 1 (of_bool (bit (num (eval \<sigma> a)) (d_size b - Suc 0)))" for \<sigma>
    using n typeOf_width [OF n(4)] by (auto simp: sign_def extract_bit)
  note w = typeOf_width [OF n(4)]
  from n(3) show "rewrites_to (rule_apply AshrByConst (App k ts)) T (App k ts)"
  proof (cases rule: const_amount)
    case 1
    with n w show ?thesis by (auto simp: rule_defs rule_sem toInteger_def sem_ashr_def take_bit_sval)
  next
    case 2
    with mkConcatRepeat_typed [OF sign(1), of "d_size b"] w obtain m where
      "mkConcatRepeat sign (d_size b) = Inr m" "typeOf m = Some (BitVectorType (d_size b))"
      "\<And>\<sigma>. val_ok \<sigma> \<Longrightarrow> eval \<sigma> m = VBV (d_size b) (cat_value (replicate (d_size b) (eval \<sigma> sign)))"
      by auto
    with 2 n w show ?thesis
      by (simp add: rule_defs rule_sem toInteger_def ashr_over sign(2) sign_fill [simplified] 2(1) flip: sign_def)
  next
    case (3 j)
    with mkConcatRepeat_typed [OF sign(1), of j] w obtain m where m:
      "mkConcatRepeat sign j = Inr m" "typeOf m = Some (BitVectorType j)"
      "\<And>\<sigma>. val_ok \<sigma> \<Longrightarrow> eval \<sigma> m = VBV j (cat_value (replicate j (eval \<sigma> sign)))"
      by auto
    have "d_size b - 1 - j + 1 = d_size b - j" "j + (d_size b - j) = d_size b" "\<not> d_size b \<le> j" "j \<noteq> 0" "j \<le> d_size b - Suc 0"
      using 3 by simp_all
    note j = this
    with 3 n w m ashr_concat [of j "d_size b"] show ?thesis
      by (simp add: j rule_defs rule_sem toInteger_def sign(2) sign_fill [simplified] flip: sign_def)
  qed
qed (simp add: rule_defs)

lemma NotIdemp_sound: "sound_rule NotIdemp" 
  by (rule sound_kind; auto simp: rule_defs rule_sem getKind_iff sem_not_def)

lemma num_compare:
  assumes "typeOf n = Some (BitVectorType w)" "val_ok \<sigma>"
  shows "0 < num (eval \<sigma> n) \<longleftrightarrow> num (eval \<sigma> n) \<noteq> 0" "num (eval \<sigma> n) \<le> 0 \<longleftrightarrow> num (eval \<sigma> n) = 0"
    "num (eval \<sigma> n) < 1 \<longleftrightarrow> num (eval \<sigma> n) = 0" "\<not> num (eval \<sigma> n) < 0" "num (eval \<sigma> n) \<le> mask w"
  using eval_bv(2,3) [OF assms] unfolding mask_int by linarith+

lemma order_sound: "sound_rule LtSelf" "sound_rule LteSelf" "sound_rule ZeroUlt" "sound_rule UltZero" "sound_rule UltOne"
  "sound_rule UltSelf" "sound_rule UleZero" "sound_rule UleSelf" "sound_rule ZeroUle" "sound_rule UleMax"
  "sound_rule NotUlt" "sound_rule NotUle" 
  by (rule sound_kind; auto simp: rule_defs rule_sem sem_slt_def sem_sle_def getKind_iff num_compare mkOnes_eq not_less not_le split: if_splits)+

lemma sval_0: "sval w 0 = 0"
  by (simp add: sval_def)

lemma SltZero_sound: "sound_rule SltZero"
proof (rule sound_kind)
  fix k ts T assume *: "typeOf (App k ts) = Some T" "rule_applies SltZero (App k ts)"
  then obtain a w where n: "k = BITVECTOR_SLT" "ts = [a, mkZero w]" "typeOf a = Some (BitVectorType w)" "T = BooleanType"
    by (auto simp: rule_defs rule_sem)
  note w = typeOf_width [OF n(3)]
  have "sval w (num (eval \<sigma> a)) < 0 \<longleftrightarrow> bit (num (eval \<sigma> a)) (w - Suc 0)" if "val_ok \<sigma>" for \<sigma>
    using sval_neg_iff [of w "num (eval \<sigma> a)"] w n that msb_iff [OF n(3) that] by simp
  with n w show "rewrites_to (rule_apply SltZero (App k ts)) T (App k ts)"
    by (auto simp: rule_defs rule_sem sem_slt_def sval_0 extract_bit)
qed (simp add: rule_defs)

subsection \<open>Exclusive or\<close>

lemma XorOne_loop_eq: "XorOne_loop ones ns found cs =
  (found \<noteq> odd (length (filter (\<lambda>n. n = ones) ns)), cs @ filter (\<lambda>n. n \<noteq> ones) ns)"
  by (induction ns arbitrary: found cs) auto

lemma take_bit_xor_mask: "take_bit w (mask w XOR x) = take_bit w (NOT (x::int))"
  by (rule bit_eqI) (auto simp: bit_simps)

lemma xor_ones:
  "num (eval \<sigma> ones) = mask w \<Longrightarrow> take_bit w (fold_num BITVECTOR_XOR \<sigma> ns) =
     take_bit w ((if odd (length (filter (\<lambda>n. n = ones) ns)) then mask w else 0) XOR
       fold_num BITVECTOR_XOR \<sigma> (filter (\<lambda>n. n \<noteq> ones) ns))"
proof (induction ns)
  case (Cons n ns)
  define A B where "A = (if odd (length (filter (\<lambda>n. n = ones) ns)) then mask w else 0 :: int)"
    and "B = fold_num BITVECTOR_XOR \<sigma> (filter (\<lambda>n. n \<noteq> ones) ns)"
  have "take_bit w (fold_num BITVECTOR_XOR \<sigma> (n # ns)) = take_bit w (num (eval \<sigma> n) XOR (A XOR B))"
    using Cons by (simp add: A_def B_def take_bit_xor)
  then show ?case
  proof (cases "n = ones")
    case True
    then have "take_bit w (num (eval \<sigma> n) XOR (A XOR B)) = take_bit w ((mask w XOR A) XOR B)"
      using Cons.prems by (simp add: ac_simps)
    moreover have "mask w XOR A = (if odd (length (filter (\<lambda>n. n = ones) (n # ns))) then mask w else 0)"
      using True by (simp add: A_def)
    moreover have "B = fold_num BITVECTOR_XOR \<sigma> (filter (\<lambda>n. n \<noteq> ones) (n # ns))" using True by (simp add: B_def)
    ultimately show ?thesis using \<open>_ = take_bit w (num (eval \<sigma> n) XOR (A XOR B))\<close> by simp
  next
    case False
    then have "take_bit w (num (eval \<sigma> n) XOR (A XOR B)) = take_bit w (A XOR (num (eval \<sigma> n) XOR B))"
      by (simp add: ac_simps)
    moreover have "A = (if odd (length (filter (\<lambda>n. n = ones) (n # ns))) then mask w else 0)"
      using False by (simp add: A_def)
    moreover have "num (eval \<sigma> n) XOR B = fold_num BITVECTOR_XOR \<sigma> (filter (\<lambda>n. n \<noteq> ones) (n # ns))"
      using False by (simp add: B_def)
    ultimately show ?thesis using \<open>_ = take_bit w (num (eval \<sigma> n) XOR (A XOR B))\<close> by simp
  qed
qed simp

lemma of_width_filter: "of_width w ns \<Longrightarrow> of_width w (filter P ns)"
  by (auto simp: of_width_def)

lemma take_bit_not: "take_bit w (NOT x) = sem_not w (take_bit w x)" for x :: int
  by (simp add: sem_not_def take_bit_not_eq_mask_diff)

lemma mask_xor: "mask w XOR take_bit w x = sem_not w (take_bit w x)" for x :: int
  unfolding take_bit_not [symmetric] take_bit_xor_mask [symmetric] by (simp add: take_bit_xor)

lemma eval_not: "typeOf y = Some (BitVectorType w) \<Longrightarrow> val_ok \<sigma> \<Longrightarrow>
   eval \<sigma> (App BITVECTOR_NOT [y]) = VBV w (sem_not w (num (eval \<sigma> y)))"
  by simp

lemma XorOne_sound:
  assumes "typeOf (App BITVECTOR_XOR ts) = Some (BitVectorType w)" "\<exists>t\<in>set ts. Inr t \<noteq> mkOnes w"
  shows "rewrites_to (rule_apply XorOne (App BITVECTOR_XOR ts)) (BitVectorType w) (App BITVECTOR_XOR ts)"
proof -
  have w: "0 < w" "w < 2147483648" using typeOf_width [OF assms(1)] by auto
  have ts: "2 \<le> length ts" "of_width w ts" "ts \<noteq> []" using ac_typedD [OF assms(1)] by auto
  define ones ns where "ones = mkConst w (mask w)" and "ns = filter (\<lambda>n. n \<noteq> ones) ts"
  have ones: "mkOnes w = Inr ones" using w by (simp add: ones_def mkOnes_eq)
  have ns: "ns \<noteq> []" "of_width w ns"
    using assms(2) ts of_width_filter unfolding ns_def ones by (auto simp: filter_empty_conv)
  note res = mkNaryNode_ac [OF ac_kind_simps(3) ns]
  have size: "getSize (App BITVECTOR_XOR ts) = w" using getSize_typed [OF assms(1)] by simp
  have "num (eval \<sigma> ones) = mask w" for \<sigma> using w by (simp add: ones_def)
  note val = xor_ones [OF this, of _ ts, folded ns_def]
  have "eval \<sigma> (App BITVECTOR_XOR ts) = VBV w (take_bit w (fold_num BITVECTOR_XOR \<sigma> ts))" if "val_ok \<sigma>" for \<sigma>
    using ts that by (intro eval_ac) auto
  note ev = this [unfolded val]
  have app: "rule_apply XorOne (App BITVECTOR_XOR ts) = Inr (if odd (length (filter (\<lambda>n. n = ones) ts))
      then App BITVECTOR_NOT [mkNaryNode BITVECTOR_XOR ns] else mkNaryNode BITVECTOR_XOR ns)"
    by (simp add: rule_defs size ones XorOne_loop_eq ns_def)
  show ?thesis
    unfolding app using res ev by (auto simp: mask_xor)
qed

lemma xor_zeros:
  "num (eval \<sigma> zero) = 0 \<Longrightarrow> fold_num BITVECTOR_XOR \<sigma> (filter (\<lambda>n. n \<noteq> zero) ns) = fold_num BITVECTOR_XOR \<sigma> ns"
  by (induction ns) auto

lemma XorZero_sound:
  assumes "typeOf (App BITVECTOR_XOR ts) = Some (BitVectorType w)" "\<exists>t\<in>set ts. t \<noteq> mkConst w 0"
  shows "rewrites_to (rule_apply XorZero (App BITVECTOR_XOR ts)) (BitVectorType w) (App BITVECTOR_XOR ts)"
proof -
  have w: "0 < w" "w < 2147483648" using typeOf_width [OF assms(1)] by auto
  have ts: "2 \<le> length ts" "of_width w ts" "ts \<noteq> []" using ac_typedD [OF assms(1)] by auto
  define ns where "ns = filter (\<lambda>n. n \<noteq> mkConst w 0) ts"
  have ns: "ns \<noteq> []" "of_width w ns"
    using assms(2) ts of_width_filter unfolding ns_def by (auto simp: filter_empty_conv)
  have size: "getSize (App BITVECTOR_XOR ts) = w" using getSize_typed [OF assms(1)] by simp
  have "eval \<sigma> (App BITVECTOR_XOR ts) = VBV w (take_bit w (fold_num BITVECTOR_XOR \<sigma> ns))" if "val_ok \<sigma>" for \<sigma>
    using ts that eval_ac [of BITVECTOR_XOR ts w \<sigma>] xor_zeros [of \<sigma> "mkConst w 0" ts] w by (simp add: ns_def)
  with mkNaryNode_ac [OF ac_kind_simps(3) ns] show ?thesis
    by (simp add: rule_defs size flip: ns_def)
qed

lemma NotXor_sound: "sound_rule (NotXor nid)"
proof (rule sound_kind)
  fix k ts T assume *: "typeOf (App k ts) = Some T" "rule_applies (NotXor nid) (App k ts)"
  then obtain cs' w where n': "k = BITVECTOR_NOT" "ts = [App BITVECTOR_XOR cs']" "T = BitVectorType w"
     and x: "typeOf (App BITVECTOR_XOR cs') = Some (BitVectorType w)"
    by (auto simp: rule_defs rule_sem getKind_iff)
  from ac_typedD [OF x] obtain c cs where "cs' = c # cs" "1 \<le> length cs" "of_width w (c # cs)"
    by (cases cs') auto
  with n' have n: "k = BITVECTOR_NOT" "ts = [App BITVECTOR_XOR (c # cs)]" "T = BitVectorType w"
     "of_width w (c # cs)" "1 \<le> length cs" and x': "typeOf (App BITVECTOR_XOR (c # cs)) = Some (BitVectorType w)"
    using x by simp_all
  let ?cs = "App BITVECTOR_NOT [c] # cs"
  have w: "0 < w" "w < 2147483648" using n typeOf_width by auto
  have "typeOf (App BITVECTOR_XOR ?cs) = Some (BitVectorType w)" using n by (simp add: of_width_def)
  from mkSortedNode_equiv [OF this, of nid] obtain m where m: "mkSortedNode nid BITVECTOR_XOR ?cs = Inr m"
    "equiv m (App BITVECTOR_XOR ?cs)" by auto
  have "eval \<sigma> (App BITVECTOR_XOR ?cs) = eval \<sigma> (App k ts)" if "val_ok \<sigma>" for \<sigma>
  proof -
    define F where "F = fold_num BITVECTOR_XOR \<sigma> cs"
    have c: "num (eval \<sigma> c) = take_bit w (num (eval \<sigma> c))" using n that by simp
    have tn: "take_bit w (sem_not w (num (eval \<sigma> c))) = sem_not w (num (eval \<sigma> c))"
      using take_bit_not [of w "num (eval \<sigma> c)"] c by (metis take_bit_take_bit min.idem)
    have "eval \<sigma> (App BITVECTOR_XOR ?cs) = VBV w (take_bit w (take_bit w (NOT (num (eval \<sigma> c))) XOR F))"
      using eval_ac [of BITVECTOR_XOR ?cs w \<sigma>] n that c unfolding F_def by (simp add: take_bit_not tn del: eval.simps(5)) (simp add: tn)
    also have "\<dots> = VBV w (take_bit w (NOT (num (eval \<sigma> c) XOR F)))"
      by (simp add: take_bit_xor flip: bit.xor_compl_left)
    also have "\<dots> = VBV w (sem_not w (num (eval \<sigma> (App BITVECTOR_XOR (c # cs)))))"
      using eval_ac [of BITVECTOR_XOR "c # cs" w \<sigma>] n that by (simp only: ac_kind_simps) (simp add: F_def take_bit_not)
    finally show ?thesis unfolding n(1,2) eval_not [OF x' that] .
  qed
  with m \<open>typeOf (App BITVECTOR_XOR ?cs) = _\<close>
  show "rewrites_to (rule_apply (NotXor nid) (App k ts)) T (App k ts)"
    by (simp add: rule_defs n equiv_def)
qed (auto simp: rule_defs)

subsection \<open>Pulling a concatenation out of a bit-wise operator\<close>

definition bit_op :: "kind \<Rightarrow> bool \<Rightarrow> bool \<Rightarrow> bool" where
  "bit_op k p q = (if k = BITVECTOR_AND then p \<and> q else if k = BITVECTOR_OR then p \<or> q else p \<noteq> q)"

lemma bit_op_fun: "k \<in> {BITVECTOR_AND, BITVECTOR_OR, BITVECTOR_XOR} \<Longrightarrow> bit (op_fun k x y) i = bit_op k (bit x i) (bit y i)"
  by (auto simp: bit_op_def bit_simps)

lemma op_fun_range: "k \<in> {BITVECTOR_AND, BITVECTOR_OR, BITVECTOR_XOR} \<Longrightarrow> 0 \<le> x \<Longrightarrow> 0 \<le> y \<Longrightarrow> 0 \<le> op_fun k x y"
  by auto

lemma op_concat:
  assumes k: "k \<in> {BITVECTOR_AND, BITVECTOR_OR, BITVECTOR_XOR}" and v: "0 \<le> v" "v < 2 ^ b"
  shows "take_bit (a + b) (op_fun k x (sem_concat u b v)) =
    sem_concat (take_bit a (op_fun k (take_bit a (drop_bit b x)) u)) b (take_bit b (op_fun k (take_bit b x) v))"
proof (rule bit_eqI)
  fix i
  have r: "0 \<le> take_bit b (op_fun k (take_bit b x) v)" "take_bit b (op_fun k (take_bit b x) v) < 2 ^ b" by simp_all
  show "bit (take_bit (a + b) (op_fun k x (sem_concat u b v))) i =
    bit (sem_concat (take_bit a (op_fun k (take_bit a (drop_bit b x)) u)) b (take_bit b (op_fun k (take_bit b x) v))) i"
    unfolding bit_sem_concat [OF r] using k v
    by (cases "i < b"; cases "i < a + b") (auto simp: bit_take_bit_iff bit_op_fun bit_sem_concat bit_drop_bit_eq less_diff_conv2)
qed

lemma single_or_node_eq: "ns \<noteq> [] \<Longrightarrow> single_or_node k ns = (if length ns = 1 then ns ! 0 else App k ns)"
  by (cases ns) (auto simp: single_or_node_def)

lemma single_or_node_ac:
  assumes "ac_kind k" "ts \<noteq> []" "of_width w ts"
  shows "typeOf (single_or_node k ts) = Some (BitVectorType w)"
    "val_ok \<sigma> \<Longrightarrow> eval \<sigma> (single_or_node k ts) = VBV w (take_bit w (fold_num k \<sigma> ts))"
  using mkNaryNode_ac [OF assms] single_or_node_eq [OF assms(2)] by (simp_all add: mkNaryNode_def)

lemma single_or_node_concat:
  assumes "ts \<noteq> []" "\<forall>t\<in>set ts. is_bv t" "sum_list (map getSize ts) < 2147483648"
  shows "typeOf (single_or_node BITVECTOR_CONCAT ts) = Some (BitVectorType (sum_list (map getSize ts)))"
    "val_ok \<sigma> \<Longrightarrow> eval \<sigma> (single_or_node BITVECTOR_CONCAT ts) = VBV (sum_list (map getSize ts)) (cat_value (map (eval \<sigma>) ts))"
proof -
  obtain t ts' where ts: "ts = t # ts'" using assms(1) by (cases ts) auto
  show "typeOf (single_or_node BITVECTOR_CONCAT ts) = Some (BitVectorType (sum_list (map getSize ts)))"
    using assms ts by (cases ts') (auto simp: single_or_node_def is_bv_def)
  show "val_ok \<sigma> \<Longrightarrow> eval \<sigma> (single_or_node BITVECTOR_CONCAT ts) = VBV (sum_list (map getSize ts)) (cat_value (map (eval \<sigma>) ts))"
    using assms ts sum_wd [of ts \<sigma>] by (cases ts') (auto simp: single_or_node_def is_bv_def o_def)
qed

lemma find_split: "find P xs = Some x \<Longrightarrow>
  xs = takeWhile (\<lambda>y. \<not> P y) xs @ x # tl (dropWhile (\<lambda>y. \<not> P y) xs) \<and> dropWhile (\<lambda>y. \<not> P y) xs \<noteq> [] \<and>
  hd (dropWhile (\<lambda>y. \<not> P y) xs) = x \<and> P x"
  by (induction xs) (auto split: if_splits)

lemma cat_range:
  assumes "\<forall>t\<in>set ts. is_bv t" "val_ok \<sigma>"
  shows "0 \<le> cat_value (map (eval \<sigma>) ts)" "cat_value (map (eval \<sigma>) ts) < 2 ^ sum_list (map getSize ts)"
proof -
  have "\<forall>v\<in>set (map (eval \<sigma>) ts). has_type v (BitVectorType (wd v))"
    using assms eval_typed [OF assms(2)] by (fastforce simp: is_bv_def)
  from cat_value_range [OF this] sum_wd [OF assms]
  show "0 \<le> cat_value (map (eval \<sigma>) ts)" "cat_value (map (eval \<sigma>) ts) < 2 ^ sum_list (map getSize ts)"
    by (simp_all add: o_def)
qed

lemma op_concat3:
  assumes k: "k \<in> {BITVECTOR_AND, BITVECTOR_OR, BITVECTOR_XOR}"
    and c: "0 \<le> c" "c < 2 ^ n" and z: "0 \<le> z" "z < 2 ^ mz"
  shows "take_bit (my + (n + mz)) (op_fun k x (sem_concat y (n + mz) (sem_concat c mz z))) =
    sem_concat (take_bit my (op_fun k (take_bit my (drop_bit (n + mz) x)) y)) (n + mz)
      (sem_concat (take_bit n (op_fun k (take_bit n (drop_bit mz x)) c)) mz (take_bit mz (op_fun k (take_bit mz x) z)))"
proof -
  have cz: "0 \<le> sem_concat c mz z" "sem_concat c mz z < 2 ^ (n + mz)"
    using sem_concat_range [of c n z mz] c z by simp_all
  have "take_bit n (drop_bit mz (take_bit (n + mz) x)) = take_bit n (drop_bit mz x)"
    by (rule bit_eqI) (auto simp: bit_simps)
  then show ?thesis
    unfolding op_concat [OF k cz] op_concat [OF k z] by simp
qed

lemma slice_node:
  assumes k: "ac_kind k" and x: "typeOf x = Some (BitVectorType m)" and y: "typeOf y = Some (BitVectorType v)"
    and i: "lo \<le> hi" "hi < m" "hi - lo + 1 = v"
  shows "typeOf (App k [mkExtract x hi lo, y]) = Some (BitVectorType v)"
    "val_ok \<sigma> \<Longrightarrow> eval \<sigma> (App k [mkExtract x hi lo, y]) =
       VBV v (take_bit v (op_fun k (take_bit v (drop_bit lo (num (eval \<sigma> x)))) (num (eval \<sigma> y))))"
proof -
  have e: "typeOf (mkExtract x hi lo) = Some (BitVectorType v)" using x i by simp
  with y have ow: "of_width v [mkExtract x hi lo, y]" by simp
  with k show "typeOf (App k [mkExtract x hi lo, y]) = Some (BitVectorType v)" by (simp only: typeOf_ac) simp
  assume "val_ok \<sigma>"
  with k ow have "eval \<sigma> (App k [mkExtract x hi lo, y]) = VBV v (take_bit v (fold_num k \<sigma> [mkExtract x hi lo, y]))"
    by (intro eval_ac) auto
  then show "eval \<sigma> (App k [mkExtract x hi lo, y]) =
       VBV v (take_bit v (op_fun k (take_bit v (drop_bit lo (num (eval \<sigma> x)))) (num (eval \<sigma> y))))"
    unfolding fold_num_simps op_unit_id [OF k] mkExtract_typed sem_extract_def i(3) by simp
qed

lemma AndOrXorConcatPullUp_sound: "sound_rule AndOrXorConcatPullUp"
proof (rule sound_kind)
  fix k ts T assume *: "typeOf (App k ts) = Some T" "rule_applies AndOrXorConcatPullUp (App k ts)"
  then have k: "k \<in> {BITVECTOR_AND, BITVECTOR_OR, BITVECTOR_XOR}" "ac_kind k"
    unfolding AndOrXorConcatPullUp_def rule.select_convs ac_kind_def by (auto split: if_splits)
  obtain m where T: "T = BitVectorType m" using *(1) unfolding typeOf_ac [OF k(2)] by blast
  then have ts: "2 \<le> length ts" "of_width m ts" using ac_typedD [of k ts m] * k by auto
  have m: "m < 2147483648" "0 < m" using *(1) T typeOf_width by auto
  from *(2) k obtain con where con: "find (\<lambda>c. getKind c = BITVECTOR_CONCAT) ts = Some con"
      "\<exists>n. find isConst (children con) = Some n \<and> special_const n"
    unfolding AndOrXorConcatPullUp_def rule.select_convs special_const_def by (auto split: if_splits option.splits)
  define pre post where "pre = takeWhile (\<lambda>c. getKind c \<noteq> BITVECTOR_CONCAT) ts"
    and "post = tl (dropWhile (\<lambda>c. getKind c \<noteq> BITVECTOR_CONCAT) ts)"
  from find_split [OF con(1)] have split: "ts = pre @ con # post" "getKind con = BITVECTOR_CONCAT"
     "hd (dropWhile (\<lambda>c. getKind c \<noteq> BITVECTOR_CONCAT) ts) = con" by (auto simp: pre_def post_def)
  then obtain cs where cs: "con = App BITVECTOR_CONCAT cs" "\<forall>c\<in>set cs. is_bv c" "sum_list (map getSize cs) = m" "2 \<le> length cs"
    using ts(2) concat_node [OF split(2)] by (auto simp: is_bv_def)
  have "\<exists>c\<in>set cs. special_const c" using con(2) cs(1) by (auto simp: find_Some_iff)
  define yb rest where "yb = takeWhile (\<lambda>c. \<not> special_const c) cs" and "rest = dropWhile (\<lambda>c. \<not> special_const c) cs"
  obtain c zb where rest: "rest = c # zb" 
    using \<open>\<exists>c\<in>set cs. special_const c\<close> by (cases rest) (auto simp: rest_def)
  have cs_split: "cs = yb @ c # zb" using takeWhile_dropWhile_id [of "\<lambda>c. \<not> special_const c" cs] unfolding yb_def rest_def [symmetric] rest by (rule sym)
  define my n mz where "my = sum_list (map getSize yb)" and "n = getSize c" and "mz = sum_list (map getSize zb)"
  have sum: "my + (n + mz) = m" using cs(3) by (simp add: cs_split my_def n_def mz_def)
  have bvs: "\<forall>t\<in>set yb. is_bv t" "is_bv c" "\<forall>t\<in>set zb. is_bv t" using cs(2) by (auto simp: cs_split)
  have my0: "yb = [] \<longleftrightarrow> my = 0" using bvs(1) getSize_pos by (cases yb) (fastforce simp: my_def)+
  have mz0: "zb = [] \<longleftrightarrow> mz = 0" using bvs(3) getSize_pos by (cases zb) (fastforce simp: mz_def)+
  have n0: "0 < n" using bvs(2) getSize_pos by (simp add: n_def)
  have yz: "yb \<noteq> [] \<or> zb \<noteq> []" using cs(4) by (auto simp: cs_split)
  define x where "x = single_or_node k (pre @ post)"
  have prepost: "pre @ post \<noteq> []" "of_width m (pre @ post)" using ts split(1) by auto
  have x: "typeOf x = Some (BitVectorType m)" "val_ok \<sigma> \<Longrightarrow> eval \<sigma> x = VBV m (take_bit m (fold_num k \<sigma> (pre @ post)))" for \<sigma>
    using single_or_node_ac [OF k(2) prepost] by (simp_all add: x_def)
  have gx: "getSize x = m" using getSize_typed [OF x(1)] by simp
  define P where "P = (\<lambda>hi lo zs. if zs = [] then [] else [App k [mkExtract x hi lo, single_or_node BITVECTOR_CONCAT zs]])"
  define res where "res = P (m - 1) (m - my) yb @ [App k [mkExtract x (m - my - 1) mz, c]] @ P (mz - 1) 0 zb"
  have size: "getSize (single_or_node BITVECTOR_CONCAT zs) = sum_list (map getSize zs)"
    if "zs \<noteq> []" "\<forall>t\<in>set zs. is_bv t" "sum_list (map getSize zs) \<le> m" for zs
    using single_or_node_concat(1) [OF that(1,2)] that(3) m getSize_typed by fastforce
  have sizes: "(if yb = [] then 0 else getSize (single_or_node BITVECTOR_CONCAT yb)) = my"
    "(if zb = [] then 0 else getSize (single_or_node BITVECTOR_CONCAT zb)) = mz"
    using size [of yb] size [of zb] bvs sum my0 mz0 by (auto simp: my_def mz_def)
  have "1 < length res" using yz by (auto simp: res_def P_def)
  moreover have kids: "children con = cs" "children (App k ts) = ts" "getKind (App k ts) = k" by (simp_all add: cs)
  have app: "rule_apply AndOrXorConcatPullUp (App k ts) = Inr (App BITVECTOR_CONCAT res)"
    using yz sum
    unfolding AndOrXorConcatPullUp_def rule.select_convs Let_def kids split(3) yb_def [symmetric] rest_def [symmetric] rest
      pre_def [symmetric] post_def [symmetric] x_def [symmetric] gx n_def [symmetric] list.sel sizes
    by (cases "my = 0"; cases "mz = 0") (simp_all add: res_def P_def my0 mz0)
  ultimately have app: "rule_apply AndOrXorConcatPullUp (App k ts) = Inr (mkConcat res)"
    by (simp add: mkConcat_def)
  have py: "typeOf (App k [mkExtract x (m - 1) (m - my), single_or_node BITVECTOR_CONCAT yb]) = Some (BitVectorType my)"
    "val_ok \<sigma> \<Longrightarrow> eval \<sigma> (App k [mkExtract x (m - 1) (m - my), single_or_node BITVECTOR_CONCAT yb]) =
      VBV my (take_bit my (op_fun k (take_bit my (drop_bit (n + mz) (num (eval \<sigma> x)))) (cat_value (map (eval \<sigma>) yb))))"
    if "my \<noteq> 0" for \<sigma>
  proof -
    have "yb \<noteq> []" "sum_list (map getSize yb) < 2147483648" using that my0 sum m by (auto simp: my_def)
    note y = single_or_node_concat [OF this(1) bvs(1) this(2), folded my_def]
    have i: "m - my \<le> m - 1" "m - 1 < m" "m - 1 - (m - my) + 1 = my" "m - my = n + mz" using sum that n0 by auto
    note s = slice_node [OF k(2) x(1) y(1) i(1,2,3)]
    show "typeOf (App k [mkExtract x (m - 1) (m - my), single_or_node BITVECTOR_CONCAT yb]) = Some (BitVectorType my)" by (rule s(1))
    show "val_ok \<sigma> \<Longrightarrow> eval \<sigma> (App k [mkExtract x (m - 1) (m - my), single_or_node BITVECTOR_CONCAT yb]) =
      VBV my (take_bit my (op_fun k (take_bit my (drop_bit (n + mz) (num (eval \<sigma> x)))) (cat_value (map (eval \<sigma>) yb))))"
      using s(2) [of \<sigma>] y(2) [of \<sigma>] i(4) by (simp del: eval.simps)
  qed
  have pz: "typeOf (App k [mkExtract x (mz - 1) 0, single_or_node BITVECTOR_CONCAT zb]) = Some (BitVectorType mz)"
    "val_ok \<sigma> \<Longrightarrow> eval \<sigma> (App k [mkExtract x (mz - 1) 0, single_or_node BITVECTOR_CONCAT zb]) =
      VBV mz (take_bit mz (op_fun k (take_bit mz (num (eval \<sigma> x))) (cat_value (map (eval \<sigma>) zb))))"
    if "mz \<noteq> 0" for \<sigma>
  proof -
    have "zb \<noteq> []" "sum_list (map getSize zb) < 2147483648" using that mz0 sum m by (auto simp: mz_def)
    note z = single_or_node_concat [OF this(1) bvs(3) this(2), folded mz_def]
    have i: "0 \<le> mz - 1" "mz - 1 < m" "mz - 1 - 0 + 1 = mz" using sum that n0 by auto
    note s = slice_node [OF k(2) x(1) z(1) i]
    show "typeOf (App k [mkExtract x (mz - 1) 0, single_or_node BITVECTOR_CONCAT zb]) = Some (BitVectorType mz)" by (rule s(1))
    show "val_ok \<sigma> \<Longrightarrow> eval \<sigma> (App k [mkExtract x (mz - 1) 0, single_or_node BITVECTOR_CONCAT zb]) =
      VBV mz (take_bit mz (op_fun k (take_bit mz (num (eval \<sigma> x))) (cat_value (map (eval \<sigma>) zb))))"
      using s(2) [of \<sigma>] z(2) [of \<sigma>] by (simp del: eval.simps)
  qed
  have pc: "typeOf (App k [mkExtract x (m - my - 1) mz, c]) = Some (BitVectorType n)"
    "val_ok \<sigma> \<Longrightarrow> eval \<sigma> (App k [mkExtract x (m - my - 1) mz, c]) =
      VBV n (take_bit n (op_fun k (take_bit n (drop_bit mz (num (eval \<sigma> x)))) (num (eval \<sigma> c))))" for \<sigma>
  proof -
    have c: "typeOf c = Some (BitVectorType n)" using bvs(2) by (auto simp: is_bv_def n_def)
    have i: "mz \<le> m - my - 1" "m - my - 1 < m" "m - my - 1 - mz + 1 = n" using sum n0 by auto
    note s = slice_node [OF k(2) x(1) c i]
    show "typeOf (App k [mkExtract x (m - my - 1) mz, c]) = Some (BitVectorType n)" by (rule s(1))
    show "val_ok \<sigma> \<Longrightarrow> eval \<sigma> (App k [mkExtract x (m - my - 1) mz, c]) =
      VBV n (take_bit n (op_fun k (take_bit n (drop_bit mz (num (eval \<sigma> x)))) (num (eval \<sigma> c))))" by (rule s(2))
  qed
  have sizeP: "sum_list (map getSize (P (m - 1) (m - my) yb)) = my" "sum_list (map getSize (P (mz - 1) 0 zb)) = mz"
      "getSize (App k [mkExtract x (m - my - 1) mz, c]) = n"
    using py(1) pz(1) pc(1) my0 mz0 getSize_typed by (auto simp: P_def)
  show "rewrites_to (rule_apply AndOrXorConcatPullUp (App k ts)) T (App k ts)"
    unfolding app
  proof (rule rewrites_to_mkConcat [OF T m])
    show "\<forall>y\<in>set res. is_bv y"
      using py(1) pz(1) pc(1) my0 mz0 unfolding res_def P_def is_bv_def by auto
    show "sum_list (map getSize res) = m"
      using sizeP sum by (simp add: res_def)
    fix \<sigma> :: valuation assume \<sigma>: "val_ok \<sigma>"
    define X Y C Z where "X = num (eval \<sigma> x)" and "Y = cat_value (map (eval \<sigma>) yb)" and "C = num (eval \<sigma> c)"
      and "Z = cat_value (map (eval \<sigma>) zb)"
    have c: "typeOf c = Some (BitVectorType n)" using bvs(2) by (auto simp: is_bv_def n_def)
    have C: "0 \<le> C" "C < 2 ^ n" using c \<sigma> by (simp_all add: C_def)
    note Z = cat_range [OF bvs(3) \<sigma>, folded mz_def Z_def] and Y = cat_range [OF bvs(1) \<sigma>, folded my_def Y_def]
    have V: "num (eval \<sigma> con) = sem_concat Y (n + mz) (sem_concat C mz Z)"
      using c \<sigma> sum_wd [OF bvs(3) \<sigma>]
      by (simp add: cs(1) cs_split cat_value_append Y_def C_def Z_def mz_def o_def)
    have "fold_num k \<sigma> ts = op_fun k (fold_num k \<sigma> (pre @ post)) (num (eval \<sigma> con))"
    proof -
      have "fold_num k \<sigma> ts = fold_num k \<sigma> ((pre @ post) @ [con])"
        using split(1) by (intro fold_num_mset [OF k(2)]) simp
      then show ?thesis unfolding fold_num_append [OF k(2), of _ "pre @ post"] fold_num_simps op_unit_id [OF k(2)] .
    qed
    then have "take_bit m (fold_num k \<sigma> ts) = take_bit m (op_fun k X (sem_concat Y (n + mz) (sem_concat C mz Z)))"
      using op_trunc(1) [OF k(2), of m "fold_num k \<sigma> (pre @ post)"] x(2) [OF \<sigma>] by (simp add: X_def V)
    also have "\<dots> = cat_value (map (eval \<sigma>) res)"
      unfolding sum [symmetric] op_concat3 [OF k(1) C Z]
      using py(2) [OF _ \<sigma>] pz(2) [OF _ \<sigma>] pc(2) [OF \<sigma>] my0 mz0
      by (simp add: res_def P_def X_def Y_def C_def Z_def cat_value_append add.commute del: eval.simps)
    finally show "eval \<sigma> (App k ts) = VBV m (cat_value (map (eval \<sigma>) res))"
      using eval_ac [OF k(2) _ ts(2) \<sigma>] ts(1) by (cases ts) auto
  qed
next
  fix n assume "rule_applies AndOrXorConcatPullUp n"
  then show "getKind n \<notin> {VARIABLE, CONST_BOOLEAN, CONST_RATIONAL, CONST_BITVECTOR}"
    unfolding AndOrXorConcatPullUp_def rule.select_convs by (auto split: if_splits)
qed

text \<open>
  \<open>BvIteConstChildren\<close> reads the two constants as 0 and 1, which the stage before it in \<open>RewriteITEBv\<close>
  ensures: with equal constants an assertion fails or the value changes.
\<close>

lemma isOne_const: "0 < w \<Longrightarrow> w < 2147483648 \<Longrightarrow> isOne (mkConst w x) \<longleftrightarrow> take_bit w x = 1"
proof -
  assume w: "0 < w" "w < 2147483648"
  then have "getSize (mkConst w x) = w" using getSize_typed [of "mkConst w x" "BitVectorType w"] by simp
  with w show ?thesis by (simp add: isOne_def mkOne_def) (simp add: mkConst_def mkBitVector_def modByPow2_def)
qed

lemma BvIteConstChildren_rewrites:
  assumes "typeOf n = Some T" "rule_applies BvIteConstChildren n" "child n 1 \<noteq> child n 2"
  shows "rewrites_to (rule_apply BvIteConstChildren n) T n"
proof -
  from assms obtain c a b where n: "n = App BITVECTOR_ITE [c, a, b]" "T = BitVectorType 1" "typeOf c = Some (BitVectorType 1)"
    "typeOf a = Some (BitVectorType 1)" "typeOf b = Some (BitVectorType 1)" "isConst a" "isConst b"
    by (cases n; cases T) (auto simp: rule_defs rule_sem split: if_splits)
  show ?thesis 
    using const1_node [OF n(6) n(4) [simplified]] const1_node [OF n(7) n(5) [simplified]] assms(3) n
    by (auto simp: rule_defs isZero_const isOne_const sem_1 dest: bit1_cases)
qed

lemma const_size1: "getSize (mkConst 1 x) = 1"
  using getSize_typed [of "mkConst 1 x" "BitVectorType 1"] by simp

lemma BvIteConstChildren_equal:
  assumes "typeOf n = Some T" "rule_applies BvIteConstChildren n" "child n 1 = child n 2"
  shows "rule_apply BvIteConstChildren n = Inl AssertionFailure"
proof -
  from assms obtain c a where n: "n = App BITVECTOR_ITE [c, a, a]" "typeOf a = Some (BitVectorType 1)" "isConst a"
    by (cases n; cases T) (auto simp: rule_defs rule_sem split: if_splits)
  show ?thesis
    using const1_node [OF n(3) n(2) [simplified]] n(1) by (auto simp: rule_defs isZero_const isOne_const)
qed

subsection \<open>Properties\<close>

lemmas simplify_sound = BitOfConst_sound ITE_simple_sound ITE_merge_sound BvComp_sound ShlByConst_sound LshrByConst_sound
  AshrByConst_sound NotXor_sound NotIdemp_sound order_sound SltZero_sound AndOrXorConcatPullUp_sound



text \<open>\<open>XorOne\<close> and \<open>XorZero\<close> keep type and value when a child remains after the constants
  they remove; on a disjunction of constants of one kind only, they have no children left to build a node of.\<close>

theorem xor_constants_sound:
  assumes "typeOf (App BITVECTOR_XOR ts) = Some (BitVectorType w)"
    and "r = XorOne \<and> (\<exists>t\<in>set ts. Inr t \<noteq> mkOnes w) \<or> r = XorZero \<and> (\<exists>t\<in>set ts. t \<noteq> mkConst w 0)"
  shows "\<exists>n'. rule_apply r (App BITVECTOR_XOR ts) = Inr n' \<and> equiv n' (App BITVECTOR_XOR ts)"
  using XorOne_sound [OF assms(1)] XorZero_sound [OF assms(1)] assms(2) unfolding rewrites_to_equiv [OF assms(1)] by blast

theorem xor_constants_sound_witness:
  "\<exists>n'. rule_apply XorZero (App BITVECTOR_XOR [Var 0 (BitVectorType 8), mkConst 8 0]) = Inr n'
    \<and> equiv n' (App BITVECTOR_XOR [Var 0 (BitVectorType 8), mkConst 8 0])"
  by (rule xor_constants_sound [where w = 8]) (simp, simp add: mkConst_def)

text \<open>\<open>BvIteConstChildren\<close> keeps type and value when the two constant children differ, which the rules run
  before it establish; on equal constants the rule applies but its assertion fails.\<close>

theorem BvIteConstChildren_guard:
  assumes "typeOf n = Some T" "rule_applies BvIteConstChildren n"
  shows "if child n 1 = child n 2 then rule_apply BvIteConstChildren n = Inl AssertionFailure
    else \<exists>n'. rule_apply BvIteConstChildren n = Inr n' \<and> equiv n' n"
  using BvIteConstChildren_rewrites [OF assms] BvIteConstChildren_equal [OF assms] unfolding rewrites_to_equiv [OF assms(1)] by simp

theorem BvIteConstChildren_guard_witness:
  "rule_apply BvIteConstChildren (App BITVECTOR_ITE [mkConst 1 1, mkConst 1 0, mkConst 1 0]) = Inl AssertionFailure"
proof -
  have "rule_applies BvIteConstChildren (App BITVECTOR_ITE [mkConst 1 1, mkConst 1 0, mkConst 1 0])"
    unfolding BvIteConstChildren_def rule.select_convs by (simp add: const_size1 [simplified]) (simp add: mkConst_def)
  from BvIteConstChildren_guard [OF _ this, of "BitVectorType 1"] show ?thesis by simp
qed

end
