(* ===== verification/Rules_Simplify_Arith.thy ===== *)
theory Rules_Simplify_Arith
  imports Rules_Simplify BitVector_Correct
begin

section \<open>Simplification rules on arithmetic and extensions\<close>

text \<open>
  \<open>theory/bv/theory_bv_rewrite_rules_simplification.h\<close>, second part: multiplication and
  division by powers of two, the split of a multiplication, sums of negations. The sum of the exponents in \<open>MultPow2\<close>, an \<open>unsigned\<close> in the code, is kept
  exact: it would wrap only if the number of children times the width passed \<open>2 ^ 32\<close>.
\<close>

unbundle bit_operations_syntax

subsection \<open>Multiplication and division\<close>

text \<open>\<open>isPow2Const\<close> with the flag reset, as the rules call it.\<close>

definition pow2_const :: "node \<Rightarrow> nat \<times> bool" where
  "pow2_const n = (case isPow2Const n False of Inr r \<Rightarrow> r | Inl e \<Rightarrow> (0, False))"

fun MultPow2_loop :: "node list \<Rightarrow> nat \<Rightarrow> bool \<Rightarrow> node list \<Rightarrow> nat \<times> bool \<times> node list" where
  "MultPow2_loop [] exponent isNeg cs = (exponent, isNeg, cs)"
| "MultPow2_loop (cn # ns) exponent isNeg cs =
     (let (exp, cIsNeg) = pow2_const cn
      in if exp \<noteq> 0
         then MultPow2_loop ns (exponent + (exp - 1)) (if cIsNeg then \<not> isNeg else isNeg) cs
         else MultPow2_loop ns exponent isNeg (cs @ [cn]))"

definition MultPow2 :: rule where
  [rule_defs]: "MultPow2 = \<lparr>
    rule_applies = (\<lambda>node. if getKind node \<noteq> BITVECTOR_MULT then False
      else \<exists>cn \<in> set (children node). fst (pow2_const cn) \<noteq> 0),
    rule_apply = (\<lambda>node.
      let sz = getSize node;
          (exponent, isNeg, cs) = MultPow2_loop (children node) 0 False []
      in if exponent \<ge> sz then Inr (mkZero sz)
         else
           let a = (if cs = [] then mkOne sz else mkNaryNode BITVECTOR_MULT cs);
               a = (if isNeg \<and> sz > 1 then App BITVECTOR_NEG [a] else a)
           in if exponent = 0 then Inr a
              else
                let extract = mkExtract a (sz - exponent - 1) 0;
                    zeros = mkConst exponent 0
                in Inr (mkConcat2 extract zeros))\<rparr>"

definition ExtractMultLeadingBit :: rule where
  [rule_defs]: "ExtractMultLeadingBit = \<lparr>
    rule_applies = (\<lambda>node.
      if \<not> is_EXTRACT (getKind node) then False
      else
        let low = getExtractLow node; node = child node 0
        in if getKind node \<noteq> BITVECTOR_MULT \<or> getNumChildren node \<noteq> 2 \<or> getSize node \<le> 64 then False
           else if getKind (child node 0) \<noteq> BITVECTOR_CONCAT \<or> getKind (child node 1) \<noteq> BITVECTOR_CONCAT \<or>
             \<not> isConst (child (child node 0) 0) \<or> \<not> isConst (child (child node 1) 0) then False
           else
             let n = getSize node;
                 int1 = toInteger (getConstBV (child (child node 0) 0));
                 int2 = toInteger (getConstBV (child (child node 1) 0));
                 int1_size = getSize (child (child node 0) 0);
                 int2_size = getSize (child (child node 1) 0);
                 zeroes1 = (if int1 = 0 then int1_size else int1_size - int_length int1);
                 zeroes2 = (if int2 = 0 then int2_size else int2_size - int_length int2);
                 k = 2 * n - (zeroes1 + zeroes2)
             in if k > low then False else True),
    rule_apply = (\<lambda>node. Inr (mkConst (getSize node) 0))\<rparr>"

definition NegIdemp :: rule where
  [rule_defs]: "NegIdemp = \<lparr>
    rule_applies = (\<lambda>node. getKind node = BITVECTOR_NEG \<and> getKind (child node 0) = BITVECTOR_NEG),
    rule_apply = (\<lambda>node. Inr (child (child node 0) 0))\<rparr>"

definition UdivPow2 :: rule where
  [rule_defs]: "UdivPow2 = \<lparr>
    rule_applies = (\<lambda>node.
      if getKind node = BITVECTOR_UDIV_TOTAL \<and> fst (pow2_const (child node 1)) \<noteq> 0
      then \<not> snd (pow2_const (child node 1)) else False),
    rule_apply = (\<lambda>node.
      let sz = getSize node; a = child node 0;
          (p, isNeg) = pow2_const (child node 1); power = p - 1;
          ret = (if power = 0 then a
                 else App BITVECTOR_CONCAT [mkConst power 0, mkExtract a (sz - 1) power])
      in Inr (if isNeg \<and> sz > 1 then App BITVECTOR_NEG [ret] else ret))\<rparr>"

definition UdivZero :: rule where
  [rule_defs]: "UdivZero = \<lparr>
    rule_applies = (\<lambda>node. getKind node = BITVECTOR_UDIV_TOTAL \<and> child node 1 = mkConst (getSize node) 0),
    rule_apply = (\<lambda>node. mkOnes (getSize node))\<rparr>"

definition UdivOne :: rule where
  [rule_defs]: "UdivOne = \<lparr>
    rule_applies = (\<lambda>node. getKind node = BITVECTOR_UDIV_TOTAL \<and> child node 1 = mkConst (getSize node) 1),
    rule_apply = (\<lambda>node. Inr (child node 0))\<rparr>"

definition UremPow2 :: rule where
  [rule_defs]: "UremPow2 = \<lparr>
    rule_applies = (\<lambda>node.
      if getKind node = BITVECTOR_UREM_TOTAL \<and> fst (pow2_const (child node 1)) \<noteq> 0
      then \<not> snd (pow2_const (child node 1)) else False),
    rule_apply = (\<lambda>node.
      let a = child node 0; power = fst (pow2_const (child node 1)) - 1
      in Inr (if power = 0 then mkZero (getSize node)
              else App BITVECTOR_CONCAT [mkZero (getSize node - power), mkExtract a (power - 1) 0]))\<rparr>"

definition UremOne :: rule where
  [rule_defs]: "UremOne = \<lparr>
    rule_applies = (\<lambda>node. getKind node = BITVECTOR_UREM_TOTAL \<and> child node 1 = mkConst (getSize node) 1),
    rule_apply = (\<lambda>node. Inr (mkConst (getSize node) 0))\<rparr>"

definition UremSelf :: rule where
  [rule_defs]: "UremSelf = \<lparr>
    rule_applies = (\<lambda>node. getKind node = BITVECTOR_UREM_TOTAL \<and> child node 0 = child node 1),
    rule_apply = (\<lambda>node. Inr (mkConst (getSize node) 0))\<rparr>"

definition ShiftZero :: rule where
  [rule_defs]: "ShiftZero = \<lparr>
    rule_applies = (\<lambda>node. (getKind node = BITVECTOR_SHL \<or> getKind node = BITVECTOR_LSHR \<or> getKind node = BITVECTOR_ASHR) \<and>
      child node 0 = mkConst (getSize node) 0),
    rule_apply = (\<lambda>node. Inr (child node 0))\<rparr>"

text \<open>The argument is the option \<open>bitvectorDivByZeroConst\<close>.\<close>

definition UgtUrem :: "bool \<Rightarrow> rule" where
  [rule_defs]: "UgtUrem divByZeroConst = \<lparr>
    rule_applies = (\<lambda>node. divByZeroConst \<and> getKind node = BITVECTOR_UGT \<and>
      getKind (child node 0) = BITVECTOR_UREM_TOTAL \<and> child (child node 0) 1 = child node 1),
    rule_apply = (\<lambda>node.
      let t = child (child node 0) 0; x = child node 1; zero = mkConst (getSize x) 0
      in Inr (App AND_K [App EQUAL [x, zero], App BITVECTOR_UGT [t, zero]]))\<rparr>"

fun BBPlusNeg_loop :: "node list \<Rightarrow> nat \<Rightarrow> node list \<Rightarrow> nat \<times> node list" where
  "BBPlusNeg_loop [] neg_count cs = (neg_count, cs)"
| "BBPlusNeg_loop (n # ns) neg_count cs =
     (if getKind n = BITVECTOR_NEG
      then BBPlusNeg_loop ns (neg_count + 1) (cs @ [App BITVECTOR_NOT [child n 0]])
      else BBPlusNeg_loop ns neg_count (cs @ [n]))"

definition BBPlusNeg :: rule where
  [rule_defs]: "BBPlusNeg = \<lparr>
    rule_applies = (\<lambda>node. if getKind node \<noteq> BITVECTOR_PLUS then False
      else length (filter (\<lambda>n. getKind n = BITVECTOR_NEG) (children node)) > 1),
    rule_apply = (\<lambda>node.
      let (neg_count, cs) = BBPlusNeg_loop (children node) 0 []
      in Assert (neg_count \<noteq> 0)
        (Inr (mkNaryNode BITVECTOR_PLUS (cs @ [mkConst (getSize node) (int neg_count)]))))\<rparr>"

definition MultSlice :: rule where
  [rule_defs]: "MultSlice = \<lparr>
    rule_applies = (\<lambda>node. if getKind node \<noteq> BITVECTOR_MULT \<or> getNumChildren node \<noteq> 2 then False
      else getSize (child node 0) mod 2 = 0),
    rule_apply = (\<lambda>node.
      let bitwidth = getSize (child node 0);
          zeros = mkConst (bitwidth div 2) 0;
          a = child node 0;
          bottom_a = mkExtract a (bitwidth div 2 - 1) 0;
          top_a = mkExtract a (bitwidth - 1) (bitwidth div 2);
          b = child node 1;
          bottom_b = mkExtract b (bitwidth div 2 - 1) 0;
          top_b = mkExtract b (bitwidth - 1) (bitwidth div 2);
          term1 = App BITVECTOR_MULT [App BITVECTOR_CONCAT [zeros, bottom_a], App BITVECTOR_CONCAT [zeros, bottom_b]];
          term2 = App BITVECTOR_CONCAT [App BITVECTOR_MULT [top_b, bottom_a], zeros];
          term3 = App BITVECTOR_CONCAT [App BITVECTOR_MULT [top_a, bottom_b], zeros]
      in Inr (App BITVECTOR_PLUS [term1, term2, term3]))\<rparr>"

definition UltPlusOne :: rule where
  [rule_defs]: "UltPlusOne = \<lparr>
    rule_applies = (\<lambda>node.
      if getKind node \<noteq> BITVECTOR_ULT then False
      else
        let y1 = child node 1
        in if getKind y1 \<noteq> BITVECTOR_PLUS then False
           else if getKind (child y1 0) \<noteq> CONST_BITVECTOR \<and> getKind (child y1 1) \<noteq> CONST_BITVECTOR then False
           else if getKind (child y1 0) = CONST_BITVECTOR \<and> getKind (child y1 1) = CONST_BITVECTOR then False
           else if getNumChildren y1 \<noteq> 2 then False
           else let one = (if getKind (child y1 0) = CONST_BITVECTOR then child y1 0 else child y1 1)
                in one = mkConst (getSize one) 1),
    rule_apply = (\<lambda>node.
      let x = child node 0; y1 = child node 1;
          y = (if getKind (child y1 0) \<noteq> CONST_BITVECTOR then child y1 0 else child y1 1);
          sz = getSize x
      in and_then (mkOnes sz) (\<lambda>ones.
        let not_y_eq_1 = App NOT_K [App EQUAL [y, ones]];
            not_y_lt_x = App NOT_K [App BITVECTOR_ULT [y, x]]
        in Inr (App AND_K [not_y_eq_1, not_y_lt_x])))\<rparr>"

subsection \<open>Soundness: division and shifts\<close>

lemma pow2_const_eq:
  assumes "typeOf n = Some (BitVectorType w)" "pow2_const n = (p, neg)" "p \<noteq> 0"
  shows "n = mkConst w (if neg then - (2 ^ (p - 1)) else 2 ^ (p - 1))" "p \<le> w"
  using isPow2Const_eq [OF assms(1) _ assms(3), of False neg] assms(2,3)
  by (auto simp: pow2_const_def split: sum.splits)

lemma pow2_divisor:
  assumes "typeOf n = Some (BitVectorType w)" "fst (pow2_const n) \<noteq> 0" "\<not> snd (pow2_const n)"
  obtains p where "pow2_const n = (Suc p, False)" "p < w" "n = mkConst w (2 ^ p)" "take_bit w (2 ^ p :: int) = 2 ^ p"
proof -
  obtain q where q: "pow2_const n = (q, False)" "q \<noteq> 0" using assms(2,3) by (cases "pow2_const n") auto
  from pow2_const_eq [OF assms(1) q] q that [of "q - 1"] show thesis by (simp add: take_bit_id)
qed

lemma udiv_pow2: "p < w \<Longrightarrow> 0 \<le> x \<Longrightarrow> x < 2 ^ w \<Longrightarrow> sem_extract (w - Suc 0) p x = sem_udiv w x (2 ^ p)"
  using drop_bit_take_bit [of p w x] by (simp add: sem_extract_def sem_udiv_def Suc_diff_Suc take_bit_id drop_bit_eq_div)

lemma urem_pow2: "0 < p \<Longrightarrow> sem_extract (p - Suc 0) 0 x = x mod 2 ^ p"
  by (simp add: sem_extract_def take_bit_eq_mod)

lemma UdivPow2_sound: "sound_rule UdivPow2"
proof (rule sound_kind)
  fix k ts T assume *: "typeOf (App k ts) = Some T" "rule_applies UdivPow2 (App k ts)"
  then obtain a b w where n: "k = BITVECTOR_UDIV_TOTAL" "ts = [a, b]" "typeOf a = Some (BitVectorType w)"
    "typeOf b = Some (BitVectorType w)" "T = BitVectorType w" and b: "fst (pow2_const b) \<noteq> 0" "\<not> snd (pow2_const b)"
    by (auto simp: rule_defs rule_sem split: if_splits)
  from pow2_divisor [OF n(4) b] obtain p where p: "pow2_const b = (Suc p, False)" "p < w" "b = mkConst w (2 ^ p)"
    "take_bit w (2 ^ p :: int) = 2 ^ p" .
  note w = typeOf_width [OF n(3)]
  have "getSize (App BITVECTOR_UDIV_TOTAL [a, b]) = w" using * n getSize_typed by fastforce
  then show "rewrites_to (rule_apply UdivPow2 (App k ts)) T (App k ts)"
    using n p w by (auto simp: UdivPow2_def udiv_pow2 sem_udiv_def simp flip: mkConcat2_def)
qed (simp add: rule_defs split: if_splits)

lemma UremPow2_sound: "sound_rule UremPow2"
proof (rule sound_kind)
  fix k ts T assume *: "typeOf (App k ts) = Some T" "rule_applies UremPow2 (App k ts)"
  then obtain a b w where n: "k = BITVECTOR_UREM_TOTAL" "ts = [a, b]" "typeOf a = Some (BitVectorType w)"
    "typeOf b = Some (BitVectorType w)" "T = BitVectorType w" and b: "fst (pow2_const b) \<noteq> 0" "\<not> snd (pow2_const b)"
    by (auto simp: rule_defs rule_sem split: if_splits)
  from pow2_divisor [OF n(4) b] obtain p where p: "pow2_const b = (Suc p, False)" "p < w" "b = mkConst w (2 ^ p)"
    "take_bit w (2 ^ p :: int) = 2 ^ p" .
  note w = typeOf_width [OF n(3)]
  have "getSize (App BITVECTOR_UREM_TOTAL [a, b]) = w" using * n getSize_typed by fastforce
  then show "rewrites_to (rule_apply UremPow2 (App k ts)) T (App k ts)"
    using n p w by (auto simp: UremPow2_def urem_pow2 sem_urem_def simp flip: mkConcat2_def)
qed (simp add: rule_defs split: if_splits)

lemma div_simple_sound: "sound_rule UdivZero" "sound_rule UdivOne" "sound_rule UremOne" "sound_rule UremSelf" 
  subgoal by (rule sound_kind; auto simp: rule_defs rule_sem mkOnes_eq sem_udiv_def)
  subgoal by (rule sound_kind; auto simp: rule_defs rule_sem sem_udiv_def)
  subgoal by (rule sound_kind; auto simp: rule_defs rule_sem sem_urem_def)
  subgoal by (rule sound_kind; auto simp: rule_defs rule_sem sem_urem_def)
  done

lemma ShiftZero_sound: "sound_rule ShiftZero"
  by (rule sound_kind; auto simp: rule_defs rule_sem sem_shl_def sem_lshr_def sem_ashr_def sval_0)

lemma NegIdemp_sound: "sound_rule NegIdemp"
  by (rule sound_kind; auto simp: rule_defs rule_sem getKind_iff sem_neg_neg)

lemma ugt_urem: "0 \<le> x \<Longrightarrow> 0 \<le> y \<Longrightarrow> y < sem_urem w x y \<longleftrightarrow> y = 0 \<and> 0 < x"
  using pos_mod_bound [of y x] by (cases "0 < y") (auto simp: sem_urem_def not_less order_less_imp_le)

lemma UgtUrem_sound: "sound_rule (UgtUrem divByZeroConst)"
  by (rule sound_kind; auto simp: rule_defs rule_sem getKind_iff ugt_urem num_compare)

subsection \<open>Soundness: sums and products\<close>

lemma take_bit_neg_not: "0 \<le> x \<Longrightarrow> x < 2 ^ w \<Longrightarrow> take_bit w (sem_neg w x + s) = take_bit w (sem_not w x + (s + 1))"
  using not_plus_one [of w x] by (metis add.assoc add.commute take_bit_add_left)

lemma BBPlusNeg_loop_sum:
  assumes "of_width w (ns @ cs)" "val_ok \<sigma>" "BBPlusNeg_loop ns m cs = (m', cs')"
  shows "of_width w cs' \<and> m' = m + length (filter (\<lambda>n. getKind n = BITVECTOR_NEG) ns) \<and>
    take_bit w (fold_num BITVECTOR_PLUS \<sigma> cs' + int m') = take_bit w (fold_num BITVECTOR_PLUS \<sigma> (ns @ cs) + int m)"
  using assms
proof (induction ns m cs rule: BBPlusNeg_loop.induct)
  case (2 n ns m cs)
  show ?case
  proof (cases "getKind n = BITVECTOR_NEG")
    case True
    then obtain x where n: "n = App BITVECTOR_NEG [x]" "typeOf x = Some (BitVectorType w)"
      using "2.prems"(1) by (auto simp: getKind_iff isBitVector_iff)
    have loop: "BBPlusNeg_loop ns (m + 1) (cs @ [App BITVECTOR_NOT [child n 0]]) = (m', cs')"
      and typed: "of_width w (ns @ cs @ [App BITVECTOR_NOT [child n 0]])"
      using "2.prems" n by (simp_all add: isBitVector_iff)
    note IH = "2.IH"(1) [OF True typed "2.prems"(2) loop]
    from IH have "take_bit w (fold_num BITVECTOR_PLUS \<sigma> cs' + int m') =
       take_bit w (fold_num BITVECTOR_PLUS \<sigma> (ns @ cs @ [App BITVECTOR_NOT [x]]) + int (m + 1))"
      unfolding n(1) children.simps nth_Cons_0 by blast
    also have "\<dots> = take_bit w (sem_not w (num (eval \<sigma> x)) + (fold_num BITVECTOR_PLUS \<sigma> (ns @ cs) + int m + 1))"
      using n "2.prems"(2) by (simp add: fold_num_append ac_simps)
    also have "\<dots> = take_bit w (sem_neg w (num (eval \<sigma> x)) + (fold_num BITVECTOR_PLUS \<sigma> (ns @ cs) + int m))"
      using n "2.prems"(2) by (subst take_bit_neg_not) auto
    also have "\<dots> = take_bit w (fold_num BITVECTOR_PLUS \<sigma> ((n # ns) @ cs) + int m)"
      using n "2.prems"(2) by (simp add: ac_simps)
    finally show ?thesis using IH True by simp
  next
    case False
    have "fold_num BITVECTOR_PLUS \<sigma> ((n # ns) @ cs) = fold_num BITVECTOR_PLUS \<sigma> (ns @ cs @ [n])"
      by (simp add: fold_num_append ac_simps)
    moreover have "of_width w (ns @ cs @ [n])" "BBPlusNeg_loop ns m (cs @ [n]) = (m', cs')"
      using "2.prems" False by simp_all
    note "2.IH"(2) [OF False this(1) "2.prems"(2) this(2)]
    ultimately show ?thesis using False by auto
  qed
qed simp

lemma BBPlusNeg_sound: "sound_rule BBPlusNeg"
proof (rule sound_ac)
  fix ts w assume *: "2 \<le> length ts" "of_width w ts" "0 < w" "w < 2147483648"
    "typeOf (App BITVECTOR_PLUS ts) = Some (BitVectorType w)" "rule_applies BBPlusNeg (App BITVECTOR_PLUS ts)"
  obtain m cs where l: "BBPlusNeg_loop ts 0 [] = (m, cs)" by fastforce
  have size: "getSize (App BITVECTOR_PLUS ts) = w" using getSize_typed [OF *(5)] by simp
  have cs: "of_width w cs" "m \<noteq> 0" using BBPlusNeg_loop_sum [of w ts "[]" zero_val 0 m cs] * l by (auto simp: rule_defs)
  have "take_bit w (fold_num BITVECTOR_PLUS \<sigma> (cs @ [mkConst w (int m)])) = take_bit w (fold_num BITVECTOR_PLUS \<sigma> ts)"
    if "val_ok \<sigma>" for \<sigma>
    using conjunct2 [OF conjunct2 [OF BBPlusNeg_loop_sum [of w ts "[]" \<sigma> 0 m cs]]] *(2) l that
    by (simp add: fold_num_append take_bit_add_right)
  moreover have "ts \<noteq> []" using *(1) by auto
  ultimately show "rewrites_to (rule_apply BBPlusNeg (App BITVECTOR_PLUS ts)) (BitVectorType w) (App BITVECTOR_PLUS ts)"
    unfolding BBPlusNeg_def rule.select_convs children.simps l split size using cs *
    by (simp del: eval.simps(5) add: mkNaryNode_ac eval_ac)
qed (auto simp: rule_defs split: if_splits)

lemma mult_slices:
  assumes x: "0 \<le> x" "x < 2 ^ (h + h)" and y: "0 \<le> y" "y < 2 ^ (h + h)"
  defines "lx \<equiv> take_bit h x" and "hx \<equiv> take_bit h (drop_bit h x)" and "ly \<equiv> take_bit h y" and "hy \<equiv> take_bit h (drop_bit h y)"
  shows "take_bit (h + h) (lx * ly + (push_bit h (take_bit h (hy * lx)) + push_bit h (take_bit h (hx * ly)))) = take_bit (h + h) (x * y :: int)"
proof -
  have split: "z = take_bit h z + 2 ^ h * take_bit h (drop_bit h z)" if "0 \<le> z" "z < 2 ^ (h + h)" for z :: int
  proof -
    have "take_bit h (drop_bit h z) = drop_bit h z" using that by (simp add: take_bit_drop_bit take_bit_id)
    then show ?thesis using bits_ident [of h z] by (simp add: push_bit_eq_mult ac_simps)
  qed
  have push: "push_bit h (take_bit h z) = take_bit (h + h) (push_bit h z)" for z :: int
    by (simp add: take_bit_push_bit)
  have "take_bit (h + h) (lx * ly + (push_bit h (take_bit h (hy * lx)) + push_bit h (take_bit h (hx * ly)))) =
    take_bit (h + h) (lx * ly + (push_bit h (hy * lx) + push_bit h (hx * ly)))"
    unfolding push by (metis take_bit_add take_bit_take_bit take_bit_add_right)
  also have "\<dots> = take_bit (h + h) (lx * ly + (push_bit h (hy * lx) + push_bit h (hx * ly)) + 2 ^ (h + h) * (hx * hy))"
    by (simp add: take_bit_eq_mod)
  also have "lx * ly + (push_bit h (hy * lx) + push_bit h (hx * ly)) + 2 ^ (h + h) * (hx * hy) = (lx + 2 ^ h * hx) * (ly + 2 ^ h * hy)"
    by (simp add: push_bit_eq_mult power_add algebra_simps)
  also have "\<dots> = x * y" using split [OF x] split [OF y] by (simp add: lx_def ly_def hx_def hy_def)
  finally show ?thesis .
qed

lemma MultSlice_sound: "sound_rule MultSlice"
proof (rule sound_kind)
  fix k ts T assume *: "typeOf (App k ts) = Some T" "rule_applies MultSlice (App k ts)"
  then obtain a b w h where n: "k = BITVECTOR_MULT" "ts = [a, b]" "typeOf a = Some (BitVectorType (h + h))"
    "typeOf b = Some (BitVectorType (h + h))" "T = BitVectorType (h + h)"
    by (auto simp: rule_defs rule_sem getNumChildren_def length_Suc_conv numeral_2_eq_2 split: if_splits elim!: evenE)
  then have h: "0 < h" "h + h < 2147483648" "getSize a = h + h" "(h + h) div 2 = h" using typeOf_width by auto
  have ex: "sem_extract (h - Suc 0) 0 x = take_bit h x" "sem_extract (h + h - Suc 0) h x = take_bit h (drop_bit h x)"
    "h - Suc 0 < h + h" "h \<le> h + h - Suc 0" "h + h - Suc 0 - h = h - Suc 0" for x
    using h(1) by (simp_all add: sem_extract_def)
  show "rewrites_to (rule_apply MultSlice (App k ts)) T (App k ts)"
    unfolding MultSlice_def rule.select_convs n(1,2)
    using n h by (simp add: Let_def ex sem_concat_def take_bit_add_left mult_slices flip: mkConcat2_def)

qed (simp add: rule_defs split: if_splits)

lemma UltPlusOne_sound: "sound_rule UltPlusOne"
proof (rule sound_kind)
  fix k ts T assume *: "typeOf (App k ts) = Some T" "rule_applies UltPlusOne (App k ts)"
  then obtain x y w p q where n: "k = BITVECTOR_ULT" "ts = [x, App BITVECTOR_PLUS [p, q]]" "typeOf x = Some (BitVectorType w)"
    "T = BooleanType" "p = mkConst w 1 \<and> q = y \<and> getKind y \<noteq> CONST_BITVECTOR \<or> q = mkConst w 1 \<and> p = y \<and> getKind y \<noteq> CONST_BITVECTOR"
    "typeOf y = Some (BitVectorType w)"
    by (auto simp: rule_defs rule_sem getNumChildren_def getKind_iff length_Suc_conv numeral_2_eq_2 split: if_splits)
  have w: "getSize x = w" "0 < w" "w < 2147483648" using n(3) typeOf_width by auto
  have const: "getKind (mkConst w 1) = CONST_BITVECTOR" by (simp add: mkConst_def)
  have iff: "num (eval \<sigma> y) \<noteq> mask w \<and> \<not> num (eval \<sigma> y) < num (eval \<sigma> x) \<longleftrightarrow>
    num (eval \<sigma> x) < take_bit w (num (eval \<sigma> y) + 1)" if "val_ok \<sigma>" for \<sigma>
  proof (cases "num (eval \<sigma> y) = mask w")
    case True
    then have "take_bit w (num (eval \<sigma> y) + 1) = 0" by (simp add: mask_int)
    with True num_compare(4) [OF n(3) that] show ?thesis by simp
  next
    case False
    then have "take_bit w (num (eval \<sigma> y) + 1) = num (eval \<sigma> y) + 1"
      using False eval_bv(2,3) [OF n(6) that] by (intro take_bit_id) (auto simp: mask_int)
    with False show ?thesis by auto
  qed
  have zero: "take_bit w (mask w + 1) = (0::int)" "take_bit w (1 + mask w) = (0::int)" by (simp_all add: mask_int)
  have sum: "take_bit w (num (eval \<sigma> p) + num (eval \<sigma> q)) = take_bit w (num (eval \<sigma> y) + 1)" for \<sigma>
    using n(5) w by (auto simp: add.commute)
  show "rewrites_to (rule_apply UltPlusOne (App k ts)) T (App k ts)"
    unfolding UltPlusOne_def rule.select_convs n(1,2)
    using n(3,4,5,6) w const sum by (auto simp: mkOnes_eq Let_def zero num_compare simp flip: iff)
qed (simp add: rule_defs split: if_splits)

subsection \<open>Soundness: powers of two and leading zeros\<close>

definition leading_zeros :: "BitVector \<Rightarrow> nat" where
  "leading_zeros d = (if d_value d = 0 then d_size d else d_size d - int_length (d_value d))"

lemma leading_const:
  assumes "typeOf (App BITVECTOR_CONCAT (ConstBV d # cs)) = Some (BitVectorType n)" "val_ok \<sigma>"
  defines "z \<equiv> leading_zeros d"
  shows "z \<le> n" "0 \<le> num (eval \<sigma> (App BITVECTOR_CONCAT (ConstBV d # cs)))" "num (eval \<sigma> (App BITVECTOR_CONCAT (ConstBV d # cs))) < 2 ^ (n - z)"
proof -
  from assms(1) have d: "bv_ok d" "\<forall>c\<in>set cs. is_bv c" and n: "n = d_size d + sum_list (map getSize cs)"
    by (auto simp: is_bv_def)
  define r where "r = sum_list (map getSize cs)"
  have cs: "0 \<le> cat_value (map (eval \<sigma>) cs)" "cat_value (map (eval \<sigma>) cs) < 2 ^ r"
    using cat_range [OF d(2) assms(2)] by (simp_all add: r_def)
  have v: "0 \<le> d_value d" using d(1) by (simp add: bv_ok_def)
  have z: "z \<le> d_size d" "d_value d < 2 ^ (d_size d - z)"
  proof -
    show "z \<le> d_size d" by (simp add: z_def leading_zeros_def)
    have "nat (d_value d) < 2 ^ sizeinbase2 (nat (d_value d))" by (rule sizeinbase2_bound)
    then have "d_value d < 2 ^ sizeinbase2 (nat (d_value d))" using v by (simp add: nat_less_iff)
    moreover have "d_value d < 2 ^ d_size d" using d(1) by (simp add: bv_ok_def)
    ultimately show "d_value d < 2 ^ (d_size d - z)"
      using v by (auto simp: z_def leading_zeros_def int_length_def not_less min_def diff_diff_cancel split: if_splits) (metis diff_is_0_eq' diff_zero diff_diff_cancel nat_le_linear)
  qed
  have ev: "num (eval \<sigma> (App BITVECTOR_CONCAT (ConstBV d # cs))) = sem_concat (d_value d) r (cat_value (map (eval \<sigma>) cs))"
    using sum_wd [OF d(2) assms(2)] by (simp add: r_def o_def)
  have "n - z = d_size d - z + r" using z(1) n by (simp add: r_def)
  with sem_concat_range [of "d_value d" "d_size d - z" "cat_value (map (eval \<sigma>) cs)" r] v z(2) cs
  show "0 \<le> num (eval \<sigma> (App BITVECTOR_CONCAT (ConstBV d # cs)))" "num (eval \<sigma> (App BITVECTOR_CONCAT (ConstBV d # cs))) < 2 ^ (n - z)"
    unfolding ev by auto
  show "z \<le> n" using z(1) n by simp
qed

lemma ExtractMultLeadingBit_sound: "sound_rule ExtractMultLeadingBit"
proof (rule sound_kind)
  fix k ts T assume *: "typeOf (App k ts) = Some T" "rule_applies ExtractMultLeadingBit (App k ts)"
  from *(2) have "is_EXTRACT k" unfolding ExtractMultLeadingBit_def rule.select_convs by (simp split: if_splits)
  then obtain high low where k: "k = BITVECTOR_EXTRACT high low" by auto
  with *(1) obtain a n where a: "ts = [a]" "typeOf a = Some (BitVectorType n)" "low \<le> high" "high < n" "T = BitVectorType (high - low + 1)"
    by auto
  have sa: "getSize a = n" using a(2) getSize_typed by fastforce
  from *(2) have ka: "getKind a = BITVECTOR_MULT" "getNumChildren a = 2" "getKind (child a 0) = BITVECTOR_CONCAT" "getKind (child a 1) = BITVECTOR_CONCAT"
    "isConst (child (child a 0) 0)" "isConst (child (child a 1) 0)"
    unfolding ExtractMultLeadingBit_def rule.select_convs by (simp_all add: a(1) Let_def split: if_splits)
  from ka(1,2) obtain b c where ab: "a = App BITVECTOR_MULT [b, c]"
    by (auto simp: getKind_iff getNumChildren_def length_Suc_conv numeral_2_eq_2)
  have t: "typeOf b = Some (BitVectorType n)" "typeOf c = Some (BitVectorType n)" using a(2) ab by auto
  have concat_const: "\<exists>d ds. u = App BITVECTOR_CONCAT (ConstBV d # ds) \<and> d_size d = getSize (ConstBV d)"
    if u: "getKind u = BITVECTOR_CONCAT" "isConst (child u 0)" "typeOf u = Some (BitVectorType n)" for u
  proof -
    have "is_bv u" using u(3) unfolding is_bv_def by blast
    from concat_node [OF u(1) this] obtain us where us: "u = App BITVECTOR_CONCAT us" "2 \<le> length us" "\<forall>t\<in>set us. is_bv t"
      by blast
    then obtain d ds where "u = App BITVECTOR_CONCAT (d # ds)" "is_bv d" by (cases us) auto
    with u(2) show ?thesis by (auto simp: isConst_iff is_bv_def)
  qed
  obtain d1 ds1 d2 ds2 where bc: "b = App BITVECTOR_CONCAT (ConstBV d1 # ds1)" "c = App BITVECTOR_CONCAT (ConstBV d2 # ds2)"
    and sd: "getSize (ConstBV d1) = d_size d1" "getSize (ConstBV d2) = d_size d2"
  proof -
    have "child a 0 = b" "child a 1 = c" by (simp_all add: ab)
    then show thesis
      using concat_const [of b] concat_const [of c] ka(3,4,5,6) t that by metis
  qed
  define z where "z = leading_zeros"
  from *(2) have low: "2 * n - (z d1 + z d2) \<le> low"
    unfolding ExtractMultLeadingBit_def rule.select_convs
    using k a sa by (simp add: ab bc sd z_def leading_zeros_def Let_def toInteger_def util_defs split: if_splits)
  have "take_bit (high - low + 1) (drop_bit low (take_bit n (num (eval \<sigma> b) * num (eval \<sigma> c)))) = 0" if "val_ok \<sigma>" for \<sigma>
  proof -
    note b = leading_const [OF t(1) [unfolded bc(1)] that, folded bc(1) z_def] and c = leading_const [OF t(2) [unfolded bc(2)] that, folded bc(2) z_def]
    have "num (eval \<sigma> b) * num (eval \<sigma> c) < 2 ^ (n - z d1) * 2 ^ (n - z d2)"
      using b c by (intro mult_strict_mono) auto
    also have "\<dots> = 2 ^ (2 * n - (z d1 + z d2))" using b(1) c(1) by (simp flip: power_add)
    also have "\<dots> \<le> 2 ^ low" using low by (simp add: power_increasing)
    finally have "num (eval \<sigma> b) * num (eval \<sigma> c) < 2 ^ low" .
    moreover have "0 \<le> num (eval \<sigma> b) * num (eval \<sigma> c)" using b c by simp
    ultimately have "drop_bit low (take_bit n (num (eval \<sigma> b) * num (eval \<sigma> c))) = 0"
      unfolding drop_bit_take_bit by (simp add: drop_bit_eq_div div_pos_pos_trivial)
    then show ?thesis by simp
  qed
  then show "rewrites_to (rule_apply ExtractMultLeadingBit (App k ts)) T (App k ts)"
    unfolding ExtractMultLeadingBit_def rule.select_convs using k a ab t getSize_typed [OF *(1)] typeOf_width(2) [OF t(1)]
    by (simp add: sem_extract_def)
next
  fix n assume "rule_applies ExtractMultLeadingBit n"
  then show "getKind n \<notin> {VARIABLE, CONST_BOOLEAN, CONST_RATIONAL, CONST_BITVECTOR}"
    unfolding ExtractMultLeadingBit_def rule.select_convs by (auto split: if_splits)
qed

lemma MultPow2_loop_value:
  assumes "of_width w (ns @ cs)" "val_ok \<sigma>" "MultPow2_loop ns e neg cs = (e', neg', cs')"
  defines "sg b \<equiv> if b then -1 else 1 :: int"
  shows "of_width w cs' \<and> take_bit w (2 ^ e' * sg neg' * fold_num BITVECTOR_MULT \<sigma> cs') = take_bit w (2 ^ e * sg neg * fold_num BITVECTOR_MULT \<sigma> (ns @ cs))"
  using assms(1,3)
proof (induction ns e neg cs rule: MultPow2_loop.induct)
  case (2 c ns e neg cs)
  obtain p b where p: "pow2_const c = (p, b)" by fastforce
  show ?case
  proof (cases "p = 0")
    case True
    have "fold_num BITVECTOR_MULT \<sigma> ((c # ns) @ cs) = fold_num BITVECTOR_MULT \<sigma> (ns @ cs @ [c])"
      by (simp add: fold_num_append ac_simps)
    with 2 True p show ?thesis by simp
  next
    case False
    then obtain q where q: "p = Suc q" by (cases p) auto
    have c: "c = mkConst w (sg b * 2 ^ q)" 
      using pow2_const_eq(1) [OF _ p False] "2.prems"(1) by (simp add: q sg_def)
    have "take_bit w (2 ^ e * sg neg * fold_num BITVECTOR_MULT \<sigma> ((c # ns) @ cs)) =
       take_bit w (2 ^ (e + q) * sg (if b then \<not> neg else neg) * fold_num BITVECTOR_MULT \<sigma> (ns @ cs))"
    proof -
      define F where "F = fold_num BITVECTOR_MULT \<sigma> (ns @ cs)"
      have "take_bit w (2 ^ e * sg neg * fold_num BITVECTOR_MULT \<sigma> ((c # ns) @ cs)) = take_bit w (2 ^ e * sg neg * F * take_bit w (sg b * 2 ^ q))"
        by (simp add: c F_def ac_simps)
      also have "\<dots> = take_bit w (2 ^ e * sg neg * F * (sg b * 2 ^ q))"
        by (rule mult_op.trunc_right)
      also have "2 ^ e * sg neg * F * (sg b * 2 ^ q) = 2 ^ (e + q) * sg (if b then \<not> neg else neg) * F"
        by (simp add: sg_def power_add)
      finally show ?thesis unfolding F_def .
    qed
    with 2 False p q show ?thesis by simp
  qed
qed simp

lemma MultPow2_sound: "sound_rule MultPow2"
proof (rule sound_ac)
  fix ts w assume *: "2 \<le> length ts" "of_width w ts" "0 < w" "w < 2147483648"
    "typeOf (App BITVECTOR_MULT ts) = Some (BitVectorType w)" "rule_applies MultPow2 (App BITVECTOR_MULT ts)"
  obtain e neg cs where l: "MultPow2_loop ts 0 False [] = (e, neg, cs)" by (metis surj_pair)
  define s :: int where "s = (if neg then -1 else 1)"
  have size: "getSize (App BITVECTOR_MULT ts) = w" using getSize_typed [OF *(5)] by simp
  have cs: "of_width w cs" using MultPow2_loop_value [of w ts "[]" zero_val 0 False e neg cs] * l by simp
  have val: "eval \<sigma> (App BITVECTOR_MULT ts) = VBV w (take_bit w (2 ^ e * (s * fold_num BITVECTOR_MULT \<sigma> cs)))" if "val_ok \<sigma>" for \<sigma>
    using MultPow2_loop_value [of w ts "[]" \<sigma> 0 False e neg cs] * l that eval_ac [of BITVECTOR_MULT ts w \<sigma>]
    by (cases ts) (simp_all add: s_def ac_simps del: eval.simps(5))
  define a where "a = (if cs = [] then mkOne w else mkNaryNode BITVECTOR_MULT cs)"
  define b where "b = (if neg \<and> w > 1 then App BITVECTOR_NEG [a] else a)"
  have a: "typeOf a = Some (BitVectorType w)" "val_ok \<sigma> \<Longrightarrow> eval \<sigma> a = VBV w (take_bit w (fold_num BITVECTOR_MULT \<sigma> cs))" for \<sigma>
    using *(3,4) cs by (auto simp: a_def mkNaryNode_ac)
  have b: "typeOf b = Some (BitVectorType w)" "val_ok \<sigma> \<Longrightarrow> eval \<sigma> b = VBV w (take_bit w (s * fold_num BITVECTOR_MULT \<sigma> cs))" for \<sigma>
  proof -
    show "typeOf b = Some (BitVectorType w)" using a(1) by (simp add: b_def)
    have one: "take_bit 1 (- x) = take_bit 1 x" for x :: int by (simp add: take_bit_eq_mod) presburger
    show "eval \<sigma> b = VBV w (take_bit w (s * fold_num BITVECTOR_MULT \<sigma> cs))" if "val_ok \<sigma>"
    proof (cases "neg \<and> w > 1")
      case True
      with a that show ?thesis by (simp add: b_def s_def sem_neg_def take_bit_minus)
    next
      case False
      then have "neg \<Longrightarrow> w = 1" using *(3) by simp
      with False a(2) [OF that] one show ?thesis by (auto simp: b_def s_def simp del: take_bit_Suc)
    qed
  qed
  have app: "rule_apply MultPow2 (App BITVECTOR_MULT ts) = (if e \<ge> w then Inr (mkZero w) else if e = 0 then Inr b
     else Inr (mkConcat2 (mkExtract b (w - e - 1) 0) (mkConst e 0)))"
    unfolding MultPow2_def rule.select_convs children.simps l size Let_def split b_def a_def by simp
  consider "w \<le> e" | "e = 0" | "0 < e" "e < w" by linarith
  then show "rewrites_to (rule_apply MultPow2 (App BITVECTOR_MULT ts)) (BitVectorType w) (App BITVECTOR_MULT ts)"
    unfolding app
  proof cases
    case 1
    have "take_bit w (2 ^ e * x) = 0" for x :: int
      using take_bit_push_bit [of w e x] 1 by (simp add: push_bit_eq_mult ac_simps)
    with 1 *(3,4) val show "rewrites_to (if e \<ge> w then Inr (mkZero w) else if e = 0 then Inr b
     else Inr (mkConcat2 (mkExtract b (w - e - 1) 0) (mkConst e 0))) (BitVectorType w) (App BITVECTOR_MULT ts)"
      by (simp del: eval.simps(5))
  next
    case 2
    with b val *(3) show "rewrites_to (if e \<ge> w then Inr (mkZero w) else if e = 0 then Inr b
     else Inr (mkConcat2 (mkExtract b (w - e - 1) 0) (mkConst e 0))) (BitVectorType w) (App BITVECTOR_MULT ts)"
      by (simp del: eval.simps(5))
  next
    case 3
    then have "push_bit e (take_bit (w - e) (take_bit w x)) = take_bit w (2 ^ e * x)" for x :: int
      using take_bit_push_bit [of w e x] by (simp add: push_bit_eq_mult ac_simps)
    with 3 b val *(3,4) show "rewrites_to (if e \<ge> w then Inr (mkZero w) else if e = 0 then Inr b
     else Inr (mkConcat2 (mkExtract b (w - e - 1) 0) (mkConst e 0))) (BitVectorType w) (App BITVECTOR_MULT ts)"
      by (simp add: sem_concat_def sem_extract_def Suc_diff_Suc del: eval.simps(5))
  qed
qed (auto simp: rule_defs split: if_splits)

subsection \<open>Properties\<close>

lemmas simplify_arith_sound = MultPow2_sound ExtractMultLeadingBit_sound NegIdemp_sound UdivPow2_sound div_simple_sound UremPow2_sound
  ShiftZero_sound UgtUrem_sound BBPlusNeg_sound MultSlice_sound UltPlusOne_sound



end
