(* ===== verification/Rules_Simplify_Ext.thy ===== *)
theory Rules_Simplify_Ext
  imports Rules_Simplify_Arith
begin

section \<open>Simplification rules on extensions\<close>

text \<open>
  \<open>theory/bv/theory_bv_rewrite_rules_simplification.h\<close>, third part: extensions of extensions and
  extensions compared with constants.
\<close>

unbundle bit_operations_syntax

subsection \<open>Extensions and constants\<close>

definition MergeSignExtend :: rule where
  [rule_defs]: "MergeSignExtend = \<lparr>
    rule_applies = (\<lambda>node.
      if \<not> is_SIGN_EXTEND (getKind node) \<or>
        (\<not> is_SIGN_EXTEND (getKind (child node 0)) \<and> \<not> is_ZERO_EXTEND (getKind (child node 0))) then False else True),
    rule_apply = (\<lambda>node.
      let amount1 = d_signExtendAmount (getKind node); c = child node 0
      in if is_ZERO_EXTEND (getKind c)
         then let amount2 = d_zeroExtendAmount (getKind c)
              in if amount2 = 0 then Inr (App (BITVECTOR_SIGN_EXTEND amount1) [child c 0])
                 else Inr (App (BITVECTOR_ZERO_EXTEND (amount1 + amount2)) [child c 0])
         else Assert (is_SIGN_EXTEND (getKind c))
           (let amount2 = d_signExtendAmount (getKind c)
            in Inr (mkSignExtend (child c 0) (amount1 + amount2))))\<rparr>"

definition ZeroExtendEqConst :: rule where
  [rule_defs]: "ZeroExtendEqConst = \<lparr>
    rule_applies = (\<lambda>node. getKind node = EQUAL \<and>
      ((is_ZERO_EXTEND (getKind (child node 0)) \<and> isConst (child node 1)) \<or>
       (is_ZERO_EXTEND (getKind (child node 1)) \<and> isConst (child node 0)))),
    rule_apply = (\<lambda>node.
      let (t, c) = (if is_ZERO_EXTEND (getKind (child node 0)) then (child (child node 0) 0, child node 1)
                    else (child (child node 1) 0, child node 0))
      in and_then (bv_extract (getConstBV c) (getSize c - 1) (getSize t)) (\<lambda>c_hi.
         and_then (bv_extract (getConstBV c) (getSize t - 1) 0) (\<lambda>c_lo.
           let zero = mkBitVector (d_size c_hi) 0
           in if bv_eq c_hi zero then Inr (App EQUAL [t, mkConstBV c_lo]) else Inr mkFalse)))\<rparr>"

definition SignExtendEqConst :: rule where
  [rule_defs]: "SignExtendEqConst = \<lparr>
    rule_applies = (\<lambda>node. getKind node = EQUAL \<and>
      ((is_SIGN_EXTEND (getKind (child node 0)) \<and> isConst (child node 1)) \<or>
       (is_SIGN_EXTEND (getKind (child node 1)) \<and> isConst (child node 0)))),
    rule_apply = (\<lambda>node.
      let (t, c) = (if is_SIGN_EXTEND (getKind (child node 0)) then (child (child node 0) 0, child node 1)
                    else (child (child node 1) 0, child node 0));
          pos_msb_t = getSize t - 1
      in and_then (bv_extract (getConstBV c) (getSize c - 1) pos_msb_t) (\<lambda>c_hi.
         and_then (bv_extract (getConstBV c) pos_msb_t 0) (\<lambda>c_lo.
           let zero = mkBitVector (d_size c_hi) 0
           in if bv_eq c_hi zero \<or> bv_eq c_hi (bv_not zero) then Inr (App EQUAL [t, mkConstBV c_lo]) else Inr mkFalse)))\<rparr>"

definition ZeroExtendUltConst :: rule where
  [rule_defs]: "ZeroExtendUltConst = \<lparr>
    rule_applies = (\<lambda>node.
      if getKind node = BITVECTOR_ULT \<and>
        ((is_ZERO_EXTEND (getKind (child node 0)) \<and> isConst (child node 1)) \<or>
         (is_ZERO_EXTEND (getKind (child node 1)) \<and> isConst (child node 0)))
      then
        let is_lhs = is_ZERO_EXTEND (getKind (child node 0));
            (t, c) = (if is_lhs then (child (child node 0) 0, child node 1) else (child (child node 1) 0, child node 0))
        in if getSize t = getSize c then False
           else case bv_extract (getConstBV c) (getSize c - 1) (getSize t) of
                  Inl e \<Rightarrow> False
                | Inr c_hi \<Rightarrow> let zero = mkBitVector (d_size c_hi) 0 in bv_eq c_hi zero
      else False),
    rule_apply = (\<lambda>node.
      let is_lhs = is_ZERO_EXTEND (getKind (child node 0));
          (t, c) = (if is_lhs then (child (child node 0) 0, child node 1) else (child (child node 1) 0, child node 0))
      in and_then (bv_extract (getConstBV c) (getSize t - 1) 0) (\<lambda>b.
        let c_lo = mkConstBV b
        in if is_lhs then Inr (App BITVECTOR_ULT [t, c_lo]) else Inr (App BITVECTOR_ULT [c_lo, t])))\<rparr>"

text \<open>
  The two constants of \<open>SignExtendUltConst\<close>, for a constant of width \<open>size_c\<close> and a term whose top bit is
  at \<open>msb_x_pos\<close>: \<open>1 << (n - 1)\<close> and \<open>~0 << (n - 1)\<close>.
\<close>

definition bv_msb_x :: "nat \<Rightarrow> nat \<Rightarrow> BitVector result" where
  "bv_msb_x size_c msb_x_pos = bv_setBit (mkBitVector size_c 0) msb_x_pos True"

definition bv_upper_bits :: "nat \<Rightarrow> nat \<Rightarrow> BitVector result" where
  "bv_upper_bits size_c msb_x_pos = leftShift (bv_not (mkBitVector size_c 0)) (mkBitVector size_c (int msb_x_pos))"

definition SignExtendUltConst :: rule where
  [rule_defs]: "SignExtendUltConst = \<lparr>
    rule_applies = (\<lambda>node.
      if getKind node = BITVECTOR_ULT \<and>
        ((is_SIGN_EXTEND (getKind (child node 0)) \<and> isConst (child node 1)) \<or>
         (is_SIGN_EXTEND (getKind (child node 1)) \<and> isConst (child node 0)))
      then
        let is_lhs = is_SIGN_EXTEND (getKind (child node 0));
            (x, c) = (if is_lhs then (child (child node 0) 0, child node 1) else (child (child node 1) 0, child node 0));
            bv_c = getConstBV c; size_c = getSize c; msb_x_pos = getSize x - 1
        in (case and_then (bv_msb_x size_c msb_x_pos) (\<lambda>m. and_then (bv_upper_bits size_c msb_x_pos) (\<lambda>u. Inr (m, u))) of
              Inl e \<Rightarrow> False
            | Inr (m, u) \<Rightarrow>
                (is_lhs \<and> (bv_le bv_c m \<or> bv_ge bv_c u \<or> (bv_lt m bv_c \<and> bv_le bv_c u))) \<or>
                (\<not> is_lhs \<and> (bv_lt bv_c m \<or> bv_ge bv_c (bv_not m) \<or> (bv_le (bv_not u) bv_c \<and> bv_le bv_c (bv_not m)))))
      else False),
    rule_apply = (\<lambda>node.
      let is_lhs = is_SIGN_EXTEND (getKind (child node 0));
          (x, c) = (if is_lhs then (child (child node 0) 0, child node 1) else (child (child node 1) 0, child node 0));
          bv_c = getConstBV c; size_c = getSize c; msb_x_pos = getSize x - 1
      in and_then (bv_extract bv_c msb_x_pos 0) (\<lambda>lo.
         and_then (bv_msb_x size_c msb_x_pos) (\<lambda>m.
         and_then (bv_upper_bits size_c msb_x_pos) (\<lambda>u.
           let c_lo = mkConstBV lo
           in if is_lhs
              then if bv_lt m bv_c \<and> bv_le bv_c u
                   then Inr (App EQUAL [mkExtract x msb_x_pos msb_x_pos, mkZero 1])
                   else Assert (bv_le bv_c m \<or> bv_ge bv_c u) (Inr (App BITVECTOR_ULT [x, c_lo]))
              else if bv_le (bv_not u) bv_c \<and> bv_le bv_c (bv_not m)
                   then Inr (App EQUAL [mkExtract x msb_x_pos msb_x_pos, mkOne 1])
                   else Assert (bv_lt bv_c m \<or> bv_ge bv_c (bv_not m)) (Inr (App BITVECTOR_ULT [c_lo, x]))))))\<rparr>"

subsection \<open>Soundness\<close>

lemma sign_zero_extend:
  assumes "0 \<le> x" "x < 2 ^ w" "0 < w"
  shows "0 < n \<Longrightarrow> sem_sign_extend (n + w) m x = x" "sem_sign_extend (n + w) m (sem_sign_extend w n x) = sem_sign_extend w (m + n) x"
proof -
  show "sem_sign_extend (n + w) m x = x" if "0 < n"
  proof -
    have "\<not> bit x (n + w - 1)" using high_bits [OF assms(1,2)] that by simp
    moreover have "x < 2 ^ (n + w)" using range_widen assms by blast
    ultimately show ?thesis using sign_extend_bits(3) [of "n + w" x m] assms by simp
  qed
  show "sem_sign_extend (n + w) m (sem_sign_extend w n x) = sem_sign_extend w (m + n) x"
    by (rule bit_eqI) (use assms(3) in \<open>auto simp: sem_sign_extend_def sval_def bit_simps min_def\<close>)
qed

lemma MergeSignExtend_sound: "sound_rule MergeSignExtend"
proof (rule sound_kind)
  fix k ts T assume *: "typeOf (App k ts) = Some T" "rule_applies MergeSignExtend (App k ts)"
  then obtain m a w where n: "k = BITVECTOR_SIGN_EXTEND m" "ts = [a]" "typeOf a = Some (BitVectorType w)"
    "T = BitVectorType (m + w)" "m + w < 2147483648"
    by (auto simp: rule_defs rule_sem split: if_splits)
  with * obtain j b v where a: "a = App (BITVECTOR_ZERO_EXTEND j) [b] \<or> a = App (BITVECTOR_SIGN_EXTEND j) [b]"
    "typeOf b = Some (BitVectorType v)" "w = j + v"
    by (auto simp: rule_defs rule_sem getKind_iff split: if_splits)
  with n typeOf_width [OF a(2)] show "rewrites_to (rule_apply MergeSignExtend (App k ts)) T (App k ts)"
    by (auto simp: MergeSignExtend_def d_signExtendAmount_def d_zeroExtendAmount_def sign_zero_extend ac_simps)
qed (auto simp: rule_defs split: if_splits)

text \<open>A comparison of an extension of \<open>x\<close> with a constant, in either order.\<close>

lemma ext_const_operands:
  assumes "typeOf (App k ts) = Some T" "k = EQUAL \<or> k = BITVECTOR_ULT" "E = BITVECTOR_ZERO_EXTEND \<or> E = BITVECTOR_SIGN_EXTEND"
    "(\<exists>m. getKind (ts ! 0) = E m) \<and> isConst (ts ! 1) \<or> (\<exists>m. getKind (ts ! 1) = E m) \<and> isConst (ts ! 0)"
  obtains x v d m where "T = BooleanType" "typeOf x = Some (BitVectorType v)" "0 < v" "m + v < 2147483648" "getSize x = v"
    "bv_ok d" "d_size d = m + v" "0 \<le> d_value d" "d_value d < 2 ^ (m + v)" "getSize (ConstBV d) = m + v"
    "ts = [App (E m) [x], ConstBV d] \<or> ts = [ConstBV d, App (E m) [x]]"
proof -
  from assms(1,2) obtain a b where ts: "ts = [a, b]" by auto
  with assms(4) obtain z y m where z: "getKind z = E m" "isConst y" "z = a \<and> y = b \<or> z = b \<and> y = a" by auto
  from z(1) assms(3) obtain zs where zs: "z = App (E m) zs" using getKind_iff [of "E m" z] by auto
  from assms(1,2,3) z(3) zs ts obtain x v where x: "zs = [x]" "typeOf x = Some (BitVectorType v)" "m + v < 2147483648" "T = BooleanType"
    "typeOf y = Some (BitVectorType (m + v))"
    by (auto simp: isBitVector_iff)
  then obtain d where d: "y = ConstBV d" "bv_ok d" "d_size d = m + v" using isConst_bv z(2) by blast
  show thesis
    by (rule that [of x v m d])
      (use d x zs ts z(3) typeOf_width [OF x(2)] getSize_typed [OF x(2)] getSize_typed [OF x(5)] in \<open>auto simp: bv_ok_def\<close>)
qed

lemma high_zero: "0 < m \<Longrightarrow> 0 \<le> c \<Longrightarrow> c < 2 ^ (m + v) \<Longrightarrow> sem_extract (m + v - Suc 0) v c = 0 \<longleftrightarrow> c < (2::int) ^ v"
proof -
  assume *: "0 < m" "0 \<le> c" "c < 2 ^ (m + v)"
  then have "sem_extract (m + v - Suc 0) v c = drop_bit v c"
    by (simp add: sem_extract_def take_bit_drop_bit take_bit_id)
  with * show ?thesis using drop_bit_nonzero [of c v] by auto
qed

lemma low_bits: "0 < v \<Longrightarrow> sem_extract (v - Suc 0) 0 c = take_bit v c"
  by (simp add: sem_extract_def)

lemma mkConstBV_take_bit: "mkConstBV \<lparr>d_size = w, d_value = take_bit w x\<rparr> = mkConst w x"
  by (simp add: mkConstBV_def mkConst_def mkBitVector_def modByPow2_def)

lemma mkConstBV_small: "0 \<le> c \<Longrightarrow> c < 2 ^ w \<Longrightarrow> mkConstBV \<lparr>d_size = w, d_value = c\<rparr> = mkConst w c"
  using mkConstBV_take_bit [of w c] by (simp add: take_bit_id)

lemma eval_eq_const: "typeOf x = Some (BitVectorType v) \<Longrightarrow> val_ok \<sigma> \<Longrightarrow>
  eval \<sigma> (App EQUAL [x, mkConst v c]) = VBool (num (eval \<sigma> x) = take_bit v c)"
  by simp

lemma ZeroExtendEqConst_apply:
  assumes "typeOf (App k ts) = Some T" "rule_applies ZeroExtendEqConst (App k ts)"
  shows "if \<exists>z\<in>set ts. \<exists>m>0. getKind z = BITVECTOR_ZERO_EXTEND m
    then rewrites_to (rule_apply ZeroExtendEqConst (App k ts)) T (App k ts)
    else rule_apply ZeroExtendEqConst (App k ts) = Inl IllegalArgument"
proof -
  from assms have k: "k = EQUAL" by (simp add: rule_defs)
  obtain x v d m where d: "T = BooleanType" "typeOf x = Some (BitVectorType v)" "0 < v" "m + v < 2147483648" "getSize x = v"
    "bv_ok d" "d_size d = m + v" "0 \<le> d_value d" "d_value d < 2 ^ (m + v)" "getSize (ConstBV d) = m + v"
    and ts: "ts = [App (BITVECTOR_ZERO_EXTEND m) [x], ConstBV d] \<or> ts = [ConstBV d, App (BITVECTOR_ZERO_EXTEND m) [x]]"
    by (rule ext_const_operands [OF assms(1), of BITVECTOR_ZERO_EXTEND]) (use assms(2) in \<open>auto simp: rule_defs\<close>)
  have t: "(if is_ZERO_EXTEND (getKind (child (App k ts) 0)) then (child (child (App k ts) 0) 0, child (App k ts) 1)
                    else (child (child (App k ts) 1) 0, child (App k ts) 0)) = (x, ConstBV d)"
    and m: "0 < m \<longleftrightarrow> (\<exists>z\<in>set ts. \<exists>m>0. getKind z = BITVECTOR_ZERO_EXTEND m)"
    and eval: "val_ok \<sigma> \<Longrightarrow> eval \<sigma> (App k ts) = VBool (num (eval \<sigma> x) = d_value d)" for \<sigma>
    using k ts d by auto
  have eq: "eval \<sigma> (App EQUAL [x, mkConst v c]) = VBool (num (eval \<sigma> x) = c)"
    if "val_ok \<sigma>" "0 \<le> c" "c < 2 ^ v" for \<sigma> c
    using that d by (simp add: take_bit_id)
  have lt: "num (eval \<sigma> x) \<noteq> d_value d" if "\<not> d_value d < 2 ^ v" "val_ok \<sigma>" for \<sigma>
    using eval_bv(3) [OF d(2) that(2)] that(1) by auto
  show ?thesis
    unfolding m [symmetric]
  proof (cases "0 < m")
    case True
    then have "rewrites_to (rule_apply ZeroExtendEqConst (App k ts)) T (App k ts)"
      unfolding ZeroExtendEqConst_def rule.select_convs Let_def t split using d
      by (auto simp add: eq lt bv_extract_sem high_zero low_bits bv_eq_def mkBitVector_def modByPow2_def
          mkConstBV_take_bit eval simp del: eval.simps(5))
    with True show "if 0 < m then rewrites_to (rule_apply ZeroExtendEqConst (App k ts)) T (App k ts)
      else rule_apply ZeroExtendEqConst (App k ts) = Inl IllegalArgument" by simp
  next
    case False
    then have "rule_apply ZeroExtendEqConst (App k ts) = Inl IllegalArgument"
      unfolding ZeroExtendEqConst_def rule.select_convs Let_def t split using d by (simp add: bv_extract_def)
    with False show "if 0 < m then rewrites_to (rule_apply ZeroExtendEqConst (App k ts)) T (App k ts)
      else rule_apply ZeroExtendEqConst (App k ts) = Inl IllegalArgument" by simp
  qed
qed

lemma ZeroExtendUltConst_sound: "sound_rule ZeroExtendUltConst"
proof (rule sound_kind)
  fix k ts T assume *: "typeOf (App k ts) = Some T" "rule_applies ZeroExtendUltConst (App k ts)"
  then have k: "k = BITVECTOR_ULT" by (auto simp: rule_defs split: if_splits)
  obtain x v d m where d: "T = BooleanType" "typeOf x = Some (BitVectorType v)" "0 < v" "m + v < 2147483648" "getSize x = v"
    "bv_ok d" "d_size d = m + v" "0 \<le> d_value d" "d_value d < 2 ^ (m + v)" "getSize (ConstBV d) = m + v"
    and ts: "ts = [App (BITVECTOR_ZERO_EXTEND m) [x], ConstBV d] \<or> ts = [ConstBV d, App (BITVECTOR_ZERO_EXTEND m) [x]]"
    by (rule ext_const_operands [OF *(1), of BITVECTOR_ZERO_EXTEND]) (use *(2) in \<open>auto simp: rule_defs split: if_splits\<close>)
  from * ts d k have small: "d_value d < 2 ^ v" 
    by (auto simp: rule_defs bv_extract_sem high_zero bv_eq_def mkBitVector_def modByPow2_def split: if_splits)
  from ts show "rewrites_to (rule_apply ZeroExtendUltConst (App k ts)) T (App k ts)"
    unfolding ZeroExtendUltConst_def rule.select_convs Let_def
    by (elim disjE) (use d k small in \<open>simp_all add: bv_extract_sem low_bits mkConstBV_small take_bit_id\<close>)
qed (simp add: rule_defs split: if_splits)

lemma sign_extend_eq:
  assumes "0 < v" "0 \<le> x" "x < 2 ^ v" "0 \<le> c" "c < 2 ^ (m + v)"
  shows "sem_sign_extend v m x = c \<longleftrightarrow> (sem_extract (m + v - Suc 0) (v - Suc 0) c = 0 \<or> sem_extract (m + v - Suc 0) (v - Suc 0) c = mask (Suc m)) \<and>
    x = take_bit v c"
proof -
  have hi: "bit (sem_extract (m + v - Suc 0) (v - Suc 0) c) i \<longleftrightarrow> i < Suc m \<and> bit c (v - Suc 0 + i)" for i
    using assms(1) by (auto simp: sem_extract_def bit_simps add.commute)
  have uniform: "(sem_extract (m + v - Suc 0) (v - Suc 0) c = 0 \<or> sem_extract (m + v - Suc 0) (v - Suc 0) c = mask (Suc m)) \<longleftrightarrow>
    (\<forall>i<Suc m. bit c (v - Suc 0 + i) = bit c (v - Suc 0))"
    unfolding bit_eq_iff [of _ 0] bit_eq_iff [of _ "mask (Suc m)"] hi by (simp add: bit_simps) (metis Nat.add_0_right zero_less_Suc)
  have ext: "bit (sem_sign_extend v m x) i \<longleftrightarrow> i < m + v \<and> (if i < v then bit x i else bit x (v - Suc 0))" for i
    using assms(1) by (cases "i = v - Suc 0") (auto simp: sem_sign_extend_def sval_def bit_simps min_def add.commute not_le)
  have "sem_sign_extend v m x = c \<longleftrightarrow> (\<forall>i. bit c i \<longleftrightarrow> bit (sem_sign_extend v m x) i)"
    by (auto intro: bit_eqI)
  also have "\<dots> \<longleftrightarrow> (\<forall>i. bit c i \<longleftrightarrow> i < m + v \<and> (if i < v then bit x i else bit x (v - Suc 0)))"
    unfolding ext ..
  also have "\<dots> \<longleftrightarrow> (\<forall>i<Suc m. bit c (v - Suc 0 + i) = bit c (v - Suc 0)) \<and> x = take_bit v c" (is "?l \<longleftrightarrow> ?r")
  proof
    assume l: ?l
    have "bit c (v - Suc 0 + i) = bit c (v - Suc 0)" if "i < Suc m" for i
      using spec [OF l, of "v - Suc 0 + i"] spec [OF l, of "v - Suc 0"] that assms(1) by (cases i) auto
    moreover have "x = take_bit v c"
    proof (rule bit_eqI)
      fix i
      show "bit x i \<longleftrightarrow> bit (take_bit v c) i"
        using spec [OF l, of i] high_bits [OF assms(2,3), of i] by (auto simp: bit_take_bit_iff)
    qed
    ultimately show ?r by blast
  next
    assume r: ?r
    show ?l
    proof
      fix i
      consider "i < v" | "v \<le> i" "i < m + v" | "m + v \<le> i" by linarith
      then show "bit c i \<longleftrightarrow> i < m + v \<and> (if i < v then bit x i else bit x (v - Suc 0))"
      proof cases
        case 1
        with r show ?thesis by (simp add: bit_simps)
      next
        case 2
        then have "i - (v - Suc 0) < Suc m" "v - Suc 0 + (i - (v - Suc 0)) = i" using assms(1) by auto
        with r have "bit c i = bit c (v - Suc 0)" by metis
        with 2 r assms(1) show ?thesis by (simp add: bit_simps)
      next
        case 3
        with high_bits [OF assms(4,5) 3] show ?thesis by simp
      qed
    qed
  qed
  finally show ?thesis unfolding uniform .
qed

lemma SignExtendEqConst_sound: "sound_rule SignExtendEqConst"
proof (rule sound_kind)
  fix k ts T assume *: "typeOf (App k ts) = Some T" "rule_applies SignExtendEqConst (App k ts)"
  then have k: "k = EQUAL" by (auto simp: rule_defs split: if_splits)
  obtain x v d m where d: "T = BooleanType" "typeOf x = Some (BitVectorType v)" "0 < v" "m + v < 2147483648" "getSize x = v"
    "bv_ok d" "d_size d = m + v" "0 \<le> d_value d" "d_value d < 2 ^ (m + v)" "getSize (ConstBV d) = m + v"
    and ts: "ts = [App (BITVECTOR_SIGN_EXTEND m) [x], ConstBV d] \<or> ts = [ConstBV d, App (BITVECTOR_SIGN_EXTEND m) [x]]"
    by (rule ext_const_operands [OF *(1), of BITVECTOR_SIGN_EXTEND]) (use *(2) in \<open>auto simp: rule_defs split: if_splits\<close>)
  from ts have t: "(if is_SIGN_EXTEND (getKind (child (App k ts) 0)) then (child (child (App k ts) 0) 0, child (App k ts) 1)
                    else (child (child (App k ts) 1) 0, child (App k ts) 0)) = (x, ConstBV d)" by auto
  have eval: "eval \<sigma> (App k ts) = VBool (sem_sign_extend v m (num (eval \<sigma> x)) = d_value d)" if "val_ok \<sigma>" for \<sigma>
    using k ts d that by auto
  have w: "m + v - Suc (v - Suc 0) + 1 = Suc m" "m + v - Suc 0 - (v - Suc 0) + 1 = Suc m" "v - Suc 0 < m + v" "v - Suc 0 \<le> m + v - Suc 0"
    "m + v - Suc 0 < m + v" using d(3) by simp_all
  have "bv_ok \<lparr>d_size = Suc m, d_value = 0\<rparr>" using d(3,4) by (simp add: bv_ok_def)
  then show "rewrites_to (rule_apply SignExtendEqConst (App k ts)) T (App k ts)"
    unfolding SignExtendEqConst_def rule.select_convs Let_def t split using d w 
    by (simp add: bv_extract_sem low_bits bv_eq_def mkBitVector_def modByPow2_def bv_not_sem sem_not_def
       mkConstBV_take_bit eval eval_eq_const sign_extend_eq del: eval.simps(5))
qed (simp add: rule_defs split: if_splits)

text \<open>The two thresholds of \<open>SignExtendUltConst\<close>, and the comparison as arithmetic.\<close>

lemma bv_msb_x_sem: "p < n \<Longrightarrow> bv_msb_x n p = Inr \<lparr>d_size = n, d_value = 2 ^ p\<rparr>"
  by (simp add: bv_msb_x_def bv_setBit_sem mkBitVector_def modByPow2_def set_bit_eq_or push_bit_eq_mult take_bit_id)

lemma bv_upper_bits_sem: "p < n \<Longrightarrow> n < 2147483648 \<Longrightarrow> bv_upper_bits n p = Inr \<lparr>d_size = n, d_value = 2 ^ n - 2 ^ p\<rparr>"
proof -
  assume n: "p < n" "n < 2147483648"
  then have small: "int p < 2 ^ n" using less_exp [of n] by (metis of_nat_less_iff of_nat_numeral of_nat_power order.strict_trans)
  then have ok: "bv_ok \<lparr>d_size = n, d_value = 0\<rparr>" "bv_ok \<lparr>d_size = n, d_value = mask n\<rparr>" "bv_ok \<lparr>d_size = n, d_value = int p\<rparr>"
    using n by (simp_all add: bv_ok_def mask_int)
  have "sem_shl n (mask n) (int p) = 2 ^ n - 2 ^ p"
  proof -
    have "sem_shl n (mask n) (int p) = (2 ^ n - 2 ^ p + 2 ^ n * (2 ^ p - 1)) mod 2 ^ n"
      using n by (simp add: sem_shl_def push_bit_eq_mult take_bit_eq_mod mask_int algebra_simps)
    also have "\<dots> = 2 ^ n - 2 ^ p"
      using n power_increasing [of p n "2::int"] unfolding mod_mult_self2 by (intro mod_pos_pos_trivial) auto
    finally show ?thesis .
  qed
  with ok n small show ?thesis
    by (simp add: bv_upper_bits_def mkBitVector_def modByPow2_def bv_not_sem sem_not_def leftShift_sem take_bit_id)
qed

lemma ult_sign_extend:
  assumes "0 < v" "0 \<le> x" "x < 2 ^ v" "0 \<le> c" "c < 2 ^ (m + v)"
  defines "P \<equiv> 2 ^ (v - Suc 0) :: int" and "Q \<equiv> 2 ^ (m + v) :: int"
  shows "P < c \<Longrightarrow> c \<le> Q - P \<Longrightarrow> sem_sign_extend v m x < c \<longleftrightarrow> x < P"
    "c \<le> P \<or> Q - P \<le> c \<Longrightarrow> \<not> (P < c \<and> c \<le> Q - P) \<Longrightarrow> sem_sign_extend v m x < c \<longleftrightarrow> x < take_bit v c"
    "P - 1 \<le> c \<Longrightarrow> c < Q - P \<Longrightarrow> c < sem_sign_extend v m x \<longleftrightarrow> P \<le> x"
    "c < P - 1 \<or> Q - P \<le> c \<Longrightarrow> c < sem_sign_extend v m x \<longleftrightarrow> take_bit v c < x"
proof -
  have v: "2 ^ v = 2 * P" using assms(1) by (cases v) (simp_all add: P_def)
  obtain r where Q: "Q = 2 ^ m * (2 * P)" and m: "(1::int) \<le> 2 ^ m" by (simp add: Q_def power_add v)
  have P: "0 < P" "2 * P \<le> Q" using Q m by (simp_all add: P_def)
  have ext: "sem_sign_extend v m x = (if x < P then x else x + Q - 2 * P)"
  proof (cases "x < P")
    case True
    have "x < 2 ^ (m + v)" using P assms(3) v unfolding Q_def by linarith
    with True show ?thesis using assms(1,2)
      by (simp add: sem_sign_extend_def sval_eq assms(3) take_bit_id add.commute P_def)
  next
    case False
    have "sem_sign_extend v m x = take_bit (m + v) (x - 2 * P)"
      using False assms(1,2,3) v by (simp add: sem_sign_extend_def sval_eq P_def add.commute)
    also have "\<dots> = take_bit (m + v) (x + Q - 2 * P)" 
    proof -
      have "x + Q - 2 * P = x - 2 * P + 2 ^ (m + v)" by (simp add: Q_def)
      then show ?thesis by (simp only: take_bit_eq_mod mod_add_self2)
    qed
    also have "\<dots> = x + Q - 2 * P" using P assms(2,3) unfolding v by (intro take_bit_id) (auto simp: Q_def)
    finally show ?thesis using False by simp
  qed
  have lo: "take_bit v c = c" if "c < 2 * P" using that assms(4) by (simp add: take_bit_id v)
  have hi: "take_bit v c = c - (Q - 2 * P)" if "Q - 2 * P \<le> c"
  proof -
    have "take_bit v c = take_bit v (c - (Q - 2 * P) + 2 ^ v * (2 ^ m - 1))" unfolding v Q by (simp add: algebra_simps)
    also have "\<dots> = take_bit v (c - (Q - 2 * P))" by (simp add: take_bit_eq_mod)
    also have "\<dots> = c - (Q - 2 * P)" using that assms(5) v by (intro take_bit_id) (auto simp: Q_def)
    finally show ?thesis .
  qed
  show "P < c \<Longrightarrow> c \<le> Q - P \<Longrightarrow> sem_sign_extend v m x < c \<longleftrightarrow> x < P"
    "P - 1 \<le> c \<Longrightarrow> c < Q - P \<Longrightarrow> c < sem_sign_extend v m x \<longleftrightarrow> P \<le> x"
    using P assms(2,3) unfolding ext v by auto
  show "sem_sign_extend v m x < c \<longleftrightarrow> x < take_bit v c" if "c \<le> P \<or> Q - P \<le> c" "\<not> (P < c \<and> c \<le> Q - P)"
    using P assms(2,3,4) that lo hi unfolding ext v by (cases "c \<le> P") auto
  show "c < sem_sign_extend v m x \<longleftrightarrow> take_bit v c < x" if "c < P - 1 \<or> Q - P \<le> c"
    using P assms(2,3,4) that lo hi unfolding ext v by (cases "c < P - 1") auto
qed

lemma SignExtendUltConst_sound: "sound_rule SignExtendUltConst"
proof (rule sound_kind)
  fix k ts T assume *: "typeOf (App k ts) = Some T" "rule_applies SignExtendUltConst (App k ts)"
  then have k: "k = BITVECTOR_ULT" unfolding SignExtendUltConst_def rule.select_convs by (auto split: if_splits)
  have "(\<exists>m. getKind (ts ! 0) = BITVECTOR_SIGN_EXTEND m) \<and> isConst (ts ! 1) \<or> (\<exists>m. getKind (ts ! 1) = BITVECTOR_SIGN_EXTEND m) \<and> isConst (ts ! 0)"
    using *(2) unfolding SignExtendUltConst_def rule.select_convs by (auto split: if_splits)
  then obtain x v d m where d: "T = BooleanType" "typeOf x = Some (BitVectorType v)" "0 < v" "m + v < 2147483648" "getSize x = v"
    "bv_ok d" "d_size d = m + v" "0 \<le> d_value d" "d_value d < 2 ^ (m + v)" "getSize (ConstBV d) = m + v"
    and ts: "ts = [App (BITVECTOR_SIGN_EXTEND m) [x], ConstBV d] \<or> ts = [ConstBV d, App (BITVECTOR_SIGN_EXTEND m) [x]]"
    using ext_const_operands [OF *(1), of BITVECTOR_SIGN_EXTEND] k by metis
  have p: "v - Suc 0 < m + v" "2 ^ v = 2 * (2 ^ (v - Suc 0) :: int)" using d(3) by (simp_all add: power_eq_if)
  note sems = bv_msb_x_sem [OF p(1)] bv_upper_bits_sem [OF p(1) d(4)]
  have not_sems: "bv_not \<lparr>d_size = m + v, d_value = 2 ^ (v - Suc 0)\<rparr> = \<lparr>d_size = m + v, d_value = 2 ^ (m + v) - 1 - 2 ^ (v - Suc 0)\<rparr>"
    "bv_not \<lparr>d_size = m + v, d_value = 2 ^ (m + v) - 2 ^ (v - Suc 0)\<rparr> = \<lparr>d_size = m + v, d_value = 2 ^ (v - Suc 0) - 1\<rparr>"
    using d(3,4) power_strict_increasing [OF p(1), of "2::int"] by (simp_all add: bv_not_sem bv_ok_def sem_not_def mask_int)
  note lt = ult_sign_extend [OF d(3) eval_bv(2,3) [OF d(2)] d(8,9)]
  have ex: "bv_extract d (v - Suc 0) 0 = Inr \<lparr>d_size = v, d_value = take_bit v (d_value d)\<rparr>"
    using d p by (simp add: bv_extract_sem low_bits)
  have top: "typeOf (App EQUAL [mkExtract x (v - Suc 0) (v - Suc 0), mkConst 1 b]) = Some BooleanType"
    "val_ok \<sigma> \<Longrightarrow> eval \<sigma> (App EQUAL [mkExtract x (v - Suc 0) (v - Suc 0), mkConst 1 b]) = VBool (of_bool (2 ^ (v - Suc 0) \<le> num (eval \<sigma> x)) = take_bit (Suc 0) b)" for \<sigma> b
    using d p msb_iff [OF d(2)] by (auto simp: extract_bit)
  from ts show "rewrites_to (rule_apply SignExtendUltConst (App k ts)) T (App k ts)"
  proof
    assume ts: "ts = [App (BITVECTOR_SIGN_EXTEND m) [x], ConstBV d]"
    have ev: "eval \<sigma> (App k ts) = VBool (sem_sign_extend v m (num (eval \<sigma> x)) < d_value d)" if "val_ok \<sigma>" for \<sigma>
      using ts k d that by simp
    show ?thesis
    proof (cases "2 ^ (v - Suc 0) < d_value d \<and> d_value d \<le> 2 ^ (m + v) - 2 ^ (v - Suc 0)")
      case True
      then have "rule_apply SignExtendUltConst (App k ts) = Inr (App EQUAL [mkExtract x (v - Suc 0) (v - Suc 0), mkConst 1 0])"
        unfolding SignExtendUltConst_def rule.select_convs using ts d
        by (simp add: sems ex bv_lt_def bv_le_def mkZero_def Let_def)
      with True top(1) [of 0] top(2) [of _ 0] lt(1) ev d(1) show ?thesis by (simp add: not_le del: eval.simps(5))
    next
      case False
      then have c: "d_value d \<le> 2 ^ (v - Suc 0) \<or> 2 ^ (m + v) - 2 ^ (v - Suc 0) \<le> d_value d" by linarith
      with False have "rule_apply SignExtendUltConst (App k ts) = Inr (App BITVECTOR_ULT [x, mkConst v (d_value d)])"
        unfolding SignExtendUltConst_def rule.select_convs using ts d
        by (auto simp: sems ex bv_lt_def bv_le_def bv_ge_def mkConstBV_take_bit Let_def)
      with lt(2) [OF _ _ c False] ev d show ?thesis by simp
    qed
  next
    assume ts: "ts = [ConstBV d, App (BITVECTOR_SIGN_EXTEND m) [x]]"
    have ev: "eval \<sigma> (App k ts) = VBool (d_value d < sem_sign_extend v m (num (eval \<sigma> x)))" if "val_ok \<sigma>" for \<sigma>
      using ts k d that by simp
    have kc: "\<not> is_SIGN_EXTEND (getKind (ConstBV d))" by simp
    show ?thesis
    proof (cases "2 ^ (v - Suc 0) - 1 \<le> d_value d \<and> d_value d < 2 ^ (m + v) - 2 ^ (v - Suc 0)")
      case True
      then have "rule_apply SignExtendUltConst (App k ts) = Inr (App EQUAL [mkExtract x (v - Suc 0) (v - Suc 0), mkConst 1 1])"
        unfolding SignExtendUltConst_def rule.select_convs using ts d
        by (simp add: sems not_sems ex bv_le_def mkOne_def Let_def)
      with True top(1) [of 1] top(2) [of _ 1] lt(3) ev d(1) show ?thesis by (simp del: eval.simps(5))
    next
      case False
      then have c: "d_value d < 2 ^ (v - Suc 0) - 1 \<or> 2 ^ (m + v) - 2 ^ (v - Suc 0) \<le> d_value d" by linarith
      with False have "rule_apply SignExtendUltConst (App k ts) = Inr (App BITVECTOR_ULT [mkConst v (d_value d), x])"
        unfolding SignExtendUltConst_def rule.select_convs using ts d
        by (auto simp: sems not_sems ex bv_lt_def bv_le_def bv_ge_def mkConstBV_take_bit Let_def)
      with lt(4) [OF _ _ c] ev d show ?thesis by simp
    qed
  qed
next
  fix n assume "rule_applies SignExtendUltConst n"
  then show "getKind n \<notin> {VARIABLE, CONST_BOOLEAN, CONST_RATIONAL, CONST_BITVECTOR}"
    unfolding SignExtendUltConst_def rule.select_convs by (auto split: if_splits)
qed

subsection \<open>Properties\<close>

lemmas simplify_ext_sound = MergeSignExtend_sound SignExtendEqConst_sound ZeroExtendUltConst_sound SignExtendUltConst_sound



text \<open>C30: \<open>ZeroExtendEqConst\<close> keeps type and value when the extension adds a bit; for an extension by zero bits, which
  the type rule allows, it takes an empty slice of the constant and throws.\<close>

theorem ZeroExtendEqConst_correct:
  assumes "typeOf (App k ts) = Some T" "rule_applies ZeroExtendEqConst (App k ts)"
  shows "if \<exists>z\<in>set ts. \<exists>m>0. getKind z = BITVECTOR_ZERO_EXTEND m
    then \<exists>n'. rule_apply ZeroExtendEqConst (App k ts) = Inr n' \<and> equiv n' (App k ts)
    else rule_apply ZeroExtendEqConst (App k ts) = Inl IllegalArgument"
  using ZeroExtendEqConst_apply [OF assms] unfolding rewrites_to_equiv [OF assms(1)] .

theorem ZeroExtendEqConst_correct_witness:
  "rule_apply ZeroExtendEqConst (App EQUAL [App (BITVECTOR_ZERO_EXTEND 0) [Var 0 (BitVectorType 8)], mkConst 8 3]) = Inl IllegalArgument"
proof -
  have "rule_applies ZeroExtendEqConst (App EQUAL [App (BITVECTOR_ZERO_EXTEND 0) [Var 0 (BitVectorType 8)], mkConst 8 3])"
    by (simp add: ZeroExtendEqConst_def) (simp add: mkConst_def)
  moreover have "typeOf (App EQUAL [App (BITVECTOR_ZERO_EXTEND 0) [Var 0 (BitVectorType 8)], mkConst 8 3]) = Some BooleanType" by simp
  moreover have "\<not> (\<exists>z\<in>set [App (BITVECTOR_ZERO_EXTEND 0) [Var 0 (BitVectorType 8)], mkConst 8 3]. \<exists>m>0. getKind z = BITVECTOR_ZERO_EXTEND m)"
    by (simp add: mkConst_def)
  ultimately show ?thesis using ZeroExtendEqConst_correct by meson
qed

end
