(* ===== verification/Rules_Simplify_Special.thy ===== *)
theory Rules_Simplify_Special
  imports Rules_Simplify_Ext
begin

section \<open>Equisatisfiable and quantified-benchmark rules\<close>

text \<open>
  \<open>theory/bv/theory_bv_rewrite_rules_simplification.h\<close>, last part: \<open>IsPowerOfTwo\<close>, which introduces a
  skolem and keeps satisfiability only, and \<open>MultSltMult\<close>, which compares products of extensions and
  is sound in the shapes its comment names, but applies to others. \<open>IsPowerOfTwo\<close> calls the rewriter
  and makes a skolem: both are parameters.
\<close>

unbundle bit_operations_syntax

subsection \<open>Powers of two as a formula, products of extensions\<close>

text \<open>\<open>rewrite\<close> is \<open>Rewriter::rewrite\<close>, \<open>sk\<close> the fresh variable of \<open>mkVar\<close>.\<close>

definition IsPowerOfTwo :: "(node \<Rightarrow> node) \<Rightarrow> nat \<Rightarrow> rule" where
  "IsPowerOfTwo rewrite sk = \<lparr>
    rule_applies = (\<lambda>node.
      if getKind node \<noteq> EQUAL then False
      else if getKind (child node 0) \<noteq> BITVECTOR_AND \<and> getKind (child node 1) \<noteq> BITVECTOR_AND then False
      else if \<not> isZero (child node 0) \<and> \<not> isZero (child node 1) then False
      else
        let t = (if \<not> isZero (child node 0) then child node 0 else child node 1)
        in if getNumChildren t \<noteq> 2 then False
           else
             let a = child t 0; b = child t 1; sz = getSize t
             in if sz < 2 then False
                else let diff = rewrite (App BITVECTOR_SUB [a, b])
                     in isConst diff \<and> (diff = mkConst sz 1 \<or> Inr diff = mkOnes sz)),
    rule_apply = (\<lambda>node.
      let term = (if isZero (child node 0) then child node 1 else child node 0);
          a = child term 0; b = child term 1; sz = getSize term;
          diff = rewrite (App BITVECTOR_SUB [a, b])
      in Assert (isConst diff)
        (let x = (if diff = mkConst sz 1 then a else b);
             one = mkConst sz 1;
             sh = App BITVECTOR_SHL [one, Var sk (BitVectorType sz)]
         in Inr (App EQUAL [x, sh])))\<rparr>"

text \<open>\<open>None\<close> is the tuple of null nodes; the two rounds of the loop, before and after the swap.\<close>

definition extract_ext_tuple :: "node \<Rightarrow> (node \<times> node \<times> bool) option" where
  "extract_ext_tuple node =
     (let zero_sign = (\<lambda>a b. getKind a = BITVECTOR_CONCAT \<and> is_SIGN_EXTEND (getKind b) \<and>
            child a 0 = mkZero (getSize (child a 0)) \<and> getSize (child a 1) \<le> getSize (child a 0) \<and>
            getSize (child b 0) \<le> getSignExtendAmount b);
          a = child node 0; b = child node 1
      in if zero_sign a b then Some (child a 1, child b 0, False)
         else if is_SIGN_EXTEND (getKind a) \<and> is_SIGN_EXTEND (getKind b) \<and>
             getSize (child a 0) \<le> getSignExtendAmount a \<and> getSize (child b 0) \<le> getSignExtendAmount b
         then Some (child a 0, child b 0, True)
         else if zero_sign b a then Some (child b 1, child a 0, False)
         else None)"

definition MultSltMult :: rule where
  [rule_defs]: "MultSltMult = \<lparr>
    rule_applies = (\<lambda>node.
      if getKind node \<noteq> BITVECTOR_SLT \<or> getKind (child node 0) \<noteq> BITVECTOR_MULT \<or> getKind (child node 1) \<noteq> BITVECTOR_MULT then False
      else if getNumChildren (child node 0) > 2 \<or> getNumChildren (child node 1) > 2 then False
      else case extract_ext_tuple (child node 0) of
        None \<Rightarrow> False
      | Some (ml0, ml1, is_sext_l) \<Rightarrow>
          (case extract_ext_tuple (child node 1) of
             None \<Rightarrow> False
           | Some (mr0, mr1, is_sext_r) \<Rightarrow>
               if is_sext_l \<noteq> is_sext_r then False
               else if getKind ml0 \<noteq> BITVECTOR_PLUS \<and> getKind ml1 \<noteq> BITVECTOR_PLUS then False
               else
                 let (addxt, a) = (if getKind ml0 = BITVECTOR_PLUS then (ml0, ml1) else (ml1, ml0))
                 in if getNumChildren addxt > 2 then False
                    else if mr0 \<noteq> a \<and> mr1 \<noteq> a then False
                    else let x = (if mr0 = a then mr1 else mr0) in child addxt 0 = x \<or> child addxt 1 = x)),
    rule_apply = (\<lambda>node.
      case (extract_ext_tuple (child node 0), extract_ext_tuple (child node 1)) of
        (Some (ml0, ml1, is_sext), Some (mr0, mr1, ignore)) \<Rightarrow>
          Assert (getKind ml0 = BITVECTOR_PLUS \<or> getKind ml1 = BITVECTOR_PLUS)
          (let (addxt, a) = (if getKind ml0 = BITVECTOR_PLUS then (ml0, ml1) else (ml1, ml0));
               x = (if mr0 = a then mr1 else mr0);
               t = (if child addxt 0 = x then child addxt 1 else child addxt 0);
               zero_t = mkZero (getSize t);
               zero_a = mkZero (getSize a);
               k = (if is_sext then BITVECTOR_SLT else BITVECTOR_ULT)
           in Inr (App AND_K [App NOT_K [App EQUAL [t, zero_t]], App NOT_K [App EQUAL [a, zero_a]],
                App EQUAL [App k [addxt, x], App BITVECTOR_SGT [a, zero_a]]]))
      | _ \<Rightarrow> Inl AssertionFailure)\<rparr>"

subsection \<open>Soundness of IsPowerOfTwo\<close>

text \<open>The variables of a node; its value depends on no others.\<close>

primrec occurs :: "nat \<Rightarrow> node \<Rightarrow> bool" where
  "occurs i (Var j T) \<longleftrightarrow> j = i"
| "occurs i (ConstBool b) \<longleftrightarrow> False"
| "occurs i (ConstInt z) \<longleftrightarrow> False"
| "occurs i (ConstBV b) \<longleftrightarrow> False"
| "occurs i (App k ts) \<longleftrightarrow> (\<exists>b\<in>set (map (occurs i) ts). b)"

lemma eval_fresh: "\<not> occurs i n \<Longrightarrow> eval (\<sigma>(i := f)) n = eval \<sigma> n"
proof (induction n)
  case (App k ts)
  then have "map (eval (\<sigma>(i := f))) ts = map (eval \<sigma>) ts" by (auto simp del: fun_upd_apply)
  then show ?case by (simp only: eval.simps)
qed auto

lemma and_pred_pow2:
  assumes "0 < w" "0 \<le> a" "a < 2 ^ w"
  shows "a AND take_bit w (a - 1) = 0 \<longleftrightarrow> (\<exists>s. 0 \<le> s \<and> s < 2 ^ w \<and> a = sem_shl w 1 s)" (is "?l \<longleftrightarrow> ?r")
proof
  assume l: ?l
  show ?r
  proof (cases "a = 0")
    case True
    have "int w < 2 ^ w" using less_exp [of w] by (metis of_nat_less_iff of_nat_numeral of_nat_power)
    with True show ?thesis by (intro exI [of _ "int w"]) (simp add: sem_shl_def)
  next
    case False
    then obtain j where j: "j < w" "2 ^ j \<le> a" "a < 2 ^ Suc j" using leading_bit [of a w] assms by auto
    have "a = 2 ^ j"
    proof (rule ccontr)
      assume "a \<noteq> 2 ^ j"
      with j have "bit a j" "bit (a - 1) j" using bit_top [of a j] bit_top [of "a - 1" j] assms(2) by simp_all
      moreover have "take_bit w (a - 1) = a - 1" using False assms by (simp add: take_bit_id)
      ultimately have "bit (a AND take_bit w (a - 1)) j" by (simp add: bit_and_iff)
      with l show False by simp
    qed
    moreover have "int j < 2 ^ w" using j(1) less_exp [of w] by (metis of_nat_less_iff of_nat_numeral of_nat_power order.strict_trans)
    ultimately show ?thesis using j by (intro exI [of _ "int j"]) (simp add: sem_shl_def push_bit_eq_mult take_bit_id)
  qed
next
  assume ?r
  then obtain s where s: "a = sem_shl w 1 s" "0 \<le> s" by blast
  show ?l
  proof (cases "s < int w")
    case True
    then have "a = 2 ^ nat s" using s by (simp add: sem_shl_def push_bit_eq_mult take_bit_id nat_less_iff)
    then have "a - 1 = mask (nat s)" by (simp add: mask_int)
    then show ?thesis unfolding \<open>a = 2 ^ nat s\<close>
      by (intro bit_eqI) (auto simp: bit_and_iff bit_take_bit_iff bit_mask_iff bit_exp_iff)
  next
    case False
    with s show ?thesis by (simp add: sem_shl_def)
  qed
qed


lemma sem_sub_flip:
  "0 \<le> y \<Longrightarrow> y < 2 ^ w \<Longrightarrow> y = take_bit w (x - sem_sub w x y)"
  "0 \<le> x \<Longrightarrow> x < 2 ^ w \<Longrightarrow> x = take_bit w (y + sem_sub w x y)"
  by (simp_all add: sem_sub_def take_bit_add_right take_bit_eq_mod mod_diff_right_eq mod_add_right_eq)

text \<open>
  \<open>IsPowerOfTwo\<close> keeps satisfiability only: the result holds for some value of the skolem exactly when the
  assertion holds, whenever the rewriter that computes the difference is sound.
\<close>

lemma IsPowerOfTwo_equisat:
  assumes T: "typeOf n = Some T" and app: "rule_applies (IsPowerOfTwo rewrite sk) n" and fresh: "\<not> occurs sk n"
    and rewrite: "\<And>m U. typeOf m = Some U \<Longrightarrow> equiv (rewrite m) m"
  shows "\<exists>n'. rule_apply (IsPowerOfTwo rewrite sk) n = Inr n' \<and> typeOf n' = Some BooleanType \<and>
    (\<forall>\<sigma>. val_ok \<sigma> \<longrightarrow> truth (eval \<sigma> n) \<longleftrightarrow>
       (\<exists>f. val_ok (\<sigma>(sk := f)) \<and> truth (eval (\<sigma>(sk := f)) n')))"
proof -
  from app have "getKind n = EQUAL" by (auto simp: IsPowerOfTwo_def split: if_splits)
  with T obtain p q where n: "n = App EQUAL [p, q]" "T = BooleanType" by (auto simp: getKind_iff)
  define t u where "t = (if \<not> isZero p then p else q)" and "u = (if \<not> isZero p then q else p)"
  have zk: "getKind m = CONST_BITVECTOR" if "isZero m" for m
    using that by (cases m) (auto simp: isZero_def mkZero_def mkConst_def split: if_splits)
  from app n have u: "isZero u" "getKind t = BITVECTOR_AND" and num: "getNumChildren t = 2" and sz: "2 \<le> getSize t"
    and diff: "isConst (rewrite (App BITVECTOR_SUB [child t 0, child t 1]))"
    "rewrite (App BITVECTOR_SUB [child t 0, child t 1]) = mkConst (getSize t) 1 \<or>
     Inr (rewrite (App BITVECTOR_SUB [child t 0, child t 1])) = mkOnes (getSize t)"
    by (auto simp: IsPowerOfTwo_def t_def u_def Let_def dest: zk split: if_splits)
  from u(2) num obtain a b where t: "t = App BITVECTOR_AND [a, b]"
    by (auto simp: getKind_iff getNumChildren_def length_Suc_conv numeral_2_eq_2)
  with T n obtain w where ab: "typeOf a = Some (BitVectorType w)" "typeOf b = Some (BitVectorType w)" "typeOf u = Some (BitVectorType w)"
    "typeOf t = Some (BitVectorType w)"
    by (auto simp: t_def u_def isBitVector_iff split: if_splits)
  have st: "getSize t = w" using getSize_typed [OF ab(4)] by simp
  note w = typeOf_width [OF ab(1)]
  define d where "d = rewrite (App BITVECTOR_SUB [a, b])"
  have d: "isConst d" "d = mkConst w 1 \<or> d = mkConst w (mask w)"
    using diff w unfolding st by (auto simp: d_def t mkOnes_eq)
  have sub: "num (eval \<sigma> d) = sem_sub w (num (eval \<sigma> a)) (num (eval \<sigma> b))" if "val_ok \<sigma>" for \<sigma>
    using rewrite [of "App BITVECTOR_SUB [a, b]"] ab that by (auto simp: equiv_def d_def)
  have zero: "u = mkZero w" using u(1) isZero_iff [OF ab(3)] by simp
  have ev: "truth (eval \<sigma> n) \<longleftrightarrow> num (eval \<sigma> a) AND num (eval \<sigma> b) = 0" if "val_ok \<sigma>" for \<sigma>
  proof -
    have "num (eval \<sigma> t) = num (eval \<sigma> a) AND num (eval \<sigma> b)"
      using ab(1,2) that logic_ranges(1) [of "num (eval \<sigma> a)" w "num (eval \<sigma> b)"] by (simp add: t take_bit_id)
    moreover have "truth (eval \<sigma> n) \<longleftrightarrow> eval \<sigma> t = eval \<sigma> u"
      unfolding n(1) t_def u_def by auto
    moreover have "eval \<sigma> t = eval \<sigma> u \<longleftrightarrow> num (eval \<sigma> t) = 0"
      using ab(4) that by (simp add: zero)
    ultimately show ?thesis by simp
  qed
  define x where "x = (if d = mkConst w 1 then a else b)"
  have x: "typeOf x = Some (BitVectorType w)" "\<not> occurs sk x" using ab fresh n(1) t by (auto simp: x_def t_def split: if_splits)
  have and_x: "num (eval \<sigma> a) AND num (eval \<sigma> b) = num (eval \<sigma> x) AND take_bit w (num (eval \<sigma> x) - 1)" if "val_ok \<sigma>" for \<sigma>
  proof (cases "d = mkConst w 1")
    case True
    then have "sem_sub w (num (eval \<sigma> a)) (num (eval \<sigma> b)) = 1" using sub [OF that] w by simp
    then have "num (eval \<sigma> b) = take_bit w (num (eval \<sigma> a) - 1)"
      using sem_sub_flip(1) eval_bv(2,3) [OF ab(2) that] by metis
    with True show ?thesis by (simp add: x_def)
  next
    case False
    then have "sem_sub w (num (eval \<sigma> a)) (num (eval \<sigma> b)) = mask w" using sub [OF that] d(2) by auto
    then have "num (eval \<sigma> a) = take_bit w (num (eval \<sigma> b) + mask w)"
      using sem_sub_flip(2) eval_bv(2,3) [OF ab(1) that] by metis
    also have "\<dots> = take_bit w (num (eval \<sigma> b) - 1)"
    proof -
      have "num (eval \<sigma> b) + mask w = num (eval \<sigma> b) - 1 + 2 ^ w" by (simp add: mask_int)
      then show ?thesis by (simp only: take_bit_eq_mod mod_add_self2)
    qed
    finally show ?thesis using False by (simp add: x_def and.commute)
  qed
  define n' where "n' = App EQUAL [x, App BITVECTOR_SHL [mkConst w 1, Var sk (BitVectorType w)]]"
  have "rule_apply (IsPowerOfTwo rewrite sk) n = Inr n'"
  proof -
    have "(if isZero (child n 0) then child n 1 else child n 0) = t" "isConst (mkConst w 1)"
      by (simp_all add: n(1) t_def mkConst_def)
    then show ?thesis
      using d(1) unfolding IsPowerOfTwo_def rule.select_convs Let_def by (simp add: st) (simp add: t n'_def x_def flip: d_def)
  qed
  moreover have "typeOf n' = Some BooleanType" using x w by (simp add: n'_def)
  moreover have "truth (eval \<sigma> n) \<longleftrightarrow> (\<exists>f. val_ok (\<sigma>(sk := f)) \<and> truth (eval (\<sigma>(sk := f)) n'))" if \<sigma>: "val_ok \<sigma>" for \<sigma>
  proof -
    have n': "truth (eval (\<sigma>(sk := f)) n') \<longleftrightarrow> num (eval \<sigma> x) = sem_shl w 1 (num (f (BitVectorType w)))" if f: "val_ok (\<sigma>(sk := f))" for f
      using x w f \<sigma> eval_fresh [OF x(2), of \<sigma> f] eval_bv [OF x(1) \<sigma>] by (simp add: n'_def)
    have range: "0 \<le> num (f (BitVectorType w)) \<and> num (f (BitVectorType w)) < 2 ^ w" if f: "val_ok (\<sigma>(sk := f))" for f
      using that w unfolding val_ok_def by (auto simp: has_type_bv dest!: spec [of _ sk] spec [of _ "BitVectorType w"])
    have "truth (eval \<sigma> n) \<longleftrightarrow> (\<exists>s. 0 \<le> s \<and> s < 2 ^ w \<and> num (eval \<sigma> x) = sem_shl w 1 s)"
      unfolding ev [OF \<sigma>] and_x [OF \<sigma>] using and_pred_pow2 w x(1) \<sigma> by simp
    also have "\<dots> \<longleftrightarrow> (\<exists>f. val_ok (\<sigma>(sk := f)) \<and> num (eval \<sigma> x) = sem_shl w 1 (num (f (BitVectorType w))))"
    proof
      assume "\<exists>s. 0 \<le> s \<and> s < 2 ^ w \<and> num (eval \<sigma> x) = sem_shl w 1 s"
      then obtain s where s: "0 \<le> s" "s < 2 ^ w" "num (eval \<sigma> x) = sem_shl w 1 s" by blast
      define f where "f = (\<sigma> sk)(BitVectorType w := VBV w s)"
      have "val_ok (\<sigma>(sk := f))" using \<sigma> s by (auto simp: val_ok_def f_def)
      with s(3) show "\<exists>f. val_ok (\<sigma>(sk := f)) \<and> num (eval \<sigma> x) = sem_shl w 1 (num (f (BitVectorType w)))"
        by (intro exI [of _ f]) (simp add: f_def)
    qed (use range in blast)
    finally show ?thesis using n' by blast
  qed
  ultimately show ?thesis by blast
qed

subsection \<open>MultSltMult\<close>

lemma sval_range: "0 < w \<Longrightarrow> - (2 ^ (w - 1)) \<le> sval w x \<and> sval w x < 2 ^ (w - 1)"
  unfolding sval_def using signed_take_bit_int_greater_eq_minus_exp signed_take_bit_int_less_exp by blast

lemma sval_take_bit: "0 < w \<Longrightarrow> sval w (take_bit w x) = sval w x"
  by (cases w) (simp_all add: sval_def signed_take_bit_take_bit)

lemma sval_id: "0 < w \<Longrightarrow> - (2 ^ (w - 1)) \<le> x \<Longrightarrow> x < 2 ^ (w - 1) \<Longrightarrow> sval w x = x"
  unfolding sval_def by (rule signed_take_bit_int_eq_self)

lemma sval_eq_iff: "0 < w \<Longrightarrow> 0 \<le> x \<Longrightarrow> x < 2 ^ w \<Longrightarrow> 0 \<le> y \<Longrightarrow> y < 2 ^ w \<Longrightarrow> sval w x = sval w y \<longleftrightarrow> x = y"
  by (metis take_bit_sval)

lemma abs_mult_bound:
  assumes "\<bar>x\<bar> < 2 ^ a" "\<bar>y\<bar> \<le> 2 ^ b" "a + b \<le> c"
  shows "- (2 ^ c) \<le> x * y \<and> x * y < (2::int) ^ c"
proof -
  have "\<bar>x * y\<bar> \<le> \<bar>x\<bar> * 2 ^ b" unfolding abs_mult by (intro mult_left_mono) (use assms in auto)
  also have "\<dots> < 2 ^ a * 2 ^ b" using assms(1) by simp
  also have "\<dots> \<le> 2 ^ c" using assms(3) by (simp add: power_increasing flip: power_add)
  finally show ?thesis by linarith
qed

lemma sval_abs: "0 < w \<Longrightarrow> \<bar>sval w x\<bar> \<le> 2 ^ (w - 1)" "0 < w \<Longrightarrow> \<bar>sval w x\<bar> < 2 ^ w"
proof -
  assume w: "0 < w"
  show "\<bar>sval w x\<bar> \<le> 2 ^ (w - 1)" using sval_range [OF w, of x] by linarith
  also have "(2::int) ^ (w - 1) < 2 ^ w" using w by simp
  finally show "\<bar>sval w x\<bar> < 2 ^ w" .
qed

text \<open>The value of a product of extensions.\<close>

definition ext_value :: "bool \<Rightarrow> valuation \<Rightarrow> node \<Rightarrow> int" where
  "ext_value s \<sigma> u = (if s then sval (getSize u) (num (eval \<sigma> u)) else num (eval \<sigma> u))"

definition binary_concats :: "node \<Rightarrow> bool" where
  "binary_concats n \<longleftrightarrow> (\<forall>c\<in>set (children n). getKind c = BITVECTOR_CONCAT \<longrightarrow> length (children c) = 2)"

lemma zero_sign_value:
  assumes "typeOf p = Some (BitVectorType W)" "typeOf q = Some (BitVectorType W)"
    "getKind p = BITVECTOR_CONCAT" "length (children p) = 2" "child p 0 = mkZero (getSize (child p 0))"
    "getSize (child p 1) \<le> getSize (child p 0)" "is_SIGN_EXTEND (getKind q)" "getSize (child q 0) \<le> getSignExtendAmount q"
  shows "(\<exists>u. typeOf (child p 1) = Some (BitVectorType u)) \<and> (\<exists>v. typeOf (child q 0) = Some (BitVectorType v)) \<and> (\<forall>\<sigma>. val_ok \<sigma> \<longrightarrow>
    sval W (take_bit W (num (eval \<sigma> p) * num (eval \<sigma> q))) = ext_value False \<sigma> (child p 1) * ext_value True \<sigma> (child q 0))"
proof -
  from assms(3,4) obtain z u where p: "p = App BITVECTOR_CONCAT [z, u]"
    by (auto simp: getKind_iff length_Suc_conv numeral_2_eq_2)
  with assms(1) obtain m n where mn: "typeOf z = Some (BitVectorType m)" "typeOf u = Some (BitVectorType n)" "W = m + n"
    by (auto simp: is_bv_def)
  from assms(7) obtain e qs where "q = App (BITVECTOR_SIGN_EXTEND e) qs" using getKind_iff by auto
  with assms(2) obtain v k where q: "q = App (BITVECTOR_SIGN_EXTEND e) [v]" "typeOf v = Some (BitVectorType k)" "W = e + k"
    by auto
  have w: "0 < n" "0 < k" "n \<le> m" "k \<le> e" "getSize u = n" "getSize v = k"
    using assms(6,8) mn q p typeOf_width by (auto simp: util_defs d_signExtendAmount_def)
  have z: "z = mkZero m" using assms(5) mn p by simp
  have "sval W (take_bit W (num (eval \<sigma> p) * num (eval \<sigma> q))) = num (eval \<sigma> u) * sval k (num (eval \<sigma> v))" if "val_ok \<sigma>" for \<sigma>
  proof -
    have vals: "num (eval \<sigma> p) = num (eval \<sigma> u)" "num (eval \<sigma> q) = take_bit W (sval k (num (eval \<sigma> v)))"
      using p q mn z that by (simp_all add: sem_sign_extend_def add.commute)
    have trunc: "take_bit W (num (eval \<sigma> u) * take_bit W (sval k (num (eval \<sigma> v)))) = take_bit W (num (eval \<sigma> u) * sval k (num (eval \<sigma> v)))"
      by (rule mult_op.trunc_right)
    have "\<bar>num (eval \<sigma> u)\<bar> < 2 ^ n" using eval_bv(2,3) [OF mn(2) that] by simp
    from abs_mult_bound [OF this sval_abs(1) [OF w(2)], of "W - 1"]
    have "- (2 ^ (W - 1)) \<le> num (eval \<sigma> u) * sval k (num (eval \<sigma> v)) \<and> num (eval \<sigma> u) * sval k (num (eval \<sigma> v)) < (2::int) ^ (W - 1)"
      using w mn(3) q(3) by simp
    then show ?thesis
      unfolding vals trunc using w q(3) by (simp add: sval_take_bit sval_id)
  qed
  with p q mn w show ?thesis by (simp add: ext_value_def)
qed

lemma sign_sign_value:
  assumes "typeOf p = Some (BitVectorType W)" "typeOf q = Some (BitVectorType W)" "is_SIGN_EXTEND (getKind p)" "is_SIGN_EXTEND (getKind q)"
    "getSize (child p 0) \<le> getSignExtendAmount p" "getSize (child q 0) \<le> getSignExtendAmount q"
  shows "(\<exists>u. typeOf (child p 0) = Some (BitVectorType u)) \<and> (\<exists>v. typeOf (child q 0) = Some (BitVectorType v)) \<and> (\<forall>\<sigma>. val_ok \<sigma> \<longrightarrow>
    sval W (take_bit W (num (eval \<sigma> p) * num (eval \<sigma> q))) = ext_value True \<sigma> (child p 0) * ext_value True \<sigma> (child q 0))"
proof -
  from assms(3) obtain d ps where "p = App (BITVECTOR_SIGN_EXTEND d) ps" using getKind_iff by auto
  with assms(1) obtain u n where p: "p = App (BITVECTOR_SIGN_EXTEND d) [u]" "typeOf u = Some (BitVectorType n)" "W = d + n"
    by auto
  from assms(4) obtain e qs where "q = App (BITVECTOR_SIGN_EXTEND e) qs" using getKind_iff by auto
  with assms(2) obtain v k where q: "q = App (BITVECTOR_SIGN_EXTEND e) [v]" "typeOf v = Some (BitVectorType k)" "W = e + k"
    by auto
  have w: "0 < n" "0 < k" "n \<le> d" "k \<le> e" "getSize u = n" "getSize v = k"
    using assms(5,6) q p typeOf_width by (auto simp: util_defs d_signExtendAmount_def)
  have "sval W (take_bit W (num (eval \<sigma> p) * num (eval \<sigma> q))) = sval n (num (eval \<sigma> u)) * sval k (num (eval \<sigma> v))" if "val_ok \<sigma>" for \<sigma>
  proof -
    have vals: "num (eval \<sigma> p) = take_bit W (sval n (num (eval \<sigma> u)))" "num (eval \<sigma> q) = take_bit W (sval k (num (eval \<sigma> v)))"
      using p q that by (simp_all add: sem_sign_extend_def add.commute)
    have trunc: "take_bit W (take_bit W (sval n (num (eval \<sigma> u))) * take_bit W (sval k (num (eval \<sigma> v)))) =
      take_bit W (sval n (num (eval \<sigma> u)) * sval k (num (eval \<sigma> v)))"
      unfolding mult_op.trunc_right mult_op.trunc ..
    from abs_mult_bound [OF sval_abs(2) [OF w(1)] sval_abs(1) [OF w(2)], of "W - 1"]
    have "- (2 ^ (W - 1)) \<le> sval n (num (eval \<sigma> u)) * sval k (num (eval \<sigma> v)) \<and>
      sval n (num (eval \<sigma> u)) * sval k (num (eval \<sigma> v)) < (2::int) ^ (W - 1)"
      using w p(3) q(3) by simp
    then show ?thesis
      unfolding vals trunc using w q(3) by (simp add: sval_take_bit sval_id)
  qed
  with p q w show ?thesis by (simp add: ext_value_def)
qed

lemma if_Some: "(if c then Some x else y) = Some z \<longleftrightarrow> c \<and> x = z \<or> \<not> c \<and> y = Some z"
  by auto

lemma extract_ext_tuple_value:
  assumes "typeOf (App BITVECTOR_MULT [p, q]) = Some (BitVectorType W)" "extract_ext_tuple (App BITVECTOR_MULT [p, q]) = Some (u, v, s)"
    "binary_concats (App BITVECTOR_MULT [p, q])"
  shows "(\<exists>m. typeOf u = Some (BitVectorType m)) \<and> (\<exists>n. typeOf v = Some (BitVectorType n)) \<and> (\<forall>\<sigma>. val_ok \<sigma> \<longrightarrow>
    sval W (num (eval \<sigma> (App BITVECTOR_MULT [p, q]))) = ext_value s \<sigma> u * ext_value True \<sigma> v)"
proof -
  have t: "typeOf p = Some (BitVectorType W)" "typeOf q = Some (BitVectorType W)" using assms(1) by auto
  then have ev: "num (eval \<sigma> (App BITVECTOR_MULT [p, q])) = take_bit W (num (eval \<sigma> p) * num (eval \<sigma> q))"
    "num (eval \<sigma> (App BITVECTOR_MULT [p, q])) = take_bit W (num (eval \<sigma> q) * num (eval \<sigma> p))" if "val_ok \<sigma>" for \<sigma>
    using that by (simp_all add: ac_simps)
  have two: "getKind p = BITVECTOR_CONCAT \<Longrightarrow> length (children p) = 2" "getKind q = BITVECTOR_CONCAT \<Longrightarrow> length (children q) = 2"
    using assms(3) by (auto simp: binary_concats_def)
  from assms(2) consider
    (zs) "getKind p = BITVECTOR_CONCAT" "is_SIGN_EXTEND (getKind q)" "child p 0 = mkZero (getSize (child p 0))"
      "getSize (child p 1) \<le> getSize (child p 0)" "getSize (child q 0) \<le> getSignExtendAmount q" "u = child p 1" "v = child q 0" "s = False"
  | (ss) "is_SIGN_EXTEND (getKind p)" "is_SIGN_EXTEND (getKind q)" "getSize (child p 0) \<le> getSignExtendAmount p"
      "getSize (child q 0) \<le> getSignExtendAmount q" "u = child p 0" "v = child q 0" "s = True"
  | (sz) "getKind q = BITVECTOR_CONCAT" "is_SIGN_EXTEND (getKind p)" "child q 0 = mkZero (getSize (child q 0))"
      "getSize (child q 1) \<le> getSize (child q 0)" "getSize (child p 0) \<le> getSignExtendAmount p" "u = child q 1" "v = child p 0" "s = False"
    unfolding extract_ext_tuple_def children.simps nth_Cons_0 nth_Cons_Suc One_nat_def Let_def if_Some
    by (elim disjE conjE) (simp_all del: is_kind_iff)
  then show ?thesis
  proof cases
    case zs
    with zero_sign_value [OF t _ two(1)] ev(1) show ?thesis by (simp del: is_kind_iff eval.simps(5))
  next
    case ss
    with sign_sign_value [OF t] ev(1) show ?thesis by (simp del: is_kind_iff eval.simps(5))
  next
    case sz
    with zero_sign_value [OF t(2,1) _ two(2)] ev(2) show ?thesis by (simp del: is_kind_iff eval.simps(5))
  qed
qed

text \<open>
  \<open>MultSltMult\<close> is sound on two sign extensions, and on a zero and a sign extension when the sum is under the
  zero extension and the sign-extended factor is the common one; the code does not check the latter.
\<close>

lemma product_compare:
  "y * a < x * a \<longleftrightarrow> a \<noteq> 0 \<and> y \<noteq> x \<and> (y < x \<longleftrightarrow> 0 < (a::int))"
  by (cases a "0::int" rule: linorder_cases) (auto simp: mult_less_cancel_right)

lemma add_same_iff:
  assumes "0 \<le> x" "x < 2 ^ w" "0 \<le> y" "y < 2 ^ w"
  shows "take_bit w (x + y) = x \<longleftrightarrow> y = (0::int)"
proof
  assume "take_bit w (x + y) = x"
  then have "(x + y) mod 2 ^ w = x mod 2 ^ w" using assms by (simp add: take_bit_eq_mod)
  then have "2 ^ w dvd y" by (simp add: mod_eq_dvd_iff)
  with assms show "y = 0" using zdvd_not_zless [of y "2 ^ w"] by fastforce
qed (simp add: assms take_bit_id)

lemma MultSltMult_rewrites:
  assumes T: "typeOf n = Some T" and app: "rule_applies MultSltMult n"
    and l: "extract_ext_tuple (child n 0) = Some (ml0, ml1, s)" and r: "extract_ext_tuple (child n 1) = Some (mr0, mr1, s')"
    and concats: "binary_concats (child n 0)" "binary_concats (child n 1)"
    and shape: "s \<or> getKind ml0 = BITVECTOR_PLUS \<and> mr1 = ml1"
  shows "rewrites_to (rule_apply MultSltMult n) T n"
proof -
  have kinds: "getKind n = BITVECTOR_SLT" "getKind (child n 0) = BITVECTOR_MULT" "getKind (child n 1) = BITVECTOR_MULT"
    and num: "getNumChildren (child n 0) \<le> 2" "getNumChildren (child n 1) \<le> 2"
    using app unfolding MultSltMult_def rule.select_convs by (auto split: if_splits)
  from kinds T obtain as bs where n: "n = App BITVECTOR_SLT [App BITVECTOR_MULT as, App BITVECTOR_MULT bs]" "T = BooleanType"
    by (auto simp: getKind_iff)
  have "2 \<le> length as" "2 \<le> length bs" using T n by (auto simp: typeOf_ac)
  with num n(1) have "length as = 2" "length bs = 2" by (auto simp: getNumChildren_def)
  then obtain p q p' q' where "as = [p, q]" "bs = [p', q']" by (auto simp: length_Suc_conv numeral_2_eq_2)
  with T n obtain W where pq: "child n 0 = App BITVECTOR_MULT [p, q]" "child n 1 = App BITVECTOR_MULT [p', q']"
    "typeOf (App BITVECTOR_MULT [p, q]) = Some (BitVectorType W)" "typeOf (App BITVECTOR_MULT [p', q']) = Some (BitVectorType W)"
    by (auto simp: isBitVector_iff)
  define addxt a where "addxt = (if getKind ml0 = BITVECTOR_PLUS then ml0 else ml1)" and "a = (if getKind ml0 = BITVECTOR_PLUS then ml1 else ml0)"
  define x t where "x = (if mr0 = a then mr1 else mr0)" and "t = (if child addxt 0 = x then child addxt 1 else child addxt 0)"
  have checks: "s = s'" "getKind addxt = BITVECTOR_PLUS" "getNumChildren addxt \<le> 2" "mr0 = a \<or> mr1 = a" "child addxt 0 = x \<or> child addxt 1 = x"
    using app l r unfolding MultSltMult_def rule.select_convs addxt_def a_def x_def by (auto simp: Let_def split: if_splits)
  note lv = extract_ext_tuple_value [OF pq(3) l [unfolded pq(1)] concats(1) [unfolded pq(1)]]
  note rv = extract_ext_tuple_value [OF pq(4) r [unfolded pq(2)] concats(2) [unfolded pq(2)]]
  from lv obtain i j where ij: "typeOf addxt = Some (BitVectorType i)" "typeOf a = Some (BitVectorType j)"
    unfolding addxt_def a_def by metis
  have left: "sval W (num (eval \<sigma> (child n 0))) = ext_value s \<sigma> addxt * ext_value True \<sigma> a" if "val_ok \<sigma>" for \<sigma>
    using lv that shape unfolding pq(1) addxt_def a_def by (cases s) (auto simp: ac_simps)
  have right: "sval W (num (eval \<sigma> (child n 1))) = ext_value s \<sigma> x * ext_value True \<sigma> a" if "val_ok \<sigma>" for \<sigma>
    using rv that shape checks(1,4) unfolding pq(2) x_def a_def by (cases s) (auto simp: ac_simps)
  from checks(2,3) ij(1) obtain c d where cd: "addxt = App BITVECTOR_PLUS [c, d]"
  proof -
    from checks(2) obtain cs where cs: "addxt = App BITVECTOR_PLUS cs" by (auto simp: getKind_iff)
    with ij(1) checks(3) have "length cs = 2" by (auto simp: typeOf_ac getNumChildren_def)
    with cs that show thesis by (auto simp: length_Suc_conv numeral_2_eq_2)
  qed
  have xt: "typeOf x = Some (BitVectorType i)" "typeOf t = Some (BitVectorType i)"
    "val_ok \<sigma> \<Longrightarrow> num (eval \<sigma> addxt) = take_bit i (num (eval \<sigma> x) + num (eval \<sigma> t))" for \<sigma>
    using checks(5) ij(1) cd by (auto simp: t_def add.commute)
  have iff: "num (eval \<sigma> addxt) = num (eval \<sigma> x) \<longleftrightarrow> num (eval \<sigma> t) = 0" if "val_ok \<sigma>" for \<sigma>
    unfolding xt(3) [OF that] by (rule add_same_iff) (use eval_bv(2,3) [OF xt(1) that] eval_bv(2,3) [OF xt(2) that] in auto)
  define n' where "n' = App AND_K [App NOT_K [App EQUAL [t, mkZero i]], App NOT_K [App EQUAL [a, mkZero j]],
                App EQUAL [App (if s then BITVECTOR_SLT else BITVECTOR_ULT) [addxt, x], App BITVECTOR_SGT [a, mkZero j]]]"
  have "rule_apply MultSltMult n = Inr n'"
  proof -
    have pair: "(if getKind ml0 = BITVECTOR_PLUS then (ml0, ml1) else (ml1, ml0)) = (addxt, a)"
      and sum: "getKind ml0 = BITVECTOR_PLUS \<or> getKind ml1 = BITVECTOR_PLUS"
      using checks(2) by (auto simp: addxt_def a_def split: if_splits)
    show ?thesis
      unfolding MultSltMult_def rule.select_convs l r Let_def option.case prod.case pair x_def [symmetric] t_def [symmetric]
      using sum getSize_typed [OF ij(2)] getSize_typed [OF xt(2)] by (simp add: n'_def)
  qed
  moreover have "typeOf n' = Some BooleanType" using ij xt(1,2) typeOf_width by (cases s) (auto simp: n'_def)
  moreover have "eval \<sigma> n' = eval \<sigma> n" if "val_ok \<sigma>" for \<sigma>
  proof -
    define Y X A where "Y = ext_value s \<sigma> addxt" and "X = ext_value s \<sigma> x" and "A = ext_value True \<sigma> a"
    note w = typeOf_width(1) [OF ij(1)] typeOf_width(1) [OF ij(2)]
    have Y: "Y < X \<longleftrightarrow> truth (eval \<sigma> (App (if s then BITVECTOR_SLT else BITVECTOR_ULT) [addxt, x]))"
      using ij xt(1) that getSize_typed [OF ij(1)] getSize_typed [OF xt(1)] by (simp add: Y_def X_def ext_value_def sem_slt_def)
    have YX: "Y = X \<longleftrightarrow> num (eval \<sigma> t) = 0"
      using iff [OF that] ij xt(1) that getSize_typed [OF ij(1)] getSize_typed [OF xt(1)] w
      by (simp add: Y_def X_def ext_value_def sval_eq_iff)
    have A: "A = 0 \<longleftrightarrow> num (eval \<sigma> a) = 0" "0 < A \<longleftrightarrow> sem_slt j 0 (num (eval \<sigma> a))"
      using ij(2) that getSize_typed [OF ij(2)] w by (simp_all add: A_def ext_value_def sval_0_iff sem_slt_def sval_0)
    have "eval \<sigma> n = VBool (Y * A < X * A)"
      using left [OF that] right [OF that] pq n that by (simp add: sem_slt_def Y_def X_def A_def)
    also have "\<dots> = eval \<sigma> n'"
      unfolding product_compare YX A Y using ij xt that by (auto simp: n'_def)
    finally show ?thesis by simp
  qed
  ultimately show ?thesis using n(2) by simp
qed

text \<open>A product where the sum is under the sign extension, and a valuation of its variables.\<close>

abbreviation var2 :: "nat \<Rightarrow> node" where
  "var2 i \<equiv> Var i (BitVectorType 2)"

definition mult_slt_example :: node where
  "mult_slt_example =
     App BITVECTOR_SLT
       [App BITVECTOR_MULT [App BITVECTOR_CONCAT [mkZero 2, var2 0], App (BITVECTOR_SIGN_EXTEND 2) [App BITVECTOR_PLUS [var2 1, var2 2]]],
        App BITVECTOR_MULT [App BITVECTOR_CONCAT [mkZero 2, var2 0], App (BITVECTOR_SIGN_EXTEND 2) [var2 1]]]"

definition mult_slt_valuation :: valuation where
  "mult_slt_valuation i T = (case T of BitVectorType w \<Rightarrow> VBV w (take_bit w (if i = 0 then 1 else if i = 2 then 3 else 0))
     | U \<Rightarrow> zero_val i U)"

lemma mult_slt_valuation_ok: "val_ok mult_slt_valuation"
  unfolding val_ok_def by (auto simp: mult_slt_valuation_def zero_val_def split: ntype.split)

lemma mult_slt_sizes:
  "getSize (var2 i) = 2" "getSize (mkZero 2) = 2" "getSize (App BITVECTOR_PLUS [var2 i, var2 j]) = 2"
  by (simp_all add: getSize_typed [of _ "BitVectorType 2"])

lemma mult_slt_tuples:
  "extract_ext_tuple (child mult_slt_example 0) = Some (var2 0, App BITVECTOR_PLUS [var2 1, var2 2], False)"
  "extract_ext_tuple (child mult_slt_example 1) = Some (var2 0, var2 1, False)"
  by (simp_all add: mult_slt_example_def extract_ext_tuple_def Let_def getSignExtendAmount_def d_signExtendAmount_def
      mult_slt_sizes [simplified])

lemma MultSltMult_example:
  "typeOf mult_slt_example = Some BooleanType \<and> rule_applies MultSltMult mult_slt_example \<and>
   (\<exists>n' \<sigma>. rule_apply MultSltMult mult_slt_example = Inr n' \<and> val_ok \<sigma> \<and> eval \<sigma> n' \<noteq> eval \<sigma> mult_slt_example)"
proof -
  define n' where "n' = App AND_K [App NOT_K [App EQUAL [var2 2, mkZero 2]], App NOT_K [App EQUAL [var2 0, mkZero 2]],
    App EQUAL [App BITVECTOR_ULT [App BITVECTOR_PLUS [var2 1, var2 2], var2 1], App BITVECTOR_SGT [var2 0, mkZero 2]]]"
  have T: "typeOf mult_slt_example = Some BooleanType"
    by (simp add: mult_slt_example_def flip: mkConcat2_def)
  have app: "rule_applies MultSltMult mult_slt_example"
    unfolding MultSltMult_def rule.select_convs mult_slt_tuples
    by (simp add: mult_slt_example_def getNumChildren_def Let_def)
  have res: "rule_apply MultSltMult mult_slt_example = Inr n'"
    unfolding MultSltMult_def rule.select_convs mult_slt_tuples n'_def
    by (simp add: Let_def mult_slt_sizes [simplified])
  have old: "eval mult_slt_valuation mult_slt_example = VBool True"
    by (simp add: mult_slt_example_def mult_slt_valuation_def sem_slt_def sval_def sem_sign_extend_def bit_mask_iff)
  have new: "eval mult_slt_valuation n' = VBool False" 
    by (simp add: n'_def mult_slt_valuation_def sem_slt_def sval_def)
  show ?thesis using T app res mult_slt_valuation_ok old new by (metis val.inject(1))
qed

subsection \<open>Properties\<close>


text \<open>A rewriter good enough for the witness: it evaluates the difference that the rule asks for.\<close>

definition diff_rewrite :: "node \<Rightarrow> node" where
  "diff_rewrite m = (if m = App BITVECTOR_SUB [App BITVECTOR_PLUS [Var 0 (BitVectorType 8), mkConst 8 1], Var 0 (BitVectorType 8)]
     then mkConst 8 1 else m)"


text \<open>C28: \<open>MultSltMult\<close> keeps type and value on two sign extensions, and on a zero and a sign extension when the sum
  is under the zero extension and the common factor is the sign-extended one.\<close>

theorem MultSltMult_sound:
  assumes "typeOf n = Some T" "rule_applies MultSltMult n"
    and "extract_ext_tuple (child n 0) = Some (ml0, ml1, s)" "extract_ext_tuple (child n 1) = Some (mr0, mr1, s')"
    and "binary_concats (child n 0)" "binary_concats (child n 1)"
    and "s \<or> getKind ml0 = BITVECTOR_PLUS \<and> mr1 = ml1"
  shows "\<exists>n'. rule_apply MultSltMult n = Inr n' \<and> equiv n' n"
  using MultSltMult_rewrites [OF assms] unfolding rewrites_to_equiv [OF assms(1)] .

theorem MultSltMult_sound_witness:
  "\<exists>n'. rule_apply MultSltMult (App BITVECTOR_SLT
      [App BITVECTOR_MULT [App (BITVECTOR_SIGN_EXTEND 2) [App BITVECTOR_PLUS [var2 1, var2 2]], App (BITVECTOR_SIGN_EXTEND 2) [var2 0]],
       App BITVECTOR_MULT [App (BITVECTOR_SIGN_EXTEND 2) [var2 1], App (BITVECTOR_SIGN_EXTEND 2) [var2 0]]]) = Inr n'
    \<and> equiv n' (App BITVECTOR_SLT
      [App BITVECTOR_MULT [App (BITVECTOR_SIGN_EXTEND 2) [App BITVECTOR_PLUS [var2 1, var2 2]], App (BITVECTOR_SIGN_EXTEND 2) [var2 0]],
       App BITVECTOR_MULT [App (BITVECTOR_SIGN_EXTEND 2) [var2 1], App (BITVECTOR_SIGN_EXTEND 2) [var2 0]]])"
    (is "\<exists>n'. rule_apply MultSltMult ?n = Inr n' \<and> equiv n' ?n")
proof -
  have tuples: "extract_ext_tuple (child ?n 0) = Some (App BITVECTOR_PLUS [var2 1, var2 2], var2 0, True)"
    "extract_ext_tuple (child ?n 1) = Some (var2 1, var2 0, True)"
    by (simp_all add: extract_ext_tuple_def Let_def getSignExtendAmount_def d_signExtendAmount_def mult_slt_sizes [simplified])
  have "typeOf ?n = Some BooleanType" by simp
  moreover have "rule_applies MultSltMult ?n"
    unfolding MultSltMult_def rule.select_convs tuples by (simp add: getNumChildren_def Let_def)
  moreover have "binary_concats (child ?n 0)" "binary_concats (child ?n 1)" by (simp_all add: binary_concats_def)
  ultimately show ?thesis by (rule MultSltMult_sound [OF _ _ tuples]) simp
qed


end
