(* ===== verification/Rules_Normalize.thy ===== *)
theory Rules_Normalize
  imports Rules_Simplify_Arith
begin

section \<open>Normalization rules: slices and flattening\<close>

text \<open>
  \<open>theory/bv/theory_bv_rewrite_rules_normalization.h\<close>, first part: extractions pushed below operators
  and nested n-ary operators flattened. The work list of the flattening rules is a
  \<open>std::vector\<close> used as a stack, its back the last element of the list.
\<close>

unbundle bit_operations_syntax

subsection \<open>Extractions\<close>

definition ExtractBitwise :: "(node \<Rightarrow> nat) \<Rightarrow> rule" where
  [rule_defs]: "ExtractBitwise nid = \<lparr>
    rule_applies = (\<lambda>node. is_EXTRACT (getKind node) \<and>
      (getKind (child node 0) = BITVECTOR_AND \<or> getKind (child node 0) = BITVECTOR_OR \<or> getKind (child node 0) = BITVECTOR_XOR)),
    rule_apply = (\<lambda>node.
      let high = getExtractHigh node; low = getExtractLow node;
          cs = map (\<lambda>c. mkExtract c high low) (children (child node 0));
          k = getKind (child node 0)
      in mkSortedNode nid k cs)\<rparr>"

definition ExtractNot :: rule where
  [rule_defs]: "ExtractNot = \<lparr>
    rule_applies = (\<lambda>node. is_EXTRACT (getKind node) \<and> getKind (child node 0) = BITVECTOR_NOT),
    rule_apply = (\<lambda>node.
      let low = getExtractLow node; high = getExtractHigh node;
          a = mkExtract (child (child node 0) 0) high low
      in Inr (App BITVECTOR_NOT [a]))\<rparr>"

definition ExtractSignExtend :: rule where
  [rule_defs]: "ExtractSignExtend = \<lparr>
    rule_applies = (\<lambda>node. if is_EXTRACT (getKind node) \<and> is_SIGN_EXTEND (getKind (child node 0)) then True else False),
    rule_apply = (\<lambda>node.
      let extendee = child (child node 0) 0; extendee_size = getSize extendee;
          high = getExtractHigh node; low = getExtractLow node
      in if high < extendee_size then Inr (mkExtract extendee high low)
         else if low < extendee_size \<and> high \<ge> extendee_size then
           let low_extract = mkExtract extendee (extendee_size - 1) low;
               new_amount = high - extendee_size + 1
           in Inr (mkSignExtend low_extract new_amount)
         else
           Assert (low \<ge> extendee_size)
             (let top = getSize extendee - 1;
                  most_significant_bit = mkExtract extendee top top;
                  bits = replicate (high - low + 1) most_significant_bit
              in Inr (mkConcat bits)))\<rparr>"

definition ExtractArith :: rule where
  [rule_defs]: "ExtractArith = \<lparr>
    rule_applies = (\<lambda>node. is_EXTRACT (getKind node) \<and> getExtractLow node = 0 \<and>
      (getKind (child node 0) = BITVECTOR_PLUS \<or> getKind (child node 0) = BITVECTOR_MULT)),
    rule_apply = (\<lambda>node.
      let low = getExtractLow node
      in Assert (low = 0)
        (let high = getExtractHigh node;
             cs = map (\<lambda>c. mkExtract c high low) (children (child node 0));
             k = getKind (child node 0)
         in Inr (mkNaryNode k cs)))\<rparr>"

definition ExtractArith2 :: rule where
  [rule_defs]: "ExtractArith2 = \<lparr>
    rule_applies = (\<lambda>node. is_EXTRACT (getKind node) \<and>
      (getKind (child node 0) = BITVECTOR_PLUS \<or> getKind (child node 0) = BITVECTOR_MULT)),
    rule_apply = (\<lambda>node.
      let low = getExtractLow node; high = getExtractHigh node;
          cs = map (\<lambda>c. mkExtract c high 0) (children (child node 0));
          k = getKind (child node 0);
          op_children = mkNaryNode k cs
      in Inr (mkExtract op_children high low))\<rparr>"

subsection \<open>Flattening\<close>

function flatten_loop :: "kind \<Rightarrow> node list \<Rightarrow> node list \<Rightarrow> node list" where
  "flatten_loop k [] cs = cs"
| "flatten_loop k (q # qs) cs =
     (let current = last (q # qs); rest = butlast (q # qs)
      in if getKind current = k then flatten_loop k (rest @ children current) cs
         else flatten_loop k rest (cs @ [current]))"
  by pat_completeness auto

definition flat_kind :: "kind \<Rightarrow> bool" where
  "flat_kind k \<longleftrightarrow> k = BITVECTOR_PLUS \<or> k = BITVECTOR_MULT \<or> k = BITVECTOR_OR \<or> k = BITVECTOR_XOR \<or> k = BITVECTOR_AND"

lemma size_last: "size_list size (q # qs) = size_list size (butlast (q # qs)) + Suc (size (last (q # qs)))" for q :: node
proof -
  have "q # qs = butlast (q # qs) @ [last (q # qs)]" by simp
  then have "size_list size (q # qs) = size_list size (butlast (q # qs) @ [last (q # qs)])" by metis
  then show ?thesis by simp
qed

lemma size_children_le: "size_list size (children n) \<le> size n"
  by (cases n) auto

termination flatten_loop
proof (relation "measure (\<lambda>(k, queue, cs). size_list size queue)")
  fix k :: kind and q :: node and qs cs :: "node list" and current rest
  assume c: "current = last (q # qs)" and r: "rest = butlast (q # qs)"
  show "((k, rest @ children current, cs), k, q # qs, cs) \<in> measure (\<lambda>(k, queue, cs). size_list size queue)"
    using size_last [of q qs] size_children_le [of current] by (simp add: c r)
  show "((k, rest, cs @ [current]), k, q # qs, cs) \<in> measure (\<lambda>(k, queue, cs). size_list size queue)"
    using size_last [of q qs] by (simp add: c r)
qed simp_all

definition FlattenAssocCommut :: "(node \<Rightarrow> nat) \<Rightarrow> rule" where
  [rule_defs]: "FlattenAssocCommut nid = \<lparr>
    rule_applies = (\<lambda>node. if \<not> flat_kind (getKind node) then False
      else \<exists>c \<in> set (children node). getKind c = getKind node),
    rule_apply = (\<lambda>node.
      let k = getKind node; cs = flatten_loop k [node] []
      in if k = BITVECTOR_PLUS \<or> k = BITVECTOR_MULT then Inr (mkNaryNode k cs)
         else mkSortedNode nid k cs)\<rparr>"

function flatten_set_loop :: "kind \<Rightarrow> node list \<Rightarrow> node list \<Rightarrow> node list \<Rightarrow> node list" where
  "flatten_set_loop k [] processed cs = cs"
| "flatten_set_loop k (q # qs) processed cs =
     (let current = last (q # qs); rest = butlast (q # qs)
      in if current \<in> set processed then flatten_set_loop k rest processed cs
         else if getKind current = k then flatten_set_loop k (rest @ children current) (current # processed) cs
         else flatten_set_loop k rest (current # processed) (cs @ [current]))"
  by pat_completeness auto

termination flatten_set_loop
proof (relation "measure (\<lambda>(k, queue, processed, cs). size_list size queue)")
  fix k :: kind and q :: node and qs processed cs :: "node list" and current rest
  assume c: "current = last (q # qs)" and r: "rest = butlast (q # qs)"
  let ?R = "measure (\<lambda>(k, queue, processed, cs). size_list size queue)"
  show "((k, rest, processed, cs), k, q # qs, processed, cs) \<in> ?R"
    using size_last [of q qs] by (simp add: c r)
  show "((k, rest @ children current, current # processed, cs), k, q # qs, processed, cs) \<in> ?R"
    using size_last [of q qs] size_children_le [of current] by (simp add: c r)
  show "((k, rest, current # processed, cs @ [current]), k, q # qs, processed, cs) \<in> ?R"
    using size_last [of q qs] by (simp add: c r)
qed simp_all

definition FlattenAssocCommutNoDuplicates :: "(node \<Rightarrow> nat) \<Rightarrow> rule" where
  [rule_defs]: "FlattenAssocCommutNoDuplicates nid = \<lparr>
    rule_applies = (\<lambda>node. if getKind node \<noteq> BITVECTOR_OR \<and> getKind node \<noteq> BITVECTOR_AND then False
      else \<exists>c \<in> set (children node). getKind c = getKind node),
    rule_apply = (\<lambda>node. mkSortedNode nid (getKind node) (flatten_set_loop (getKind node) [node] [] []))\<rparr>"

subsection \<open>Soundness: extractions\<close>

lemma op_cong: "ac_kind k \<Longrightarrow> take_bit w x = take_bit w x' \<Longrightarrow> take_bit w y = take_bit w y' \<Longrightarrow>
  take_bit w (op_fun k x y) = take_bit w (op_fun k x' y')"
  by (rule ac_operator.trunc_cong [OF ac_kind_operator])

text \<open>A function that distributes over the operator, applied to every child.\<close>

lemma fold_num_map:
  assumes "ac_kind k" "\<And>x y. take_bit v (g (op_fun k x y)) = take_bit v (op_fun k (g x) (g y))"
    "take_bit v (g (op_unit k)) = take_bit v (op_unit k)"
    "\<And>t. t \<in> set ts \<Longrightarrow> take_bit v (num (eval \<sigma> (f t))) = take_bit v (g (num (eval \<sigma> t)))"
  shows "take_bit v (fold_num k \<sigma> (map f ts)) = take_bit v (g (fold_num k \<sigma> ts))"
  using assms(4)
proof (induction ts)
  case (Cons t ts)
  then show ?case unfolding list.map fold_num_simps assms(2) by (intro op_cong [OF assms(1)]) auto
qed (simp add: assms(3))

lemma of_width_map: "of_width v (map f ts) \<longleftrightarrow> (\<forall>t\<in>set ts. typeOf (f t) = Some (BitVectorType v))"
  by (simp add: of_width_def)

lemma of_width_pos: "of_width w ts \<Longrightarrow> ts \<noteq> [] \<Longrightarrow> 0 < w" "of_width w ts \<Longrightarrow> ts \<noteq> [] \<Longrightarrow> w < 2147483648"
  using typeOf_width by (cases ts; auto)+

lemma drop_bit_op: "k \<in> {BITVECTOR_AND, BITVECTOR_OR, BITVECTOR_XOR} \<Longrightarrow> drop_bit l (op_fun k x y) = op_fun k (drop_bit l x) (drop_bit l y)"
  "k \<in> {BITVECTOR_AND, BITVECTOR_OR, BITVECTOR_XOR} \<Longrightarrow> drop_bit l (op_unit k) = op_unit k"
  by (auto simp: op_unit_def)

lemma extract_trunc: "low \<le> high \<Longrightarrow> high < w \<Longrightarrow> sem_extract high low (take_bit w x) = take_bit (high - low + 1) (drop_bit low x)"
  by (rule bit_eqI) (auto simp: sem_extract_def bit_simps)

lemma eval_extract: "eval \<sigma> (App (BITVECTOR_EXTRACT high low) [a]) = VBV (high - low + 1) (sem_extract high low (num (eval \<sigma> a)))"
  by simp

text \<open>An extraction from an n-ary node.\<close>

lemma extract_ac:
  assumes "typeOf (App (BITVECTOR_EXTRACT high low) [App k cs]) = Some T" "ac_kind k"
  obtains w where "2 \<le> length cs" "cs \<noteq> []" "of_width w cs" "low \<le> high" "high < w" "T = BitVectorType (high - low + 1)"
    "\<forall>\<sigma>. val_ok \<sigma> \<longrightarrow> eval \<sigma> (App (BITVECTOR_EXTRACT high low) [App k cs]) =
       VBV (high - low + 1) (take_bit (high - low + 1) (drop_bit low (fold_num k \<sigma> cs)))"
proof -
  from assms(1) obtain w where x: "typeOf (App k cs) = Some (BitVectorType w)"
    and hl: "low \<le> high" "high < w" "T = BitVectorType (high - low + 1)" by auto
  note cs = ac_typedD [OF x assms(2)]
  from cs(1) have ne: "cs \<noteq> []" by auto
  have "eval \<sigma> (App (BITVECTOR_EXTRACT high low) [App k cs]) =
       VBV (high - low + 1) (take_bit (high - low + 1) (drop_bit low (fold_num k \<sigma> cs)))" if "val_ok \<sigma>" for \<sigma>
    unfolding eval_extract eval_ac [OF assms(2) ne cs(2) that] num.simps extract_trunc [OF hl(1,2)] by (rule refl)
  with that [OF cs(1) ne cs(2) hl] show thesis by blast
qed

lemma ExtractBitwise_sound: "sound_rule (ExtractBitwise nid)"
proof (rule sound_kind)
  fix k ts T assume *: "typeOf (App k ts) = Some T" "rule_applies (ExtractBitwise nid) (App k ts)"
  then obtain high low k' cs where n: "k = BITVECTOR_EXTRACT high low" "ts = [App k' cs]" and
    k': "k' \<in> {BITVECTOR_AND, BITVECTOR_OR, BITVECTOR_XOR}"
    by (auto simp: rule_defs getKind_iff)
  then have ac: "ac_kind k'" by auto
  from extract_ac [OF *(1) [unfolded n(1,2)] ac] obtain w where
    cs: "2 \<le> length cs" "cs \<noteq> []" "of_width w cs" "low \<le> high" "high < w" "T = BitVectorType (high - low + 1)"
    and ev: "\<forall>\<sigma>. val_ok \<sigma> \<longrightarrow> eval \<sigma> (App (BITVECTOR_EXTRACT high low) [App k' cs]) =
       VBV (high - low + 1) (take_bit (high - low + 1) (drop_bit low (fold_num k' \<sigma> cs)))" .
  let ?cs = "map (\<lambda>c. mkExtract c high low) cs"
  have w: "of_width (high - low + 1) ?cs" "?cs \<noteq> []" using cs by (auto simp: of_width_def)
  have fold: "take_bit (high - low + 1) (fold_num k' \<sigma> ?cs) = take_bit (high - low + 1) (drop_bit low (fold_num k' \<sigma> cs))" for \<sigma>
    by (rule fold_num_map [OF ac]) (simp_all only: drop_bit_op [OF k'] mkExtract_typed sem_extract_def num.simps take_bit_take_bit min.idem)
  have typed: "typeOf (App k' ?cs) = Some T" using ac cs(1,6) w by (simp only: typeOf_ac) simp
  from mkSortedNode_equiv [OF this k', of nid] obtain m where m: "mkSortedNode nid k' ?cs = Inr m" "equiv m (App k' ?cs)" by blast
  have "eval \<sigma> (App k' ?cs) = eval \<sigma> (App k ts)" if "val_ok \<sigma>" for \<sigma>
    unfolding n ev [rule_format, OF that] eval_ac [OF ac w(2,1) that] fold by (rule refl)
  with m typed show "rewrites_to (rule_apply (ExtractBitwise nid) (App k ts)) T (App k ts)"
    using n by (simp add: ExtractBitwise_def util_defs equiv_def del: eval.simps(5))
qed (auto simp: rule_defs)

lemma ExtractArith_map:
  assumes "ac_kind k" "k = BITVECTOR_PLUS \<or> k = BITVECTOR_MULT" "of_width w cs" "cs \<noteq> []" "high < w"
  shows "typeOf (mkNaryNode k (map (\<lambda>c. mkExtract c high 0) cs)) = Some (BitVectorType (high + 1))"
    "val_ok \<sigma> \<Longrightarrow> eval \<sigma> (mkNaryNode k (map (\<lambda>c. mkExtract c high 0) cs)) = VBV (high + 1) (take_bit (high + 1) (fold_num k \<sigma> cs))"
proof -
  let ?cs = "map (\<lambda>c. mkExtract c high 0) cs"
  have w: "of_width (high + 1) ?cs" "?cs \<noteq> []" using assms by (auto simp: of_width_def)
  show "typeOf (mkNaryNode k ?cs) = Some (BitVectorType (high + 1))" using mkNaryNode_ac [OF assms(1) w(2,1)] by blast
  have "take_bit (high + 1) (fold_num k \<sigma> ?cs) = take_bit (high + 1) (id (fold_num k \<sigma> cs))"
    by (rule fold_num_map [OF assms(1)])
      (simp_all only: id_apply mkExtract_typed num.simps sem_extract_def drop_bit_0 diff_zero take_bit_take_bit min.idem)
  then show "val_ok \<sigma> \<Longrightarrow> eval \<sigma> (mkNaryNode k ?cs) = VBV (high + 1) (take_bit (high + 1) (fold_num k \<sigma> cs))"
    using mkNaryNode_ac(2) [OF assms(1) w(2,1)] by simp
qed

lemma ExtractArith_sound: "sound_rule ExtractArith" "sound_rule ExtractArith2"
proof -
  have *: "rewrites_to (Inr (mkExtract (mkNaryNode k' (map (\<lambda>c. mkExtract c high 0) cs)) high low)) T (App k ts) \<and>
     (low = 0 \<longrightarrow> rewrites_to (Inr (mkNaryNode k' (map (\<lambda>c. mkExtract c high low) cs))) T (App k ts))"
    if "typeOf (App k ts) = Some T" "k = BITVECTOR_EXTRACT high low" "ts = [App k' cs]" "k' = BITVECTOR_PLUS \<or> k' = BITVECTOR_MULT" for k ts T k' high low cs
  proof -
    have k': "ac_kind k'" using that(4) by auto
    from extract_ac [OF that(1) [unfolded that(2,3)] k'] obtain w where
      n: "2 \<le> length cs" "cs \<noteq> []" "of_width w cs" "low \<le> high" "high < w" "T = BitVectorType (high - low + 1)"
      and ev: "\<forall>\<sigma>. val_ok \<sigma> \<longrightarrow> eval \<sigma> (App (BITVECTOR_EXTRACT high low) [App k' cs]) =
         VBV (high - low + 1) (take_bit (high - low + 1) (drop_bit low (fold_num k' \<sigma> cs)))" .
    note m = ExtractArith_map [OF k' that(4) n(3,2,5)]
    have lh: "high < high + 1" by simp
    have "eval \<sigma> (mkExtract (mkNaryNode k' (map (\<lambda>c. mkExtract c high 0) cs)) high low) = eval \<sigma> (App k ts)" if "val_ok \<sigma>" for \<sigma>
      unfolding \<open>k = _\<close> \<open>ts = _\<close> mkExtract_typed m(2) [OF that] ev [rule_format, OF that] num.simps extract_trunc [OF n(4) lh] by (rule refl)
    moreover have "eval \<sigma> (mkNaryNode k' (map (\<lambda>c. mkExtract c high 0) cs)) = eval \<sigma> (App k ts)" if "val_ok \<sigma>" "low = 0" for \<sigma>
      unfolding \<open>k = _\<close> \<open>ts = _\<close> m(2) [OF that(1)] ev [rule_format, OF that(1)]
      unfolding that(2) drop_bit_0 diff_zero id_apply by (rule refl)
    ultimately show ?thesis using m(1) n by (auto simp del: eval.simps(5) typeOf.simps(5))
  qed
  show "sound_rule ExtractArith"
  proof (rule sound_kind)
    fix k ts T assume t: "typeOf (App k ts) = Some T" "rule_applies ExtractArith (App k ts)"
    then obtain high k' cs where n: "k = BITVECTOR_EXTRACT high 0" "ts = [App k' cs]" "k' = BITVECTOR_PLUS \<or> k' = BITVECTOR_MULT"
      by (auto simp: ExtractArith_def util_defs getKind_iff)
    from * [OF t(1) n] n show "rewrites_to (rule_apply ExtractArith (App k ts)) T (App k ts)"
      by (simp add: ExtractArith_def util_defs del: eval.simps(5) typeOf.simps(5))
  qed (auto simp: ExtractArith_def)
  show "sound_rule ExtractArith2"
  proof (rule sound_kind)
    fix k ts T assume t: "typeOf (App k ts) = Some T" "rule_applies ExtractArith2 (App k ts)"
    then obtain high low k' cs where n: "k = BITVECTOR_EXTRACT high low" "ts = [App k' cs]" "k' = BITVECTOR_PLUS \<or> k' = BITVECTOR_MULT"
      by (auto simp: ExtractArith2_def util_defs getKind_iff)
    from * [OF t(1) n] n show "rewrites_to (rule_apply ExtractArith2 (App k ts)) T (App k ts)"
      by (simp add: ExtractArith2_def util_defs del: eval.simps(5) typeOf.simps(5))
  qed (auto simp: ExtractArith2_def)
qed

lemma ExtractNot_sound: "sound_rule ExtractNot"
proof (rule sound_kind)
  fix k ts T assume *: "typeOf (App k ts) = Some T" "rule_applies ExtractNot (App k ts)"
  then obtain high low a w where n: "k = BITVECTOR_EXTRACT high low" "ts = [App BITVECTOR_NOT [a]]" "typeOf a = Some (BitVectorType w)"
    "low \<le> high" "high < w" "T = BitVectorType (high - low + 1)"
    by (auto simp: ExtractNot_def getKind_iff isBitVector_iff)
  have "sem_not (high - low + 1) (sem_extract high low x) = sem_extract high low (sem_not w x)" if "0 \<le> x" "x < 2 ^ w" for x
  proof -
    have "sem_not w x = take_bit w (NOT x)" using take_bit_not [of w x] that by (simp add: take_bit_id)
    moreover have "sem_not (high - low + 1) (sem_extract high low x) = take_bit (high - low + 1) (NOT (drop_bit low x))"
      using take_bit_not [of "high - low + 1" "drop_bit low x"] by (simp only: sem_extract_def)
    ultimately show ?thesis
      using n(4,5) by (intro bit_eqI) (auto simp: bit_sem_extract bit_simps simp del: take_bit_Suc)
  qed
  with n show "rewrites_to (rule_apply ExtractNot (App k ts)) T (App k ts)"
    by (simp add: ExtractNot_def util_defs)
qed (auto simp: ExtractNot_def)

lemma bit_sem_sign_extend: "0 < w \<Longrightarrow> bit (sem_sign_extend w m x) i \<longleftrightarrow> i < w + m \<and> bit x (if i < w then i else w - 1)"
  by (cases "i = w - 1"; cases "i < w") (auto simp: sem_sign_extend_def sval_def bit_simps min_def)

lemma ExtractSignExtend_sound: "sound_rule ExtractSignExtend"
proof (rule sound_kind)
  fix k ts T assume *: "typeOf (App k ts) = Some T" "rule_applies ExtractSignExtend (App k ts)"
  then obtain high low m a w where n: "k = BITVECTOR_EXTRACT high low" "ts = [App (BITVECTOR_SIGN_EXTEND m) [a]]" "typeOf a = Some (BitVectorType w)"
    "low \<le> high" "high < m + w" "T = BitVectorType (high - low + 1)" "m + w < 2147483648"
    by (auto simp: ExtractSignExtend_def isBitVector_iff split: if_splits elim!: getKind.elims)
  have w: "getSize a = w" "0 < w" "w < 2147483648" using n(3) getSize_typed typeOf_width by auto
  note ext = bit_sem_sign_extend
  show "rewrites_to (rule_apply ExtractSignExtend (App k ts)) T (App k ts)"
  proof (cases "high < w")
    case True
    have "sem_extract high low x = sem_extract high low (sem_sign_extend w m x)" for x
      using True n(4,5) by (intro bit_eqI) (auto simp: bit_sem_extract ext)
    with True n w show ?thesis by (simp add: ExtractSignExtend_def util_defs)
  next
    case high: False
    show ?thesis
    proof (cases "low < w")
      case True
      have le: "low \<le> w - 1" "high - low < 2147483647" using True n(5,7) by auto
      have s: "w - 1 - low + 1 = w - low" "high - w + 1 + (w - low) = high - low + 1" using high True by auto
      have "sem_sign_extend (w - low) (high - w + 1) (sem_extract (w - 1) low x) = sem_extract high low (sem_sign_extend w m x)" for x
        using True high n(4,5) w
        by (intro bit_eqI) (auto simp: bit_sem_extract ext bit_simps)
      with True high n w s le show ?thesis by (simp add: ExtractSignExtend_def util_defs)
    next
      case False
      let ?b = "mkExtract a (w - 1) (w - 1)"
      have b: "is_bv ?b" "getSize ?b = 1" using n(3) w getSize_typed [of ?b "BitVectorType 1"] by (auto simp: is_bv_def)
      have "sem_extract high low (sem_sign_extend w m x) = (if bit x (w - 1) then mask (high - low + 1) else 0)" for x
        using False n(4,5) w by (intro bit_eqI) (auto simp: bit_sem_extract ext bit_simps simp del: mask_Suc_exp)
      moreover have "cat_value (replicate (high - low + 1) (VBV 1 (sem_extract (w - 1) (w - 1) x))) = (if bit x (w - 1) then mask (high - low + 1) else 0)" for x
        unfolding extract_bit by (rule sign_fill)
      ultimately have "rewrites_to (Inr (mkConcat (replicate (high - low + 1) ?b))) T (App k ts)"
        using b n w by (intro rewrites_to_mkConcat [where w = "high - low + 1"]) (auto simp: sum_list_replicate simp del: replicate.simps(2) mask_Suc_exp)
      then show ?thesis using False high n w by (simp add: ExtractSignExtend_def util_defs Let_def del: replicate.simps(2) rewrites_to_Inr)
    qed
  qed
qed (auto simp: ExtractSignExtend_def)

subsection \<open>Soundness: flattening\<close>

lemma flatten_loop_snoc:
  "flatten_loop k (rest @ [current]) cs =
     (if getKind current = k then flatten_loop k (rest @ children current) cs else flatten_loop k rest (cs @ [current]))"
proof (cases "rest @ [current]")
  case (Cons q qs)
  then have "last (q # qs) = current" "butlast (q # qs) = rest" by (metis last_snoc, metis butlast_snoc)
  then show ?thesis unfolding Cons flatten_loop.simps(2) Let_def by (simp only:)
qed simp

lemma queue_induct [case_names Nil Snoc]:
  assumes "P []"
    "\<And>rest current. P rest \<Longrightarrow> P (rest @ children current) \<Longrightarrow> P (rest @ [current])"
  shows "P queue"
proof (induction "size_list size queue" arbitrary: queue rule: less_induct)
  case less
  show ?case
  proof (cases queue rule: rev_cases)
    case (snoc rest current)
    with less size_children_le [of current] show ?thesis by (auto intro: assms(2))
  qed (simp add: assms(1))
qed

lemma flatten_loop_induct [case_names Nil Snoc]:
  assumes "\<And>cs. P [] cs"
    "\<And>rest current cs. (getKind current = k \<Longrightarrow> P (rest @ children current) cs) \<Longrightarrow>
       (getKind current \<noteq> k \<Longrightarrow> P rest (cs @ [current])) \<Longrightarrow> P (rest @ [current]) cs"
  shows "P queue cs"
  by (induction queue arbitrary: cs rule: queue_induct) (use assms in blast)+

lemma of_width_mset: "mset xs = mset ys \<Longrightarrow> of_width w xs \<longleftrightarrow> of_width w ys"
  unfolding of_width_def by (metis set_mset_mset)

text \<open>A nested node of the same kind may be replaced by its children.\<close>

lemma fold_num_nested:
  assumes "ac_kind k" "typeOf n = Some (BitVectorType w)" "getKind n = k" "val_ok \<sigma>"
  shows "of_width w (children n)" "children n \<noteq> []"
    "take_bit w (fold_num k \<sigma> (children n @ ts)) = take_bit w (fold_num k \<sigma> (n # ts))"
proof -
  from assms(1,3) obtain cs where n: "n = App k cs" by (cases n) (auto simp: ac_kind_def)
  from ac_typedD [OF assms(2) [unfolded n] assms(1)] show cs: "of_width w (children n)" "children n \<noteq> []" by (auto simp: n)
  then have "num (eval \<sigma> n) = take_bit w (fold_num k \<sigma> (children n))"
    using eval_ac [OF assms(1) _ _ assms(4), of cs w] unfolding n children.simps by (simp del: eval.simps(5))
  then show "take_bit w (fold_num k \<sigma> (children n @ ts)) = take_bit w (fold_num k \<sigma> (n # ts))"
    unfolding fold_num_append [OF assms(1)] fold_num_simps using op_trunc(1) [OF assms(1)] by simp
qed

lemma flatten_loop_value:
  assumes "ac_kind k" "val_ok \<sigma>" "of_width w (queue @ cs)" "queue @ cs \<noteq> []"
  shows "of_width w (flatten_loop k queue cs) \<and> flatten_loop k queue cs \<noteq> [] \<and>
    take_bit w (fold_num k \<sigma> (flatten_loop k queue cs)) = take_bit w (fold_num k \<sigma> (queue @ cs))"
  using assms(3,4)
proof (induction queue cs rule: flatten_loop_induct [where k = k])
  case (Snoc rest current cs)
  then have t: "typeOf current = Some (BitVectorType w)" "of_width w (rest @ cs)" by simp_all
  show ?case
  proof (cases "getKind current = k")
    case True
    note nested = fold_num_nested [OF assms(1) t(1) True assms(2)]
    have "take_bit w (fold_num k \<sigma> ((rest @ children current) @ cs)) = take_bit w (fold_num k \<sigma> (children current @ rest @ cs))"
      by (subst fold_num_mset [OF assms(1), of _ "children current @ rest @ cs"]) simp_all
    also have "\<dots> = take_bit w (fold_num k \<sigma> (current # rest @ cs))" by (rule nested(3))
    also have "\<dots> = take_bit w (fold_num k \<sigma> ((rest @ [current]) @ cs))"
      by (subst fold_num_mset [OF assms(1), of _ "current # rest @ cs"]) simp_all
    finally show ?thesis using Snoc(1) [OF True] nested(1,2) t(2) True unfolding flatten_loop_snoc by simp
  next
    case False
    have "fold_num k \<sigma> (rest @ cs @ [current]) = fold_num k \<sigma> ((rest @ [current]) @ cs)"
      by (rule fold_num_mset [OF assms(1)]) simp
    with Snoc(2) [OF False] t False show ?thesis unfolding flatten_loop_snoc by simp
  qed
qed simp

text \<open>No operand of the kind is left, and no operand is lost: the result has at least as many.\<close>

lemma flatten_loop_flat: "\<forall>c\<in>set cs. getKind c \<noteq> k \<Longrightarrow> c \<in> set (flatten_loop k queue cs) \<Longrightarrow> getKind c \<noteq> k"
  by (induction queue cs rule: flatten_loop_induct [where k = k]) (auto simp: flatten_loop_snoc split: if_splits)

lemma flatten_loop_length:
  assumes "ac_kind k" "of_width w (queue @ cs)"
  shows "length queue + length cs \<le> length (flatten_loop k queue cs)"
  using assms(2)
proof (induction queue cs rule: flatten_loop_induct [where k = k])
  case (Snoc rest current cs)
  then have t: "typeOf current = Some (BitVectorType w)" "of_width w (rest @ cs)" by simp_all
  show ?case
  proof (cases "getKind current = k")
    case True
    note nested = fold_num_nested [OF assms(1) t(1) True val_ok_zero]
    from nested(2) have "1 \<le> length (children current)" by (cases "children current") auto
    with Snoc(1) [OF True] nested(1) t(2) True show ?thesis by (simp add: flatten_loop_snoc)
  next
    case False
    with Snoc(2) [OF False] t show ?thesis by (simp add: flatten_loop_snoc)
  qed
qed simp

lemma mkSortedNode_ac:
  assumes "k \<in> {BITVECTOR_AND, BITVECTOR_OR, BITVECTOR_XOR}" "cs \<noteq> []" "of_width w cs"
  shows "\<exists>m. mkSortedNode nid k cs = Inr m \<and> typeOf m = Some (BitVectorType w) \<and>
    (\<forall>\<sigma>. val_ok \<sigma> \<longrightarrow> eval \<sigma> m = VBV w (take_bit w (fold_num k \<sigma> cs)))"
proof -
  have ac: "ac_kind k" using assms(1) by auto
  show ?thesis
  proof (cases "length cs = 1")
    case True
    then obtain c where "cs = [c]" by (cases cs) auto
    with assms ac show ?thesis by (auto simp: mkSortedNode_def op_unit_id)
  next
    case False
    then have "2 \<le> length cs" using assms(2) by (cases cs) (auto simp: Suc_le_eq)
    then have "typeOf (App k cs) = Some (BitVectorType w)" using assms(3) unfolding typeOf_ac [OF ac] by simp
    from mkSortedNode_equiv [OF this assms(1), of nid] this eval_ac [OF ac assms(2,3)]
    show ?thesis unfolding equiv_def by (metis (no_types))
  qed
qed

lemma FlattenAssocCommut_sound: "sound_rule (FlattenAssocCommut nid)"
proof (rule sound_kind)
  fix k ts T assume *: "typeOf (App k ts) = Some T" "rule_applies (FlattenAssocCommut nid) (App k ts)"
  then have k: "ac_kind k" "k = BITVECTOR_PLUS \<or> k = BITVECTOR_MULT \<or> k \<in> {BITVECTOR_AND, BITVECTOR_OR, BITVECTOR_XOR}"
    by (auto simp: rule_defs flat_kind_def ac_kind_def split: if_splits)
  then obtain w where T: "T = BitVectorType w" using *(1) typeOf_ac by blast
  with *(1) have t: "typeOf (App k ts) = Some (BitVectorType w)" by simp
  let ?cs = "flatten_loop k [App k ts] []"
  from ac_typedD [OF t k(1)] have ts: "ts \<noteq> []" "of_width w ts" by auto
  have v: "of_width w ?cs" "?cs \<noteq> []" 
    using flatten_loop_value [OF k(1) val_ok_zero, of w ts "[]"] ts by auto
  have e: "val_ok \<sigma> \<Longrightarrow> take_bit w (fold_num k \<sigma> ?cs) = take_bit w (fold_num k \<sigma> ts)" for \<sigma>
    using flatten_loop_value [OF k(1), of \<sigma> w ts "[]"] ts by auto
  have ev: "val_ok \<sigma> \<Longrightarrow> eval \<sigma> (App k ts) = VBV w (take_bit w (fold_num k \<sigma> ?cs))" for \<sigma>
    using eval_ac [OF k(1) ts] e by simp
  from mkNaryNode_ac [OF k(1) v(2,1)] mkSortedNode_ac [OF _ v(2,1), of k nid] k(2) ev T
  show "rewrites_to (rule_apply (FlattenAssocCommut nid) (App k ts)) T (App k ts)"
    unfolding FlattenAssocCommut_def rule.select_convs getKind.simps Let_def
    by (auto simp: rewrites_to_def simp del: eval.simps(5) flatten_loop.simps)
qed (auto simp: rule_defs flat_kind_def split: if_splits)

lemma flatten_set_loop_snoc:
  "flatten_set_loop k (rest @ [current]) processed cs =
     (if current \<in> set processed then flatten_set_loop k rest processed cs
      else if getKind current = k then flatten_set_loop k (rest @ children current) (current # processed) cs
      else flatten_set_loop k rest (current # processed) (cs @ [current]))"
proof (cases "rest @ [current]")
  case (Cons q qs)
  then have "last (q # qs) = current" "butlast (q # qs) = rest" by (metis last_snoc, metis butlast_snoc)
  then show ?thesis unfolding Cons flatten_set_loop.simps(2) Let_def by (simp only:)
qed simp

text \<open>
  The terms seen are accounted for: a term of the kind by its children, which are seen or still in
  the queue, any other term by itself, which is collected. A predicate that holds of a term of the
  kind exactly when it holds of its children then holds of all the terms seen when it holds of
  those in the queue and those collected.
\<close>

definition accounted :: "kind \<Rightarrow> node list \<Rightarrow> node list \<Rightarrow> node list \<Rightarrow> bool" where
  "accounted k queue processed cs \<longleftrightarrow> (\<forall>p\<in>set processed.
     if getKind p = k then set (children p) \<subseteq> set processed \<union> set queue else p \<in> set cs)"

lemma accounted_all:
  assumes "accounted k queue processed cs" "\<And>t. t \<in> set processed \<Longrightarrow> getKind t = k \<Longrightarrow> g t \<longleftrightarrow> (\<forall>c\<in>set (children t). g c)"
    "\<forall>t\<in>set queue \<union> set cs. g t"
  shows "p \<in> set processed \<Longrightarrow> g p"
proof (induction "size p" arbitrary: p rule: less_induct)
  case less
  show ?case
  proof (cases "getKind p = k")
    case True
    have "g c" if "c \<in> set (children p)" for c
    proof -
      have "size c < size p" using that by (cases p) (auto simp: less_Suc_eq_le size_list_estimation')
      moreover have "c \<in> set processed \<or> c \<in> set queue"
        using assms(1) [unfolded accounted_def, rule_format, OF less(2)] True that by auto
      ultimately show ?thesis using less(1) assms(3) by auto
    qed
    with assms(2) [OF less(2) True] show ?thesis by blast
  next
    case False
    with assms(1) [unfolded accounted_def, rule_format, OF less(2)] assms(3) show ?thesis by auto
  qed
qed

lemma flatten_set_loop_all:
  assumes g: "\<And>t. P t \<Longrightarrow> getKind t = k \<Longrightarrow> g t \<longleftrightarrow> (\<forall>c\<in>set (children t). g c)"
    and P: "\<And>t c. P t \<Longrightarrow> getKind t = k \<Longrightarrow> c \<in> set (children t) \<Longrightarrow> P c"
    and "accounted k queue processed cs" "\<forall>t\<in>set queue \<union> set processed \<union> set cs. P t"
  shows "(\<forall>c\<in>set (flatten_set_loop k queue processed cs). P c) \<and>
    ((\<forall>c\<in>set (flatten_set_loop k queue processed cs). g c) \<longleftrightarrow> (\<forall>t\<in>set queue \<union> set processed \<union> set cs. g t))"
  using assms(3,4)
proof (induction queue arbitrary: processed cs rule: queue_induct)
  case Nil
  with accounted_all [OF Nil(1), of g] g show ?case by auto
next
  case (Snoc rest current)
  show ?case
  proof (cases "current \<in> set processed")
    case True
    then have "accounted k rest processed cs" using Snoc.prems(1) by (auto simp: accounted_def split: if_splits)
    with Snoc.IH(1) [OF this] Snoc.prems(2) True show ?thesis by (auto simp: flatten_set_loop_snoc)
  next
    case new: False
    have P': "P current" using Snoc.prems(2) by simp
    show ?thesis
    proof (cases "getKind current = k")
      case True
      then have acc: "accounted k (rest @ children current) (current # processed) cs"
        using Snoc.prems(1) by (auto simp: accounted_def split: if_splits)
      have "\<forall>t\<in>set (rest @ children current) \<union> set (current # processed) \<union> set cs. P t"
        using Snoc.prems(2) P [OF P' True] by auto
      note IH = Snoc.IH(2) [OF acc this]
      have "(\<forall>t\<in>set (rest @ children current) \<union> set (current # processed) \<union> set cs. g t) \<longleftrightarrow>
        (\<forall>t\<in>set (rest @ [current]) \<union> set processed \<union> set cs. g t)"
        using g [OF P' True] by auto
      with IH show ?thesis unfolding flatten_set_loop_snoc if_not_P [OF new] if_P [OF True] by argo
    next
      case False
      then have acc: "accounted k rest (current # processed) (cs @ [current])"
        using Snoc.prems(1) by (auto simp: accounted_def split: if_splits)
      have eq: "set rest \<union> set (current # processed) \<union> set (cs @ [current]) = set (rest @ [current]) \<union> set processed \<union> set cs"
        by auto
      from Snoc.IH(1) [OF acc, unfolded eq, OF Snoc.prems(2)]
      show ?thesis unfolding flatten_set_loop_snoc if_not_P [OF new] if_not_P [OF False] .
    qed
  qed
qed

text \<open>A bit of a conjunction or disjunction depends on the set of the operands only.\<close>

lemma bit_fold_set:
  assumes "k = BITVECTOR_AND \<or> k = BITVECTOR_OR"
  shows "bit (fold_num k \<sigma> ts) i = (k = BITVECTOR_AND) \<longleftrightarrow> (\<forall>t\<in>set ts. bit (num (eval \<sigma> t)) i = (k = BITVECTOR_AND))"
  using assms by (induction ts) (auto simp: bit_simps)

lemma fold_num_set_cong:
  assumes "k = BITVECTOR_AND \<or> k = BITVECTOR_OR"
    "\<And>i. i < w \<Longrightarrow> (\<forall>t\<in>set us. bit (num (eval \<sigma> t)) i = (k = BITVECTOR_AND)) \<longleftrightarrow> (\<forall>t\<in>set ts. bit (num (eval \<sigma> t)) i = (k = BITVECTOR_AND))"
  shows "take_bit w (fold_num k \<sigma> us) = take_bit w (fold_num k \<sigma> ts)"
proof (rule bit_eqI)
  fix i
  show "bit (take_bit w (fold_num k \<sigma> us)) i = bit (take_bit w (fold_num k \<sigma> ts)) i"
    using assms(2) [of i] bit_fold_set [OF assms(1), of \<sigma> us i] bit_fold_set [OF assms(1), of \<sigma> ts i]
    unfolding bit_take_bit_iff by argo
qed

lemma bit_nested:
  assumes "k = BITVECTOR_AND \<or> k = BITVECTOR_OR" "typeOf t = Some (BitVectorType w)" "getKind t = k" "val_ok \<sigma>" "i < w"
  shows "bit (num (eval \<sigma> t)) i = (k = BITVECTOR_AND) \<longleftrightarrow> (\<forall>c\<in>set (children t). bit (num (eval \<sigma> c)) i = (k = BITVECTOR_AND))"
proof -
  have ac: "ac_kind k" using assms(1) by auto
  from assms(1,3) obtain cs where t: "t = App k cs" by (cases t) auto
  from ac_typedD [OF assms(2) [unfolded t] ac] have "cs \<noteq> []" "of_width w cs" by auto
  from eval_ac [OF ac this assms(4)] bit_fold_set [OF assms(1), of \<sigma> cs i] assms(5)
  show ?thesis unfolding t children.simps by (simp add: bit_take_bit_iff del: eval.simps(5))
qed

lemma FlattenAssocCommutNoDuplicates_sound: "sound_rule (FlattenAssocCommutNoDuplicates nid)"
proof (rule sound_kind)
  fix k ts T assume *: "typeOf (App k ts) = Some T" "rule_applies (FlattenAssocCommutNoDuplicates nid) (App k ts)"
  then have k: "ac_kind k" "k = BITVECTOR_AND \<or> k = BITVECTOR_OR" "k \<in> {BITVECTOR_AND, BITVECTOR_OR, BITVECTOR_XOR}"
    by (auto simp: rule_defs ac_kind_def split: if_splits)
  then obtain w where T: "T = BitVectorType w" using *(1) typeOf_ac by blast
  with *(1) have t: "typeOf (App k ts) = Some (BitVectorType w)" by simp
  let ?cs = "flatten_set_loop k [App k ts] [] []"
  let ?P = "\<lambda>t. typeOf t = Some (BitVectorType w)"
  from ac_typedD [OF t k(1)] have ts: "ts \<noteq> []" "of_width w ts" by auto
  have P: "?P c" if "?P t" "getKind t = k" "c \<in> set (children t)" for t c
    using fold_num_nested(1) [OF k(1) that(1,2) val_ok_zero] that(3) by (simp add: of_width_def)
  have ne: "\<not> False \<longleftrightarrow> \<not> (\<forall>c\<in>set (children t). False)" if "?P t" "getKind t = k" for t
    using fold_num_nested(2) [OF k(1) that val_ok_zero] by auto
  have acc: "accounted k [App k ts] [] []" by (simp add: accounted_def)
  have Pn: "\<forall>t\<in>set [App k ts] \<union> set [] \<union> set []. ?P t" using t by simp
  have v: "of_width w ?cs" "?cs \<noteq> []"
  proof -
    have "False \<longleftrightarrow> (\<forall>c\<in>set (children t). False)" if "?P t" "getKind t = k" for t using ne [OF that] by simp
    note l = flatten_set_loop_all [of ?P k "\<lambda>t. False", OF this P acc Pn]
    show "of_width w ?cs" unfolding of_width_def by (rule conjunct1 [OF l])
    show "?cs \<noteq> []" using conjunct2 [OF l] by (simp del: flatten_set_loop.simps)
  qed
  have ev: "eval \<sigma> (App k ts) = VBV w (take_bit w (fold_num k \<sigma> ?cs))" if "val_ok \<sigma>" for \<sigma>
  proof -
    have "take_bit w (fold_num k \<sigma> ?cs) = take_bit w (fold_num k \<sigma> ts)"
    proof (rule fold_num_set_cong [OF k(2)])
      fix i assume i: "i < w"
      let ?g = "\<lambda>t. bit (num (eval \<sigma> t)) i = (k = BITVECTOR_AND)"
      have "?g t \<longleftrightarrow> (\<forall>c\<in>set (children t). ?g c)" if "?P t" "getKind t = k" for t
        by (rule bit_nested [OF k(2) that \<open>val_ok \<sigma>\<close> i])
      note conjunct2 [OF flatten_set_loop_all [of ?P k ?g, OF this P acc Pn]]
      moreover have "?g (App k ts) \<longleftrightarrow> (\<forall>t\<in>set ts. ?g t)"
        using bit_nested [OF k(2) t _ that i] unfolding getKind.simps children.simps by blast
      ultimately show "(\<forall>t\<in>set ?cs. ?g t) \<longleftrightarrow> (\<forall>t\<in>set ts. ?g t)"
        unfolding list.set Un_empty_right by simp
    qed
    with eval_ac [OF k(1) ts that] show ?thesis by simp
  qed
  from mkSortedNode_ac [OF k(3) v(2,1), of nid] ev T
  show "rewrites_to (rule_apply (FlattenAssocCommutNoDuplicates nid) (App k ts)) T (App k ts)"
    unfolding FlattenAssocCommutNoDuplicates_def rule.select_convs getKind.simps
    by (auto simp: rewrites_to_def simp del: eval.simps(5) flatten_set_loop.simps)
qed (auto simp: rule_defs split: if_splits)

text \<open>The terms collected are pairwise different.\<close>

lemma flatten_set_loop_distinct:
  "set cs \<subseteq> set processed \<Longrightarrow> distinct cs \<Longrightarrow> distinct (flatten_set_loop k queue processed cs)"
proof (induction queue arbitrary: processed cs rule: queue_induct)
  case (Snoc rest current)
  have "set cs \<subseteq> set (current # processed)" "set (cs @ [current]) \<subseteq> set (current # processed)" using Snoc.prems by auto
  moreover have "current \<notin> set processed \<Longrightarrow> distinct (cs @ [current])" using Snoc.prems by auto
  ultimately show ?case using Snoc by (simp add: flatten_set_loop_snoc)
qed simp

lemma flatten_set_loop_flat: "\<forall>c\<in>set cs. getKind c \<noteq> k \<Longrightarrow> c \<in> set (flatten_set_loop k queue processed cs) \<Longrightarrow> getKind c \<noteq> k"
proof (induction queue arbitrary: processed cs rule: queue_induct)
  case (Snoc rest current)
  have "getKind current \<noteq> k \<Longrightarrow> \<forall>c\<in>set (cs @ [current]). getKind c \<noteq> k" using Snoc.prems(1) by auto
  with Snoc.IH(1) [of cs processed] Snoc.IH(1) [of "cs @ [current]" "current # processed"] Snoc.IH(2) [of cs "current # processed"] Snoc.prems
  show ?case unfolding flatten_set_loop_snoc by (cases "current \<in> set processed"; cases "getKind current = k") simp_all
qed simp

end
