(* ===== verification/Rules_Normalize_Mult.thy ===== *)
theory Rules_Normalize_Mult
  imports Rules_Normalize Rules_Simplify_Ext
begin

section \<open>Normalization rules: distribution, negation, slices by a constant\<close>

text \<open>
  \<open>theory/bv/theory_bv_rewrite_rules_normalization.h\<close>, second part: products distributed over sums,
  negations pushed down, equalities of one bit, bit-wise operators cut along the runs of a constant,
  and negated summands moved across an equality. The \<open>Assert\<close> in \<open>MultDistribConst::applies\<close>, that the first factor is no constant, stands
  where the function returns false for a constant anyway.
\<close>

unbundle bit_operations_syntax

subsection \<open>Distribution and negation\<close>

definition MultDistribConst :: rule where
  [rule_defs]: "MultDistribConst = \<lparr>
    rule_applies = (\<lambda>node.
      if getKind node \<noteq> BITVECTOR_MULT \<or> getNumChildren node \<noteq> 2 then False
      else if \<not> isConst (child node 1) then False
      else
        let factor = child node 0
        in getKind factor = BITVECTOR_PLUS \<or> getKind factor = BITVECTOR_SUB \<or> getKind factor = BITVECTOR_NEG),
    rule_apply = (\<lambda>node.
      let constant = child node 1; factor = child node 0
      in Assert (getKind constant = CONST_BITVECTOR)
        (if getKind factor = BITVECTOR_NEG
         then and_then (bv_neg (getConstBV constant)) (\<lambda>const_bv.
           Inr (App BITVECTOR_MULT [child factor 0, mkConstBV const_bv]))
         else
           let cs = map (\<lambda>f. App BITVECTOR_MULT [f, constant]) (children factor)
           in Inr (mkNaryNode (getKind factor) cs)))\<rparr>"

definition is_sum :: "node \<Rightarrow> bool" where
  "is_sum n \<longleftrightarrow> getKind n = BITVECTOR_PLUS \<or> getKind n = BITVECTOR_SUB"

definition MultDistrib :: rule where
  [rule_defs]: "MultDistrib = \<lparr>
    rule_applies = (\<lambda>node.
      if getKind node \<noteq> BITVECTOR_MULT \<or> getNumChildren node \<noteq> 2 then False
      else if is_sum (child node 0) then \<not> is_sum (child node 1)
      else is_sum (child node 1)),
    rule_apply = (\<lambda>node.
      let is_rhs_factor = is_sum (child node 0);
          factor = (if \<not> is_rhs_factor then child node 0 else child node 1);
          sum = (if is_rhs_factor then child node 0 else child node 1)
      in Assert (\<not> is_sum factor \<and> is_sum sum)
        (let cs = map (\<lambda>s. App BITVECTOR_MULT [s, factor]) (children sum)
         in Inr (mkNaryNode (getKind sum) cs)))\<rparr>"

definition ConcatToMult :: rule where
  [rule_defs]: "ConcatToMult = \<lparr>
    rule_applies = (\<lambda>node.
      if getKind node \<noteq> BITVECTOR_CONCAT then False
      else if getNumChildren node \<noteq> 2 then False
      else if \<not> is_EXTRACT (getKind (child node 0)) then False
      else if \<not> isConst (child node 1) then False
      else
        let extract = child node 0; c = child node 1; amount = getSize c
        in if getSize node \<noteq> getSize (child extract 0) then False
           else if c \<noteq> mkZero amount then False
           else if getExtractLow extract \<noteq> 0 then False
           else if getExtractHigh extract + amount + 1 \<noteq> getSize node then False
           else True),
    rule_apply = (\<lambda>node.
      let sz = getSize node; factor = child (child node 0) 0
      in Assert (getSize factor = getSize node)
        (let amount = mkBitVector sz (int (getSize (child node 1)))
         in and_then (leftShift (mkBitVector sz 1) amount) (\<lambda>b.
           Inr (App BITVECTOR_MULT [factor, mkConstBV b]))))\<rparr>"

text \<open>\<open>NegMult\<close> tests the last child of the negation, which is the product itself, where the last factor
  is meant.\<close>

definition NegMult :: rule where
  [rule_defs]: "NegMult = \<lparr>
    rule_applies = (\<lambda>node.
      if getKind node \<noteq> BITVECTOR_NEG \<or> getKind (child node 0) \<noteq> BITVECTOR_MULT then False
      else isConst (child node (getNumChildren node - 1))),
    rule_apply = (\<lambda>node.
      let mult = child node 0; last_child = last (children mult)
      in Assert (isConst last_child)
        (and_then (bv_neg (getConstBV last_child)) (\<lambda>bv.
          Inr (App BITVECTOR_MULT (butlast (children mult) @ [mkConstBV bv])))))\<rparr>"

definition NegSub :: rule where
  [rule_defs]: "NegSub = \<lparr>
    rule_applies = (\<lambda>node. getKind node = BITVECTOR_NEG \<and> getKind (child node 0) = BITVECTOR_SUB),
    rule_apply = (\<lambda>node. Inr (App BITVECTOR_SUB [child (child node 0) 1, child (child node 0) 0]))\<rparr>"

definition NegPlus :: rule where
  [rule_defs]: "NegPlus = \<lparr>
    rule_applies = (\<lambda>node. getKind node = BITVECTOR_NEG \<and> getKind (child node 0) = BITVECTOR_PLUS),
    rule_apply = (\<lambda>node.
      let cs = map (\<lambda>c. App BITVECTOR_NEG [c]) (children (child node 0))
      in Inr (mkNaryNode BITVECTOR_PLUS cs))\<rparr>"

subsection \<open>Equalities of one bit and slices by a constant\<close>

text \<open>The constant operand and the other one.\<close>

definition bitwise_eq_operands :: "node \<Rightarrow> (BitVector \<times> node) option" where
  "bitwise_eq_operands node =
     (if getKind (child node 0) = CONST_BITVECTOR then Some (getConstBV (child node 0), child node 1)
      else if getKind (child node 1) = CONST_BITVECTOR then Some (getConstBV (child node 1), child node 0)
      else None)"

definition mkNodeKind :: "kind \<Rightarrow> node \<Rightarrow> node \<Rightarrow> node" where
  "mkNodeKind k node c = App k (map (\<lambda>x. App EQUAL [x, c]) (children node))"

definition BitwiseEq :: rule where
  [rule_defs]: "BitwiseEq = \<lparr>
    rule_applies = (\<lambda>node.
      if getKind node \<noteq> EQUAL \<or> getSize (child node 0) \<noteq> 1 then False
      else case bitwise_eq_operands node of
        None \<Rightarrow> False
      | Some (c, t) \<Rightarrow> getKind t \<in> {BITVECTOR_AND, BITVECTOR_OR, BITVECTOR_NOT, BITVECTOR_NAND, BITVECTOR_NOR,
          BITVECTOR_COMP, BITVECTOR_NEG}),
    rule_apply = (\<lambda>node.
      case bitwise_eq_operands node of
        None \<Rightarrow> Inl UnreachableCode
      | Some (c, t) \<Rightarrow>
          let eqOne = bv_eq c (mkBitVector 1 1); k = getKind t
          in if k = BITVECTOR_AND then
               Inr (if eqOne then mkNodeKind AND_K t (mkConst 1 1) else mkNodeKind OR_K t (mkConst 1 0))
             else if k = BITVECTOR_NAND then
               Inr (if eqOne then mkNodeKind OR_K t (mkConst 1 0) else mkNodeKind AND_K t (mkConst 1 1))
             else if k = BITVECTOR_OR then
               Inr (if eqOne then mkNodeKind OR_K t (mkConst 1 1) else mkNodeKind AND_K t (mkConst 1 0))
             else if k = BITVECTOR_NOR then
               Inr (if eqOne then mkNodeKind AND_K t (mkConst 1 0) else mkNodeKind OR_K t (mkConst 1 1))
             else if k = BITVECTOR_NOT then
               Inr (App EQUAL [child t 0, mkConstBV (bv_not c)])
             else if k = BITVECTOR_COMP then
               Assert (getNumChildren t = 2)
                 (Inr (if eqOne then App EQUAL [child t 0, child t 1] else App NOT_K [App EQUAL [child t 0, child t 1]]))
             else if k = BITVECTOR_NEG then
               Inr (App EQUAL [child t 0, mkConstBV c])
             else Inl UnreachableCode)\<rparr>"

definition bitwise_kind :: "kind \<Rightarrow> bool" where
  "bitwise_kind k \<longleftrightarrow> k = BITVECTOR_AND \<or> k = BITVECTOR_OR \<or> k = BITVECTOR_XOR"

text \<open>The first constant child and the other children.\<close>

fun split_constant :: "node list \<Rightarrow> node option \<Rightarrow> node list \<Rightarrow> node option \<times> node list" where
  "split_constant [] constant others = (constant, others)"
| "split_constant (n # ns) constant others =
     (if getKind n = CONST_BITVECTOR \<and> constant = None then split_constant ns (Some n) others
      else split_constant ns constant (others @ [n]))"

text \<open>The loop over the bits of the constant; the next index is one less than the number of rounds to go.\<close>

fun BitwiseSlicing_loop :: "kind \<Rightarrow> BitVector \<Rightarrow> node \<Rightarrow> node \<Rightarrow> nat \<Rightarrow> nat \<Rightarrow> nat \<Rightarrow> node list \<Rightarrow> node list result" where
  "BitwiseSlicing_loop k bv constant other 0 start stop acc = Inr acc"
| "BitwiseSlicing_loop k bv constant other (Suc i) start stop acc =
     and_then (bv_isBitSet bv (i + 1)) (\<lambda>b1. and_then (bv_isBitSet bv i) (\<lambda>b0.
       let slice = (\<lambda>hi lo. App k [mkExtract constant hi lo, mkExtract other hi lo]);
           (start, stop, acc) = (if b1 \<noteq> b0 then (i, i, acc @ [slice stop start]) else (start - 1, stop, acc));
           acc = (if i = 0 then acc @ [slice stop 0] else acc)
       in BitwiseSlicing_loop k bv constant other i start stop acc))"

definition BitwiseSlicing :: rule where
  [rule_defs]: "BitwiseSlicing = \<lparr>
    rule_applies = (\<lambda>node.
      if \<not> bitwise_kind (getKind node) \<or> getSize node = 1 then False
      else case find (\<lambda>n. getKind n = CONST_BITVECTOR) (children node) of
        None \<Rightarrow> False
      | Some c \<Rightarrow>
          let constant = getConstBV c
          in if bv_eq constant (mkBitVector (getSize node) 0) then False
             else \<exists>j \<in> set [0..<d_size constant]. bv_isBitSet constant j = Inr False),
    rule_apply = (\<lambda>node.
      case split_constant (children node) None [] of
        (None, others) \<Rightarrow> Inl AssertionFailure
      | (Some constant, others) \<Rightarrow>
          Assert (length others = getNumChildren node - 1)
            (let other = mkNaryNode (getKind node) others;
                 bv_constant = getConstBV constant;
                 start = d_size bv_constant - 1
             in and_then (BitwiseSlicing_loop (getKind node) bv_constant constant other start start start [])
                  (\<lambda>concat_children. Inr (mkConcat concat_children))))\<rparr>"

text \<open>The summands of one side: those negated go, without the negation, to the other side.\<close>

definition plus_sides :: "node \<Rightarrow> node list \<times> node list" where
  "plus_sides n = (if getKind n = BITVECTOR_PLUS
     then (filter (\<lambda>c. getKind c \<noteq> BITVECTOR_NEG) (children n),
           map (\<lambda>c. child c 0) (filter (\<lambda>c. getKind c = BITVECTOR_NEG) (children n)))
     else ([n], []))"

definition side_node :: "node \<Rightarrow> node list \<Rightarrow> node" where
  "side_node zero nb = (if nb = [] then zero else if length nb = 1 then nb ! 0 else App BITVECTOR_PLUS nb)"

definition NormalizeEqPlusNeg :: rule where
  [rule_defs]: "NormalizeEqPlusNeg = \<lparr>
    rule_applies = (\<lambda>node. getKind node = EQUAL \<and>
      (getKind (child node 0) = BITVECTOR_PLUS \<or> getKind (child node 1) = BITVECTOR_PLUS)),
    rule_apply = (\<lambda>node.
      let (nb_lhs, nb_rhs) = plus_sides (child node 0);
          (nb_rhs', nb_lhs') = plus_sides (child node 1);
          zero = mkZero (getSize (child node 0));
          lhs = side_node zero (nb_lhs @ nb_lhs');
          rhs = side_node zero (nb_rhs @ nb_rhs')
      in Inr (App (getKind node) [lhs, rhs]))\<rparr>"

subsection \<open>Soundness: distribution and negation\<close>

lemma distrib_sum:
  assumes "is_sum s" "typeOf s = Some (BitVectorType w)" "typeOf f = Some (BitVectorType w)"
  defines "n \<equiv> mkNaryNode (getKind s) (map (\<lambda>x. App BITVECTOR_MULT [x, f]) (children s))"
  shows "typeOf n = Some (BitVectorType w)"
    "val_ok \<sigma> \<Longrightarrow> eval \<sigma> n = VBV w (take_bit w (num (eval \<sigma> s) * num (eval \<sigma> f)))"
proof -
  let ?cs = "\<lambda>xs. map (\<lambda>x. App BITVECTOR_MULT [x, f]) xs"
  have "typeOf n = Some (BitVectorType w) \<and> (\<forall>\<sigma>. val_ok \<sigma> \<longrightarrow> eval \<sigma> n = VBV w (take_bit w (num (eval \<sigma> s) * num (eval \<sigma> f))))"
  proof (cases "getKind s = BITVECTOR_PLUS")
    case True
    then obtain xs where s: "s = App BITVECTOR_PLUS xs" by (auto simp: getKind_iff)
    from ac_typedD [OF assms(2) [unfolded s]] have xs: "xs \<noteq> []" "of_width w xs" by auto
    have cs: "?cs xs \<noteq> []" "of_width w (?cs xs)" using xs assms(3) by (auto simp: of_width_def isBitVector_iff)
    have n: "n = mkNaryNode BITVECTOR_PLUS (?cs xs)" by (simp add: n_def s)
    have "take_bit w (fold_num BITVECTOR_PLUS \<sigma> (?cs xs)) = take_bit w (num (eval \<sigma> s) * num (eval \<sigma> f))" if "val_ok \<sigma>" for \<sigma>
    proof -
      have t: "take_bit w (num (eval \<sigma> (App BITVECTOR_MULT [x, f]))) = take_bit w (num (eval \<sigma> x) * num (eval \<sigma> f))" if "x \<in> set xs" for x
        using that xs(2) assms(3) \<open>val_ok \<sigma>\<close> by (simp add: of_width_def)
      have "take_bit w (fold_num BITVECTOR_PLUS \<sigma> (?cs xs)) = take_bit w (fold_num BITVECTOR_PLUS \<sigma> xs * num (eval \<sigma> f))"
        by (rule fold_num_map [where g = "\<lambda>x. x * num (eval \<sigma> f)"]) (simp_all only: ac_kind_simps op_fun.simps distrib_right op_unit_simps mult_zero_left t)
      then show ?thesis using eval_ac [of BITVECTOR_PLUS xs w \<sigma>] xs that unfolding s by (simp add: mult_op.trunc del: eval.simps(5))
    qed
    with mkNaryNode_ac [OF _ cs, of BITVECTOR_PLUS] show ?thesis by (simp add: n)
  next
    case False
    with assms(1) have "getKind s = BITVECTOR_SUB" by (simp add: is_sum_def)
    then obtain xs where "s = App BITVECTOR_SUB xs" by (auto simp: getKind_iff)
    with assms(2) obtain a b where s: "s = App BITVECTOR_SUB [a, b]" "typeOf a = Some (BitVectorType w)" "typeOf b = Some (BitVectorType w)"
      by (auto simp: length_Suc_conv numeral_2_eq_2 isBitVector_iff)
    have eq: "sem_sub w (take_bit w (x * z)) (take_bit w (y * z)) = take_bit w (sem_sub w x y * z)" for x y z
      by (simp add: sem_sub_def take_bit_diff mult_op.trunc left_diff_distrib)
    from s assms(3) show ?thesis by (simp add: n_def mkNaryNode_def eq)
  qed
  then show "typeOf n = Some (BitVectorType w)"
    "val_ok \<sigma> \<Longrightarrow> eval \<sigma> n = VBV w (take_bit w (num (eval \<sigma> s) * num (eval \<sigma> f)))" by blast+
qed

lemma mult_2: "typeOf a = Some (BitVectorType w) \<Longrightarrow> typeOf b = Some (BitVectorType w) \<Longrightarrow> val_ok \<sigma> \<Longrightarrow>
  eval \<sigma> (App BITVECTOR_MULT [a, b]) = VBV w (take_bit w (num (eval \<sigma> a) * num (eval \<sigma> b)))"
  by simp

lemma mult_binary:
  assumes "typeOf (App k ts) = Some T" "k = BITVECTOR_MULT" "getNumChildren (App k ts) = 2"
  obtains a b w where "ts = [a, b]" "T = BitVectorType w" "typeOf a = Some (BitVectorType w)" "typeOf b = Some (BitVectorType w)"
  using assms by (auto simp: getNumChildren_def length_Suc_conv numeral_2_eq_2 isBitVector_iff)

lemma MultDistrib_sound: "sound_rule MultDistrib"
proof (rule sound_kind)
  fix k ts T assume *: "typeOf (App k ts) = Some T" "rule_applies MultDistrib (App k ts)"
  then have k: "k = BITVECTOR_MULT" "getNumChildren (App k ts) = 2" by (auto simp: rule_defs split: if_splits)
  from mult_binary [OF *(1) k] obtain a b w where n: "ts = [a, b]" "T = BitVectorType w" 
    "typeOf a = Some (BitVectorType w)" "typeOf b = Some (BitVectorType w)" .
  show "rewrites_to (rule_apply MultDistrib (App k ts)) T (App k ts)"
  proof (cases "is_sum a")
    case True
    with *(2) have "\<not> is_sum b" by (simp add: rule_defs n split: if_splits)
    with True distrib_sum [OF True n(3,4)] mult_2 [OF n(3,4)] n k(1) show ?thesis
      by (simp add: MultDistrib_def Let_def del: eval.simps(5))
  next
    case False
    with *(2) have "is_sum b" by (simp add: rule_defs n split: if_splits)
    with False distrib_sum [OF _ n(4,3)] mult_2 [OF n(3,4)] n k(1) show ?thesis
      by (simp add: MultDistrib_def Let_def mult.commute del: eval.simps(5))
  qed
qed (auto simp: rule_defs split: if_splits)

lemma MultDistribConst_sound: "sound_rule MultDistribConst"
proof (rule sound_kind)
  fix k ts T assume *: "typeOf (App k ts) = Some T" "rule_applies MultDistribConst (App k ts)"
  then have k: "k = BITVECTOR_MULT" "getNumChildren (App k ts) = 2" by (auto simp: rule_defs split: if_splits)
  from mult_binary [OF *(1) k] obtain f c w where n: "ts = [f, c]" "T = BitVectorType w" 
    "typeOf f = Some (BitVectorType w)" "typeOf c = Some (BitVectorType w)" .
  from *(2) n(1) have kf: "is_sum f \<or> getKind f = BITVECTOR_NEG" and c: "isConst c"
    by (auto simp: rule_defs is_sum_def Let_def split: if_splits)
  from isConst_bv [OF c n(4)] obtain d where d: "c = ConstBV d" "bv_ok d" "d_size d = w" by blast
  show "rewrites_to (rule_apply MultDistribConst (App k ts)) T (App k ts)"
  proof (cases "is_sum f")
    case True
    then have "getKind f \<noteq> BITVECTOR_NEG" by (auto simp: is_sum_def)
    with distrib_sum [OF True n(3,4)] mult_2 [OF n(3,4)] n k(1) d(1) show ?thesis
      by (simp add: MultDistribConst_def Let_def del: eval.simps(5))
  next
    case False
    with kf n(3) obtain x where x: "f = App BITVECTOR_NEG [x]" "typeOf x = Some (BitVectorType w)"
      by (auto simp: getKind_iff isBitVector_iff)
    have w: "w < 2147483648" "0 < w" using typeOf_width [OF n(3)] by auto
    have eq: "take_bit w (y * sem_neg w z) = take_bit w (sem_neg w y * z)" for y z
      unfolding sem_neg_def mult_op.trunc mult_op.trunc_right by simp
    have "typeOf (mkConstBV \<lparr>d_size = w, d_value = sem_neg w (d_value d)\<rparr>) = Some (BitVectorType w)"
      "eval \<sigma> (mkConstBV \<lparr>d_size = w, d_value = sem_neg w (d_value d)\<rparr>) = VBV w (sem_neg w (d_value d))" for \<sigma>
      using w by (simp_all add: mkConstBV_def bv_ok_def sem_ranges)
    with x n k(1) d w show ?thesis
      by (simp add: MultDistribConst_def bv_neg_sem getConstBV.simps eq)
  qed
qed (auto simp: rule_defs split: if_splits)

lemma NegSub_sound: "sound_rule NegSub"
proof (rule sound_kind)
  fix k ts T assume *: "typeOf (App k ts) = Some T" "rule_applies NegSub (App k ts)"
  then obtain a b w where n: "k = BITVECTOR_NEG" "ts = [App BITVECTOR_SUB [a, b]]" "T = BitVectorType w"
    "typeOf a = Some (BitVectorType w)" "typeOf b = Some (BitVectorType w)"
    by (auto simp: rule_defs getKind_iff isBitVector_iff length_Suc_conv numeral_2_eq_2)
  have "sem_neg w (sem_sub w x y) = sem_sub w y x" for x y
    unfolding sem_neg_def sem_sub_def take_bit_minus by simp
  with n show "rewrites_to (rule_apply NegSub (App k ts)) T (App k ts)" by (simp add: NegSub_def)
qed (auto simp: rule_defs)

lemma NegPlus_sound: "sound_rule NegPlus"
proof (rule sound_kind)
  fix k ts T assume *: "typeOf (App k ts) = Some T" "rule_applies NegPlus (App k ts)"
  then obtain xs w where n: "k = BITVECTOR_NEG" "ts = [App BITVECTOR_PLUS xs]" "T = BitVectorType w"
    and t: "typeOf (App BITVECTOR_PLUS xs) = Some (BitVectorType w)"
    by (auto simp: rule_defs getKind_iff isBitVector_iff)
  from ac_typedD [OF t] have xs: "xs \<noteq> []" "of_width w xs" by auto
  let ?cs = "map (\<lambda>c. App BITVECTOR_NEG [c]) xs"
  have cs: "?cs \<noteq> []" "of_width w ?cs" using xs by (auto simp: of_width_def isBitVector_iff)
  have "take_bit w (fold_num BITVECTOR_PLUS \<sigma> ?cs) = sem_neg w (num (eval \<sigma> (App BITVECTOR_PLUS xs)))" if "val_ok \<sigma>" for \<sigma>
  proof -
    have "take_bit w (fold_num BITVECTOR_PLUS \<sigma> ?cs) = take_bit w (- fold_num BITVECTOR_PLUS \<sigma> xs)"
      by (rule fold_num_map) (use xs that in \<open>auto simp: of_width_def sem_neg_def\<close>)
    then show ?thesis using eval_ac [of BITVECTOR_PLUS xs w \<sigma>] xs that by (simp add: sem_neg_def take_bit_minus del: eval.simps(5))
  qed
  moreover have "eval \<sigma> (App BITVECTOR_NEG [App BITVECTOR_PLUS xs]) = VBV w (sem_neg w (num (eval \<sigma> (App BITVECTOR_PLUS xs))))" if "val_ok \<sigma>" for \<sigma>
    using eval_bv(1) [OF t that] by (simp add: eval.simps(5) [of \<sigma> BITVECTOR_NEG] del: eval.simps(5))
  ultimately show "rewrites_to (rule_apply NegPlus (App k ts)) T (App k ts)"
    using mkNaryNode_ac [OF _ cs, of BITVECTOR_PLUS] by (simp add: NegPlus_def n del: eval.simps(5))
qed (auto simp: rule_defs)

text \<open>The test of \<open>NegMult\<close> never succeeds on a typed node.\<close>

lemma NegMult_dead: "typeOf n = Some T \<Longrightarrow> \<not> rule_applies NegMult n"
  by (cases n) (auto simp: NegMult_def getKind_iff getNumChildren_def isBitVector_iff split: if_splits)

lemma ConcatToMult_sound: "sound_rule ConcatToMult"
proof (rule sound_kind)
  fix k ts T assume *: "typeOf (App k ts) = Some T" "rule_applies ConcatToMult (App k ts)"
  then have k: "k = BITVECTOR_CONCAT" "length ts = 2" "is_EXTRACT (getKind (ts ! 0))" "isConst (ts ! 1)"
    unfolding ConcatToMult_def rule.select_convs by (auto simp: getNumChildren_def split: if_splits)
  from k(2) obtain e c where ec: "ts = [e, c]" by (auto simp: length_Suc_conv numeral_2_eq_2)
  with k(1,3) *(1) obtain high low x w m where e: "e = App (BITVECTOR_EXTRACT high low) [x]" "typeOf x = Some (BitVectorType w)"
    "low \<le> high" "high < w" and c: "typeOf c = Some (BitVectorType m)" and T: "T = BitVectorType (high - low + 1 + m)"
    by (auto simp: is_bv_def elim!: getKind.elims)
  have s: "getSize x = w" "getSize c = m" "getSize (App k ts) = high - low + 1 + m"
    using getSize_typed [OF e(2)] getSize_typed [OF c] getSize_typed [OF *(1)] T by simp_all
  from *(2) have r: "low = 0" "w = high + m + 1" "c = mkZero m"
    unfolding ConcatToMult_def rule.select_convs using k(1) ec e(1) s by (auto simp: util_defs Let_def split: if_splits)
  have w: "w < 2147483648" "0 < w" "0 < m" "m < w" "m < 2147483648" using typeOf_width [OF e(2)] typeOf_width [OF c] r(2) by auto
  have lt: "int m < 2 ^ w" using w(4) less_exp [of w] by (metis less_trans of_nat_less_numeral_power_cancel_iff)
  have shl: "leftShift (mkBitVector w 1) (mkBitVector w (int m)) = Inr \<lparr>d_size = w, d_value = 2 ^ m\<rparr>"
    using leftShift_sem [OF bv_ok_mkBitVector [of w 1] bv_ok_mkBitVector [of w "int m"]] w lt
    by (simp add: mkBitVector_def modByPow2_def sem_shl_def take_bit_id)
  have node: "typeOf (mkConstBV \<lparr>d_size = w, d_value = 2 ^ m\<rparr>) = Some (BitVectorType w)"
    "eval \<sigma> (mkConstBV \<lparr>d_size = w, d_value = 2 ^ m\<rparr>) = VBV w (2 ^ m)" for \<sigma>
    using w by (simp_all add: mkConstBV_def bv_ok_def)
  have eq: "sem_concat (sem_extract high 0 y) m 0 = take_bit w (y * 2 ^ m)" for y
    using take_bit_push_bit [of w m y] by (simp add: sem_concat_def sem_extract_def r(2) push_bit_eq_mult del: take_bit_Suc)
  have sz: "getSize (App BITVECTOR_CONCAT [App (BITVECTOR_EXTRACT high 0) [x], mkZero m]) = w"
    using s(3) r(1,2) k(1) ec e(1) r(3) by simp
  have Tw: "T = BitVectorType w" using T r(1,2) by simp
  have app: "rule_apply ConcatToMult (App BITVECTOR_CONCAT [App (BITVECTOR_EXTRACT high 0) [x], mkZero m]) =
    Inr (App BITVECTOR_MULT [x, mkConstBV \<lparr>d_size = w, d_value = 2 ^ m\<rparr>])"
    unfolding ConcatToMult_def rule.select_convs sz Let_def using s(1,2) r(3) shl by simp
  have ev: "eval \<sigma> (App BITVECTOR_CONCAT [App (BITVECTOR_EXTRACT high 0) [x], mkZero m]) = VBV w (take_bit w (num (eval \<sigma> x) * 2 ^ m))" for \<sigma>
    using eq [of "num (eval \<sigma> x)"] w(3,5) by (simp add: r(2) sem_concat_def)
  show "rewrites_to (rule_apply ConcatToMult (App k ts)) T (App k ts)"
    unfolding k(1) ec e(1) r(1,3) app rewrites_to_Inr ev Tw using mult_2 [OF e(2) node(1)] node e(2)
    by (simp add: isBitVector_iff del: eval.simps(5))
qed (auto simp: rule_defs split: if_splits)

subsection \<open>Soundness: equalities of one bit\<close>

lemma BitwiseEq_operands:
  assumes "typeOf (App EQUAL [a, b]) = Some T" "getSize a = 1" "bitwise_eq_operands (App EQUAL [a, b]) = Some (c, t)"
  shows "typeOf t = Some (BitVectorType 1)" "T = BooleanType" "bv_ok c" "d_size c = 1"
    "val_ok \<sigma> \<Longrightarrow> eval \<sigma> (App EQUAL [a, b]) = VBool (num (eval \<sigma> t) = d_value c)"
proof -
  from assms(1) obtain A where A: "typeOf a = Some A" "typeOf b = Some A" "T = BooleanType" by auto
  have const: "\<exists>b. u = ConstBV b \<and> A = BitVectorType 1 \<and> bv_ok b \<and> d_size b = 1" if "getKind u = CONST_BITVECTOR" "typeOf u = Some A" for u
    using that assms(2) getSize_typed [OF A(1)] by (cases u) auto
  have "A = BitVectorType 1 \<and> bv_ok c \<and> d_size c = 1 \<and> (ConstBV c = a \<and> t = b \<or> ConstBV c = b \<and> t = a)"
  proof (cases "getKind a = CONST_BITVECTOR")
    case True
    with const [OF this A(1)] assms(3) show ?thesis by (auto simp: bitwise_eq_operands_def)
  next
    case False
    with assms(3) have "getKind b = CONST_BITVECTOR" by (auto simp: bitwise_eq_operands_def split: if_splits)
    with False const [OF this A(2)] assms(3) show ?thesis by (auto simp: bitwise_eq_operands_def)
  qed
  with A show "typeOf t = Some (BitVectorType 1)" "T = BooleanType" "bv_ok c" "d_size c = 1"
    "val_ok \<sigma> \<Longrightarrow> eval \<sigma> (App EQUAL [a, b]) = VBool (num (eval \<sigma> t) = d_value c)"
    by auto
qed

lemma mkNodeKind_sem:
  assumes "of_width 1 ts" "2 \<le> length ts" "p = 0 \<or> p = 1"
  shows "typeOf (mkNodeKind AND_K (App k ts) (mkConst 1 p)) = Some BooleanType"
    "typeOf (mkNodeKind OR_K (App k ts) (mkConst 1 p)) = Some BooleanType"
    "val_ok \<sigma> \<Longrightarrow> eval \<sigma> (mkNodeKind AND_K (App k ts) (mkConst 1 p)) = VBool (\<forall>t\<in>set ts. num (eval \<sigma> t) = p)"
    "val_ok \<sigma> \<Longrightarrow> eval \<sigma> (mkNodeKind OR_K (App k ts) (mkConst 1 p)) = VBool (\<exists>t\<in>set ts. num (eval \<sigma> t) = p)"
proof -
  have c: "typeOf (mkConst 1 p) = Some (BitVectorType 1)" "eval \<sigma> (mkConst 1 p) = VBV 1 p" for \<sigma>
    using assms(3) by auto
  have t: "typeOf t = Some (BitVectorType 1)" if "t \<in> set ts" for t using assms(1) that by (simp add: of_width_def)
  then have e: "eval \<sigma> (App EQUAL [t, mkConst 1 p]) = VBool (num (eval \<sigma> t) = p)" if "t \<in> set ts" "val_ok \<sigma>" for t \<sigma>
    using eval_bv(1) [OF t [OF that(1)] that(2)] c(2) [of \<sigma>] by (cases "eval \<sigma> t") simp_all
  show "typeOf (mkNodeKind AND_K (App k ts) (mkConst 1 p)) = Some BooleanType"
    "typeOf (mkNodeKind OR_K (App k ts) (mkConst 1 p)) = Some BooleanType"
    using t c(1) assms(2) by (auto simp: mkNodeKind_def)
  show "val_ok \<sigma> \<Longrightarrow> eval \<sigma> (mkNodeKind AND_K (App k ts) (mkConst 1 p)) = VBool (\<forall>t\<in>set ts. num (eval \<sigma> t) = p)"
    "val_ok \<sigma> \<Longrightarrow> eval \<sigma> (mkNodeKind OR_K (App k ts) (mkConst 1 p)) = VBool (\<exists>t\<in>set ts. num (eval \<sigma> t) = p)"
    using e by (simp_all add: mkNodeKind_def eval.simps(5) [of \<sigma> AND_K] eval.simps(5) [of \<sigma> OR_K] del: eval.simps(5))
qed

lemma bit0_num: "typeOf t = Some (BitVectorType 1) \<Longrightarrow> val_ok \<sigma> \<Longrightarrow> bit (num (eval \<sigma> t)) 0 \<longleftrightarrow> num (eval \<sigma> t) = 1"
  using bit1_cases [of t \<sigma>] by auto

lemma and_or_bit1:
  assumes "of_width 1 ts" "ts \<noteq> []" "val_ok \<sigma>"
  shows "num (eval \<sigma> (App BITVECTOR_AND ts)) = of_bool (\<forall>t\<in>set ts. num (eval \<sigma> t) = 1)"
    "num (eval \<sigma> (App BITVECTOR_OR ts)) = of_bool (\<not> (\<forall>t\<in>set ts. num (eval \<sigma> t) = 0))"
proof -
  have t: "typeOf t = Some (BitVectorType 1)" if "t \<in> set ts" for t using assms(1) that by (simp add: of_width_def)
  have one: "take_bit 1 x = of_bool (bit x 0)" for x :: int by (simp add: bit_0 take_bit_Suc odd_iff_mod_2_eq_one)
  have z: "bit (num (eval \<sigma> t)) 0 \<longleftrightarrow> num (eval \<sigma> t) = 1" "\<not> bit (num (eval \<sigma> t)) 0 \<longleftrightarrow> num (eval \<sigma> t) = 0" if "t \<in> set ts" for t
    using bit1_cases [of t \<sigma>] t [OF that] assms(3) by auto
  show "num (eval \<sigma> (App BITVECTOR_AND ts)) = of_bool (\<forall>t\<in>set ts. num (eval \<sigma> t) = 1)"
    using bit_fold_set [of BITVECTOR_AND \<sigma> ts 0] z
    unfolding eval_ac [OF ac_kind_simps(1) assms(2,1,3)] num.simps one by simp
  show "num (eval \<sigma> (App BITVECTOR_OR ts)) = of_bool (\<not> (\<forall>t\<in>set ts. num (eval \<sigma> t) = 0))"
    using bit_fold_set [of BITVECTOR_OR \<sigma> ts 0] z
    unfolding eval_ac [OF ac_kind_simps(2) assms(2,1,3)] num.simps one by auto
qed

lemma BitwiseEq_apply:
  assumes t: "typeOf t = Some (BitVectorType 1)" "bv_ok c" "d_size c = 1"
    and k: "getKind t \<in> {BITVECTOR_AND, BITVECTOR_OR, BITVECTOR_NOT, BITVECTOR_NAND, BITVECTOR_NOR, BITVECTOR_COMP, BITVECTOR_NEG}"
    and ops: "bitwise_eq_operands (App EQUAL ab) = Some (c, t)"
  shows "\<exists>m. rule_apply BitwiseEq (App EQUAL ab) = Inr m \<and> typeOf m = Some BooleanType \<and>
    (\<forall>\<sigma>. val_ok \<sigma> \<longrightarrow> eval \<sigma> m = VBool (num (eval \<sigma> t) = d_value c))"
proof -
  from t(2,3) have c: "d_value c = 0 \<or> d_value c = 1" by (auto simp: bv_ok_def)
  have eq1: "bv_eq c (mkBitVector 1 1) \<longleftrightarrow> d_value c = 1" using t(3) by (simp add: bv_eq_def mkBitVector_def modByPow2_def)
  from k consider (nary) ts where "t = App BITVECTOR_AND ts \<or> t = App BITVECTOR_OR ts"
    | (other) "getKind t \<in> {BITVECTOR_NOT, BITVECTOR_NAND, BITVECTOR_NOR, BITVECTOR_COMP, BITVECTOR_NEG}"
    by (auto simp: getKind_iff)
  then show ?thesis
  proof cases
    case nary
    then obtain k where k: "t = App k ts" "k = BITVECTOR_AND \<or> k = BITVECTOR_OR" by blast
    then have "ac_kind k" by auto
    from ac_typedD [OF t(1) [unfolded k(1)] this] have ts: "2 \<le> length ts" "of_width 1 ts" "ts \<noteq> []" by auto
    have z: "num (eval \<sigma> t) \<noteq> 1 \<longleftrightarrow> num (eval \<sigma> t) = 0" if "val_ok \<sigma>" "t \<in> set ts" for \<sigma> t
      using bit1_cases [of t \<sigma>] ts(2) that by (auto simp: of_width_def)
    define m where "m = mkNodeKind (if (k = BITVECTOR_AND) = (d_value c = 1) then AND_K else OR_K) t (mkConst 1 (d_value c))"
    have app: "rule_apply BitwiseEq (App EQUAL ab) = Inr m"
      using k c unfolding BitwiseEq_def rule.select_convs ops option.case prod.case eq1 m_def by auto
    have "typeOf m = Some BooleanType" using mkNodeKind_sem(1,2) [OF ts(2,1) c, of k] by (simp add: m_def k(1))
    moreover have "eval \<sigma> m = VBool (num (eval \<sigma> t) = d_value c)" if "val_ok \<sigma>" for \<sigma>
    proof -
      have "(\<forall>t\<in>set ts. num (eval \<sigma> t) = 1) \<longleftrightarrow> \<not> (\<exists>t\<in>set ts. num (eval \<sigma> t) = 0)"
        "(\<forall>t\<in>set ts. num (eval \<sigma> t) = 0) \<longleftrightarrow> \<not> (\<exists>t\<in>set ts. num (eval \<sigma> t) = 1)"
        using z [OF that] by auto
      with mkNodeKind_sem(3,4) [OF ts(2,1) c that, of k] and_or_bit1 [OF ts(2,3) that] k(2) c
      show ?thesis by (auto simp: m_def k(1) simp del: eval.simps(5))
    qed
    ultimately show ?thesis using app by blast
  next
    case other
    have b: "num (eval \<sigma> x) = 0 \<or> num (eval \<sigma> x) = 1" if "typeOf x = Some (BitVectorType (Suc 0))" "val_ok \<sigma>" for x \<sigma>
      using bit1_cases [OF that] .
    have e: "eval \<sigma> x = VBV (Suc 0) y \<longleftrightarrow> num (eval \<sigma> x) = y" if "typeOf x = Some (BitVectorType (Suc 0))" "val_ok \<sigma>" for x \<sigma> y
      using eval_bv(1) [OF that] by (cases "eval \<sigma> x") auto
    have cn: "typeOf (mkConstBV d) = Some (BitVectorType (Suc 0))" "eval \<sigma> (mkConstBV d) = VBV (Suc 0) (d_value d)"
      if "bv_ok d" "d_size d = 1" for d \<sigma>
      using that by (simp_all add: mkConstBV_def)
    from other consider (NOT) x where "t = App BITVECTOR_NOT [x]" "typeOf x = Some (BitVectorType (Suc 0))"
      | (NAND) x y where "t = App BITVECTOR_NAND [x, y]" "typeOf x = Some (BitVectorType (Suc 0))" "typeOf y = Some (BitVectorType (Suc 0))"
      | (NOR) x y where "t = App BITVECTOR_NOR [x, y]" "typeOf x = Some (BitVectorType (Suc 0))" "typeOf y = Some (BitVectorType (Suc 0))"
      | (COMP) x y w where "t = App BITVECTOR_COMP [x, y]" "typeOf x = Some (BitVectorType w)" "typeOf y = Some (BitVectorType w)"
      | (NEG) x where "t = App BITVECTOR_NEG [x]" "typeOf x = Some (BitVectorType (Suc 0))"
      using t(1) by (auto simp: getKind_iff length_Suc_conv numeral_2_eq_2 isBitVector_iff)
    then show ?thesis
    proof cases
      case NOT
      have "bv_ok (bv_not c)" "d_size (bv_not c) = 1" "d_value (bv_not c) = 1 - d_value c"
        using bv_not_sem [OF t(2)] t(3) c by (auto simp: sem_1 bv_ok_def)
      with NOT cn [of "bv_not c"] c b show ?thesis unfolding BitwiseEq_def rule.select_convs ops by (auto simp: sem_1)
    next
      case NAND
      then have t': "t = App BITVECTOR_NAND [x, y]" "of_width 1 [x, y]" by simp_all
      have "sem_not 1 (p AND q) = of_bool (p = 0 \<or> q = 0)" if "p = 0 \<or> p = 1" "q = 0 \<or> q = 1" for p q
        using that by (auto simp: sem_1)
      then have "num (eval \<sigma> t) = of_bool (num (eval \<sigma> x) = 0 \<or> num (eval \<sigma> y) = 0)" if "val_ok \<sigma>" for \<sigma>
        using NAND b that by simp
      with t' mkNodeKind_sem [OF t'(2), where p = 0 and k = BITVECTOR_NAND] mkNodeKind_sem [OF t'(2), where p = 1 and k = BITVECTOR_NAND] c NAND b
      show ?thesis unfolding BitwiseEq_def rule.select_convs ops option.case prod.case eq1 by fastforce
    next
      case NOR
      then have t': "t = App BITVECTOR_NOR [x, y]" "of_width 1 [x, y]" by simp_all
      have "sem_not 1 (p OR q) = of_bool (p = 0 \<and> q = 0)" if "p = 0 \<or> p = 1" "q = 0 \<or> q = 1" for p q
        using that by (auto simp: sem_1)
      then have "num (eval \<sigma> t) = of_bool (num (eval \<sigma> x) = 0 \<and> num (eval \<sigma> y) = 0)" if "val_ok \<sigma>" for \<sigma>
        using NOR b that by simp
      with t' mkNodeKind_sem [OF t'(2), where p = 0 and k = BITVECTOR_NOR] mkNodeKind_sem [OF t'(2), where p = 1 and k = BITVECTOR_NOR] c NOR b
      show ?thesis unfolding BitwiseEq_def rule.select_convs ops option.case prod.case eq1 by fastforce
    next
      case COMP
      have "eval \<sigma> x = eval \<sigma> y \<longleftrightarrow> num (eval \<sigma> x) = num (eval \<sigma> y)" if "val_ok \<sigma>" for \<sigma>
        using eval_bv(1) [OF COMP(2) that] eval_bv(1) [OF COMP(3) that] typeOf_width(1) [OF COMP(2)] by (cases "eval \<sigma> x"; cases "eval \<sigma> y") auto
      with COMP c show ?thesis unfolding BitwiseEq_def rule.select_convs ops option.case prod.case eq1
        by (auto simp: getNumChildren_def)
    next
      case NEG
      have "sem_neg 1 p = p" if "p = 0 \<or> p = 1" for p using that by (auto simp: sem_neg_def)
      with NEG cn [of c] t(2,3) b e show ?thesis unfolding BitwiseEq_def rule.select_convs ops option.case prod.case eq1
        by auto
    qed
  qed
qed

lemma BitwiseEq_sound: "sound_rule BitwiseEq"
proof (rule sound_kind)
  fix k ts T assume *: "typeOf (App k ts) = Some T" "rule_applies BitwiseEq (App k ts)"
  then obtain a b c t where n: "k = EQUAL" "ts = [a, b]" "getSize a = 1" "bitwise_eq_operands (App EQUAL [a, b]) = Some (c, t)" and
    kt: "getKind t \<in> {BITVECTOR_AND, BITVECTOR_OR, BITVECTOR_NOT, BITVECTOR_NAND, BITVECTOR_NOR, BITVECTOR_COMP, BITVECTOR_NEG}"
    unfolding BitwiseEq_def rule.select_convs by (auto simp: length_Suc_conv numeral_2_eq_2 split: if_splits option.splits)
  note o = BitwiseEq_operands [OF *(1) [unfolded n(1,2)] n(3,4)]
  from BitwiseEq_apply [OF o(1,3,4) kt n(4)] o(2,5) show "rewrites_to (rule_apply BitwiseEq (App k ts)) T (App k ts)"
    unfolding n(1,2) rewrites_to_def by metis
qed (auto simp: BitwiseEq_def split: if_splits)

subsection \<open>Soundness: slices by a constant\<close>

lemma slice_value:
  assumes k: "k \<in> {BITVECTOR_AND, BITVECTOR_OR, BITVECTOR_XOR}"
    and t: "typeOf c = Some (BitVectorType w)" "typeOf x = Some (BitVectorType w)" "lo \<le> hi" "hi < w"
  defines "n \<equiv> App k [mkExtract c hi lo, mkExtract x hi lo]"
  shows "typeOf n = Some (BitVectorType (hi - lo + 1))"
    "val_ok \<sigma> \<Longrightarrow> eval \<sigma> n = VBV (hi - lo + 1) (sem_extract hi lo (op_fun k (num (eval \<sigma> c)) (num (eval \<sigma> x))))"
proof -
  have ac: "ac_kind k" using k by auto
  have w: "of_width (hi - lo + 1) [mkExtract c hi lo, mkExtract x hi lo]" using t by simp
  then show "typeOf n = Some (BitVectorType (hi - lo + 1))" unfolding n_def typeOf_ac [OF ac] by simp
  assume "val_ok \<sigma>"
  from eval_ac [OF ac _ w this] show "eval \<sigma> n = VBV (hi - lo + 1) (sem_extract hi lo (op_fun k (num (eval \<sigma> c)) (num (eval \<sigma> x))))"
    unfolding n_def fold_num_simps op_unit_id [OF ac] mkExtract_typed num.simps sem_extract_def drop_bit_op [OF k] op_trunc [OF ac] by simp
qed

lemma BitwiseSlicing_loop_parts:
  assumes k: "k \<in> {BITVECTOR_AND, BITVECTOR_OR, BITVECTOR_XOR}"
    and t: "typeOf (ConstBV d) = Some (BitVectorType w)" "typeOf x = Some (BitVectorType w)"
  shows "i < stop \<Longrightarrow> stop < w \<Longrightarrow>
    \<exists>ps. BitwiseSlicing_loop k d (ConstBV d) x (Suc i) (Suc i) stop acc = Inr (acc @ ps) \<and> (\<forall>p\<in>set ps. is_bv p) \<and>
      sum_list (map getSize ps) = stop + 1 \<and>
      (\<forall>\<sigma>. val_ok \<sigma> \<longrightarrow> cat_value (map (eval \<sigma>) ps) = sem_extract stop 0 (op_fun k (d_value d) (num (eval \<sigma> x))))"
proof (induction i arbitrary: stop acc)
  let ?S = "\<lambda>hi lo. App k [mkExtract (ConstBV d) hi lo, mkExtract x hi lo]"
  let ?V = "\<lambda>\<sigma>. op_fun k (d_value d) (num (eval \<sigma> x))"
  have d: "bv_ok d" "d_size d = w" using t(1) by simp_all
  have S: "is_bv (?S hi lo)" "getSize (?S hi lo) = hi - lo + 1" 
    "val_ok \<sigma> \<Longrightarrow> eval \<sigma> (?S hi lo) = VBV (hi - lo + 1) (sem_extract hi lo (?V \<sigma>))" if "lo \<le> hi" "hi < w" for hi lo \<sigma>
    using slice_value [OF k t that] getSize_typed [OF slice_value(1) [OF k t that]] by (auto simp: is_bv_def simp del: eval.simps(5) typeOf.simps(5))
  have V: "0 \<le> ?V \<sigma>" if "val_ok \<sigma>" for \<sigma> using op_fun_range [OF k] d(1) t(2) that by (auto simp: bv_ok_def)
  {
    case 0
    show ?case
    proof (cases "bit (d_value d) 1 = bit (d_value d) 0")
      case True
      with 0 d S [of 0 stop] show ?thesis
        by (intro exI [of _ "[?S stop 0]"]) (simp add: bv_isBitSet_sem Let_def del: eval.simps(5) typeOf.simps(5))
    next
      case False
      have "sem_concat (sem_extract stop (Suc 0) (?V \<sigma>)) (Suc 0) (sem_extract 0 0 (?V \<sigma>)) = sem_extract stop 0 (?V \<sigma>)" if "val_ok \<sigma>" for \<sigma>
        using concat_extracts [of 0 0 stop] 0 V [OF that] by simp
      with False 0 d S [of 0 0] S [of 1 stop] show ?thesis
        by (intro exI [of _ "[?S stop 1, ?S 0 0]"]) (simp add: bv_isBitSet_sem Let_def del: eval.simps(5) typeOf.simps(5))
    qed
  next
    case (Suc i)
    show ?case
    proof (cases "bit (d_value d) (Suc (Suc i)) = bit (d_value d) (Suc i)")
      case True
      have "BitwiseSlicing_loop k d (ConstBV d) x (Suc (Suc i)) (Suc (Suc i)) stop acc = BitwiseSlicing_loop k d (ConstBV d) x (Suc i) (Suc i) stop acc"
        using True Suc.prems d by (subst BitwiseSlicing_loop.simps) (simp add: bv_isBitSet_sem Let_def del: BitwiseSlicing_loop.simps)
      with Suc.IH [of stop acc] Suc.prems show ?thesis by simp
    next
      case False
      have l: "BitwiseSlicing_loop k d (ConstBV d) x (Suc (Suc i)) (Suc (Suc i)) stop acc =
        BitwiseSlicing_loop k d (ConstBV d) x (Suc i) (Suc i) (Suc i) (acc @ [?S stop (Suc (Suc i))])"
        using False Suc.prems d by (subst BitwiseSlicing_loop.simps) (simp add: bv_isBitSet_sem Let_def del: BitwiseSlicing_loop.simps)
      from Suc.IH [of "Suc i" "acc @ [?S stop (Suc (Suc i))]"] Suc.prems obtain ps where
        ps: "BitwiseSlicing_loop k d (ConstBV d) x (Suc i) (Suc i) (Suc i) (acc @ [?S stop (Suc (Suc i))]) = Inr ((acc @ [?S stop (Suc (Suc i))]) @ ps)"
          "\<forall>p\<in>set ps. is_bv p" "sum_list (map getSize ps) = Suc i + 1"
          "\<forall>\<sigma>. val_ok \<sigma> \<longrightarrow> cat_value (map (eval \<sigma>) ps) = sem_extract (Suc i) 0 (?V \<sigma>)"
        by force
      have "cat_value (map (eval \<sigma>) (?S stop (Suc (Suc i)) # ps)) = sem_extract stop 0 (?V \<sigma>)" if "val_ok \<sigma>" for \<sigma>
        using concat_extracts [of 0 "Suc i" stop "?V \<sigma>"] Suc.prems V [OF that] S(3) [of "Suc (Suc i)" stop \<sigma>] that ps(3,4) sum_wd [OF ps(2) that]
        by (simp add: o_def del: eval.simps(5))
      with ps l S(1,2) [of "Suc (Suc i)" stop] Suc.prems show ?thesis
        by (intro exI [of _ "?S stop (Suc (Suc i)) # ps"]) (simp del: eval.simps(5) typeOf.simps(5) BitwiseSlicing_loop.simps)
    qed
  }
qed

lemma split_constant_mset: "split_constant ns c os = (c', os') \<Longrightarrow>
  mset os' + (case c' of None \<Rightarrow> {#} | Some d \<Rightarrow> {#d#}) = mset ns + mset os + (case c of None \<Rightarrow> {#} | Some d \<Rightarrow> {#d#})"
  by (induction ns c os rule: split_constant.induct) (auto split: if_splits)

lemma split_constant_found: "split_constant ns c os = (c', os') \<Longrightarrow> c \<noteq> None \<or> (\<exists>n\<in>set ns. getKind n = CONST_BITVECTOR) \<Longrightarrow> c' \<noteq> None"
  "split_constant ns c os = (c', os') \<Longrightarrow> c = None \<or> getKind (the c) = CONST_BITVECTOR \<Longrightarrow> c' = None \<or> getKind (the c') = CONST_BITVECTOR"
  by (induction ns c os rule: split_constant.induct) (auto split: if_splits)

lemma BitwiseSlicing_sound: "sound_rule BitwiseSlicing"
proof (rule sound_kind)
  fix k ts T assume *: "typeOf (App k ts) = Some T" "rule_applies BitwiseSlicing (App k ts)"
  then have k: "k \<in> {BITVECTOR_AND, BITVECTOR_OR, BITVECTOR_XOR}" "ac_kind k" and s: "getSize (App k ts) \<noteq> 1"
    and ex: "\<exists>n\<in>set ts. getKind n = CONST_BITVECTOR"
    unfolding BitwiseSlicing_def rule.select_convs bitwise_kind_def ac_kind_def
    by (auto simp: find_Some_iff split: if_splits option.splits dest: nth_mem)
  then obtain w where T: "T = BitVectorType w" using *(1) typeOf_ac by blast
  with *(1) have t: "typeOf (App k ts) = Some (BitVectorType w)" by simp
  from ac_typedD [OF t k(2)] have ts: "2 \<le> length ts" "ts \<noteq> []" "of_width w ts" by auto
  have w: "w \<noteq> 1" "0 < w" "w < 2147483648" using s getSize_typed [OF t] typeOf_width [OF t] by auto
  obtain c' os where sp: "split_constant ts None [] = (c', os)" by fastforce
  from split_constant_found [OF sp] ex obtain c where c: "c' = Some c" "getKind c = CONST_BITVECTOR" by auto
  from split_constant_mset [OF sp] have m: "mset ts = mset (c # os)" by (simp add: c)
  from ts(3) of_width_mset [OF m] have tc: "typeOf c = Some (BitVectorType w)" and os: "of_width w os" by simp_all
  from tc c(2) obtain d where d: "c = ConstBV d" "d_size d = w" by (cases c) auto
  have len: "length os = length ts - 1" "os \<noteq> []" using arg_cong [OF m, of size] ts(1) by auto
  let ?x = "mkNaryNode k os"
  note x = mkNaryNode_ac [OF k(2) len(2) os]
  obtain i where i: "w = Suc (Suc i)" using w by (metis One_nat_def not0_implies_Suc less_numeral_extra(3))
  from BitwiseSlicing_loop_parts [OF k(1) tc [unfolded d] x(1), of i "Suc i" "[]"] i obtain ps where
    ps: "BitwiseSlicing_loop k d (ConstBV d) ?x (Suc i) (Suc i) (Suc i) [] = Inr ps" "\<forall>p\<in>set ps. is_bv p"
      "sum_list (map getSize ps) = w"
      "\<forall>\<sigma>. val_ok \<sigma> \<longrightarrow> cat_value (map (eval \<sigma>) ps) = sem_extract (Suc i) 0 (op_fun k (d_value d) (num (eval \<sigma> ?x)))"
    by auto
  have app: "rule_apply BitwiseSlicing (App k ts) = Inr (mkConcat ps)"
    unfolding BitwiseSlicing_def rule.select_convs children.simps sp c(1) using ps(1) len(1) d i
    by (simp add: getNumChildren_def Let_def del: BitwiseSlicing_loop.simps)
  have "eval \<sigma> (App k ts) = VBV w (cat_value (map (eval \<sigma>) ps))" if "val_ok \<sigma>" for \<sigma>
  proof -
    have "take_bit w (fold_num k \<sigma> ts) = take_bit w (op_fun k (d_value d) (num (eval \<sigma> ?x)))"
      using fold_num_mset [OF k(2) m] op_trunc(2) [OF k(2)] x(2) [OF that] by (simp add: d)
    moreover have "sem_extract (Suc i) 0 z = take_bit w z" for z by (simp add: sem_extract_def i del: take_bit_Suc)
    ultimately show ?thesis using ps(4) that eval_ac [OF k(2) ts(2,3) that] by simp
  qed
  then show "rewrites_to (rule_apply BitwiseSlicing (App k ts)) T (App k ts)"
    unfolding app by (intro rewrites_to_mkConcat [OF T w(3,2) ps(2,3)])
qed (auto simp: BitwiseSlicing_def bitwise_kind_def split: if_splits)

subsection \<open>Soundness: negated summands moved across an equality\<close>

lemma take_bit_eq_iff: "take_bit w x = take_bit w y \<longleftrightarrow> 2 ^ w dvd (x - y :: int)"
  by (simp add: take_bit_eq_mod mod_eq_dvd_iff)

lemma plus_children_value:
  assumes "of_width w ns" "val_ok \<sigma>"
  defines "p \<equiv> filter (\<lambda>c. getKind c \<noteq> BITVECTOR_NEG) ns" and "q \<equiv> map (\<lambda>c. child c 0) (filter (\<lambda>c. getKind c = BITVECTOR_NEG) ns)"
  shows "of_width w p \<and> of_width w q \<and>
    take_bit w (fold_num BITVECTOR_PLUS \<sigma> ns) = take_bit w (fold_num BITVECTOR_PLUS \<sigma> p - fold_num BITVECTOR_PLUS \<sigma> q)"
  unfolding p_def q_def using assms(1)
proof (induction ns)
  case (Cons n ns)
  let ?p = "filter (\<lambda>c. getKind c \<noteq> BITVECTOR_NEG) ns" and ?q = "map (\<lambda>c. child c 0) (filter (\<lambda>c. getKind c = BITVECTOR_NEG) ns)"
  from Cons have IH: "of_width w ?p" "of_width w ?q" "take_bit w (fold_num BITVECTOR_PLUS \<sigma> ns) = take_bit w (fold_num BITVECTOR_PLUS \<sigma> ?p - fold_num BITVECTOR_PLUS \<sigma> ?q)"
    by simp_all
  show ?case
  proof (cases "getKind n = BITVECTOR_NEG")
    case True
    with Cons.prems obtain x where x: "n = App BITVECTOR_NEG [x]" "typeOf x = Some (BitVectorType w)"
      by (auto simp: getKind_iff isBitVector_iff)
    have "take_bit w (num (eval \<sigma> n)) = take_bit w (- num (eval \<sigma> x))" using x assms(2) by (simp add: sem_neg_def)
    from plus_op.trunc_cong [OF this IH(3)] x IH(1,2) show ?thesis by (simp add: algebra_simps)
  next
    case False
    from plus_op.trunc_cong [OF refl IH(3), of "num (eval \<sigma> n)"] False IH(1,2) Cons.prems show ?thesis
      by (simp add: algebra_simps)
  qed
qed simp

lemma plus_sides_value:
  assumes "typeOf n = Some (BitVectorType w)" "plus_sides n = (p, q)"
  shows "of_width w p" "of_width w q"
    "val_ok \<sigma> \<Longrightarrow> take_bit w (num (eval \<sigma> n)) = take_bit w (fold_num BITVECTOR_PLUS \<sigma> p - fold_num BITVECTOR_PLUS \<sigma> q)"
proof -
  have "of_width w p \<and> of_width w q \<and> take_bit w (num (eval \<sigma> n)) = take_bit w (fold_num BITVECTOR_PLUS \<sigma> p - fold_num BITVECTOR_PLUS \<sigma> q)"
    if "val_ok \<sigma>" for \<sigma>
  proof (cases "getKind n = BITVECTOR_PLUS")
    case True
    then obtain ns where n: "n = App BITVECTOR_PLUS ns" by (auto simp: getKind_iff)
    from ac_typedD [OF assms(1) [unfolded n]] have ns: "ns \<noteq> []" "of_width w ns" by auto
    from plus_children_value [OF ns(2) that] eval_ac [of BITVECTOR_PLUS ns w \<sigma>] ns that assms(2)
    show ?thesis by (auto simp: n plus_sides_def simp del: eval.simps(5))
  next
    case False
    with assms that show ?thesis by (auto simp: plus_sides_def)
  qed
  then show "of_width w p" "of_width w q"
    "val_ok \<sigma> \<Longrightarrow> take_bit w (num (eval \<sigma> n)) = take_bit w (fold_num BITVECTOR_PLUS \<sigma> p - fold_num BITVECTOR_PLUS \<sigma> q)"
    using val_ok_zero by blast+
qed

lemma side_node_value:
  assumes "of_width w ns" "0 < w" "w < 2147483648"
  shows "typeOf (side_node (mkZero w) ns) = Some (BitVectorType w)"
    "val_ok \<sigma> \<Longrightarrow> eval \<sigma> (side_node (mkZero w) ns) = VBV w (take_bit w (fold_num BITVECTOR_PLUS \<sigma> ns))"
  using assms mkNaryNode_ac [of BITVECTOR_PLUS ns w] by (auto simp: side_node_def mkNaryNode_def simp del: eval.simps(5) typeOf.simps(5))

lemma move_summands:
  assumes "take_bit w a = take_bit w (pa - qa)" "take_bit w b = take_bit w (pb - qb :: int)"
  shows "take_bit w (pa + qb) = take_bit w (qa + pb) \<longleftrightarrow> take_bit w a = take_bit w b"
proof -
  have "2 ^ w dvd (a - (pa - qa)) - (b - (pb - qb))" using assms unfolding take_bit_eq_iff by (rule dvd_diff)
  then have "2 ^ w dvd (a - b) - ((pa + qb) - (qa + pb))" by (simp add: algebra_simps)
  then show ?thesis unfolding take_bit_eq_iff by (metis dvd_diff_commute dvd_diffD1 diff_diff_eq2 dvd_diff_right_iff)
qed

lemma NormalizeEqPlusNeg_sound: "sound_rule NormalizeEqPlusNeg"
proof (rule sound_kind)
  fix k ts T assume *: "typeOf (App k ts) = Some T" "rule_applies NormalizeEqPlusNeg (App k ts)"
  then obtain a b A where n: "k = EQUAL" "ts = [a, b]" "T = BooleanType" "typeOf a = Some A" "typeOf b = Some A"
    and pk: "getKind a = BITVECTOR_PLUS \<or> getKind b = BITVECTOR_PLUS"
    by (auto simp: rule_defs length_Suc_conv numeral_2_eq_2)
  have "typeOf u = Some A \<Longrightarrow> getKind u = BITVECTOR_PLUS \<Longrightarrow> \<exists>w. A = BitVectorType w" for u
    using typeOf_ac [of BITVECTOR_PLUS] by (auto simp: getKind_iff simp del: typeOf.simps(5))
  with pk n(4,5) obtain w where A: "A = BitVectorType w" by blast
  note t = n(4,5) [unfolded A]
  note w = typeOf_width(1,2) [OF t(1)]
  obtain pa qa where sa: "plus_sides a = (pa, qa)" by fastforce
  obtain pb qb where sb: "plus_sides b = (pb, qb)" by fastforce
  note va = plus_sides_value [OF t(1) sa] and vb = plus_sides_value [OF t(2) sb]
  have ow: "of_width w (pa @ qb)" "of_width w (qa @ pb)" using va(1,2) vb(1,2) by simp_all
  note l = side_node_value [OF ow(1) w] and r = side_node_value [OF ow(2) w]
  have "take_bit w (fold_num BITVECTOR_PLUS \<sigma> (pa @ qb)) = take_bit w (fold_num BITVECTOR_PLUS \<sigma> (qa @ pb)) \<longleftrightarrow> eval \<sigma> a = eval \<sigma> b"
    if "val_ok \<sigma>" for \<sigma>
    using move_summands [OF va(3) [OF that] vb(3) [OF that]] t that by (simp add: fold_num_append)
  with l r n(1-3) t sa sb getSize_typed [OF t(1)] show "rewrites_to (rule_apply NormalizeEqPlusNeg (App k ts)) T (App k ts)"
    by (simp add: NormalizeEqPlusNeg_def Let_def)
qed (auto simp: rule_defs)

subsection \<open>Properties\<close>

lemmas normalize_sound = ExtractBitwise_sound ExtractNot_sound ExtractSignExtend_sound ExtractArith_sound FlattenAssocCommut_sound
  FlattenAssocCommutNoDuplicates_sound MultDistribConst_sound MultDistrib_sound ConcatToMult_sound NegSub_sound NegPlus_sound
  BitwiseEq_sound BitwiseSlicing_sound NormalizeEqPlusNeg_sound



lemma flatten_rules_differ: "FlattenAssocCommut nid \<noteq> FlattenAssocCommutNoDuplicates nid'"
proof
  assume eq: "FlattenAssocCommut nid = FlattenAssocCommutNoDuplicates nid'"
  let ?n = "App BITVECTOR_PLUS [App BITVECTOR_PLUS []]"
  have "rule_applies (FlattenAssocCommut nid) ?n" by (simp add: FlattenAssocCommut_def flat_kind_def)
  then show False unfolding eq by (simp add: FlattenAssocCommutNoDuplicates_def)
qed

text \<open>C32: flattening ends, and what it leaves is flat: when the result still has the kind of the node, none of
  its children has, so the rule does not apply to it again; the children that the variant without
  duplicates leaves are pairwise different.\<close>

theorem flattening_flat:
  assumes "r = FlattenAssocCommut nid \<or> r = FlattenAssocCommutNoDuplicates nid" "rule_applies r n"
    and "rule_apply r n = Inr n'" "getKind n' = getKind n"
  shows "(\<forall>c\<in>set (children n'). getKind c \<noteq> getKind n) \<and> \<not> rule_applies r n' \<and>
    (r = FlattenAssocCommutNoDuplicates nid \<longrightarrow> distinct (children n'))"
proof -
  have nary: "set (children m) \<subseteq> set cs \<and> (distinct cs \<longrightarrow> distinct (children m))"
    if "getKind m = getKind n" "\<forall>c\<in>set cs. getKind c \<noteq> getKind n" "mkNaryNode (getKind n) cs = m \<or> mkSortedNode nid (getKind n) cs = Inr m" for m cs
    using that by (auto simp: mkNaryNode_def mkSortedNode_def Assert_def split: if_splits)
  from assms(1) show ?thesis
  proof
    assume r: "r = FlattenAssocCommut nid"
    let ?cs = "flatten_loop (getKind n) [n] []"
    have flat: "\<forall>c\<in>set ?cs. getKind c \<noteq> getKind n" using flatten_loop_flat [of "[]"] by auto
    have "mkNaryNode (getKind n) ?cs = n' \<or> mkSortedNode nid (getKind n) ?cs = Inr n'"
      using assms(3) by (auto simp: r FlattenAssocCommut_def Let_def split: if_splits)
    from nary [OF assms(4) flat this] flat have "\<forall>c\<in>set (children n'). getKind c \<noteq> getKind n" by blast
    then show ?thesis using assms(4) flatten_rules_differ by (simp add: r) (simp add: FlattenAssocCommut_def)
  next
    assume r: "r = FlattenAssocCommutNoDuplicates nid"
    let ?cs = "flatten_set_loop (getKind n) [n] [] []"
    have flat: "\<forall>c\<in>set ?cs. getKind c \<noteq> getKind n" using flatten_set_loop_flat [of "[]"] by auto
    have "mkSortedNode nid (getKind n) ?cs = Inr n'"
      using assms(3) by (simp add: r FlattenAssocCommutNoDuplicates_def)
    moreover have "distinct ?cs" by (rule flatten_set_loop_distinct) simp_all
    ultimately have "distinct (children n')" "set (children n') \<subseteq> set ?cs" using nary [OF assms(4) flat] by blast+
    with flat have "\<forall>c\<in>set (children n'). getKind c \<noteq> getKind n" "distinct (children n')" by blast+
    then show ?thesis using assms(4) by (simp add: r) (simp add: FlattenAssocCommutNoDuplicates_def)
  qed
qed

theorem flattening_flat_witness:
  "\<not> rule_applies (FlattenAssocCommut (\<lambda>n. 0)) (App BITVECTOR_PLUS [Var 2 (BitVectorType 8), Var 1 (BitVectorType 8), Var 0 (BitVectorType 8)])"
  using flattening_flat [of "FlattenAssocCommut (\<lambda>n. 0)" "\<lambda>n. 0"
      "App BITVECTOR_PLUS [App BITVECTOR_PLUS [Var 0 (BitVectorType 8), Var 1 (BitVectorType 8)], Var 2 (BitVectorType 8)]"
      "App BITVECTOR_PLUS [Var 2 (BitVectorType 8), Var 1 (BitVectorType 8), Var 0 (BitVectorType 8)]"]
  by (simp add: FlattenAssocCommut_def flat_kind_def mkNaryNode_def)

text \<open>\<open>NegMult\<close> is dead: its test looks at the last child of the negation, which is the product, and so
  never succeeds on a typed node.\<close>

theorem NegMult_never_applies: "typeOf n = Some T \<Longrightarrow> \<not> rule_applies NegMult n"
  by (rule NegMult_dead)

theorem NegMult_never_applies_witness:
  "\<not> rule_applies NegMult (App BITVECTOR_NEG [App BITVECTOR_MULT [Var 0 (BitVectorType 4), mkConst 4 3]])"
  by (rule NegMult_never_applies [of _ "BitVectorType 4"]) (simp add: isBitVector_iff)

end
