(* ===== verification/Rules_Normalize_Logic.thy ===== *)
theory Rules_Normalize_Logic
  imports Rules_Normalize "HOL-Library.Countable"
begin

section \<open>Normalization rules: bit-wise operators over multisets of literals\<close>

text \<open>
  \<open>theory/bv/theory_bv_rewrite_rules_normalization.h\<close>, third part: \<open>AndSimplify\<close>, \<open>OrSimplify\<close> and
  \<open>XorSimplify\<close> count how often each child and its negation occur, fold the constants, and rebuild the node. The
  \<open>unordered_map\<close> from nodes to counts is an association list; the order in which the code iterates over
  it depends on the hash function and is a parameter, \<open>hash_order\<close>, which permutes the entries.
\<close>

unbundle bit_operations_syntax

subsection \<open>Counting\<close>

record Count =
  c_pos :: nat
  c_neg :: nat

type_synonym count_map = "(node \<times> Count) list"

fun insert_count :: "count_map \<Rightarrow> node \<Rightarrow> bool \<Rightarrow> count_map" where
  "insert_count [] node negated = [(node, if negated then \<lparr>c_pos = 0, c_neg = 1\<rparr> else \<lparr>c_pos = 1, c_neg = 0\<rparr>)]"
| "insert_count ((m, c) # rest) node negated =
     (if m = node then (m, if negated then c\<lparr>c_neg := c_neg c + 1\<rparr> else c\<lparr>c_pos := c_pos c + 1\<rparr>) # rest
      else (m, c) # insert_count rest node negated)"

definition insert_literal :: "count_map \<Rightarrow> node \<Rightarrow> count_map" where
  "insert_literal subterms current =
     (if getKind current = BITVECTOR_NOT then insert_count subterms (child current 0) True
      else insert_count subterms current False)"

subsection \<open>Conjunction and disjunction\<close>

text \<open>The loop over the children, with the operator that folds the constants.\<close>

fun collect_literals :: "(BitVector \<Rightarrow> BitVector \<Rightarrow> BitVector result) \<Rightarrow> node list \<Rightarrow> BitVector \<Rightarrow> count_map \<Rightarrow>
    (BitVector \<times> count_map) result" where
  "collect_literals f [] constant subterms = Inr (constant, subterms)"
| "collect_literals f (current # ns) constant subterms =
     (if getKind current = CONST_BITVECTOR
      then and_then (f constant (getConstBV current)) (\<lambda>constant. collect_literals f ns constant subterms)
      else collect_literals f ns constant (insert_literal subterms current))"

text \<open>The loop over the map; \<open>None\<close> is the early return for a term that occurs with its negation.\<close>

fun literal_children :: "count_map \<Rightarrow> node list \<Rightarrow> node list option" where
  "literal_children [] cs = Some cs"
| "literal_children ((n, c) # rest) cs =
     (if c_pos c > 0 \<and> c_neg c > 0 then None
      else if c_neg c > 0 then literal_children rest (cs @ [App BITVECTOR_NOT [n]])
      else literal_children rest (cs @ [n]))"

definition AndSimplify :: "(count_map \<Rightarrow> count_map) \<Rightarrow> (node \<Rightarrow> nat) \<Rightarrow> rule" where
  [rule_defs]: "AndSimplify hash_order nid = \<lparr>
    rule_applies = (\<lambda>node. getKind node = BITVECTOR_AND),
    rule_apply = (\<lambda>node.
      let sz = getSize node
      in and_then (bv_mkOnes sz) (\<lambda>ones.
         and_then (collect_literals bv_and (children node) ones []) (\<lambda>(constant, subterms).
           if bv_eq constant (mkBitVector sz 0) then Inr (mkZero sz)
           else
             let cs = (if \<not> bv_eq constant ones then [mkConstBV constant] else [])
             in case literal_children (hash_order subterms) cs of
                  None \<Rightarrow> Inr (mkZero sz)
                | Some cs \<Rightarrow> if cs = [] then mkOnes sz else mkSortedNode nid BITVECTOR_AND cs)))\<rparr>"

definition OrSimplify :: "(count_map \<Rightarrow> count_map) \<Rightarrow> (node \<Rightarrow> nat) \<Rightarrow> rule" where
  [rule_defs]: "OrSimplify hash_order nid = \<lparr>
    rule_applies = (\<lambda>node. getKind node = BITVECTOR_OR),
    rule_apply = (\<lambda>node.
      let sz = getSize node
      in and_then (collect_literals bv_or (children node) (mkBitVector sz 0) []) (\<lambda>(constant, subterms).
         and_then (bv_mkOnes sz) (\<lambda>ones.
           if bv_eq constant ones then mkOnes sz
           else
             let cs = (if \<not> bv_eq constant (mkBitVector sz 0) then [mkConstBV constant] else [])
             in case literal_children (hash_order subterms) cs of
                  None \<Rightarrow> mkOnes sz
                | Some cs \<Rightarrow> if cs = [] then Inr (mkZero sz) else mkSortedNode nid BITVECTOR_OR cs)))\<rparr>"

subsection \<open>Exclusive or\<close>

fun xor_collect :: "node list \<Rightarrow> BitVector option \<Rightarrow> count_map \<Rightarrow> (BitVector option \<times> count_map) result" where
  "xor_collect [] constant subterms = Inr (constant, subterms)"
| "xor_collect (current # ns) constant subterms =
     (if getKind current = CONST_BITVECTOR
      then (case constant of
              Some c \<Rightarrow> and_then (bv_xor c (getConstBV current)) (\<lambda>c. xor_collect ns (Some c) subterms)
            | None \<Rightarrow> xor_collect ns (Some (getConstBV current)) subterms)
      else xor_collect ns constant (insert_literal subterms current))"

fun xor_children :: "count_map \<Rightarrow> nat \<Rightarrow> bool \<Rightarrow> node list \<Rightarrow> nat \<times> bool \<times> node list" where
  "xor_children [] true_count seen_false cs = (true_count, seen_false, cs)"
| "xor_children ((n, c) # rest) true_count seen_false cs =
     (let pos = c_pos c; neg = c_neg c;
          seen_false = (if seen_false then seen_false else pos > 1 \<or> neg > 1)
      in if odd pos \<and> odd neg then xor_children rest (true_count + 1) seen_false cs
         else if odd pos then xor_children rest true_count seen_false (cs @ [n])
         else if odd neg then xor_children rest true_count seen_false (cs @ [App BITVECTOR_NOT [n]])
         else xor_children rest true_count seen_false cs)"

fun xor_constants :: "BitVector \<Rightarrow> BitVector list \<Rightarrow> BitVector result" where
  "xor_constants res [] = Inr res"
| "xor_constants res (c # cs) = and_then (bv_xor res c) (\<lambda>res. xor_constants res cs)"

definition XorSimplify :: "(count_map \<Rightarrow> count_map) \<Rightarrow> (node \<Rightarrow> nat) \<Rightarrow> rule" where
  [rule_defs]: "XorSimplify hash_order nid = \<lparr>
    rule_applies = (\<lambda>node. getKind node = BITVECTOR_XOR),
    rule_apply = (\<lambda>node.
      let sz = getSize node
      in and_then (xor_collect (children node) None []) (\<lambda>(constant, subterms).
         let (true_count, seen_false, cs) = xor_children (hash_order subterms) 0 False []
         in and_then (bv_mkOnes sz) (\<lambda>true_bv.
           let false_bv = mkBitVector sz 0;
               xorConst = (if true_count \<noteq> 0 then [if odd true_count then true_bv else false_bv] else [])
                 @ (if seen_false then [false_bv] else [])
                 @ (case constant of Some c \<Rightarrow> [c] | None \<Rightarrow> [])
           in and_then (case xorConst of
                  [] \<Rightarrow> Inr cs
                | c # rest \<Rightarrow> and_then (xor_constants c rest) (\<lambda>res. Inr (cs @ [mkConstBV res])))
              (\<lambda>cs. Assert (cs \<noteq> []) (mkSortedNode nid BITVECTOR_XOR cs)))))\<rparr>"

subsection \<open>Literals\<close>

definition permutes :: "(count_map \<Rightarrow> count_map) \<Rightarrow> bool" where
  "permutes hash_order \<longleftrightarrow> (\<forall>m. mset (hash_order m) = mset m)"

text \<open>The literals that a map of counts stands for, each with its multiplicity.\<close>

definition expand_entry :: "node \<times> Count \<Rightarrow> node list" where
  "expand_entry e = replicate (c_pos (snd e)) (fst e) @ replicate (c_neg (snd e)) (App BITVECTOR_NOT [fst e])"

definition expand :: "count_map \<Rightarrow> node list" where
  "expand m = concat (map expand_entry m)"

lemma expand_simps [simp]: "expand [] = []" "expand (e # m) = expand_entry e @ expand m"
  by (simp_all add: expand_def)

lemma set_expand: "set (expand m) = (\<Union>e\<in>set m. set (expand_entry e))"
  by (auto simp: expand_def)

lemma mset_expand: "mset m = mset m' \<Longrightarrow> mset (expand m) = mset (expand m')"
proof -
  have "mset (expand m) = sum_mset (image_mset (\<lambda>e. mset (expand_entry e)) (mset m))" for m
    by (induction m) auto
  then show "mset m = mset m' \<Longrightarrow> mset (expand m) = mset (expand m')" by simp
qed

lemma insert_count_mset: "mset (expand (insert_count m n negated)) =
  add_mset (if negated then App BITVECTOR_NOT [n] else n) (mset (expand m))"
  by (induction m n negated rule: insert_count.induct) (auto simp: expand_entry_def)

lemma insert_literal_mset:
  assumes "typeOf current = Some T"
  shows "mset (expand (insert_literal m current)) = add_mset current (mset (expand m))"
proof (cases "getKind current = BITVECTOR_NOT")
  case True
  with assms obtain x where "current = App BITVECTOR_NOT [x]" by (auto simp: getKind_iff)
  then show ?thesis by (simp add: insert_literal_def insert_count_mset)
qed (simp add: insert_literal_def insert_count_mset)

definition used :: "count_map \<Rightarrow> bool" where
  "used m \<longleftrightarrow> (\<forall>e\<in>set m. c_pos (snd e) > 0 \<or> c_neg (snd e) > 0)"

lemma used_insert: "used m \<Longrightarrow> used (insert_literal m current)"
proof -
  have "used m \<Longrightarrow> used (insert_count m n negated)" for n negated
    by (induction m n negated rule: insert_count.induct) (auto simp: used_def)
  then show "used m \<Longrightarrow> used (insert_literal m current)" by (simp add: insert_literal_def)
qed

text \<open>Every literal left by the loop over the map stands for an entry; each literal of the map is kept.\<close>

lemma literal_children_set:
  "used m \<Longrightarrow> literal_children m cs = Some cs' \<Longrightarrow> set cs' = set cs \<union> set (expand m)"
  by (induction m cs rule: literal_children.induct) (auto simp: expand_entry_def used_def split: if_splits)

lemma literal_children_None:
  "literal_children m cs = None \<Longrightarrow> \<exists>n. n \<in> set (expand m) \<and> App BITVECTOR_NOT [n] \<in> set (expand m)"
  by (induction m cs rule: literal_children.induct) (auto simp: expand_entry_def split: if_splits)

subsection \<open>Soundness: conjunction and disjunction\<close>

definition neutral :: "kind \<Rightarrow> int \<Rightarrow> nat \<Rightarrow> bool" where
  "neutral k x i \<longleftrightarrow> bit x i = (k = BITVECTOR_AND)"

lemma collect_literals_value:
  assumes k: "k = BITVECTOR_AND \<and> f = bv_and \<or> k = BITVECTOR_OR \<and> f = bv_or"
    and "of_width w ns" "bv_ok c" "d_size c = w"
  shows "\<exists>c' m'. collect_literals f ns c m = Inr (c', m') \<and> bv_ok c' \<and> d_size c' = w \<and>
    (of_width w (expand m) \<longrightarrow> of_width w (expand m')) \<and> (used m \<longrightarrow> used m') \<and>
    (\<forall>\<sigma>. val_ok \<sigma> \<longrightarrow> (\<forall>i<w. neutral k (d_value c') i \<and> (\<forall>t\<in>set (expand m'). neutral k (num (eval \<sigma> t)) i) \<longleftrightarrow>
       neutral k (d_value c) i \<and> (\<forall>t\<in>set (expand m) \<union> set ns. neutral k (num (eval \<sigma> t)) i)))"
  using assms(2-)
proof (induction ns arbitrary: c m)
  case (Cons n ns)
  from Cons.prems have n: "typeOf n = Some (BitVectorType w)" "of_width w ns" by simp_all
  show ?case
  proof (cases "getKind n = CONST_BITVECTOR")
    case True
    with n obtain d where d: "n = ConstBV d" "bv_ok d" "d_size d = w" by (auto simp: getKind_const)
    obtain e where e: "f c d = Inr e" "bv_ok e" "d_size e = w" "\<And>i. neutral k (d_value e) i \<longleftrightarrow> neutral k (d_value c) i \<and> neutral k (d_value d) i"
    proof -
      have r: "0 \<le> d_value c" "d_value c < 2 ^ w" "0 \<le> d_value d" "d_value d < 2 ^ w" "0 < w" "w < 2 ^ 32"
        using Cons.prems(2,3) d by (auto simp: bv_ok_def)
      have "f c d = Inr \<lparr>d_size = w, d_value = op_fun k (d_value c) (d_value d)\<rparr>"
        using k bv_logic_sem [OF Cons.prems(2) d(2)] d(3) Cons.prems(3) by auto
      moreover have "bv_ok \<lparr>d_size = w, d_value = op_fun k (d_value c) (d_value d)\<rparr>"
        using k logic_ranges [OF r(1-4)] r(5,6) by (auto simp: bv_ok_def)
      ultimately show thesis using that k by (auto simp: neutral_def bit_simps)
    qed
    from Cons.IH [OF n(2) e(2,3), of m] show ?thesis using True d e by auto
  next
    case False
    note m = insert_literal_mset [OF n(1), of m]
    have s: "set (expand (insert_literal m n)) = insert n (set (expand m))" using arg_cong [OF m, of set_mset] by simp
    have o: "of_width w (expand m) \<Longrightarrow> of_width w (expand (insert_literal m n))" using n(1) s by (simp add: of_width_def)
    from Cons.IH [OF n(2) Cons.prems(2,3), of "insert_literal m n"] False o used_insert [of m n] show ?thesis
      unfolding s by auto
  qed
qed auto

lemma neutral_fold:
  assumes "k = BITVECTOR_AND \<or> k = BITVECTOR_OR" "ts \<noteq> []" "of_width w ts" "val_ok \<sigma>" "i < w"
  shows "neutral k (num (eval \<sigma> (App k ts))) i \<longleftrightarrow> (\<forall>t\<in>set ts. neutral k (num (eval \<sigma> t)) i)"
proof -
  have "ac_kind k" using assms(1) by auto
  from eval_ac [OF this assms(2-4)] bit_fold_set [OF assms(1), of \<sigma> ts i] assms(5) show ?thesis
    by (simp add: neutral_def bit_take_bit_iff del: eval.simps(5))
qed

lemma neutral_not:
  assumes "typeOf n = Some (BitVectorType w)" "val_ok \<sigma>" "i < w"
  shows "neutral k (num (eval \<sigma> (App BITVECTOR_NOT [n]))) i \<longleftrightarrow> \<not> neutral k (num (eval \<sigma> n)) i"
proof -
  have "sem_not w (num (eval \<sigma> n)) = take_bit w (NOT (num (eval \<sigma> n)))"
    using take_bit_not [of w "num (eval \<sigma> n)"] assms by simp
  then show ?thesis using assms(3) unfolding eval_not [OF assms(1,2)] by (auto simp: neutral_def bit_simps)
qed

lemma absorbed:
  assumes k: "k = BITVECTOR_AND \<or> k = BITVECTOR_OR" and x: "0 \<le> x" "x < 2 ^ w"
  shows "(\<And>i. i < w \<Longrightarrow> \<not> neutral k x i) \<Longrightarrow> x = (if k = BITVECTOR_AND then 0 else mask w)"
    "(\<And>i. i < w \<Longrightarrow> neutral k x i) \<Longrightarrow> x = (if k = BITVECTOR_AND then mask w else 0)"
proof -
  have tb: "take_bit w x = x" using x by (simp add: take_bit_id)
  have b: "bit x i \<longleftrightarrow> i < w \<and> bit x i" for i using tb by (metis bit_take_bit_iff)
  show "(\<And>i. i < w \<Longrightarrow> \<not> neutral k x i) \<Longrightarrow> x = (if k = BITVECTOR_AND then 0 else mask w)"
    by (rule bit_eqI) (use k b in \<open>auto simp: neutral_def bit_simps\<close>)
  show "(\<And>i. i < w \<Longrightarrow> neutral k x i) \<Longrightarrow> x = (if k = BITVECTOR_AND then mask w else 0)"
    by (rule bit_eqI) (use k b in \<open>auto simp: neutral_def bit_simps\<close>)
qed

text \<open>What the branches of the two rules return, for the constant \<open>c\<close> and the map \<open>m\<close> collected.\<close>

lemma simplify_branches:
  assumes k: "k = BITVECTOR_AND \<and> f = bv_and \<and> unit = mask w \<and> zero = 0 \<or> k = BITVECTOR_OR \<and> f = bv_or \<and> unit = 0 \<and> zero = mask w"
    and t: "typeOf (App k ts) = Some (BitVectorType w)" and h: "permutes h"
  obtains c m where "collect_literals f ts \<lparr>d_size = w, d_value = unit\<rparr> [] = Inr (c, m)" "bv_ok c" "d_size c = w"
    "\<forall>cs \<sigma>. val_ok \<sigma> \<longrightarrow> d_value c = zero \<or> literal_children (h m) cs = None \<longrightarrow> eval \<sigma> (App k ts) = VBV w zero"
    "\<forall>cs. literal_children (h m) (if d_value c \<noteq> unit then [ConstBV c] else []) = Some cs \<longrightarrow>
       (cs = [] \<longrightarrow> (\<forall>\<sigma>. val_ok \<sigma> \<longrightarrow> eval \<sigma> (App k ts) = VBV w unit)) \<and>
       (cs \<noteq> [] \<longrightarrow> of_width w cs \<and> (\<forall>\<sigma>. val_ok \<sigma> \<longrightarrow> eval \<sigma> (App k ts) = VBV w (take_bit w (fold_num k \<sigma> cs))))"
proof -
  have kk: "k = BITVECTOR_AND \<or> k = BITVECTOR_OR" and kf: "k = BITVECTOR_AND \<and> f = bv_and \<or> k = BITVECTOR_OR \<and> f = bv_or"
    and u: "unit = (if k = BITVECTOR_AND then mask w else 0)" "zero = (if k = BITVECTOR_AND then 0 else mask w)" using k by auto
  have ac: "ac_kind k" using kk by auto
  from ac_typedD [OF t ac] have ts: "ts \<noteq> []" "of_width w ts" by auto
  note w = of_width_pos [OF ts(2,1)]
  have zu: "0 \<le> unit" "unit < 2 ^ w" using u(1) by (auto simp: mask_int)
  have nu: "neutral k unit i" "\<not> neutral k zero i" if "i < w" for i using that kk u by (auto simp: neutral_def bit_simps)
  have "bv_ok \<lparr>d_size = w, d_value = unit\<rparr>" using w zu by (auto simp: bv_ok_def)
  from collect_literals_value [OF kf ts(2) this, of "[]"] obtain c m where
    cm: "collect_literals f ts \<lparr>d_size = w, d_value = unit\<rparr> [] = Inr (c, m)" "bv_ok c" "d_size c = w" "of_width w (expand m)" "used m"
    and N: "\<And>\<sigma> i. val_ok \<sigma> \<Longrightarrow> i < w \<Longrightarrow> neutral k (d_value c) i \<and> (\<forall>t\<in>set (expand m). neutral k (num (eval \<sigma> t)) i) \<longleftrightarrow>
       (\<forall>t\<in>set ts. neutral k (num (eval \<sigma> t)) i)"
    using nu by (auto simp: used_def)
  have N': "neutral k (num (eval \<sigma> (App k ts))) i \<longleftrightarrow> neutral k (d_value c) i \<and> (\<forall>t\<in>set (expand m). neutral k (num (eval \<sigma> t)) i)"
    if "val_ok \<sigma>" "i < w" for \<sigma> i
    using N [OF that] neutral_fold [OF kk ts that] by blast
  have val: "eval \<sigma> (App k ts) = VBV w x" if "val_ok \<sigma>" "num (eval \<sigma> (App k ts)) = x" for \<sigma> x
    using eval_bv(4) [OF t that(1)] that(2) by blast
  note abs = absorbed [OF kk eval_bv(2,3) [OF t]]
  have hm: "set (expand (h m)) = set (expand m)" "used (h m)"
    using h mset_expand [of "h m" m] cm(5) mset_eq_setD [of "h m" m] unfolding permutes_def used_def by (metis set_mset_mset)+
  show thesis
  proof (rule that [OF cm(1-3)]; intro allI impI)
    fix cs \<sigma> assume \<sigma>: "val_ok \<sigma>" and *: "d_value c = zero \<or> literal_children (h m) cs = None"
    have nn: "\<not> neutral k (num (eval \<sigma> (App k ts))) i" if i: "i < w" for i
      using *
    proof
      assume "d_value c = zero"
      with nu(2) [OF i] N' [OF \<sigma> i] show ?thesis by simp
    next
      assume "literal_children (h m) cs = None"
      from literal_children_None [OF this] hm(1) obtain n where n: "n \<in> set (expand m)" "App BITVECTOR_NOT [n] \<in> set (expand m)" by blast
      then have "typeOf n = Some (BitVectorType w)" using cm(4) by (simp add: of_width_def)
      from neutral_not [OF this \<sigma> i] n N' [OF \<sigma> i] show ?thesis by blast
    qed
    have "num (eval \<sigma> (App k ts)) = zero" unfolding u(2) by (rule abs(1) [OF \<sigma> \<sigma> nn])
    then show "eval \<sigma> (App k ts) = VBV w zero" by (rule val [OF \<sigma>])
  next
    fix cs assume "literal_children (h m) (if d_value c \<noteq> unit then [ConstBV c] else []) = Some cs"
    from literal_children_set [OF hm(2) this] hm(1)
    have cs: "set cs = (if d_value c \<noteq> unit then {ConstBV c} else {}) \<union> set (expand m)" by simp
    have Nc: "neutral k (num (eval \<sigma> (App k ts))) i \<longleftrightarrow> (\<forall>t\<in>set cs. neutral k (num (eval \<sigma> t)) i)" if "val_ok \<sigma>" "i < w" for \<sigma> i
      unfolding cs N' [OF that] using nu(1) [OF that(2)] by auto
    show "(cs = [] \<longrightarrow> (\<forall>\<sigma>. val_ok \<sigma> \<longrightarrow> eval \<sigma> (App k ts) = VBV w unit)) \<and>
       (cs \<noteq> [] \<longrightarrow> of_width w cs \<and> (\<forall>\<sigma>. val_ok \<sigma> \<longrightarrow> eval \<sigma> (App k ts) = VBV w (take_bit w (fold_num k \<sigma> cs))))"
    proof (intro conjI impI allI)
      fix \<sigma> assume "cs = []" "val_ok \<sigma>"
      with Nc abs(2) [of \<sigma>] u(1) val show "eval \<sigma> (App k ts) = VBV w unit" by simp
    next
      show "of_width w cs" using cs cm(2,3,4) w by (auto simp: of_width_def)
      fix \<sigma> assume \<sigma>: "val_ok \<sigma>"
      have "take_bit w (fold_num k \<sigma> ts) = take_bit w (fold_num k \<sigma> cs)"
        by (rule fold_num_set_cong [OF kk]) (use Nc [OF \<sigma>] neutral_fold [OF kk ts \<sigma>] in \<open>simp add: neutral_def\<close>)
      with eval_ac [OF ac ts \<sigma>] show "eval \<sigma> (App k ts) = VBV w (take_bit w (fold_num k \<sigma> cs))" by simp
    qed
  qed
qed

lemma bv_eq_value: "d_size c = d_size d \<Longrightarrow> bv_eq c d \<longleftrightarrow> d_value c = d_value d"
  by (simp add: bv_eq_def)

lemma AndSimplify_sound:
  assumes "permutes h"
  shows "sound_rule (AndSimplify h nid)"
proof (rule sound_ac)
  fix ts w assume *: "2 \<le> length ts" "of_width w ts" "0 < w" "w < 2147483648"
    "typeOf (App BITVECTOR_AND ts) = Some (BitVectorType w)" "rule_applies (AndSimplify h nid) (App BITVECTOR_AND ts)"
  have size: "getSize (App BITVECTOR_AND ts) = w" using getSize_typed [OF *(5)] by simp
  have k: "BITVECTOR_AND = BITVECTOR_AND \<and> bv_and = bv_and \<and> mask w = mask w \<and> (0::int) = 0 \<or>
    BITVECTOR_AND = BITVECTOR_OR \<and> bv_and = bv_or \<and> mask w = 0 \<and> (0::int) = mask w" by simp
  from simplify_branches [OF k *(5) assms] obtain c m where
    c: "collect_literals bv_and ts \<lparr>d_size = w, d_value = mask w\<rparr> [] = Inr (c, m)" "bv_ok c" "d_size c = w" and
    b: "\<forall>cs \<sigma>. val_ok \<sigma> \<longrightarrow> d_value c = 0 \<or> literal_children (h m) cs = None \<longrightarrow> eval \<sigma> (App BITVECTOR_AND ts) = VBV w 0"
    "\<forall>cs. literal_children (h m) (if d_value c \<noteq> mask w then [ConstBV c] else []) = Some cs \<longrightarrow>
       (cs = [] \<longrightarrow> (\<forall>\<sigma>. val_ok \<sigma> \<longrightarrow> eval \<sigma> (App BITVECTOR_AND ts) = VBV w (mask w))) \<and>
       (cs \<noteq> [] \<longrightarrow> of_width w cs \<and> (\<forall>\<sigma>. val_ok \<sigma> \<longrightarrow> eval \<sigma> (App BITVECTOR_AND ts) = VBV w (take_bit w (fold_num BITVECTOR_AND \<sigma> cs))))" .
  let ?cs = "if d_value c \<noteq> mask w then [ConstBV c] else []"
  have app: "rule_apply (AndSimplify h nid) (App BITVECTOR_AND ts) = (if d_value c = 0 then Inr (mkZero w) else case literal_children (h m) ?cs of
      None \<Rightarrow> Inr (mkZero w) | Some cs \<Rightarrow> if cs = [] then Inr (mkConst w (mask w)) else mkSortedNode nid BITVECTOR_AND cs)"
    using c *(3,4) by (simp add: AndSimplify_def size Let_def bv_mkOnes_sem mkOnes_eq bv_eq_value mkBitVector_def modByPow2_def mkConstBV_def
      split: option.split)
  show "rewrites_to (rule_apply (AndSimplify h nid) (App BITVECTOR_AND ts)) (BitVectorType w) (App BITVECTOR_AND ts)"
  proof (cases "d_value c = 0 \<or> literal_children (h m) ?cs = None")
    case True
    have "eval \<sigma> (App BITVECTOR_AND ts) = VBV w 0" if "val_ok \<sigma>" for \<sigma> using b(1) [rule_format, OF that True] .
    with *(3,4) have "rewrites_to (Inr (mkZero w)) (BitVectorType w) (App BITVECTOR_AND ts)" by (simp del: eval.simps(5))
    with True show ?thesis unfolding app by auto
  next
    case False
    then obtain cs where cs: "literal_children (h m) ?cs = Some cs" by auto
    with False b(2) *(3,4) mkSortedNode_ac [of BITVECTOR_AND cs w nid] show ?thesis
      unfolding app by (auto simp: rewrites_to_def simp del: eval.simps(5))
  qed
qed (simp_all add: rule_defs)

lemma OrSimplify_sound:
  assumes "permutes h"
  shows "sound_rule (OrSimplify h nid)"
proof (rule sound_ac)
  fix ts w assume *: "2 \<le> length ts" "of_width w ts" "0 < w" "w < 2147483648"
    "typeOf (App BITVECTOR_OR ts) = Some (BitVectorType w)" "rule_applies (OrSimplify h nid) (App BITVECTOR_OR ts)"
  have size: "getSize (App BITVECTOR_OR ts) = w" using getSize_typed [OF *(5)] by simp
  have k: "BITVECTOR_OR = BITVECTOR_AND \<and> bv_or = bv_and \<and> (0::int) = mask w \<and> mask w = (0::int) \<or>
    BITVECTOR_OR = BITVECTOR_OR \<and> bv_or = bv_or \<and> (0::int) = 0 \<and> (mask w :: int) = mask w" by simp
  from simplify_branches [OF k *(5) assms] obtain c m where
    c: "collect_literals bv_or ts \<lparr>d_size = w, d_value = 0\<rparr> [] = Inr (c, m)" "bv_ok c" "d_size c = w" and
    b: "\<forall>cs \<sigma>. val_ok \<sigma> \<longrightarrow> d_value c = mask w \<or> literal_children (h m) cs = None \<longrightarrow> eval \<sigma> (App BITVECTOR_OR ts) = VBV w (mask w)"
    "\<forall>cs. literal_children (h m) (if d_value c \<noteq> 0 then [ConstBV c] else []) = Some cs \<longrightarrow>
       (cs = [] \<longrightarrow> (\<forall>\<sigma>. val_ok \<sigma> \<longrightarrow> eval \<sigma> (App BITVECTOR_OR ts) = VBV w 0)) \<and>
       (cs \<noteq> [] \<longrightarrow> of_width w cs \<and> (\<forall>\<sigma>. val_ok \<sigma> \<longrightarrow> eval \<sigma> (App BITVECTOR_OR ts) = VBV w (take_bit w (fold_num BITVECTOR_OR \<sigma> cs))))" .
  let ?cs = "if d_value c \<noteq> 0 then [ConstBV c] else []"
  have app: "rule_apply (OrSimplify h nid) (App BITVECTOR_OR ts) = (if d_value c = mask w then Inr (mkConst w (mask w)) else case literal_children (h m) ?cs of
      None \<Rightarrow> Inr (mkConst w (mask w)) | Some cs \<Rightarrow> if cs = [] then Inr (mkZero w) else mkSortedNode nid BITVECTOR_OR cs)"
    using c *(3,4) by (simp add: OrSimplify_def size Let_def bv_mkOnes_sem mkOnes_eq bv_eq_value mkBitVector_def modByPow2_def mkConstBV_def
      split: option.split)
  show "rewrites_to (rule_apply (OrSimplify h nid) (App BITVECTOR_OR ts)) (BitVectorType w) (App BITVECTOR_OR ts)"
  proof (cases "d_value c = mask w \<or> literal_children (h m) ?cs = None")
    case True
    have "eval \<sigma> (App BITVECTOR_OR ts) = VBV w (mask w)" if "val_ok \<sigma>" for \<sigma> using b(1) [rule_format, OF that True] .
    with *(3,4) have "rewrites_to (Inr (mkConst w (mask w))) (BitVectorType w) (App BITVECTOR_OR ts)" by (simp del: eval.simps(5))
    with True show ?thesis unfolding app by auto
  next
    case False
    then obtain cs where cs: "literal_children (h m) ?cs = Some cs" by auto
    with False b(2) *(3,4) mkSortedNode_ac [of BITVECTOR_OR cs w nid] show ?thesis
      unfolding app by (auto simp: rewrites_to_def simp del: eval.simps(5))
  qed
qed (simp_all add: rule_defs)

subsection \<open>Soundness: exclusive or\<close>

abbreviation xor_num :: "valuation \<Rightarrow> node list \<Rightarrow> int" where
  "xor_num \<equiv> fold_num BITVECTOR_XOR"

lemma xor_num_append: "xor_num \<sigma> (xs @ ys) = xor_num \<sigma> xs XOR xor_num \<sigma> ys"
  using fold_num_append [of BITVECTOR_XOR] by simp

lemma xor_num_replicate: "xor_num \<sigma> (replicate n t) = (if odd n then num (eval \<sigma> t) else 0)"
  by (induction n) (auto simp: ac_simps)

definition const_value :: "BitVector option \<Rightarrow> int" where
  "const_value c = (case c of Some c \<Rightarrow> d_value c | None \<Rightarrow> 0)"

definition const_ok :: "nat \<Rightarrow> BitVector option \<Rightarrow> bool" where
  "const_ok w c \<longleftrightarrow> (case c of Some c \<Rightarrow> bv_ok c \<and> d_size c = w | None \<Rightarrow> True)"

lemma xor_sem:
  assumes "bv_ok c" "bv_ok d" "d_size c = w" "d_size d = w"
  obtains e where "bv_xor c d = Inr e" "bv_ok e" "d_size e = w" "d_value e = d_value c XOR d_value d"
proof -
  have "0 \<le> d_value c" "d_value c < 2 ^ w" "0 \<le> d_value d" "d_value d < 2 ^ w" "0 < w" "w < 2 ^ 32"
    using assms by (auto simp: bv_ok_def)
  then have "bv_ok \<lparr>d_size = w, d_value = d_value c XOR d_value d\<rparr>"
    using logic_ranges(3) [of "d_value c" w "d_value d"] by (simp add: bv_ok_def)
  with that [of "\<lparr>d_size = w, d_value = d_value c XOR d_value d\<rparr>"] bv_logic_sem(3) [OF assms(1,2)] assms(3,4)
  show thesis by simp
qed

lemma xor_collect_value:
  assumes "of_width w ns" "const_ok w c"
  shows "\<exists>c' m'. xor_collect ns c m = Inr (c', m') \<and> const_ok w c' \<and>
    (of_width w (expand m) \<longrightarrow> of_width w (expand m')) \<and> (used m \<longrightarrow> used m') \<and>
    (ns \<noteq> [] \<longrightarrow> c' \<noteq> None \<or> m' \<noteq> []) \<and> (c \<noteq> None \<or> m \<noteq> [] \<longrightarrow> c' \<noteq> None \<or> m' \<noteq> []) \<and>
    (\<forall>\<sigma>. xor_num \<sigma> (expand m') XOR const_value c' = xor_num \<sigma> (expand m @ ns) XOR const_value c)"
  using assms
proof (induction ns arbitrary: c m)
  case (Cons n ns)
  from Cons.prems have n: "typeOf n = Some (BitVectorType w)" "of_width w ns" by simp_all
  show ?case
  proof (cases "getKind n = CONST_BITVECTOR")
    case True
    with n obtain d where d: "n = ConstBV d" "bv_ok d" "d_size d = w" by (auto simp: getKind_const)
    obtain e where e: "xor_collect (n # ns) c m = xor_collect ns (Some e) m" "const_ok w (Some e)" "d_value e = const_value c XOR d_value d"
    proof (cases c)
      case None
      with d that [of d] show thesis by (simp add: const_ok_def const_value_def)
    next
      case (Some c0)
      with Cons.prems(2) have "bv_ok c0" "d_size c0 = w" by (simp_all add: const_ok_def)
      from xor_sem [OF this(1) d(2) this(2) d(3)] obtain e where "bv_xor c0 d = Inr e" "bv_ok e" "d_size e = w"
        "d_value e = d_value c0 XOR d_value d" .
      with d Some that [of e] show thesis by (simp add: const_ok_def const_value_def)
    qed
    from Cons.IH [OF n(2) e(2), of m] obtain c' m' where IH: "xor_collect ns (Some e) m = Inr (c', m')" "const_ok w c'"
      "of_width w (expand m) \<longrightarrow> of_width w (expand m')" "used m \<longrightarrow> used m'" "c' \<noteq> None \<or> m' \<noteq> []"
      "\<forall>\<sigma>. xor_num \<sigma> (expand m') XOR const_value c' = xor_num \<sigma> (expand m @ ns) XOR const_value (Some e)"
      by blast
    have "xor_num \<sigma> (expand m @ ns) XOR const_value (Some e) = xor_num \<sigma> (expand m @ n # ns) XOR const_value c" for \<sigma>
      using e(3) d(1) by (simp add: xor_num_append const_value_def ac_simps)
    with IH e(1) show ?thesis by auto
  next
    case False
    note m = insert_literal_mset [OF n(1), of m]
    have s: "set (expand (insert_literal m n)) = insert n (set (expand m))" using arg_cong [OF m, of set_mset] by simp
    have o: "of_width w (expand m) \<Longrightarrow> of_width w (expand (insert_literal m n))" using n(1) s by (simp add: of_width_def)
    have "insert_count m x b \<noteq> []" for x b by (induction m x b rule: insert_count.induct) auto
    then have ne: "insert_literal m n \<noteq> []" by (simp add: insert_literal_def)
    have x: "xor_num \<sigma> (expand (insert_literal m n) @ ns) = xor_num \<sigma> (expand m @ n # ns)" for \<sigma>
      by (rule fold_num_mset) (simp_all add: m)
    from Cons.IH [OF n(2) Cons.prems(2), of "insert_literal m n"] False o ne used_insert [of m n] show ?thesis
      unfolding x by auto
  qed
qed auto

lemma xor_children_value:
  assumes "of_width w (expand m)" "used m" "xor_children m tc seen cs = (tc', seen', cs')"
  shows "(of_width w cs \<longrightarrow> of_width w cs') \<and> (m \<noteq> [] \<or> tc \<noteq> 0 \<or> seen \<or> cs \<noteq> [] \<longrightarrow> tc' \<noteq> 0 \<or> seen' \<or> cs' \<noteq> []) \<and>
    (\<forall>\<sigma>. val_ok \<sigma> \<longrightarrow> xor_num \<sigma> cs' XOR (if odd tc' then mask w else 0) =
       xor_num \<sigma> (expand m) XOR xor_num \<sigma> cs XOR (if odd tc then mask w else 0))"
  using assms
proof (induction m arbitrary: tc seen cs)
  case (Cons e rest)
  obtain n c where e: "e = (n, c)" by fastforce
  define tc2 where "tc2 = (if odd (c_pos c) \<and> odd (c_neg c) then tc + 1 else tc)"
  define seen2 where "seen2 \<longleftrightarrow> seen \<or> c_pos c > 1 \<or> c_neg c > 1"
  define cs2 where "cs2 = cs @ (if odd (c_pos c) \<and> odd (c_neg c) then [] else if odd (c_pos c) then [n]
    else if odd (c_neg c) then [App BITVECTOR_NOT [n]] else [])"
  have step: "xor_children rest tc2 seen2 cs2 = (tc', seen', cs')"
    using Cons.prems(3) by (auto simp: e tc2_def seen2_def cs2_def Let_def split: if_splits)
  have used: "c_pos c > 0 \<or> c_neg c > 0" "used rest" using Cons.prems(2) by (auto simp: e used_def)
  have rest: "of_width w (expand rest)" using Cons.prems(1) by simp
  have n: "typeOf n = Some (BitVectorType w)"
    using Cons.prems(1) used(1) by (auto simp: e expand_entry_def of_width_def)
  have ne: "tc \<noteq> 0 \<or> tc2 \<noteq> 0 \<or> seen2 \<or> cs2 \<noteq> []"
    using used(1) by (auto simp: tc2_def seen2_def cs2_def not_less le_Suc_eq)
  have w: "of_width w cs \<longrightarrow> of_width w cs2" using n by (simp add: cs2_def isBitVector_iff)
  have x: "xor_num \<sigma> cs2 XOR (if odd tc2 then mask w else 0) = xor_num \<sigma> (expand_entry e) XOR xor_num \<sigma> cs XOR (if odd tc then mask w else 0)"
    if "val_ok \<sigma>" for \<sigma>
  proof -
    let ?x = "num (eval \<sigma> n)"
    have nn: "num (eval \<sigma> (App BITVECTOR_NOT [n])) = mask w XOR ?x"
      using mask_xor [of w ?x] n that unfolding eval_not [OF n that] by simp
    have m: "x XOR (mask w XOR x) = mask w" "mask w XOR (mask w XOR x) = x" "x XOR (x XOR z) = z" for x z :: int
      by (rule bit_eqI; auto simp: bit_simps)+
    show ?thesis unfolding expand_entry_def xor_num_append xor_num_replicate tc2_def cs2_def e
      by (cases "odd (c_pos c)"; cases "odd (c_neg c)"; cases "odd tc") (simp_all add: xor_num_append nn m ac_simps del: eval.simps(5))
  qed
  note IH = Cons.IH [OF rest used(2) step]
  have "seen \<longrightarrow> seen2" "cs \<noteq> [] \<longrightarrow> cs2 \<noteq> []" "tc \<noteq> 0 \<longrightarrow> tc2 \<noteq> 0" by (simp_all add: seen2_def cs2_def tc2_def)
  with IH ne have ne': "tc' \<noteq> 0 \<or> seen' \<or> cs' \<noteq> []" by blast
  have "xor_num \<sigma> cs' XOR (if odd tc' then mask w else 0) = xor_num \<sigma> (expand (e # rest)) XOR xor_num \<sigma> cs XOR (if odd tc then mask w else 0)"
    if "val_ok \<sigma>" for \<sigma>
  proof -
    have "xor_num \<sigma> cs' XOR (if odd tc' then mask w else 0) = xor_num \<sigma> (expand rest) XOR (xor_num \<sigma> cs2 XOR (if odd tc2 then mask w else 0))"
      using IH that by (simp only: xor.assoc)
    also have "\<dots> = xor_num \<sigma> (expand (e # rest)) XOR xor_num \<sigma> cs XOR (if odd tc then mask w else 0)"
      unfolding x [OF that] expand_simps xor_num_append by (simp only: ac_simps)
    finally show ?thesis .
  qed
  with IH w ne' show ?case by blast
qed simp

lemma xor_constants_value:
  "const_ok w (Some c) \<Longrightarrow> \<forall>d\<in>set ds. const_ok w (Some d) \<Longrightarrow>
   \<exists>e. xor_constants c ds = Inr e \<and> const_ok w (Some e) \<and> d_value e = foldr (XOR) (map d_value (c # ds)) 0"
proof (induction ds arbitrary: c)
  case (Cons d ds)
  then have c: "bv_ok c" "d_size c = w" "bv_ok d" "d_size d = w" by (simp_all add: const_ok_def)
  from xor_sem [OF c(1,3,2,4)] obtain e where e: "bv_xor c d = Inr e" "bv_ok e" "d_size e = w" "d_value e = d_value c XOR d_value d" .
  with Cons.IH [of e] Cons.prems show ?case by (auto simp: const_ok_def ac_simps)
qed simp

lemma XorSimplify_sound:
  assumes "permutes h"
  shows "sound_rule (XorSimplify h nid)"
proof (rule sound_ac)
  fix ts w assume *: "2 \<le> length ts" "of_width w ts" "0 < w" "w < 2147483648"
    "typeOf (App BITVECTOR_XOR ts) = Some (BitVectorType w)" "rule_applies (XorSimplify h nid) (App BITVECTOR_XOR ts)"
  have size: "getSize (App BITVECTOR_XOR ts) = w" using getSize_typed [OF *(5)] by simp
  have ts: "ts \<noteq> []" using *(1) by auto
  from xor_collect_value [OF *(2), of None "[]"] ts obtain c m where
    c: "xor_collect ts None [] = Inr (c, m)" "const_ok w c" "of_width w (expand m)" "used m" "c \<noteq> None \<or> m \<noteq> []"
    "\<forall>\<sigma>. xor_num \<sigma> (expand m) XOR const_value c = xor_num \<sigma> ts"
    by (auto simp: const_ok_def const_value_def used_def)
  have hm: "mset (h m) = mset m" using assms by (simp add: permutes_def)
  have hm': "of_width w (expand (h m))" "used (h m)" "h m = [] \<longleftrightarrow> m = []"
    using c(3,4) of_width_mset [OF mset_expand [OF hm]] mset_eq_setD [OF hm] hm by (auto simp: used_def)
  have xm: "xor_num \<sigma> (expand (h m)) = xor_num \<sigma> (expand m)" for \<sigma>
    by (rule fold_num_mset) (simp_all add: mset_expand [OF hm])
  obtain tc seen cs where l: "xor_children (h m) 0 False [] = (tc, seen, cs)" by (metis surj_pair)
  from xor_children_value [OF hm'(1,2) l] hm'(3)
  have cs: "of_width w cs" "m \<noteq> [] \<Longrightarrow> tc \<noteq> 0 \<or> seen \<or> cs \<noteq> []"
    "val_ok \<sigma> \<Longrightarrow> xor_num \<sigma> cs XOR (if odd tc then mask w else 0) = xor_num \<sigma> (expand m)" for \<sigma>
    by (auto simp: xm)
  let ?ones = "\<lparr>d_size = w, d_value = mask w\<rparr>" and ?zero = "\<lparr>d_size = w, d_value = 0\<rparr>"
  define ks where "ks = (if tc \<noteq> 0 then [if odd tc then ?ones else ?zero] else []) @ (if seen then [?zero] else []) @
    (case c of Some c \<Rightarrow> [c] | None \<Rightarrow> [])"
  have ks: "\<forall>k\<in>set ks. const_ok w (Some k)" "foldr (XOR) (map d_value ks) 0 = (if odd tc then mask w else 0) XOR const_value c"
    using c(2) *(3,4) by (auto simp: ks_def const_ok_def const_value_def bv_ok_def mask_int split: option.splits)
  define us where "us = (case ks of [] \<Rightarrow> Inr cs | k # rest \<Rightarrow> and_then (xor_constants k rest) (\<lambda>res. Inr (cs @ [mkConstBV res])))"
  have app: "rule_apply (XorSimplify h nid) (App BITVECTOR_XOR ts) = and_then us (\<lambda>cs. Assert (cs \<noteq> []) (mkSortedNode nid BITVECTOR_XOR cs))"
    using *(3,4) by (simp add: XorSimplify_def size Let_def c(1) l bv_mkOnes_sem mkBitVector_def modByPow2_def us_def ks_def)
  obtain vs where vs: "us = Inr vs" "vs \<noteq> []" "of_width w vs" "\<And>\<sigma>. val_ok \<sigma> \<Longrightarrow> xor_num \<sigma> vs = xor_num \<sigma> ts"
  proof (cases ks)
    case Nil
    then have z: "tc = 0" "\<not> seen" "c = None" by (auto simp: ks_def split: if_splits option.splits)
    with cs c(5,6) that [of cs] Nil show thesis by (auto simp: us_def const_value_def)
  next
    case (Cons k rest)
    with xor_constants_value [of w k rest] ks obtain e where e: "xor_constants k rest = Inr e" "const_ok w (Some e)"
      "d_value e = (if odd tc then mask w else 0) XOR const_value c" by auto
    have "xor_num \<sigma> (cs @ [mkConstBV e]) = xor_num \<sigma> ts" if "val_ok \<sigma>" for \<sigma>
    proof -
      have "xor_num \<sigma> (cs @ [mkConstBV e]) = (xor_num \<sigma> cs XOR (if odd tc then mask w else 0)) XOR const_value c"
        by (simp add: xor_num_append mkConstBV_def e(3) ac_simps)
      then show ?thesis using cs(3) [OF that] c(6) by simp
    qed
    moreover have "of_width w (cs @ [mkConstBV e])" using cs(1) e(2) *(4) by (simp add: mkConstBV_def const_ok_def)
    ultimately show thesis using that [of "cs @ [mkConstBV e]"] Cons e(1) by (simp add: us_def)
  qed
  from mkSortedNode_ac [of BITVECTOR_XOR, OF _ vs(2,3), of nid] eval_ac [of BITVECTOR_XOR ts w] ts *(2) vs(4) vs(1,2)
  show "rewrites_to (rule_apply (XorSimplify h nid) (App BITVECTOR_XOR ts)) (BitVectorType w) (App BITVECTOR_XOR ts)"
    unfolding app by (auto simp: rewrites_to_def simp del: eval.simps(5))
qed (simp_all add: rule_defs)

subsection \<open>The hash order does not show\<close>

lemma literal_children_eq: "literal_children m cs = (if \<exists>e\<in>set m. c_pos (snd e) > 0 \<and> c_neg (snd e) > 0 then None
  else Some (cs @ map (\<lambda>e. if c_neg (snd e) > 0 then App BITVECTOR_NOT [fst e] else fst e) m))"
  by (induction m cs rule: literal_children.induct) auto

lemma xor_children_eq: "xor_children m tc seen cs =
  (tc + length (filter (\<lambda>e. odd (c_pos (snd e)) \<and> odd (c_neg (snd e))) m), seen \<or> (\<exists>e\<in>set m. c_pos (snd e) > 1 \<or> c_neg (snd e) > 1),
   cs @ map (\<lambda>e. if odd (c_pos (snd e)) then fst e else App BITVECTOR_NOT [fst e])
     (filter (\<lambda>e. odd (c_pos (snd e)) \<noteq> odd (c_neg (snd e))) m))"
  by (induction m tc seen cs rule: xor_children.induct) (auto simp: Let_def)

lemma mkSortedNode_mset: "inj nid \<Longrightarrow> mset xs = mset ys \<Longrightarrow> mkSortedNode nid k xs = mkSortedNode nid k ys"
proof -
  assume "inj nid" "mset xs = mset ys"
  then have "sort_key nid xs = sort_key nid ys" "length xs = length ys"
    by (auto intro!: sort_key_inj_key_eq inj_on_subset [of nid UNIV] dest: mset_eq_length)
  moreover have "length xs = 1 \<Longrightarrow> xs = ys" using \<open>mset xs = mset ys\<close> by (cases xs; cases ys) auto
  ultimately show ?thesis by (auto simp: mkSortedNode_def)
qed

lemma hash_order_literals:
  assumes "permutes h" "permutes h'" "inj nid" "\<And>cs cs'. mset cs = mset cs' \<Longrightarrow> K (Some cs) = K (Some cs')"
  shows "K (literal_children (h m) cs) = K (literal_children (h' m) cs)"
proof -
  have m: "mset (h m) = mset (h' m)" using assms(1,2) by (simp add: permutes_def)
  then have "set (h m) = set (h' m)" by (rule mset_eq_setD)
  with m show ?thesis unfolding literal_children_eq by (auto intro: assms(4))
qed

lemma AndSimplify_order:
  assumes "permutes h" "permutes h'" "inj nid"
  shows "rule_apply (AndSimplify h nid) n = rule_apply (AndSimplify h' nid) n"
proof -
  let ?K = "\<lambda>r. case r of None \<Rightarrow> Inr (mkZero (getSize n)) | Some cs \<Rightarrow> if cs = [] then mkOnes (getSize n) else mkSortedNode nid BITVECTOR_AND cs"
  have "?K (Some cs) = ?K (Some cs')" if "mset cs = mset cs'" for cs cs'
    using mkSortedNode_mset [OF assms(3) that] that by auto
  then have K: "?K (literal_children (h m) cs) = ?K (literal_children (h' m) cs)" for m cs
    by (rule hash_order_literals [OF assms])
  show ?thesis by (simp only: AndSimplify_def rule.select_convs Let_def K)
qed

lemma OrSimplify_order:
  assumes "permutes h" "permutes h'" "inj nid"
  shows "rule_apply (OrSimplify h nid) n = rule_apply (OrSimplify h' nid) n"
proof -
  let ?K = "\<lambda>r. case r of None \<Rightarrow> mkOnes (getSize n) | Some cs \<Rightarrow> if cs = [] then Inr (mkZero (getSize n)) else mkSortedNode nid BITVECTOR_OR cs"
  have "?K (Some cs) = ?K (Some cs')" if "mset cs = mset cs'" for cs cs'
    using mkSortedNode_mset [OF assms(3) that] that by auto
  then have K: "?K (literal_children (h m) cs) = ?K (literal_children (h' m) cs)" for m cs
    by (rule hash_order_literals [OF assms])
  show ?thesis by (simp only: OrSimplify_def rule.select_convs Let_def K)
qed

lemma XorSimplify_order:
  assumes "permutes h" "permutes h'" "inj nid"
  shows "rule_apply (XorSimplify h nid) n = rule_apply (XorSimplify h' nid) n"
proof -
  have F: "(case ks of [] \<Rightarrow> Inr cs | c # rest \<Rightarrow> and_then (xor_constants c rest) (\<lambda>res. Inr (cs @ [mkConstBV res]))) =
    and_then (case ks of [] \<Rightarrow> Inr [] | c # rest \<Rightarrow> and_then (xor_constants c rest) (\<lambda>res. Inr [mkConstBV res])) (\<lambda>l. Inr (cs @ l))" for ks cs
  proof (cases ks)
    case (Cons c rest)
    then show ?thesis by (cases "xor_constants c rest") auto
  qed simp
  have m: "mset (h m) = mset (h' m)" "set (h m) = set (h' m)" for m
    using assms(1,2) mset_eq_setD [of "h m" "h' m"] by (auto simp: permutes_def)
  define lits where "lits m = map (\<lambda>e. if odd (c_pos (snd e)) then fst e else App BITVECTOR_NOT [fst e])
     (filter (\<lambda>e. odd (c_pos (snd e)) \<noteq> odd (c_neg (snd e))) m)" for m :: count_map
  define fin where "fin cs = (\<lambda>l. Assert (cs @ l \<noteq> []) (mkSortedNode nid BITVECTOR_XOR (cs @ l)))" for cs
  have len: "length (filter (\<lambda>e. odd (c_pos (snd e)) \<and> odd (c_neg (snd e))) (h m)) =
    length (filter (\<lambda>e. odd (c_pos (snd e)) \<and> odd (c_neg (snd e))) (h' m))" for m
  proof -
    have "mset (filter P (h m)) = mset (filter P (h' m))" for P by (simp only: mset_filter m(1))
    then show ?thesis by (rule mset_eq_length)
  qed
  have "mset (lits (h m)) = mset (lits (h' m))" for m using m(1) by (simp add: lits_def)
  then have fin: "fin (lits (h m)) = fin (lits (h' m))" for m
    using mkSortedNode_mset [OF assms(3), of "lits (h m) @ l" "lits (h' m) @ l" for l]
    by (auto simp: fin_def fun_eq_iff Assert_def) (metis mset_zero_iff)+
  have bind: "and_then (and_then r (\<lambda>l. Inr (cs @ l))) (\<lambda>cs. Assert (cs \<noteq> []) (mkSortedNode nid BITVECTOR_XOR cs)) = and_then r (fin cs)" for r cs
    by (cases r) (simp_all add: fin_def)
  show ?thesis
    unfolding XorSimplify_def rule.select_convs Let_def xor_children_eq F bind prod.case append_Nil lits_def [symmetric] fin len m(2) ..
qed

subsection \<open>Identifiers exist\<close>

text \<open>Nodes are countable, so that identifiers which tell all nodes apart exist.\<close>

instance BitVector_ext :: (countable) countable
proof (rule countable_classI [of "\<lambda>b. to_nat (d_size b, d_value b, BitVector.more b)"])
  fix x y :: "'a BitVector_scheme"
  assume "to_nat (d_size x, d_value x, BitVector.more x) = to_nat (d_size y, d_value y, BitVector.more y)"
  then show "x = y" by (cases x; cases y) simp
qed

instance kind :: countable by countable_datatype
instance ntype :: countable by countable_datatype
instance node :: countable by countable_datatype

subsection \<open>Properties\<close>

lemma permutes_id: "permutes (\<lambda>m. m)" "permutes rev"
  by (simp_all add: permutes_def)

lemmas logic_sound = AndSimplify_sound OrSimplify_sound XorSimplify_sound
lemmas logic_order = AndSimplify_order OrSimplify_order XorSimplify_order

text \<open>C33: \<open>AndSimplify\<close>, \<open>OrSimplify\<close> and \<open>XorSimplify\<close> keep type and value in whatever order the hash map is iterated:
  duplicates, a term with its negation, and constants are folded, and no assertion fails.\<close>

theorem logic_simplification_sound:
  assumes "permutes hash_order" "r \<in> {AndSimplify hash_order nid, OrSimplify hash_order nid, XorSimplify hash_order nid}"
    and "typeOf n = Some T" "rule_applies r n"
  shows "\<exists>n'. rule_apply r n = Inr n' \<and> equiv n' n"
proof -
  have "sound_rule r" using assms(2) logic_sound [OF assms(1)] by blast
  with assms(3,4) show ?thesis by (auto simp: sound_rule_def rewrites_to_equiv)
qed

theorem logic_simplification_sound_witness:
  "\<exists>n'. rule_apply (XorSimplify (\<lambda>m. m) (\<lambda>n. 0)) (App BITVECTOR_XOR [Var 0 (BitVectorType 8), App BITVECTOR_NOT [Var 0 (BitVectorType 8)]]) = Inr n'
    \<and> equiv n' (App BITVECTOR_XOR [Var 0 (BitVectorType 8), App BITVECTOR_NOT [Var 0 (BitVectorType 8)]])"
  by (rule logic_simplification_sound [where hash_order = "\<lambda>m. m" and nid = "\<lambda>n. 0" and T = "BitVectorType 8"])
    (simp_all add: permutes_id XorSimplify_def isBitVector_iff)

text \<open>The node that the three rules build does not depend on the iteration order of the hash map, when
  different nodes have different identifiers.\<close>

theorem hash_order_irrelevant:
  assumes "permutes h" "permutes h'" "inj nid"
  shows "rule_apply (AndSimplify h nid) n = rule_apply (AndSimplify h' nid) n \<and>
    rule_apply (OrSimplify h nid) n = rule_apply (OrSimplify h' nid) n \<and>
    rule_apply (XorSimplify h nid) n = rule_apply (XorSimplify h' nid) n"
  using logic_order [OF assms] by blast

theorem hash_order_irrelevant_witness:
  "rule_apply (AndSimplify (\<lambda>m. m) to_nat) (App BITVECTOR_AND [Var 0 (BitVectorType 4), Var 1 (BitVectorType 4)]) =
   rule_apply (AndSimplify rev to_nat) (App BITVECTOR_AND [Var 0 (BitVectorType 4), Var 1 (BitVectorType 4)])"
  using hash_order_irrelevant [OF permutes_id inj_to_nat] by blast

end
