(* ===== verification/Rules_Normalize_Sum.thy ===== *)
theory Rules_Normalize_Sum
  imports Rules_Normalize_Mult
begin

section \<open>Normalization rules: sums and products with coefficients\<close>

text \<open>
  \<open>theory/bv/theory_bv_rewrite_rules_normalization.h\<close>, fourth part: \<open>PlusCombineLikeTerms\<close>
  collects the terms of a sum with their coefficients in a \<open>std::map\<close> and rebuilds the sum, and \<open>MultSimplify\<close> folds
  the constants and signs of a product. A \<open>std::map\<close> from nodes to constants is the list of its entries in the order
  of the identifiers of the nodes.
\<close>

subsection \<open>Coefficients\<close>

type_synonym coef_map = "(node \<times> BitVector) list"

fun addToCoefMap :: "(node \<Rightarrow> nat) \<Rightarrow> coef_map \<Rightarrow> node \<Rightarrow> BitVector \<Rightarrow> coef_map result" where
  "addToCoefMap nid [] term coef = Inr [(term, coef)]"
| "addToCoefMap nid ((t, c) # entries) term coef =
     (if t = term then and_then (bv_add c coef) (\<lambda>s. Inr ((t, s) # entries))
      else if nid term < nid t then Inr ((term, coef) # (t, c) # entries)
      else and_then (addToCoefMap nid entries term coef) (\<lambda>entries. Inr ((t, c) # entries)))"

text \<open>The coefficient and the term of a product, and the products for which the assertions hold: only the last
  factor may be a constant.\<close>

definition mult_coefficient :: "node \<Rightarrow> nat \<Rightarrow> (BitVector \<times> node) result" where
  "mult_coefficient current sz =
     (let one = mkBitVector sz 1; n = getNumChildren current
      in if n = 2 then
           Assert (\<not> isConst (child current 0))
             (if isConst (child current 1) then Inr (getConstBV (child current 1), child current 0)
              else Inr (one, current))
         else if isConst (child current (n - 1)) then
           Assert (\<forall>c \<in> set (butlast (children current)). \<not> isConst c)
             (Inr (getConstBV (child current (n - 1)), App BITVECTOR_MULT (butlast (children current))))
         else Inr (one, current))"

definition updateCoefMap :: "(node \<Rightarrow> nat) \<Rightarrow> node \<Rightarrow> nat \<Rightarrow> coef_map \<Rightarrow> BitVector \<Rightarrow> (coef_map \<times> BitVector) result" where
  "updateCoefMap nid current sz entries constSum =
     (let with_const = (\<lambda>m. Inr (m, constSum)); one = mkBitVector sz 1; k = getKind current
      in if k = BITVECTOR_MULT then
           and_then (mult_coefficient current sz) (\<lambda>(coeff, term).
             if getKind term = BITVECTOR_SUB then
               and_then (addToCoefMap nid entries (child term 0) coeff) (\<lambda>entries.
               and_then (bv_neg coeff) (\<lambda>minus.
               and_then (addToCoefMap nid entries (child term 1) minus) with_const))
             else if getKind term = BITVECTOR_NEG then
               and_then (bv_neg \<lparr>d_size = sz, d_value = d_value coeff\<rparr>) (\<lambda>minus.
               and_then (addToCoefMap nid entries (child term 0) minus) with_const)
             else and_then (addToCoefMap nid entries term coeff) with_const)
         else if k = BITVECTOR_SUB then
           Assert (getNumChildren current = 2)
             (and_then (addToCoefMap nid entries (child current 0) one) (\<lambda>entries.
              and_then (bv_neg one) (\<lambda>minus.
              and_then (addToCoefMap nid entries (child current 1) minus) with_const)))
         else if k = BITVECTOR_NEG then
           and_then (bv_neg one) (\<lambda>minus. and_then (addToCoefMap nid entries (child current 0) minus) with_const)
         else if k = CONST_BITVECTOR then
           and_then (bv_add constSum (getConstBV current)) (\<lambda>s. Inr (entries, s))
         else and_then (addToCoefMap nid entries current one) with_const)"

fun updateCoefMaps :: "(node \<Rightarrow> nat) \<Rightarrow> node list \<Rightarrow> nat \<Rightarrow> coef_map \<Rightarrow> BitVector \<Rightarrow> (coef_map \<times> BitVector) result" where
  "updateCoefMaps nid [] sz entries constSum = Inr (entries, constSum)"
| "updateCoefMaps nid (n # ns) sz entries constSum =
     and_then (updateCoefMap nid n sz entries constSum) (\<lambda>(entries, constSum). updateCoefMaps nid ns sz entries constSum)"

definition addToChildren :: "node \<Rightarrow> nat \<Rightarrow> BitVector \<Rightarrow> node list \<Rightarrow> node list result" where
  "addToChildren term sz coeff cs =
     (if bv_eq coeff (mkBitVector sz 0) then Inr cs
      else if bv_eq coeff (mkBitVector sz 1) then Inr (cs @ [term])
      else and_then (bv_neg (mkBitVector sz 1)) (\<lambda>minus_one.
        if bv_eq coeff minus_one then Inr (cs @ [App BITVECTOR_NEG [term]])
        else if getKind term = BITVECTOR_MULT then Inr (cs @ [App BITVECTOR_MULT (children term @ [mkConstBV coeff])])
        else Inr (cs @ [App BITVECTOR_MULT [term, mkConstBV coeff]])))"

fun add_entries :: "nat \<Rightarrow> coef_map \<Rightarrow> node list \<Rightarrow> node list result" where
  "add_entries sz [] cs = Inr cs"
| "add_entries sz ((t, c) # entries) cs = and_then (addToChildren t sz c cs) (add_entries sz entries)"

definition PlusCombineLikeTerms :: "(node \<Rightarrow> nat) \<Rightarrow> rule" where
  [rule_defs]: "PlusCombineLikeTerms nid = \<lparr>
    rule_applies = (\<lambda>node. getKind node = BITVECTOR_PLUS),
    rule_apply = (\<lambda>node.
      let sz = getSize node; zero = mkBitVector sz 0
      in and_then (updateCoefMaps nid (children node) sz [] zero) (\<lambda>(factorToCoefficient, constSum).
         and_then (add_entries sz factorToCoefficient []) (\<lambda>cs.
           let cs = (if \<not> bv_eq constSum zero then cs @ [mkConstBV constSum] else cs); csize = length cs
           in if csize = getNumChildren node then Inr node
              else if csize = 0 then Inr (mkZero sz)
              else Inr (mkNaryNode BITVECTOR_PLUS cs))))\<rparr>"

subsection \<open>Products\<close>

text \<open>The loop over the factors; \<open>None\<close> is the early return when the constant becomes zero.\<close>

fun MultSimplify_loop :: "nat \<Rightarrow> node list \<Rightarrow> BitVector \<Rightarrow> bool \<Rightarrow> node list \<Rightarrow> (BitVector \<times> bool \<times> node list) option result" where
  "MultSimplify_loop sz [] constant isNeg cs = Inr (Some (constant, isNeg, cs))"
| "MultSimplify_loop sz (current # ns) constant isNeg cs =
     (let (c, isNeg) = (if getKind current = BITVECTOR_NEG then (child current 0, \<not> isNeg) else (current, isNeg))
      in if getKind c = CONST_BITVECTOR
         then and_then (bv_mult constant (getConstBV c)) (\<lambda>constant.
           if bv_eq constant (mkBitVector sz 0) then Inr None else MultSimplify_loop sz ns constant isNeg cs)
         else MultSimplify_loop sz ns constant isNeg (cs @ [c]))"

definition MultSimplify :: "(node \<Rightarrow> nat) \<Rightarrow> rule" where
  [rule_defs]: "MultSimplify nid = \<lparr>
    rule_applies = (\<lambda>node. getKind node = BITVECTOR_MULT),
    rule_apply = (\<lambda>node.
      let sz = getSize node
      in and_then (MultSimplify_loop sz (children node) (mkBitVector sz 1) False []) (\<lambda>r.
         case r of
           None \<Rightarrow> Inr (mkConst sz 0)
         | Some (constant, isNeg, cs) \<Rightarrow>
             and_then (bv_mkOnes sz) (\<lambda>noValue.
             and_then (bv_neg constant) (\<lambda>minus.
               if cs = [] then Inr (mkConstBV (if isNeg then minus else constant))
               else
                 let cs = sort_key nid cs;
                     (isNeg, cs) =
                       (if bv_eq constant noValue then (\<not> isNeg, cs)
                        else if \<not> bv_eq constant (mkBitVector sz 1)
                        then (False, cs @ [mkConstBV (if isNeg then minus else constant)])
                        else (isNeg, cs));
                     ret = mkNaryNode BITVECTOR_MULT cs
                 in Inr (if isNeg \<and> sz > 1 then App BITVECTOR_NEG [ret] else ret)))))\<rparr>"

subsection \<open>Congruence\<close>

definition eqm :: "nat \<Rightarrow> int \<Rightarrow> int \<Rightarrow> bool" where
  "eqm w x y \<longleftrightarrow> take_bit w x = take_bit w y"

lemma eqm_refl [simp]: "eqm w x x"
  and eqm_sym: "eqm w x y \<Longrightarrow> eqm w y x"
  and eqm_trans [trans]: "eqm w x y \<Longrightarrow> eqm w y z \<Longrightarrow> eqm w x z"
  by (simp_all add: eqm_def)

lemma eqm_take_bit [simp]: "eqm w (take_bit w x) y \<longleftrightarrow> eqm w x y" "eqm w x (take_bit w y) \<longleftrightarrow> eqm w x y"
  by (simp_all add: eqm_def)

lemma eqm_add: "eqm w x x' \<Longrightarrow> eqm w y y' \<Longrightarrow> eqm w (x + y) (x' + y')"
  unfolding eqm_def by (rule plus_op.trunc_cong)

lemma eqm_mult: "eqm w x x' \<Longrightarrow> eqm w y y' \<Longrightarrow> eqm w (x * y) (x' * y')"
  unfolding eqm_def by (rule mult_op.trunc_cong)

lemma eqm_minus: "eqm w x x' \<Longrightarrow> eqm w (- x) (- x')"
  using eqm_mult [OF eqm_refl [of w "- 1"]] by fastforce

lemma eqm_diff: "eqm w x x' \<Longrightarrow> eqm w y y' \<Longrightarrow> eqm w (x - y) (x' - y')"
  using eqm_add [OF _ eqm_minus] by fastforce

lemma eqm_sem:
  "eqm w (sem_neg w x) (- x)" "eqm w (sem_sub w x y) (x - y)" "eqm w (sem_add w x y) (x + y)" "eqm w (sem_mul w x y) (x * y)"
  by (simp_all add: sem_neg_def sem_sub_def sem_add_def sem_mul_def)

text \<open>The congruence of the values of terms with their operators.\<close>

lemma eqm_eval:
  assumes "typeOf t = Some (BitVectorType w)" "val_ok \<sigma>"
  shows "getKind t = BITVECTOR_NEG \<Longrightarrow> typeOf (child t 0) = Some (BitVectorType w) \<and> eqm w (num (eval \<sigma> t)) (- num (eval \<sigma> (child t 0)))"
    "getKind t = BITVECTOR_SUB \<Longrightarrow> length (children t) = 2 \<and> typeOf (child t 0) = Some (BitVectorType w) \<and> typeOf (child t 1) = Some (BitVectorType w) \<and>
       eqm w (num (eval \<sigma> t)) (num (eval \<sigma> (child t 0)) - num (eval \<sigma> (child t 1)))"
    "getKind t = BITVECTOR_MULT \<Longrightarrow> 2 \<le> length (children t) \<and> of_width w (children t) \<and> eqm w (num (eval \<sigma> t)) (fold_num BITVECTOR_MULT \<sigma> (children t))"
proof -
  show "getKind t = BITVECTOR_NEG \<Longrightarrow> typeOf (child t 0) = Some (BitVectorType w) \<and> eqm w (num (eval \<sigma> t)) (- num (eval \<sigma> (child t 0)))"
    using assms by (auto simp: getKind_iff isBitVector_iff eqm_sem)
  show "getKind t = BITVECTOR_SUB \<Longrightarrow> length (children t) = 2 \<and> typeOf (child t 0) = Some (BitVectorType w) \<and> typeOf (child t 1) = Some (BitVectorType w) \<and>
       eqm w (num (eval \<sigma> t)) (num (eval \<sigma> (child t 0)) - num (eval \<sigma> (child t 1)))"
    using assms by (auto simp: getKind_iff isBitVector_iff eqm_sem length_Suc_conv numeral_2_eq_2)
  assume "getKind t = BITVECTOR_MULT"
  then obtain ts where t: "t = App BITVECTOR_MULT ts" by (auto simp: getKind_iff)
  from ac_typedD [OF assms(1) [unfolded t]] have ts: "2 \<le> length ts" "ts \<noteq> []" "of_width w ts" by auto
  with eval_ac [of BITVECTOR_MULT ts w \<sigma>] assms(2) show "2 \<le> length (children t) \<and> of_width w (children t) \<and>
     eqm w (num (eval \<sigma> t)) (fold_num BITVECTOR_MULT \<sigma> (children t))"
    by (simp add: t del: eval.simps(5))
qed

lemma rewrites_to_values: "typeOf m = Some T \<Longrightarrow> (\<And>\<sigma>. val_ok \<sigma> \<Longrightarrow> eval \<sigma> n = VBV w (x \<sigma>)) \<Longrightarrow>
  (\<And>\<sigma>. val_ok \<sigma> \<Longrightarrow> eval \<sigma> m = VBV w (x \<sigma>)) \<Longrightarrow> rewrites_to (Inr m) T n"
  by (simp only: rewrites_to_Inr) simp

subsection \<open>The sum that a map stands for\<close>

definition map_ok :: "nat \<Rightarrow> coef_map \<Rightarrow> bool" where
  "map_ok w m \<longleftrightarrow> (\<forall>(t, c)\<in>set m. typeOf t = Some (BitVectorType w) \<and> bv_ok c \<and> d_size c = w)"

definition coef_sum :: "valuation \<Rightarrow> coef_map \<Rightarrow> int" where
  "coef_sum \<sigma> m = (\<Sum>(t, c)\<leftarrow>m. num (eval \<sigma> t) * d_value c)"

lemma map_ok_simps [simp]:
  "map_ok w []" "map_ok w ((t, c) # m) \<longleftrightarrow> typeOf t = Some (BitVectorType w) \<and> bv_ok c \<and> d_size c = w \<and> map_ok w m"
  by (auto simp: map_ok_def)

lemma coef_sum_simps [simp]:
  "coef_sum \<sigma> [] = 0" "coef_sum \<sigma> ((t, c) # m) = num (eval \<sigma> t) * d_value c + coef_sum \<sigma> m"
  by (simp_all add: coef_sum_def)

text \<open>Constants of width \<open>w\<close>, with their operators.\<close>

definition bv_w :: "nat \<Rightarrow> BitVector \<Rightarrow> bool" where
  "bv_w w c \<longleftrightarrow> bv_ok c \<and> d_size c = w"

lemma bv_arith:
  assumes "bv_w w c" "bv_w w d"
  shows "\<exists>e. bv_add c d = Inr e \<and> bv_w w e \<and> eqm w (d_value e) (d_value c + d_value d)"
    "\<exists>e. bv_sub c d = Inr e \<and> bv_w w e \<and> eqm w (d_value e) (d_value c - d_value d)"
    "\<exists>e. bv_mult c d = Inr e \<and> bv_w w e \<and> eqm w (d_value e) (d_value c * d_value d)"
    "\<exists>e. bv_neg c = Inr e \<and> bv_w w e \<and> eqm w (d_value e) (- d_value c)"
  using assms by (auto simp: bv_w_def bv_add_sem bv_sub_sem bv_mult_sem bv_neg_sem bv_ok_def eqm_sem sem_ranges sem_add_def sem_mul_def)

lemma mkBitVector_w: "0 < w \<Longrightarrow> w < 2147483648 \<Longrightarrow> bv_w w (mkBitVector w x)" "d_value (mkBitVector w x) = take_bit w x"
  by (simp_all add: bv_w_def bv_ok_mkBitVector) (simp_all add: mkBitVector_def modByPow2_def)

lemma bv_w_const: "bv_w w c \<Longrightarrow> w < 2147483648 \<Longrightarrow> typeOf (mkConstBV c) = Some (BitVectorType w)" "eval \<sigma> (mkConstBV c) = VBV (d_size c) (d_value c)"
  by (simp_all add: bv_w_def mkConstBV_def)

lemma const_bv_w: "typeOf t = Some (BitVectorType w) \<Longrightarrow> isConst t \<Longrightarrow> bv_w w (getConstBV t) \<and> t = ConstBV (getConstBV t)"
  using isConst_bv [of t w] by (auto simp: bv_w_def)

lemma addToCoefMap_value:
  assumes "map_ok w m" "typeOf term = Some (BitVectorType w)" "bv_w w coef"
  shows "\<exists>m'. addToCoefMap nid m term coef = Inr m' \<and> map_ok w m' \<and>
    (\<forall>\<sigma>. eqm w (coef_sum \<sigma> m') (coef_sum \<sigma> m + num (eval \<sigma> term) * d_value coef))"
  using assms(1)
proof (induction m)
  case Nil
  with assms(2,3) show ?case by (simp add: bv_w_def)
next
  case (Cons e entries)
  obtain t c where e: "e = (t, c)" by fastforce
  with Cons.prems have tc: "typeOf t = Some (BitVectorType w)" "bv_w w c" "map_ok w entries" by (simp_all add: bv_w_def)
  show ?case
  proof (cases "t = term")
    case True
    from bv_arith(1) [OF tc(2) assms(3)] obtain s where s: "bv_add c coef = Inr s" "bv_w w s" "eqm w (d_value s) (d_value c + d_value coef)" by blast
    have "eqm w (num (eval \<sigma> t) * d_value s + coef_sum \<sigma> entries) (num (eval \<sigma> t) * (d_value c + d_value coef) + coef_sum \<sigma> entries)" for \<sigma>
      by (intro eqm_add eqm_mult eqm_refl s(3))
    then show ?thesis using True s tc by (simp add: e bv_w_def algebra_simps)
  next
    case False
    from Cons.IH [OF tc(3)] obtain m' where m': "addToCoefMap nid entries term coef = Inr m'" "map_ok w m'"
      "\<forall>\<sigma>. eqm w (coef_sum \<sigma> m') (coef_sum \<sigma> entries + num (eval \<sigma> term) * d_value coef)" by blast
    have "eqm w (num (eval \<sigma> t) * d_value c + coef_sum \<sigma> m') (num (eval \<sigma> t) * d_value c + (coef_sum \<sigma> entries + num (eval \<sigma> term) * d_value coef))" for \<sigma>
      using m'(3) by (intro eqm_add eqm_refl) blast
    then show ?thesis using False m'(1,2) tc assms(2,3) by (simp add: e bv_w_def algebra_simps)
  qed
qed

text \<open>The products that the assertions accept.\<close>

definition mult_normal :: "node \<Rightarrow> bool" where
  "mult_normal n \<longleftrightarrow> (getKind n = BITVECTOR_MULT \<longrightarrow> length (children n) = 2 \<or> isConst (last (children n)) \<longrightarrow>
     (\<forall>c\<in>set (butlast (children n)). \<not> isConst c))"

lemma fold_mult_append: "fold_num BITVECTOR_MULT \<sigma> (xs @ ys) = fold_num BITVECTOR_MULT \<sigma> xs * fold_num BITVECTOR_MULT \<sigma> ys"
  using fold_num_append [of BITVECTOR_MULT] by simp

lemma fold_plus_append: "fold_num BITVECTOR_PLUS \<sigma> (xs @ ys) = fold_num BITVECTOR_PLUS \<sigma> xs + fold_num BITVECTOR_PLUS \<sigma> ys"
  using fold_num_append [of BITVECTOR_PLUS] by simp

lemma mult_coefficient_value:
  assumes "typeOf n = Some (BitVectorType w)" "getKind n = BITVECTOR_MULT" "mult_normal n" "0 < w" "w < 2147483648"
  shows "\<exists>c t. mult_coefficient n w = Inr (c, t) \<and> bv_w w c \<and> typeOf t = Some (BitVectorType w) \<and>
    (\<forall>\<sigma>. val_ok \<sigma> \<longrightarrow> eqm w (num (eval \<sigma> n)) (num (eval \<sigma> t) * d_value c))"
proof -
  from assms(2) obtain ts where n: "n = App BITVECTOR_MULT ts" by (auto simp: getKind_iff)
  from ac_typedD [OF assms(1) [unfolded n]] have ts: "2 \<le> length ts" "ts \<noteq> []" "of_width w ts" by auto
  then obtain us u where us: "ts = us @ [u]" "us \<noteq> []" by (cases ts rule: rev_cases) (auto simp: Suc_le_eq)
  have len: "length ts = Suc (length us)" "us = butlast ts" "ts ! length us = u" by (simp_all add: us(1))
  have nonconst: "length us = 1 \<or> isConst u \<Longrightarrow> \<forall>c\<in>set us. \<not> isConst c" using assms(3) by (auto simp: mult_normal_def n us(1))
  have one: "bv_w w (mkBitVector w 1)" "d_value (mkBitVector w 1) = take_bit w 1" using mkBitVector_w assms(4,5) by simp_all
  have own: "eqm w (num (eval \<sigma> n)) (num (eval \<sigma> n) * d_value (mkBitVector w 1))" for \<sigma>
    unfolding one(2) using eqm_mult [OF eqm_refl, of w "take_bit w 1" 1 "num (eval \<sigma> n)"] assms(4) by (simp add: eqm_sym)
  show ?thesis
  proof (cases "isConst u")
    case False
    have "mult_coefficient n w = Inr (mkBitVector w 1, n)"
    proof (cases "length us = 1")
      case True
      then obtain x where "us = [x]" by (cases us) auto
      with nonconst False show ?thesis by (simp add: mult_coefficient_def n us(1) getNumChildren_def)
    next
      case len: False
      with False show ?thesis by (simp add: mult_coefficient_def n us(1) getNumChildren_def nth_append Let_def)
    qed
    with own one(1) assms(1) show ?thesis by blast
  next
    case True
    have tu: "typeOf u = Some (BitVectorType w)" "of_width w us" using ts(3) by (simp_all add: us(1))
    note u = const_bv_w [OF tu(1) True]
    define t where "t = (if length us = 1 then hd us else App BITVECTOR_MULT us)"
    have t: "typeOf t = Some (BitVectorType w)" "val_ok \<sigma> \<Longrightarrow> eqm w (num (eval \<sigma> t)) (fold_num BITVECTOR_MULT \<sigma> us)" for \<sigma>
      using mkNaryNode_ac [of BITVECTOR_MULT us w] us(2) tu(2) by (simp_all add: mkNaryNode_def t_def hd_conv_nth split: if_splits)
    have "eqm w (num (eval \<sigma> n)) (num (eval \<sigma> t) * d_value (getConstBV u))" if "val_ok \<sigma>" for \<sigma>
    proof -
      have "eqm w (num (eval \<sigma> n)) (fold_num BITVECTOR_MULT \<sigma> us * d_value (getConstBV u))"
      proof -
        have "num (eval \<sigma> u) = d_value (getConstBV u)" using u by (metis eval.simps(4) num.simps(1))
        then have "fold_num BITVECTOR_MULT \<sigma> (children n) = fold_num BITVECTOR_MULT \<sigma> us * d_value (getConstBV u)"
          by (simp add: n us(1) fold_mult_append)
        with eqm_eval(3) [OF assms(1) that assms(2)] show ?thesis by simp
      qed
      then show ?thesis using eqm_mult [OF t(2) [OF that] eqm_refl] eqm_sym eqm_trans by blast
    qed
    moreover have "mult_coefficient n w = Inr (getConstBV u, t)"
    proof (cases "length us = 1")
      case True
      then obtain x where "us = [x]" by (cases us) auto
      with nonconst u \<open>isConst u\<close> show ?thesis by (simp add: mult_coefficient_def n us(1) getNumChildren_def t_def)
    next
      case False
      then have "Suc (length us) \<noteq> 2" "length us \<noteq> 1" by auto
      with nonconst \<open>isConst u\<close> show ?thesis
        by (simp add: mult_coefficient_def n us(1) getNumChildren_def t_def nth_append Let_def)
    qed
    ultimately show ?thesis using u t(1) by blast
  qed
qed

text \<open>Adding one or two terms to a sum.\<close>

lemma eqm_one: "eqm w s1 (s + b * m) \<Longrightarrow> eqm w m m' \<Longrightarrow> eqm w (b * m') n \<Longrightarrow> eqm w s1 (s + n)"
  by (meson eqm_add eqm_mult eqm_refl eqm_trans)

lemma eqm_two:
  assumes "eqm w s1 (s + a * c)" "eqm w s2 (s1 + b * m)" "eqm w m (- c)" "eqm w (a * c - b * c) n"
  shows "eqm w s2 (s + n)"
proof -
  have "eqm w s2 (s1 + b * (- c))" by (rule eqm_trans [OF assms(2) eqm_add [OF eqm_refl eqm_mult [OF eqm_refl assms(3)]]])
  also have "eqm w (s1 + b * (- c)) (s + a * c + b * (- c))" by (rule eqm_add [OF assms(1) eqm_refl])
  also have "s + a * c + b * (- c) = s + (a * c - b * c)" by simp
  also have "eqm w \<dots> (s + n)" by (rule eqm_add [OF eqm_refl assms(4)])
  finally show ?thesis .
qed

lemma updateCoefMap_value:
  assumes "typeOf n = Some (BitVectorType w)" "mult_normal n" "map_ok w m" "bv_w w c" "0 < w" "w < 2147483648"
  shows "\<exists>m' c'. updateCoefMap nid n w m c = Inr (m', c') \<and> map_ok w m' \<and> bv_w w c' \<and>
    (\<forall>\<sigma>. val_ok \<sigma> \<longrightarrow> eqm w (coef_sum \<sigma> m' + d_value c') (coef_sum \<sigma> m + d_value c + num (eval \<sigma> n)))"
proof -
  have one: "bv_w w (mkBitVector w 1)" "eqm w (d_value (mkBitVector w 1)) 1" using mkBitVector_w assms(5,6) by simp_all
  from bv_arith(4) [OF one(1) one(1)] obtain mone where mone: "bv_neg (mkBitVector w 1) = Inr mone" "bv_w w mone"
    "eqm w (d_value mone) (- d_value (mkBitVector w 1))" by blast
  have mone': "eqm w (d_value mone) (- 1)" using mone(3) eqm_minus [OF one(2)] eqm_trans by blast
  have add: "\<exists>m'. addToCoefMap nid m t d = Inr m' \<and> map_ok w m' \<and> (\<forall>\<sigma>. eqm w (coef_sum \<sigma> m') (coef_sum \<sigma> m + num (eval \<sigma> t) * d_value d))"
    if "map_ok w m" "typeOf t = Some (BitVectorType w)" "bv_w w d" for m t d
    using addToCoefMap_value [OF that] .
  have single: ?thesis if t: "typeOf t = Some (BitVectorType w)" "bv_w w d" and
    u: "updateCoefMap nid n w m c = and_then (addToCoefMap nid m t d) (\<lambda>m. Inr (m, c))"
    and e: "eqm w (d_value d) d'" "\<And>\<sigma>. val_ok \<sigma> \<Longrightarrow> eqm w (num (eval \<sigma> t) * d') (num (eval \<sigma> n))" for t d d'
  proof -
    from add [OF assms(3) t] obtain m' where m': "addToCoefMap nid m t d = Inr m'" "map_ok w m'"
      "\<forall>\<sigma>. eqm w (coef_sum \<sigma> m') (coef_sum \<sigma> m + num (eval \<sigma> t) * d_value d)" by blast
    have "eqm w (coef_sum \<sigma> m' + d_value c) (coef_sum \<sigma> m + d_value c + num (eval \<sigma> n))" if "val_ok \<sigma>" for \<sigma>
      using eqm_add [OF eqm_one [OF m'(3) [rule_format] e(1) e(2) [OF that]] eqm_refl, of "d_value c"] by (simp add: algebra_simps)
    with m' u assms(4) show ?thesis by auto
  qed
  have double: ?thesis if t: "typeOf a = Some (BitVectorType w)" "typeOf b = Some (BitVectorType w)" "bv_w w d" "bv_neg d = Inr d1" "bv_w w d1" and
    u: "updateCoefMap nid n w m c = and_then (addToCoefMap nid m a d) (\<lambda>m. and_then (addToCoefMap nid m b d1) (\<lambda>m. Inr (m, c)))"
    and e: "eqm w (d_value d1) (- d_value d)" "\<And>\<sigma>. val_ok \<sigma> \<Longrightarrow> eqm w (num (eval \<sigma> a) * d_value d - num (eval \<sigma> b) * d_value d) (num (eval \<sigma> n))" for a b d d1
  proof -
    from add [OF assms(3) t(1,3)] obtain m1 where m1: "addToCoefMap nid m a d = Inr m1" "map_ok w m1"
      "\<forall>\<sigma>. eqm w (coef_sum \<sigma> m1) (coef_sum \<sigma> m + num (eval \<sigma> a) * d_value d)" by blast
    from add [OF m1(2) t(2,5)] obtain m2 where m2: "addToCoefMap nid m1 b d1 = Inr m2" "map_ok w m2"
      "\<forall>\<sigma>. eqm w (coef_sum \<sigma> m2) (coef_sum \<sigma> m1 + num (eval \<sigma> b) * d_value d1)" by blast
    have "eqm w (coef_sum \<sigma> m2 + d_value c) (coef_sum \<sigma> m + d_value c + num (eval \<sigma> n))" if "val_ok \<sigma>" for \<sigma>
      using eqm_add [OF eqm_two [OF m1(3) [rule_format] m2(3) [rule_format] e(1) e(2) [OF that]] eqm_refl, of "d_value c"] by (simp add: algebra_simps)
    with m1 m2 u assms(4) show ?thesis by auto
  qed
  note ev = eqm_eval [OF assms(1)]
  consider (MULT) "getKind n = BITVECTOR_MULT" | (SUB) "getKind n = BITVECTOR_SUB" | (NEG) "getKind n = BITVECTOR_NEG"
    | (CONST) "getKind n = CONST_BITVECTOR" | (other) "getKind n \<notin> {BITVECTOR_MULT, BITVECTOR_SUB, BITVECTOR_NEG, CONST_BITVECTOR}" by blast
  then show ?thesis
  proof cases
    case MULT
    from mult_coefficient_value [OF assms(1) MULT assms(2,5,6)] obtain d t where t: "mult_coefficient n w = Inr (d, t)" "bv_w w d"
      "typeOf t = Some (BitVectorType w)" "\<And>\<sigma>. val_ok \<sigma> \<Longrightarrow> eqm w (num (eval \<sigma> n)) (num (eval \<sigma> t) * d_value d)" by blast
    from bv_arith(4) [OF t(2) t(2)] obtain d1 where d1: "bv_neg d = Inr d1" "bv_w w d1" "eqm w (d_value d1) (- d_value d)" by blast
    have dd: "\<lparr>d_size = w, d_value = d_value d\<rparr> = d" using t(2) by (simp add: bv_w_def)
    note et = eqm_eval [OF t(3)]
    show ?thesis
    proof (cases "getKind t = BITVECTOR_SUB")
      case True
      show ?thesis
      proof (rule double [OF _ _ t(2) d1(1,2) _ d1(3)])
        show "typeOf (child t 0) = Some (BitVectorType w)" "typeOf (child t 1) = Some (BitVectorType w)" using et(2) [OF val_ok_zero True] by blast+
        show "updateCoefMap nid n w m c = and_then (addToCoefMap nid m (child t 0) d) (\<lambda>m. and_then (addToCoefMap nid m (child t 1) d1) (\<lambda>m. Inr (m, c)))"
          using MULT True t(1) d1(1) by (simp add: updateCoefMap_def Let_def)
        fix \<sigma> assume \<sigma>: "val_ok \<sigma>"
        from et(2) [OF \<sigma> True] have "eqm w (num (eval \<sigma> t) * d_value d) ((num (eval \<sigma> (child t 0)) - num (eval \<sigma> (child t 1))) * d_value d)"
          by (intro eqm_mult eqm_refl) blast
        with t(4) [OF \<sigma>] show "eqm w (num (eval \<sigma> (child t 0)) * d_value d - num (eval \<sigma> (child t 1)) * d_value d) (num (eval \<sigma> n))"
          by (metis eqm_sym eqm_trans left_diff_distrib)
      qed
    next
      case sub: False
      show ?thesis
      proof (cases "getKind t = BITVECTOR_NEG")
        case True
        show ?thesis
        proof (rule single [OF _ d1(2) _ d1(3)])
          show "typeOf (child t 0) = Some (BitVectorType w)" using et(1) [OF val_ok_zero True] by blast
          show "updateCoefMap nid n w m c = and_then (addToCoefMap nid m (child t 0) d1) (\<lambda>m. Inr (m, c))"
            using MULT True t(1) d1(1) by (simp add: updateCoefMap_def dd Let_def)
          fix \<sigma> assume \<sigma>: "val_ok \<sigma>"
          from et(1) [OF \<sigma> True] have "eqm w (num (eval \<sigma> t) * d_value d) (- num (eval \<sigma> (child t 0)) * d_value d)"
            by (intro eqm_mult eqm_refl) blast
          with t(4) [OF \<sigma>] show "eqm w (num (eval \<sigma> (child t 0)) * - d_value d) (num (eval \<sigma> n))"
            by (metis eqm_sym eqm_trans minus_mult_commute)
        qed
      next
        case False
        show ?thesis
          by (rule single [OF t(3,2) _ eqm_refl]) (use MULT sub False t(1,4) eqm_sym in \<open>auto simp: updateCoefMap_def Let_def\<close>)
      qed
    qed
  next
    case SUB
    note s = ev(2) [OF _ SUB]
    show ?thesis
    proof (rule double [OF _ _ one(1) mone(1,2) _ mone(3)])
      show "typeOf (child n 0) = Some (BitVectorType w)" "typeOf (child n 1) = Some (BitVectorType w)" using s [OF val_ok_zero] by blast+
      show "updateCoefMap nid n w m c = and_then (addToCoefMap nid m (child n 0) (mkBitVector w 1)) (\<lambda>m. and_then (addToCoefMap nid m (child n 1) mone) (\<lambda>m. Inr (m, c)))"
        using SUB s [OF val_ok_zero] mone(1) by (simp add: updateCoefMap_def getNumChildren_def Let_def)
      fix \<sigma> assume \<sigma>: "val_ok \<sigma>"
      have "eqm w (x * d_value (mkBitVector w 1) - y * d_value (mkBitVector w 1)) (x - y)" for x y
        using eqm_diff [OF eqm_mult [OF eqm_refl one(2)] eqm_mult [OF eqm_refl one(2)], of x y] by simp
      from eqm_trans [OF this eqm_sym] s [OF \<sigma>]
      show "eqm w (num (eval \<sigma> (child n 0)) * d_value (mkBitVector w 1) - num (eval \<sigma> (child n 1)) * d_value (mkBitVector w 1)) (num (eval \<sigma> n))"
        by blast
    qed
  next
    case NEG
    note s = ev(1) [OF _ NEG]
    show ?thesis
    proof (rule single [OF _ mone(2) _ mone'])
      show "typeOf (child n 0) = Some (BitVectorType w)" using s [OF val_ok_zero] by blast
      show "updateCoefMap nid n w m c = and_then (addToCoefMap nid m (child n 0) mone) (\<lambda>m. Inr (m, c))"
        using NEG mone(1) by (simp add: updateCoefMap_def Let_def)
      show "val_ok \<sigma> \<Longrightarrow> eqm w (num (eval \<sigma> (child n 0)) * - 1) (num (eval \<sigma> n))" for \<sigma>
        using s eqm_sym by fastforce
    qed
  next
    case CONST
    then have d: "bv_w w (getConstBV n)" "n = ConstBV (getConstBV n)" using assms(1) by (auto simp: getKind_const bv_w_def)
    from bv_arith(1) [OF assms(4) d(1)] obtain e where e: "bv_add c (getConstBV n) = Inr e" "bv_w w e" "eqm w (d_value e) (d_value c + d_value (getConstBV n))" by blast
    have "num (eval \<sigma> n) = d_value (getConstBV n)" for \<sigma> using d(2) by (metis eval.simps(4) num.simps(1))
    with eqm_add [OF eqm_refl e(3)] e(1,2) CONST assms(3) show ?thesis by (simp add: updateCoefMap_def Let_def add.assoc)
  next
    case other
    show ?thesis
      by (rule single [OF assms(1) one(1) _ one(2)]) (use other in \<open>auto simp: updateCoefMap_def Let_def\<close>)
  qed
qed

lemma updateCoefMaps_value:
  assumes "of_width w ns" "\<forall>n\<in>set ns. mult_normal n" "map_ok w m" "bv_w w c" "0 < w" "w < 2147483648"
  shows "\<exists>m' c'. updateCoefMaps nid ns w m c = Inr (m', c') \<and> map_ok w m' \<and> bv_w w c' \<and>
    (\<forall>\<sigma>. val_ok \<sigma> \<longrightarrow> eqm w (coef_sum \<sigma> m' + d_value c') (coef_sum \<sigma> m + d_value c + fold_num BITVECTOR_PLUS \<sigma> ns))"
  using assms(1-4)
proof (induction ns arbitrary: m c)
  case (Cons n ns)
  then have n: "typeOf n = Some (BitVectorType w)" "mult_normal n" by simp_all
  from updateCoefMap_value [OF n Cons.prems(3,4) assms(5,6)] obtain m1 c1 where
    s: "updateCoefMap nid n w m c = Inr (m1, c1)" "map_ok w m1" "bv_w w c1"
    "\<And>\<sigma>. val_ok \<sigma> \<Longrightarrow> eqm w (coef_sum \<sigma> m1 + d_value c1) (coef_sum \<sigma> m + d_value c + num (eval \<sigma> n))" by blast
  from Cons.IH [OF _ _ s(2,3)] Cons.prems(1,2) obtain m2 c2 where
    t: "updateCoefMaps nid ns w m1 c1 = Inr (m2, c2)" "map_ok w m2" "bv_w w c2"
    "\<And>\<sigma>. val_ok \<sigma> \<Longrightarrow> eqm w (coef_sum \<sigma> m2 + d_value c2) (coef_sum \<sigma> m1 + d_value c1 + fold_num BITVECTOR_PLUS \<sigma> ns)" by auto
  have "eqm w (coef_sum \<sigma> m2 + d_value c2) (coef_sum \<sigma> m + d_value c + fold_num BITVECTOR_PLUS \<sigma> (n # ns))" if "val_ok \<sigma>" for \<sigma>
    using eqm_trans [OF t(4) [OF that] eqm_add [OF s(4) [OF that] eqm_refl]] by (simp add: algebra_simps)
  with s(1) t show ?case by auto
qed simp

lemma addToChildren_value:
  assumes "typeOf t = Some (BitVectorType w)" "bv_w w c" "of_width w cs" "0 < w" "w < 2147483648"
  shows "\<exists>cs'. addToChildren t w c cs = Inr cs' \<and> of_width w cs' \<and>
    (\<forall>\<sigma>. val_ok \<sigma> \<longrightarrow> eqm w (fold_num BITVECTOR_PLUS \<sigma> cs') (fold_num BITVECTOR_PLUS \<sigma> cs + num (eval \<sigma> t) * d_value c))"
proof -
  have one: "bv_w w (mkBitVector w 1)" "eqm w (d_value (mkBitVector w 1)) 1" using mkBitVector_w assms(4,5) by simp_all
  from bv_arith(4) [OF one(1) one(1)] obtain mone where mone: "bv_neg (mkBitVector w 1) = Inr mone" "bv_w w mone"
    "eqm w (d_value mone) (- d_value (mkBitVector w 1))" by blast
  have mone': "eqm w (d_value mone) (- 1)" using mone(3) eqm_minus [OF one(2)] eqm_trans by blast
  have eqv: "bv_eq c d \<longleftrightarrow> d_value c = d_value d" if "bv_w w d" for d using that assms(2) by (simp add: bv_eq_def bv_w_def)
  note const = bv_w_const(1) [OF assms(2,5)] bv_w_const(2) [of _ c]
  have push: ?thesis if u: "addToChildren t w c cs = Inr (cs @ [n])" "typeOf n = Some (BitVectorType w)"
    and e: "\<And>\<sigma>. val_ok \<sigma> \<Longrightarrow> eqm w (num (eval \<sigma> n)) (num (eval \<sigma> t) * d_value c)" for n
    using u assms(3) eqm_add [OF eqm_refl e] by (auto simp: fold_plus_append)
  consider (zero) "d_value c = 0" | (one) "d_value c \<noteq> 0" "bv_eq c (mkBitVector w 1)"
    | (mone) "d_value c \<noteq> 0" "\<not> bv_eq c (mkBitVector w 1)" "bv_eq c mone"
    | (mult) "d_value c \<noteq> 0" "\<not> bv_eq c (mkBitVector w 1)" "\<not> bv_eq c mone" "getKind t = BITVECTOR_MULT"
    | (other) "d_value c \<noteq> 0" "\<not> bv_eq c (mkBitVector w 1)" "\<not> bv_eq c mone" "getKind t \<noteq> BITVECTOR_MULT" by blast
  moreover have z: "bv_eq c (mkBitVector w 0) \<longleftrightarrow> d_value c = 0" using eqv [of "mkBitVector w 0"] mkBitVector_w(1) [OF assms(4,5), of 0] mkBitVector_w(2) [of w 0] by simp
  ultimately show ?thesis
  proof cases
    case zero
    with z assms(3) show ?thesis by (simp add: addToChildren_def)
  next
    case one
    with eqv [OF \<open>bv_w w (mkBitVector w 1)\<close>] have "eqm w 1 (d_value c)" using \<open>eqm w (d_value (mkBitVector w 1)) 1\<close> eqm_sym by simp
    then have "eqm w (num (eval \<sigma> t)) (num (eval \<sigma> t) * d_value c)" for \<sigma> using eqm_mult [OF eqm_refl] by fastforce
    with one z assms(1) show ?thesis by (intro push) (simp_all add: addToChildren_def)
  next
    case mone
    with eqv [OF \<open>bv_w w mone\<close>] have "eqm w (- 1) (d_value c)" using mone' eqm_sym by simp
    from eqm_mult [OF eqm_refl this] have "eqm w (- num (eval \<sigma> t)) (num (eval \<sigma> t) * d_value c)" for \<sigma> by fastforce
    with mone z assms(1) \<open>bv_neg (mkBitVector w 1) = Inr mone\<close> show ?thesis
      by (intro push [of "App BITVECTOR_NEG [t]"]) (auto simp: addToChildren_def isBitVector_iff sem_neg_def)
  next
    case mult
    note tm = eqm_eval(3) [OF assms(1) _ mult(4)]
    from mult(4) obtain ts where ts: "t = App BITVECTOR_MULT ts" by (auto simp: getKind_iff)
    let ?us = "ts @ [mkConstBV c]"
    have us: "of_width w ?us" "?us \<noteq> []" "2 \<le> length ?us" using tm [OF val_ok_zero] const by (simp_all add: ts)
    have ty: "typeOf (App BITVECTOR_MULT ?us) = Some (BitVectorType w)" using us(1,3) by (simp only: typeOf_ac ac_kind_simps) simp
    have "eqm w (num (eval \<sigma> (App BITVECTOR_MULT ?us))) (num (eval \<sigma> t) * d_value c)" if "val_ok \<sigma>" for \<sigma>
    proof -
      have "num (eval \<sigma> (App BITVECTOR_MULT ?us)) = take_bit w (fold_num BITVECTOR_MULT \<sigma> ?us)"
        using eval_ac [of BITVECTOR_MULT ?us w \<sigma>] us that by (simp del: eval.simps(5))
      moreover have "fold_num BITVECTOR_MULT \<sigma> ?us = fold_num BITVECTOR_MULT \<sigma> ts * d_value c"
        by (simp add: fold_mult_append const)
      moreover have "eqm w (fold_num BITVECTOR_MULT \<sigma> ts * d_value c) (num (eval \<sigma> t) * d_value c)"
        using tm [OF that] by (intro eqm_mult eqm_refl) (simp add: ts eqm_sym del: eval.simps(5))
      ultimately show ?thesis by simp
    qed
    with mult z ty \<open>bv_neg (mkBitVector w 1) = Inr mone\<close> show ?thesis
      by (intro push [of "App BITVECTOR_MULT ?us"]) (auto simp: addToChildren_def ts simp del: eval.simps(5) typeOf.simps(5))
  next
    case other
    with z assms(1) const \<open>bv_neg (mkBitVector w 1) = Inr mone\<close> show ?thesis
      by (intro push [of "App BITVECTOR_MULT [t, mkConstBV c]"]) (auto simp: addToChildren_def isBitVector_iff)
  qed
qed

lemma mult_coefficient_fails:
  assumes "typeOf n = Some (BitVectorType w)" "\<not> mult_normal n"
  shows "getKind n = BITVECTOR_MULT" "mult_coefficient n w = Inl AssertionFailure"
proof -
  from assms(2) show k: "getKind n = BITVECTOR_MULT" by (simp add: mult_normal_def)
  then obtain ts where n: "n = App BITVECTOR_MULT ts" by (auto simp: getKind_iff)
  from ac_typedD [OF assms(1) [unfolded n]] have "2 \<le> length ts" by auto
  then obtain us u where us: "ts = us @ [u]" "us \<noteq> []" by (cases ts rule: rev_cases) (auto simp: Suc_le_eq)
  with assms(2) have "length us = 1 \<or> isConst u" "\<exists>c\<in>set us. isConst c" by (auto simp: mult_normal_def n)
  then show "mult_coefficient n w = Inl AssertionFailure"
    using us by (cases us; cases "tl us") (auto simp: mult_coefficient_def n getNumChildren_def nth_append Let_def)
qed

lemma updateCoefMaps_fails:
  assumes "of_width w ns" "\<not> (\<forall>n\<in>set ns. mult_normal n)" "map_ok w m" "bv_w w c" "0 < w" "w < 2147483648"
  shows "updateCoefMaps nid ns w m c = Inl AssertionFailure"
  using assms(1-4)
proof (induction ns arbitrary: m c)
  case (Cons n ns)
  then have n: "typeOf n = Some (BitVectorType w)" by simp
  show ?case
  proof (cases "mult_normal n")
    case True
    from updateCoefMap_value [OF n True Cons.prems(3,4) assms(5,6)] obtain m' c' where
      s: "updateCoefMap nid n w m c = Inr (m', c')" "map_ok w m'" "bv_w w c'" by blast
    from True Cons.prems(1,2) Cons.IH [OF _ _ s(2,3)] show ?thesis by (simp add: s(1))
  next
    case False
    from mult_coefficient_fails [OF n False] show ?thesis by (simp add: updateCoefMap_def Let_def)
  qed
qed simp

lemma add_entries_value:
  assumes "map_ok w m" "of_width w cs" "0 < w" "w < 2147483648"
  shows "\<exists>cs'. add_entries w m cs = Inr cs' \<and> of_width w cs' \<and>
    (\<forall>\<sigma>. val_ok \<sigma> \<longrightarrow> eqm w (fold_num BITVECTOR_PLUS \<sigma> cs') (fold_num BITVECTOR_PLUS \<sigma> cs + coef_sum \<sigma> m))"
  using assms(1,2)
proof (induction m arbitrary: cs)
  case (Cons e m)
  obtain t c where e: "e = (t, c)" by fastforce
  with Cons.prems have tc: "typeOf t = Some (BitVectorType w)" "bv_w w c" "map_ok w m" by (simp_all add: bv_w_def)
  from addToChildren_value [OF tc(1,2) Cons.prems(2) assms(3,4)] obtain us where us: "addToChildren t w c cs = Inr us" "of_width w us"
    "\<And>\<sigma>. val_ok \<sigma> \<Longrightarrow> eqm w (fold_num BITVECTOR_PLUS \<sigma> us) (fold_num BITVECTOR_PLUS \<sigma> cs + num (eval \<sigma> t) * d_value c)" by blast
  from Cons.IH [OF tc(3) us(2)] obtain vs where vs: "add_entries w m us = Inr vs" "of_width w vs"
    "\<And>\<sigma>. val_ok \<sigma> \<Longrightarrow> eqm w (fold_num BITVECTOR_PLUS \<sigma> vs) (fold_num BITVECTOR_PLUS \<sigma> us + coef_sum \<sigma> m)" by blast
  have "eqm w (fold_num BITVECTOR_PLUS \<sigma> vs) (fold_num BITVECTOR_PLUS \<sigma> cs + coef_sum \<sigma> (e # m))" if "val_ok \<sigma>" for \<sigma>
    using eqm_trans [OF vs(3) [OF that] eqm_add [OF us(3) [OF that] eqm_refl]] by (simp add: e add.assoc)
  with us(1) vs(1,2) show ?case by (simp add: e)
qed simp

lemma PlusCombineLikeTerms_rewrites:
  assumes t: "typeOf (App BITVECTOR_PLUS ts) = Some (BitVectorType w)" and n: "\<forall>n\<in>set ts. mult_normal n"
  shows "rewrites_to (rule_apply (PlusCombineLikeTerms nid) (App BITVECTOR_PLUS ts)) (BitVectorType w) (App BITVECTOR_PLUS ts)"
proof -
  from ac_typedD [OF t] have ts: "2 \<le> length ts" "ts \<noteq> []" "of_width w ts" by auto
  have size: "getSize (App BITVECTOR_PLUS ts) = w" using getSize_typed [OF t] by simp
  note w = of_width_pos [OF ts(3,2)]
  let ?zero = "mkBitVector w 0"
  have zero: "bv_w w ?zero" "d_value ?zero = 0" using mkBitVector_w [of w 0] w by simp_all
  from updateCoefMaps_value [OF ts(3) n _ zero(1) w, of "[]" nid] obtain m c where
    m: "updateCoefMaps nid ts w [] ?zero = Inr (m, c)" "map_ok w m" "bv_w w c"
    "\<And>\<sigma>. val_ok \<sigma> \<Longrightarrow> eqm w (coef_sum \<sigma> m + d_value c) (fold_num BITVECTOR_PLUS \<sigma> ts)" by (auto simp: zero)
  from add_entries_value [OF m(2) _ w, of "[]"] obtain cs where cs: "add_entries w m [] = Inr cs" "of_width w cs"
    "\<And>\<sigma>. val_ok \<sigma> \<Longrightarrow> eqm w (fold_num BITVECTOR_PLUS \<sigma> cs) (coef_sum \<sigma> m)" by auto
  define us where "us = (if \<not> bv_eq c ?zero then cs @ [mkConstBV c] else cs)"
  have c0: "bv_eq c ?zero \<longleftrightarrow> d_value c = 0" using zero m(3) by (simp add: bv_eq_def bv_w_def)
  have us: "of_width w us" using cs(2) bv_w_const(1) [OF m(3) w(2)] by (simp add: us_def)
  have fold: "fold_num BITVECTOR_PLUS \<sigma> us = fold_num BITVECTOR_PLUS \<sigma> cs + d_value c" for \<sigma>
    using c0 by (auto simp: us_def fold_plus_append bv_w_const(2))
  have val: "eqm w (fold_num BITVECTOR_PLUS \<sigma> us) (fold_num BITVECTOR_PLUS \<sigma> ts)" if "val_ok \<sigma>" for \<sigma>
    unfolding fold using eqm_trans [OF eqm_add [OF cs(3) [OF that] eqm_refl] m(4) [OF that]] .
  have app: "rule_apply (PlusCombineLikeTerms nid) (App BITVECTOR_PLUS ts) = (if length us = length ts then Inr (App BITVECTOR_PLUS ts)
     else if us = [] then Inr (mkZero w) else Inr (mkNaryNode BITVECTOR_PLUS us))"
    unfolding PlusCombineLikeTerms_def rule.select_convs size Let_def children.simps m(1) cs(1) and_then.simps prod.case us_def [symmetric]
    by (simp add: getNumChildren_def)
  have ev: "eval \<sigma> (App BITVECTOR_PLUS ts) = VBV w (take_bit w (fold_num BITVECTOR_PLUS \<sigma> us))" if "val_ok \<sigma>" for \<sigma>
    using eval_ac [of BITVECTOR_PLUS ts w, OF _ ts(2,3) that] val [OF that] by (simp add: eqm_def del: eval.simps(5))
  consider "length us = length ts" | "length us \<noteq> length ts" "us = []" | "length us \<noteq> length ts" "us \<noteq> []" by blast
  then show ?thesis
  proof cases
    case 1
    with t show ?thesis unfolding app if_P [OF 1] by (simp del: eval.simps(5) typeOf.simps(5))
  next
    case 2
    show ?thesis unfolding app if_not_P [OF 2(1)] if_P [OF 2(2)]
      by (rule rewrites_to_values [OF _ ev]) (use w 2(2) in simp_all)
  next
    case 3
    show ?thesis unfolding app if_not_P [OF 3(1)] if_not_P [OF 3(2)]
      by (rule rewrites_to_values [OF _ ev]) (use mkNaryNode_ac [of BITVECTOR_PLUS us w] us 3(2) in simp_all)
  qed
qed

subsection \<open>Soundness: products\<close>

lemma MultSimplify_loop_value:
  assumes "of_width w (ns @ cs)" "bv_w w c" "0 < w" "w < 2147483648" "\<forall>c\<in>set cs. \<not> isConst c"
  defines "sg b \<equiv> if b then - 1 else 1 :: int"
  shows "(MultSimplify_loop w ns c neg cs = Inr None \<and>
      (\<forall>\<sigma>. val_ok \<sigma> \<longrightarrow> eqm w (sg neg * d_value c * fold_num BITVECTOR_MULT \<sigma> (ns @ cs)) 0)) \<or>
    (\<exists>c' neg' cs'. MultSimplify_loop w ns c neg cs = Inr (Some (c', neg', cs')) \<and> bv_w w c' \<and> of_width w cs' \<and> (\<forall>c\<in>set cs'. \<not> isConst c) \<and>
      (\<forall>\<sigma>. val_ok \<sigma> \<longrightarrow> eqm w (sg neg * d_value c * fold_num BITVECTOR_MULT \<sigma> (ns @ cs)) (sg neg' * d_value c' * fold_num BITVECTOR_MULT \<sigma> cs')))"
  using assms(1,2,5)
proof (induction ns arbitrary: c neg cs)
  case (Cons n ns)
  obtain x neg1 where x: "(if getKind n = BITVECTOR_NEG then (child n 0, \<not> neg) else (n, neg)) = (x, neg1)" by fastforce
  from Cons.prems(1) have n: "typeOf n = Some (BitVectorType w)" "of_width w (ns @ cs)" by simp_all
  have tx: "typeOf x = Some (BitVectorType w)" using x n(1) eqm_eval(1) [OF n(1) val_ok_zero] by (auto split: if_splits)
  have vx: "eqm w (sg neg * num (eval \<sigma> n)) (sg neg1 * num (eval \<sigma> x))" if "val_ok \<sigma>" for \<sigma>
  proof (cases "getKind n = BITVECTOR_NEG")
    case True
    with eqm_eval(1) [OF n(1) that True] x have "eqm w (sg neg * num (eval \<sigma> n)) (sg neg * - num (eval \<sigma> x))"
      by (intro eqm_mult eqm_refl) auto
    with True x show ?thesis by (auto simp: sg_def)
  qed (use x in auto)
  let ?F = "\<lambda>\<sigma>. fold_num BITVECTOR_MULT \<sigma> (ns @ cs)"
  have F: "fold_num BITVECTOR_MULT \<sigma> ((n # ns) @ cs) = num (eval \<sigma> n) * ?F \<sigma>" for \<sigma> by simp
  have step: "eqm w (sg neg * d_value c * fold_num BITVECTOR_MULT \<sigma> ((n # ns) @ cs)) (sg neg1 * num (eval \<sigma> x) * (d_value c * ?F \<sigma>))" if "val_ok \<sigma>" for \<sigma>
    using eqm_mult [OF vx [OF that] eqm_refl, of "d_value c * ?F \<sigma>"] unfolding F by (simp add: ac_simps)
  show ?case
  proof (cases "getKind x = CONST_BITVECTOR")
    case True
    then have d: "bv_w w (getConstBV x)" "x = ConstBV (getConstBV x)" using tx by (auto simp: getKind_const bv_w_def)
    have nx: "num (eval \<sigma> x) = d_value (getConstBV x)" for \<sigma> using d(2) by (metis eval.simps(4) num.simps(1))
    from bv_arith(3) [OF Cons.prems(2) d(1)] obtain e where e: "bv_mult c (getConstBV x) = Inr e" "bv_w w e"
      "eqm w (d_value e) (d_value c * d_value (getConstBV x))" by blast
    have e': "eqm w (sg neg1 * num (eval \<sigma> x) * (d_value c * ?F \<sigma>)) (sg neg1 * d_value e * ?F \<sigma>)" for \<sigma>
      using eqm_mult [OF eqm_sym [OF e(3)] eqm_refl, of "sg neg1 * ?F \<sigma>"] unfolding nx by (simp add: ac_simps)
    note all = eqm_trans [OF step e']
    show ?thesis
    proof (cases "bv_eq e (mkBitVector w 0)")
      case True
      then have "d_value e = 0" by (auto simp: bv_eq_def mkBitVector_def modByPow2_def split: if_splits)
      with all True e(1) \<open>getKind x = CONST_BITVECTOR\<close> x show ?thesis by (simp add: Let_def)
    next
      case False
      have l: "MultSimplify_loop w (n # ns) c neg cs = MultSimplify_loop w ns e neg1 cs" using False e(1) True x by simp
      from Cons.IH [OF n(2) e(2) Cons.prems(3), of neg1] show ?thesis unfolding l using all eqm_trans by meson
    qed
  next
    case False
    have l: "MultSimplify_loop w (n # ns) c neg cs = MultSimplify_loop w ns c neg1 (cs @ [x])" using False x by simp
    have "\<not> isConst x" using False tx isConst_bv [of x w] by auto
    then have nc: "\<forall>c\<in>set (cs @ [x]). \<not> isConst c" using Cons.prems(3) by auto
    have ow: "of_width w (ns @ cs @ [x])" using n(2) tx by simp
    have "sg neg1 * num (eval \<sigma> x) * (d_value c * ?F \<sigma>) = sg neg1 * d_value c * fold_num BITVECTOR_MULT \<sigma> (ns @ cs @ [x])" for \<sigma>
      by (simp add: fold_mult_append ac_simps)
    with step have all: "val_ok \<sigma> \<Longrightarrow> eqm w (sg neg * d_value c * fold_num BITVECTOR_MULT \<sigma> ((n # ns) @ cs)) (sg neg1 * d_value c * fold_num BITVECTOR_MULT \<sigma> (ns @ cs @ [x]))" for \<sigma>
      by simp
    from Cons.IH [OF ow Cons.prems(2) nc, of neg1] show ?thesis unfolding l using all eqm_trans by meson
  qed
qed auto

lemma MultSimplify_sound: "sound_rule (MultSimplify nid)"
proof (rule sound_ac)
  fix ts w assume *: "2 \<le> length ts" "of_width w ts" "0 < w" "w < 2147483648"
    "typeOf (App BITVECTOR_MULT ts) = Some (BitVectorType w)" "rule_applies (MultSimplify nid) (App BITVECTOR_MULT ts)"
  have size: "getSize (App BITVECTOR_MULT ts) = w" using getSize_typed [OF *(5)] by simp
  have ts: "ts \<noteq> []" using *(1) by auto
  define sg where "sg b = (if b then - 1 else 1 :: int)" for b
  let ?one = "mkBitVector w 1"
  have one: "bv_w w ?one" "eqm w (d_value ?one) 1" using mkBitVector_w [of w 1] *(3,4) by simp_all
  have ones: "bv_mkOnes w = Inr \<lparr>d_size = w, d_value = mask w\<rparr>" using *(3,4) by (simp add: bv_mkOnes_sem)
  have val: "eqm w (num (eval \<sigma> (App BITVECTOR_MULT ts))) (d_value ?one * fold_num BITVECTOR_MULT \<sigma> ts)" if "val_ok \<sigma>" for \<sigma>
  proof -
    have "eqm w (fold_num BITVECTOR_MULT \<sigma> ts) (d_value ?one * fold_num BITVECTOR_MULT \<sigma> ts)"
      using eqm_mult [OF eqm_sym [OF one(2)] eqm_refl, of "fold_num BITVECTOR_MULT \<sigma> ts"] by simp
    moreover have "eqm w (num (eval \<sigma> (App BITVECTOR_MULT ts))) (fold_num BITVECTOR_MULT \<sigma> ts)"
      using eqm_eval(3) [OF *(5) that] by (simp del: eval.simps(5))
    ultimately show ?thesis using eqm_trans by blast
  qed
  have ev: "eval \<sigma> (App BITVECTOR_MULT ts) = VBV w (take_bit w x)" if "val_ok \<sigma>" "eqm w (num (eval \<sigma> (App BITVECTOR_MULT ts))) x" for \<sigma> x
    using eval_bv(4) [OF *(5) that(1)] eval_bv(6) [OF *(5) that(1)] that(2) by (simp add: eqm_def del: eval.simps(5))
  from MultSimplify_loop_value [of w ts "[]" ?one False] *(2,3,4) one(1)
  consider (zero) "MultSimplify_loop w ts ?one False [] = Inr None"
      "\<And>\<sigma>. val_ok \<sigma> \<Longrightarrow> eqm w (d_value ?one * fold_num BITVECTOR_MULT \<sigma> ts) 0"
    | (rest) c neg cs where "MultSimplify_loop w ts ?one False [] = Inr (Some (c, neg, cs))" "bv_w w c" "of_width w cs"
      "\<And>\<sigma>. val_ok \<sigma> \<Longrightarrow> eqm w (d_value ?one * fold_num BITVECTOR_MULT \<sigma> ts) (sg neg * d_value c * fold_num BITVECTOR_MULT \<sigma> cs)"
    by (fastforce simp: sg_def)
  then show "rewrites_to (rule_apply (MultSimplify nid) (App BITVECTOR_MULT ts)) (BitVectorType w) (App BITVECTOR_MULT ts)"
  proof cases
    case zero
    have app: "rule_apply (MultSimplify nid) (App BITVECTOR_MULT ts) = Inr (mkConst w 0)"
      unfolding MultSimplify_def rule.select_convs size Let_def children.simps zero(1) by simp
    show ?thesis unfolding app by (rule rewrites_to_values [OF _ ev [OF _ eqm_trans [OF val zero(2)]]]) (use *(3,4) in simp_all)
  next
    case rest
    from bv_arith(4) [OF rest(2) rest(2)] obtain m where m: "bv_neg c = Inr m" "bv_w w m" "eqm w (d_value m) (- d_value c)" by blast
    define k where "k = (if neg then m else c)"
    have k: "bv_w w k" "eqm w (d_value k) (sg neg * d_value c)" using m(2,3) rest(2) by (simp_all add: k_def sg_def)
    have kr: "take_bit w (d_value k) = d_value k" "d_size k = w" using k(1) by (auto simp: bv_w_def bv_ok_def take_bit_id)
    note kt = bv_w_const(1) [OF k(1) *(4)] bv_w_const(2) [of _ k]
    define V where "V \<sigma> = sg neg * d_value c * fold_num BITVECTOR_MULT \<sigma> cs" for \<sigma>
    have V: "val_ok \<sigma> \<Longrightarrow> eval \<sigma> (App BITVECTOR_MULT ts) = VBV w (take_bit w (V \<sigma>))" for \<sigma>
      using ev eqm_trans [OF val rest(4)] by (simp add: V_def)
    show ?thesis
    proof (cases "cs = []")
      case True
      have app: "rule_apply (MultSimplify nid) (App BITVECTOR_MULT ts) = Inr (mkConstBV k)"
        unfolding MultSimplify_def rule.select_convs size Let_def children.simps rest(1) using True ones m(1) by (simp add: k_def)
      have "take_bit w (V \<sigma>) = d_value k" for \<sigma> using k(2) kr(1) True by (simp add: V_def eqm_def)
      with V kt kr(2) show ?thesis unfolding app by (simp del: eval.simps(5))
    next
      case False
      let ?ss = "sort_key nid cs"
      define r where "r = (if bv_eq c \<lparr>d_size = w, d_value = mask w\<rparr> then (\<not> neg, ?ss)
        else if \<not> bv_eq c ?one then (False, ?ss @ [mkConstBV k]) else (neg, ?ss))"
      obtain neg' us where r': "r = (neg', us)" by fastforce
      define ret where "ret = mkNaryNode BITVECTOR_MULT us"
      have app: "rule_apply (MultSimplify nid) (App BITVECTOR_MULT ts) = Inr (if neg' \<and> w > 1 then App BITVECTOR_NEG [ret] else ret)"
        unfolding MultSimplify_def rule.select_convs size Let_def children.simps rest(1) and_then.simps option.case prod.case ones m(1)
          if_not_P [OF False] k_def [symmetric] r_def [symmetric] r' ret_def ..
      have ss: "of_width w ?ss" "?ss \<noteq> []" using rest(3) False by (auto simp: of_width_def) (metis length_0_conv length_sort)
      have Fs: "fold_num BITVECTOR_MULT \<sigma> ?ss = fold_num BITVECTOR_MULT \<sigma> cs" for \<sigma> by (rule fold_num_mset) simp_all
      have us: "of_width w us \<and> us \<noteq> [] \<and> (\<forall>\<sigma>. eqm w (sg neg' * fold_num BITVECTOR_MULT \<sigma> us) (V \<sigma>))"
      proof -
        consider (ones) "bv_eq c \<lparr>d_size = w, d_value = mask w\<rparr>" | (other) "\<not> bv_eq c \<lparr>d_size = w, d_value = mask w\<rparr>" "\<not> bv_eq c ?one"
          | (one) "\<not> bv_eq c \<lparr>d_size = w, d_value = mask w\<rparr>" "bv_eq c ?one" by blast
        then show ?thesis
        proof cases
          case ones
          then have "eqm w (- 1) (d_value c)" by (auto simp: bv_eq_def eqm_def simp flip: take_bit_minus_one_eq_mask split: if_splits)
          from eqm_mult [OF this eqm_refl] have "eqm w (- 1 * (sg neg * fold_num BITVECTOR_MULT \<sigma> cs)) (d_value c * (sg neg * fold_num BITVECTOR_MULT \<sigma> cs))" for \<sigma> .
          moreover have "neg' = (\<not> neg)" "us = ?ss" using r' ones by (simp_all add: r_def)
          moreover have "sg (\<not> neg) = - sg neg" by (simp add: sg_def)
          ultimately show ?thesis using ss by (simp add: V_def Fs ac_simps)
        next
          case other
          then have u: "neg' = False" "us = ?ss @ [mkConstBV k]" using r' by (simp_all add: r_def)
          have "eqm w (fold_num BITVECTOR_MULT \<sigma> cs * d_value k) (fold_num BITVECTOR_MULT \<sigma> cs * (sg neg * d_value c))" for \<sigma>
            by (rule eqm_mult [OF eqm_refl k(2)])
          then show ?thesis using ss kt by (simp add: u V_def sg_def fold_mult_append Fs ac_simps)
        next
          case one
          then have "d_value c = d_value ?one" by (auto simp: bv_eq_def split: if_splits)
          then have "eqm w 1 (d_value c)" using \<open>eqm w (d_value ?one) 1\<close> eqm_sym by simp
          from eqm_mult [OF this eqm_refl] have "eqm w (1 * (sg neg * fold_num BITVECTOR_MULT \<sigma> cs)) (d_value c * (sg neg * fold_num BITVECTOR_MULT \<sigma> cs))" for \<sigma> .
          moreover have "neg' = neg" "us = ?ss" using r' one by (simp_all add: r_def)
          ultimately show ?thesis using ss by (simp add: V_def Fs ac_simps)
        qed
      qed
      have ret: "typeOf ret = Some (BitVectorType w)" "val_ok \<sigma> \<Longrightarrow> eval \<sigma> ret = VBV w (take_bit w (fold_num BITVECTOR_MULT \<sigma> us))" for \<sigma>
        using mkNaryNode_ac [of BITVECTOR_MULT us w] us by (simp_all add: ret_def)
      have uV: "take_bit w (sg neg' * fold_num BITVECTOR_MULT \<sigma> us) = take_bit w (V \<sigma>)" for \<sigma> using us by (simp add: eqm_def)
      show ?thesis
      proof (cases "neg' \<and> w > 1")
        case True
        with ret uV V show ?thesis unfolding app
          by (simp add: sg_def sem_neg_def take_bit_minus isBitVector_iff eval.simps(5) [of _ BITVECTOR_NEG] del: eval.simps(5))
      next
        case False
        have "take_bit (Suc 0) (- x) = take_bit (Suc 0) x" for x :: int by (simp add: take_bit_eq_mod) presburger
        with False have "take_bit w (fold_num BITVECTOR_MULT \<sigma> us) = take_bit w (V \<sigma>)" for \<sigma>
          using uV [of \<sigma>] *(3) by (cases "w = Suc 0") (auto simp: sg_def simp del: take_bit_Suc split: if_splits)
        with ret V show ?thesis unfolding app if_not_P [OF False] by (simp del: eval.simps(5))
      qed
    qed
  qed
qed (simp_all add: rule_defs)

subsection \<open>Normal products\<close>

text \<open>The factor that \<open>MultSimplify\<close> keeps of a child.\<close>

definition unsigned_factor :: "node \<Rightarrow> node" where
  "unsigned_factor n = (if getKind n = BITVECTOR_NEG then child n 0 else n)"

lemma MultSimplify_loop_factors:
  "MultSimplify_loop w ns c neg cs = Inr (Some (c', neg', cs')) \<Longrightarrow>
   \<exists>es. cs' = cs @ es \<and> (\<forall>e\<in>set es. getKind e \<noteq> CONST_BITVECTOR \<and> e \<in> unsigned_factor ` set ns)"
proof (induction ns arbitrary: c neg cs)
  case (Cons n ns)
  let ?x = "unsigned_factor n"
  have x: "(if getKind n = BITVECTOR_NEG then (child n 0, \<not> neg) else (n, neg)) = (?x, (getKind n = BITVECTOR_NEG) \<noteq> neg)"
    by (auto simp: unsigned_factor_def)
  show ?case
  proof (cases "getKind ?x = CONST_BITVECTOR")
    case True
    with Cons.prems obtain d neg1 where "MultSimplify_loop w ns d neg1 cs = Inr (Some (c', neg', cs'))"
      unfolding MultSimplify_loop.simps x Let_def prod.case by (auto split: if_splits)
    from Cons.IH [OF this] show ?thesis by auto
  next
    case False
    with Cons.prems obtain neg1 where "MultSimplify_loop w ns c neg1 (cs @ [?x]) = Inr (Some (c', neg', cs'))"
      unfolding MultSimplify_loop.simps x Let_def prod.case by auto
    from Cons.IH [OF this] obtain es where "cs' = (cs @ [?x]) @ es" "\<forall>e\<in>set es. getKind e \<noteq> CONST_BITVECTOR \<and> e \<in> unsigned_factor ` set ns" by blast
    with False show ?thesis by (intro exI [of _ "?x # es"]) auto
  qed
qed simp

lemma mult_normal_kind: "getKind n \<noteq> BITVECTOR_MULT \<Longrightarrow> mult_normal n"
  by (simp add: mult_normal_def)

lemma mult_normal_nary:
  assumes "\<forall>c\<in>set cs. \<not> isConst c \<and> mult_normal c" "cs \<noteq> []"
  shows "mult_normal (mkNaryNode BITVECTOR_MULT cs)" "mult_normal (mkNaryNode BITVECTOR_MULT (cs @ [k]))"
proof -
  from assms(2) obtain us u where us: "cs = us @ [u]" by (cases cs rule: rev_cases) auto
  show "mult_normal (mkNaryNode BITVECTOR_MULT cs)"
    using assms(1) by (cases "us = []") (auto simp: us mkNaryNode_def mult_normal_def)
  show "mult_normal (mkNaryNode BITVECTOR_MULT (cs @ [k]))"
    using assms by (auto simp: mkNaryNode_def mult_normal_def)
qed





text \<open>\<open>MultSimplify\<close> never throws and keeps type and value: constants and signs of the factors are folded into one
  constant or one negation.\<close>

theorem MultSimplify_correct:
  assumes "typeOf n = Some T" "rule_applies (MultSimplify nid) n"
  shows "\<exists>m. rule_apply (MultSimplify nid) n = Inr m \<and> equiv m n"
  using MultSimplify_sound [of nid] assms by (auto simp: sound_rule_def rewrites_to_equiv)

theorem MultSimplify_correct_witness:
  "\<exists>m. rule_apply (MultSimplify (\<lambda>n. 0)) (App BITVECTOR_MULT [App BITVECTOR_NEG [Var 0 (BitVectorType 8)], mkConst 8 255]) = Inr m
    \<and> equiv m (App BITVECTOR_MULT [App BITVECTOR_NEG [Var 0 (BitVectorType 8)], mkConst 8 255])"
  by (rule MultSimplify_correct [where T = "BitVectorType 8"]) (simp_all add: MultSimplify_def isBitVector_iff)

end
