(* ===== verification/Rules_Normalize_SolveEq.thy ===== *)
theory Rules_Normalize_SolveEq
  imports Rules_Normalize_Sum Rules_Normalize_Logic
begin

section \<open>Normalization rules: equalities solved by subtraction\<close>

text \<open>
  \<open>theory/bv/theory_bv_rewrite_rules_normalization.h\<close>, fifth part: \<open>SolveEq\<close> collects both sides of an equality
  with their coefficients, subtracts what they share by a merge of the two ordered maps, and moves the
  constants to one side. Its last assertions call \<open>Rewriter::rewrite\<close>, a parameter. \<open>hasSubterm\<close> of
  \<open>expr/node_algorithm.cpp\<close>, which guards the rule, visits the operators of indexed kinds too; they are constants
  without children, never variables, and no nodes of the model.
\<close>

subsection \<open>Subterms\<close>

text \<open>The children of one node: \<open>None\<close> when the term is found, else the nodes visited and those to process.\<close>

fun scan_children :: "node \<Rightarrow> node list \<Rightarrow> node set \<Rightarrow> node list \<Rightarrow> (node set \<times> node list) option" where
  "scan_children t [] visited pushed = Some (visited, pushed)"
| "scan_children t (c # cs) visited pushed =
     (if c = t then None
      else if c \<in> visited then scan_children t cs visited pushed
      else scan_children t cs (insert c visited) (pushed @ [c]))"

lemma scan_children_size: "scan_children t cs visited pushed = Some (visited', pushed') \<Longrightarrow>
  size_list size pushed' \<le> size_list size cs + size_list size pushed"
  by (induction t cs visited pushed rule: scan_children.induct) (force split: if_splits)+

lemma size_children_less: "size_list size (children n) < Suc (size n)"
  by (cases n) auto

function hasSubterm_loop :: "node \<Rightarrow> node list \<Rightarrow> node set \<Rightarrow> bool" where
  "hasSubterm_loop t [] visited = False"
| "hasSubterm_loop t (current # rest) visited =
     (case scan_children t (children current) visited [] of
        None \<Rightarrow> True
      | Some (visited, pushed) \<Rightarrow> hasSubterm_loop t (rest @ pushed) visited)"
  by pat_completeness auto

termination hasSubterm_loop
proof (relation "measure (\<lambda>(t, toProcess, visited). size_list size toProcess)")
  fix t current :: node and rest :: "node list" and visited r x and pushed :: "node list"
  assume "scan_children t (children current) visited [] = Some r" "(x, pushed) = r"
  then have "size_list size pushed \<le> size_list size (children current)" using scan_children_size by fastforce
  with size_children_less [of current]
  show "((t, rest @ pushed, x), t, current # rest, visited) \<in> measure (\<lambda>(t, toProcess, visited). size_list size toProcess)"
    by simp
qed simp

definition hasSubterm :: "node \<Rightarrow> node \<Rightarrow> bool \<Rightarrow> bool" where
  "hasSubterm n t strict = (if \<not> strict \<and> n = t then True else hasSubterm_loop t [n] {})"

subsection \<open>The rule\<close>

text \<open>The terms of one side; \<open>None\<close> when the side is the negation of the other.\<close>

definition SolveEq_side :: "(node \<Rightarrow> nat) \<Rightarrow> nat \<Rightarrow> node \<Rightarrow> node \<Rightarrow> (coef_map \<times> BitVector) option result" where
  "SolveEq_side nid sz side other =
     (let zero = mkBitVector sz 0
      in if getKind side = BITVECTOR_PLUS then and_then (updateCoefMaps nid (children side) sz [] zero) (\<lambda>r. Inr (Some r))
         else if getKind side = BITVECTOR_NOT \<and> child side 0 = other then Inr None
         else and_then (updateCoefMap nid side sz [] zero) (\<lambda>r. Inr (Some r)))"

text \<open>The loop over the two maps, with the assertions that their keys ascend.\<close>

definition ascends :: "(node \<Rightarrow> nat) \<Rightarrow> node \<Rightarrow> coef_map \<Rightarrow> bool" where
  "ascends nid t m \<longleftrightarrow> m = [] \<or> nid t < nid (fst (hd m))"

function SolveEq_merge :: "(node \<Rightarrow> nat) \<Rightarrow> nat \<Rightarrow> coef_map \<Rightarrow> coef_map \<Rightarrow> node list \<Rightarrow> node list \<Rightarrow> bool \<Rightarrow>
    (node list \<times> node list \<times> bool) result" where
  "SolveEq_merge nid sz [] [] childrenLeft childrenRight changed = Inr (childrenLeft, childrenRight, changed)"
| "SolveEq_merge nid sz ((t, c) # l) [] childrenLeft childrenRight changed =
     and_then (addToChildren t sz c childrenLeft) (\<lambda>childrenLeft.
       Assert (ascends nid t l) (SolveEq_merge nid sz l [] childrenLeft childrenRight changed))"
| "SolveEq_merge nid sz [] ((u, d) # r) childrenLeft childrenRight changed =
     and_then (addToChildren u sz d childrenRight) (\<lambda>childrenRight.
       Assert (ascends nid u r) (SolveEq_merge nid sz [] r childrenLeft childrenRight changed))"
| "SolveEq_merge nid sz ((t, c) # l) ((u, d) # r) childrenLeft childrenRight changed =
     (if nid t < nid u then
        and_then (addToChildren t sz c childrenLeft) (\<lambda>childrenLeft.
          Assert (ascends nid t l) (SolveEq_merge nid sz l ((u, d) # r) childrenLeft childrenRight changed))
      else if nid u < nid t then
        and_then (addToChildren u sz d childrenRight) (\<lambda>childrenRight.
          Assert (ascends nid u r) (SolveEq_merge nid sz ((t, c) # l) r childrenLeft childrenRight changed))
      else
        and_then (if bv_gt c d then and_then (bv_sub c d) (\<lambda>e. and_then (addToChildren t sz e childrenLeft) (\<lambda>cs. Inr (cs, childrenRight)))
                  else if bv_gt d c then and_then (bv_sub d c) (\<lambda>e. and_then (addToChildren u sz e childrenRight) (\<lambda>cs. Inr (childrenLeft, cs)))
                  else Inr (childrenLeft, childrenRight)) (\<lambda>(childrenLeft, childrenRight).
          Assert (ascends nid t l) (Assert (ascends nid u r) (SolveEq_merge nid sz l r childrenLeft childrenRight True))))"
  by pat_completeness auto

termination SolveEq_merge
  by (relation "measure (\<lambda>(nid, sz, l, r, cl, cr, ch). length l + length r)") auto

record solve_state =
  s_leftConst :: BitVector
  s_rightConst :: BitVector
  s_left :: "node list"
  s_right :: "node list"
  s_changed :: bool

text \<open>If both constants are nonzero they are combined on the right.\<close>

definition SolveEq_constants :: "nat \<Rightarrow> solve_state \<Rightarrow> solve_state result" where
  "SolveEq_constants sz s =
     (let zero = mkBitVector sz 0
      in if \<not> bv_eq (s_rightConst s) zero then
           and_then (bv_sub (s_rightConst s) (s_leftConst s)) (\<lambda>rc.
             Inr (s\<lparr>s_changed := s_changed s \<or> \<not> bv_eq (s_leftConst s) zero, s_rightConst := rc, s_leftConst := zero,
               s_right := (if \<not> bv_eq rc zero then s_right s @ [mkConstBV rc] else s_right s)\<rparr>))
         else if \<not> bv_eq (s_leftConst s) zero then Inr (s\<lparr>s_left := s_left s @ [mkConstBV (s_leftConst s)]\<rparr>)
         else Inr s)"

text \<open>The last child is the constant: the two assertions.\<close>

definition ends_with :: "node list \<Rightarrow> BitVector \<Rightarrow> bool" where
  "ends_with cs c \<longleftrightarrow> isConst (last cs) \<and> bv_eq (getConstBV (last cs)) c"

text \<open>The sides of the result; \<open>None\<close> is the early return of false.\<close>

definition SolveEq_sides :: "nat \<Rightarrow> solve_state \<Rightarrow> (node \<times> node \<times> bool) option result" where
  "SolveEq_sides sz s =
     (let zero = mkBitVector sz 0;
          right = (\<lambda>newLeft s. Inr (Some (newLeft,
            if s_right s = [] then mkConst sz 0 else mkNaryNode BITVECTOR_PLUS (s_right s), s_changed s)));
          left = (\<lambda>s.
            if s_left s = [] then
              if \<not> bv_eq (s_rightConst s) zero then
                Assert (ends_with (s_right s) (s_rightConst s))
                  (if length (s_right s) = 1 then Inr None
                   else and_then (bv_neg (s_rightConst s)) (\<lambda>c.
                     right (mkConstBV c) (s\<lparr>s_right := butlast (s_right s), s_changed := True\<rparr>)))
              else right (mkConst sz 0) s
            else right (mkNaryNode BITVECTOR_PLUS (s_left s)) s)
      in if s_right s = [] \<and> \<not> bv_eq (s_leftConst s) zero then
           Assert (ends_with (s_left s) (s_leftConst s))
             (if length (s_left s) = 1 then Inr None
              else and_then (bv_neg (s_leftConst s)) (\<lambda>c.
                left (s\<lparr>s_right := [mkConstBV c], s_left := butlast (s_left s), s_changed := True\<rparr>)))
         else left s)"

text \<open>The computation up to the two sides.\<close>

definition SolveEq_new :: "(node \<Rightarrow> nat) \<Rightarrow> nat \<Rightarrow> node \<Rightarrow> node \<Rightarrow> (node \<times> node \<times> bool) option result" where
  "SolveEq_new nid sz left right =
     and_then (SolveEq_side nid sz left right) (\<lambda>l. case l of None \<Rightarrow> Inr None | Some (leftMap, leftConst) \<Rightarrow>
     and_then (SolveEq_side nid sz right left) (\<lambda>r. case r of None \<Rightarrow> Inr None | Some (rightMap, rightConst) \<Rightarrow>
     and_then (SolveEq_merge nid sz leftMap rightMap [] [] False) (\<lambda>(childrenLeft, childrenRight, changed).
     and_then (SolveEq_constants sz \<lparr>s_leftConst = leftConst, s_rightConst = rightConst, s_left = childrenLeft,
         s_right = childrenRight, s_changed = changed\<rparr>) (SolveEq_sides sz))))"

definition SolveEq :: "(node \<Rightarrow> nat) \<Rightarrow> (node \<Rightarrow> node) \<Rightarrow> rule" where
  [rule_defs]: "SolveEq nid rewrite = \<lparr>
    rule_applies = (\<lambda>node.
      if getKind node \<noteq> EQUAL \<or> (isVar (child node 0) \<and> \<not> hasSubterm (child node 1) (child node 0) False) \<or>
        (isVar (child node 1) \<and> \<not> hasSubterm (child node 0) (child node 1) False)
      then False else True),
    rule_apply = (\<lambda>node.
      let left = child node 0; right = child node 1; sz = getSize left
      in and_then (SolveEq_new nid sz left right) (\<lambda>r. case r of None \<Rightarrow> Inr mkFalse | Some (newLeft, newRight, changed) \<Rightarrow>
           if \<not> changed then Inr node
           else if newLeft = newRight then Assert (newLeft = mkConst sz 0) (Inr mkTrue)
           else if nid newLeft < nid newRight then
             Assert ((newRight = left \<and> newLeft = right) \<or> rewrite newRight \<noteq> left \<or> rewrite newLeft \<noteq> right)
               (Inr (App EQUAL [newRight, newLeft]))
           else
             Assert ((newLeft = left \<and> newRight = right) \<or> rewrite newLeft \<noteq> left \<or> rewrite newRight \<noteq> right)
               (Inr (App EQUAL [newLeft, newRight]))))\<rparr>"

subsection \<open>Correctness of \<open>hasSubterm\<close>\<close>

fun subterms :: "node \<Rightarrow> node set" where
  "subterms (App k ts) = insert (App k ts) (\<Union>t\<in>set ts. subterms t)"
| "subterms n = {n}"

definition strict_subterms :: "node \<Rightarrow> node set" where
  "strict_subterms n = (\<Union>t\<in>set (children n). subterms t)"

lemma subterms_strict: "subterms n = insert n (strict_subterms n)"
  by (cases n) (simp_all add: strict_subterms_def)

lemma scan_children_value:
  "scan_children t cs v q = None \<Longrightarrow> t \<in> set cs"
  "scan_children t cs v q = Some (v', q') \<Longrightarrow> t \<notin> set cs \<and> v' = v \<union> set cs \<and> (\<exists>p. q' = q @ p \<and> set p = set cs - v)"
  by (induction t cs v q rule: scan_children.induct) (force split: if_splits)+

lemma strict_subterms_closed:
  assumes "set (children n) \<subseteq> V" "\<And>x. x \<in> V \<Longrightarrow> set (children x) \<subseteq> V"
  shows "strict_subterms n \<subseteq> V"
  using assms(1)
proof (induction n)
  case (App k ts)
  have "subterms t \<subseteq> V" if "t \<in> set ts" for t
    using App.IH [OF that] App.prems assms(2) that subterms_strict [of t] by auto
  then show ?case by (auto simp: strict_subterms_def)
qed (simp_all add: strict_subterms_def)

lemma hasSubterm_loop_complete:
  assumes "\<not> hasSubterm_loop t q v" "t \<notin> v" "\<forall>x\<in>v. x \<in> set q \<or> set (children x) \<subseteq> v"
  shows "\<exists>V. v \<subseteq> V \<and> t \<notin> V \<and> (\<forall>x\<in>set q \<union> V. set (children x) \<subseteq> V)"
  using assms
proof (induction t q v rule: hasSubterm_loop.induct)
  case (1 t v)
  then show ?case by (intro exI [of _ v]) auto
next
  case (2 t current rest v)
  from "2.prems"(1) obtain v' p where p: "scan_children t (children current) v [] = Some (v', p)" by (auto split: option.splits)
  note s = scan_children_value(2) [OF p]
  from p "2.prems"(1) have l: "\<not> hasSubterm_loop t (rest @ p) v'" by simp
  from s "2.prems"(2,3) have "t \<notin> v'" "\<forall>x\<in>v'. x \<in> set (rest @ p) \<or> set (children x) \<subseteq> v'" by auto
  from "2.IH" [OF p refl l this] obtain V where V: "v' \<subseteq> V" "t \<notin> V" "\<forall>x\<in>set (rest @ p) \<union> V. set (children x) \<subseteq> V" by blast
  with s show ?case by (intro exI [of _ V]) auto
qed

lemma hasSubterm_loop_sound: "hasSubterm_loop t q v \<Longrightarrow> \<exists>c\<in>set q. t \<in> strict_subterms c"
proof (induction t q v rule: hasSubterm_loop.induct)
  case (2 t current rest v)
  show ?case
  proof (cases "scan_children t (children current) v []")
    case None
    from scan_children_value(1) [OF this] have "t \<in> strict_subterms current" using subterms_strict [of t] by (auto simp: strict_subterms_def)
    then show ?thesis by simp
  next
    case (Some r)
    obtain v' p where r: "r = (v', p)" by fastforce
    with Some "2.prems" have "hasSubterm_loop t (rest @ p) v'" by simp
    from "2.IH" [OF Some [unfolded r] refl this] obtain c where c: "c \<in> set (rest @ p)" "t \<in> strict_subterms c" by blast
    then consider "c \<in> set rest" | "c \<in> set (children current)" using scan_children_value(2) [OF Some [unfolded r]] by auto
    then show ?thesis
    proof cases
      case 2
      with c(2) have "t \<in> strict_subterms current" using subterms_strict [of c] by (auto simp: strict_subterms_def [of current])
      then show ?thesis by simp
    qed (use c in auto)
  qed
qed simp

lemma hasSubterm_correct: "hasSubterm n t strict \<longleftrightarrow> t \<in> (if strict then strict_subterms n else subterms n)"
proof -
  have "hasSubterm_loop t [n] {} \<longleftrightarrow> t \<in> strict_subterms n"
  proof
    assume "t \<in> strict_subterms n"
    show "hasSubterm_loop t [n] {}"
    proof (rule ccontr)
      assume "\<not> hasSubterm_loop t [n] {}"
      from hasSubterm_loop_complete [OF this] obtain V where V: "t \<notin> V" "\<forall>x\<in>set [n] \<union> V. set (children x) \<subseteq> V" by auto
      then have "strict_subterms n \<subseteq> V" by (intro strict_subterms_closed) auto
      with \<open>t \<in> strict_subterms n\<close> V(1) show False by blast
    qed
  qed (use hasSubterm_loop_sound [of t "[n]" "{}"] in simp)
  then show ?thesis using subterms_strict [of n] by (auto simp add: hasSubterm_def simp del: hasSubterm_loop.simps)
qed

subsection \<open>Ordered maps\<close>

definition ascending :: "(node \<Rightarrow> nat) \<Rightarrow> coef_map \<Rightarrow> bool" where
  "ascending nid m \<longleftrightarrow> sorted_wrt (<) (map (\<lambda>e. nid (fst e)) m)"

lemma ascending_simps [simp]:
  "ascending nid []" "ascending nid (e # m) \<longleftrightarrow> (\<forall>x\<in>fst ` set m. nid (fst e) < nid x) \<and> ascending nid m"
  by (auto simp: ascending_def)

lemma ascending_ascends: "ascending nid ((t, c) # m) \<Longrightarrow> ascends nid t m"
  by (cases m) (simp_all add: ascends_def)

lemma addToCoefMap_keys: "addToCoefMap nid m t c = Inr m' \<Longrightarrow> fst ` set m' = insert t (fst ` set m)"
proof (induction nid m t c arbitrary: m' rule: addToCoefMap.induct)
  case (2 nid t c entries u coef)
  consider (eq) "t = u" | (less) "t \<noteq> u" "nid u < nid t" | (later) "t \<noteq> u" "\<not> nid u < nid t" by blast
  then show ?case
  proof cases
    case later
    with 2 obtain es where "m' = (t, c) # es" "fst ` set es = insert u (fst ` set entries)" by auto
    then show ?thesis by (simp add: insert_commute)
  qed (use 2 in auto)
qed auto

lemma addToCoefMap_ascending:
  "addToCoefMap nid m t c = Inr m' \<Longrightarrow> inj nid \<Longrightarrow> ascending nid m \<Longrightarrow> ascending nid m'"
proof (induction nid m t c arbitrary: m' rule: addToCoefMap.induct)
  case (2 nid t c entries u coef)
  consider "t = u" | "t \<noteq> u" "nid u < nid t" | "t \<noteq> u" "nid t < nid u"
    using injD [OF "2.prems"(2), of t u] by fastforce
  then show ?case
  proof cases
    case 3
    with "2.prems" obtain es where es: "addToCoefMap nid entries u coef = Inr es" "m' = (t, c) # es" by auto
    from "2.IH" [OF 3(1) _ es(1)] 3 "2.prems" have "ascending nid es" by auto
    with es addToCoefMap_keys [OF es(1)] "2.prems"(3) 3 show ?thesis by simp
  qed (use "2.prems" in fastforce)+
qed auto

lemma updateCoefMap_ascending:
  "updateCoefMap nid n w m c = Inr (m', c') \<Longrightarrow> inj nid \<Longrightarrow> ascending nid m \<Longrightarrow> ascending nid m'"
  unfolding updateCoefMap_def Let_def Assert_def
  by (auto split: if_splits dest: addToCoefMap_ascending)

lemma updateCoefMaps_ascending:
  "updateCoefMaps nid ns w m c = Inr (m', c') \<Longrightarrow> inj nid \<Longrightarrow> ascending nid m \<Longrightarrow> ascending nid m'"
  by (induction nid ns w m c rule: updateCoefMaps.induct) (auto dest: updateCoefMap_ascending)

subsection \<open>The sides\<close>

text \<open>The sides on which the assertions of \<open>updateCoefMap\<close> hold.\<close>

definition side_normal :: "node \<Rightarrow> bool" where
  "side_normal n \<longleftrightarrow> (if getKind n = BITVECTOR_PLUS then \<forall>c\<in>set (children n). mult_normal c else mult_normal n)"

lemma SolveEq_side_value:
  assumes "typeOf n = Some (BitVectorType w)" "side_normal n" "0 < w" "w < 2147483648" "inj nid"
  shows "SolveEq_side nid w n other = Inr None \<and> getKind n = BITVECTOR_NOT \<and> child n 0 = other \<or>
    (\<exists>m c. SolveEq_side nid w n other = Inr (Some (m, c)) \<and> map_ok w m \<and> ascending nid m \<and> bv_w w c \<and>
      (\<forall>\<sigma>. val_ok \<sigma> \<longrightarrow> eqm w (coef_sum \<sigma> m + d_value c) (num (eval \<sigma> n))))"
proof -
  have zero: "bv_w w (mkBitVector w 0)" "d_value (mkBitVector w 0) = 0" using mkBitVector_w assms(3,4) by simp_all
  show ?thesis
  proof (cases "getKind n = BITVECTOR_PLUS")
    case True
    then obtain ts where n: "n = App BITVECTOR_PLUS ts" by (auto simp: getKind_iff)
    from ac_typedD [OF assms(1) [unfolded n]] have ts: "2 \<le> length ts" "ts \<noteq> []" "of_width w ts" by auto
    from updateCoefMaps_value [OF ts(3) _ _ zero(1) assms(3,4), of "[]" nid] assms(2) n obtain m c where
      m: "updateCoefMaps nid ts w [] (mkBitVector w 0) = Inr (m, c)" "map_ok w m" "bv_w w c"
        "\<forall>\<sigma>. val_ok \<sigma> \<longrightarrow> eqm w (coef_sum \<sigma> m + d_value c) (fold_num BITVECTOR_PLUS \<sigma> ts)"
      by (auto simp: side_normal_def zero(2))
    have "eqm w (coef_sum \<sigma> m + d_value c) (num (eval \<sigma> n))" if "val_ok \<sigma>" for \<sigma>
      using m(4) that eval_ac [of BITVECTOR_PLUS ts w \<sigma>] ts by (simp add: n del: eval.simps(5))
    with m updateCoefMaps_ascending [OF m(1) assms(5)] show ?thesis by (simp add: SolveEq_side_def n)
  next
    case False
    from updateCoefMap_value [OF assms(1) _ _ zero(1) assms(3,4), of "[]" nid] assms(2) False obtain m c where
      m: "updateCoefMap nid n w [] (mkBitVector w 0) = Inr (m, c)" "map_ok w m" "bv_w w c"
        "\<forall>\<sigma>. val_ok \<sigma> \<longrightarrow> eqm w (coef_sum \<sigma> m + d_value c) (num (eval \<sigma> n))"
      by (auto simp: side_normal_def zero(2))
    with updateCoefMap_ascending [OF m(1) assms(5)] False show ?thesis by (simp add: SolveEq_side_def)
  qed
qed

subsection \<open>The merge\<close>

abbreviation "difference \<sigma> ls rs \<equiv> fold_num BITVECTOR_PLUS \<sigma> ls - fold_num BITVECTOR_PLUS \<sigma> rs"

lemma eqm_step:
  assumes "eqm w l1 (l + a)" "eqm w r1 (r + b)" "eqm w d (l1 - r1 + x - y)" "z = l - r + (a + x) - (b + y)"
  shows "eqm w d z"
proof -
  have "eqm w (l1 - r1 + (x - y)) (l + a - (r + b) + (x - y))" using assms(1,2) by (intro eqm_add eqm_diff eqm_refl)
  then have "eqm w (l1 - r1 + x - y) z" by (simp add: assms(4) algebra_simps)
  with assms(3) show ?thesis by (rule eqm_trans)
qed

text \<open>A term of both sides.\<close>

lemma merge_shared:
  assumes "typeOf t = Some (BitVectorType w)" "bv_w w c" "bv_w w d" "of_width w ls" "of_width w rs" "0 < w" "w < 2147483648"
  shows "\<exists>ls1 rs1. (if bv_gt c d then and_then (bv_sub c d) (\<lambda>e. and_then (addToChildren t w e ls) (\<lambda>cs. Inr (cs, rs)))
      else if bv_gt d c then and_then (bv_sub d c) (\<lambda>e. and_then (addToChildren t w e rs) (\<lambda>cs. Inr (ls, cs))) else Inr (ls, rs)) =
        Inr (ls1, rs1) \<and> of_width w ls1 \<and> of_width w rs1 \<and>
      (\<forall>\<sigma>. val_ok \<sigma> \<longrightarrow> eqm w (difference \<sigma> ls1 rs1) (difference \<sigma> ls rs + num (eval \<sigma> t) * (d_value c - d_value d)))"
proof -
  consider (left) "bv_gt c d" | (right) "\<not> bv_gt c d" "bv_gt d c" | (same) "\<not> bv_gt c d" "\<not> bv_gt d c" by blast
  then show ?thesis
  proof cases
    case left
    from bv_arith(2) [OF assms(2,3)] obtain e where e: "bv_sub c d = Inr e" "bv_w w e" "eqm w (d_value e) (d_value c - d_value d)" by blast
    from addToChildren_value [OF assms(1) e(2) assms(4,6,7)] obtain cs where cs: "addToChildren t w e ls = Inr cs" "of_width w cs"
      "\<And>\<sigma>. val_ok \<sigma> \<Longrightarrow> eqm w (fold_num BITVECTOR_PLUS \<sigma> cs) (fold_num BITVECTOR_PLUS \<sigma> ls + num (eval \<sigma> t) * d_value e)" by blast
    have "eqm w (difference \<sigma> cs rs) (difference \<sigma> ls rs + num (eval \<sigma> t) * (d_value c - d_value d))" if "val_ok \<sigma>" for \<sigma>
      by (rule eqm_step [OF eqm_trans [OF cs(3) [OF that] eqm_add [OF eqm_refl eqm_mult [OF eqm_refl e(3)]]] eqm_refl [of w "fold_num BITVECTOR_PLUS \<sigma> rs + 0"], where x = 0 and y = 0]) simp_all
    with left e(1) cs(1,2) assms(5) show ?thesis by simp
  next
    case right
    from bv_arith(2) [OF assms(3,2)] obtain e where e: "bv_sub d c = Inr e" "bv_w w e" "eqm w (d_value e) (d_value d - d_value c)" by blast
    from addToChildren_value [OF assms(1) e(2) assms(5,6,7)] obtain cs where cs: "addToChildren t w e rs = Inr cs" "of_width w cs"
      "\<And>\<sigma>. val_ok \<sigma> \<Longrightarrow> eqm w (fold_num BITVECTOR_PLUS \<sigma> cs) (fold_num BITVECTOR_PLUS \<sigma> rs + num (eval \<sigma> t) * d_value e)" by blast
    have "eqm w (difference \<sigma> ls cs) (difference \<sigma> ls rs + num (eval \<sigma> t) * (d_value c - d_value d))" if "val_ok \<sigma>" for \<sigma>
      by (rule eqm_step [OF eqm_refl [of w "fold_num BITVECTOR_PLUS \<sigma> ls + 0"] eqm_trans [OF cs(3) [OF that] eqm_add [OF eqm_refl eqm_mult [OF eqm_refl e(3)]]], where x = 0 and y = 0]) (simp_all add: algebra_simps)
    with right e(1) cs(1,2) assms(4) show ?thesis by simp
  qed (use assms(4,5) in \<open>simp_all add: bv_gt_def\<close>)
qed

lemma SolveEq_merge_value:
  assumes "map_ok w l" "map_ok w r" "ascending nid l" "ascending nid r" "of_width w ls" "of_width w rs"
    "0 < w" "w < 2147483648" "inj nid"
  shows "\<exists>ls' rs' ch'. SolveEq_merge nid w l r ls rs ch = Inr (ls', rs', ch') \<and> of_width w ls' \<and> of_width w rs' \<and>
    (\<forall>\<sigma>. val_ok \<sigma> \<longrightarrow> eqm w (difference \<sigma> ls' rs') (difference \<sigma> ls rs + coef_sum \<sigma> l - coef_sum \<sigma> r))"
  using assms
proof (induction nid w l r ls rs ch rule: SolveEq_merge.induct)
  case (2 nid w t c l ls rs ch)
  from "2.prems" have t: "typeOf t = Some (BitVectorType w)" "bv_w w c" by (simp_all add: bv_w_def)
  from addToChildren_value [OF t "2.prems"(5,7,8)] obtain ls1 where ls1: "addToChildren t w c ls = Inr ls1" "of_width w ls1"
    "\<And>\<sigma>. val_ok \<sigma> \<Longrightarrow> eqm w (fold_num BITVECTOR_PLUS \<sigma> ls1) (fold_num BITVECTOR_PLUS \<sigma> ls + num (eval \<sigma> t) * d_value c)" by blast
  have e: "SolveEq_merge nid w ((t, c) # l) [] ls rs ch = SolveEq_merge nid w l [] ls1 rs ch"
    using ls1(1) ascending_ascends [OF "2.prems"(3)] by (simp add: Assert_def)
  from "2.IH" [of ls1] "2.prems" ls1(2)
  obtain ls' rs' ch' where r: "SolveEq_merge nid w l [] ls1 rs ch = Inr (ls', rs', ch')" "of_width w ls'" "of_width w rs'"
    "\<And>\<sigma>. val_ok \<sigma> \<Longrightarrow> eqm w (difference \<sigma> ls' rs') (difference \<sigma> ls1 rs + coef_sum \<sigma> l - coef_sum \<sigma> [])" by auto
  have "eqm w (difference \<sigma> ls' rs') (difference \<sigma> ls rs + coef_sum \<sigma> ((t, c) # l) - coef_sum \<sigma> [])" if "val_ok \<sigma>" for \<sigma>
    by (rule eqm_step [OF ls1(3) [OF that] _ r(4) [OF that], of _ 0]) simp_all
  with r show ?case unfolding e by blast
next
  case (3 nid w u d r ls rs ch)
  from "3.prems" have u: "typeOf u = Some (BitVectorType w)" "bv_w w d" by (simp_all add: bv_w_def)
  from addToChildren_value [OF u "3.prems"(6,7,8)] obtain rs1 where rs1: "addToChildren u w d rs = Inr rs1" "of_width w rs1"
    "\<And>\<sigma>. val_ok \<sigma> \<Longrightarrow> eqm w (fold_num BITVECTOR_PLUS \<sigma> rs1) (fold_num BITVECTOR_PLUS \<sigma> rs + num (eval \<sigma> u) * d_value d)" by blast
  have e: "SolveEq_merge nid w [] ((u, d) # r) ls rs ch = SolveEq_merge nid w [] r ls rs1 ch"
    using rs1(1) ascending_ascends [OF "3.prems"(4)] by (simp add: Assert_def)
  from "3.IH" [of rs1] "3.prems" rs1(2)
  obtain ls' rs' ch' where r: "SolveEq_merge nid w [] r ls rs1 ch = Inr (ls', rs', ch')" "of_width w ls'" "of_width w rs'"
    "\<And>\<sigma>. val_ok \<sigma> \<Longrightarrow> eqm w (difference \<sigma> ls' rs') (difference \<sigma> ls rs1 + coef_sum \<sigma> [] - coef_sum \<sigma> r)" by auto
  have "eqm w (difference \<sigma> ls' rs') (difference \<sigma> ls rs + coef_sum \<sigma> [] - coef_sum \<sigma> ((u, d) # r))" if "val_ok \<sigma>" for \<sigma>
    by (rule eqm_step [OF _ rs1(3) [OF that] r(4) [OF that], of _ 0]) simp_all
  with r show ?case unfolding e by blast
next
  case (4 nid w t c l u d r ls rs ch)
  from "4.prems" have t: "typeOf t = Some (BitVectorType w)" "bv_w w c" and u: "typeOf u = Some (BitVectorType w)" "bv_w w d"
    by (simp_all add: bv_w_def)
  note asc = ascending_ascends [OF "4.prems"(3)] ascending_ascends [OF "4.prems"(4)]
  consider (left) "nid t < nid u" | (right) "\<not> nid t < nid u" "nid u < nid t" | (both) "\<not> nid t < nid u" "\<not> nid u < nid t" "t = u"
    using injD [OF "4.prems"(9), of t u] by fastforce
  then show ?case
  proof cases
    case left
    from addToChildren_value [OF t "4.prems"(5,7,8)] obtain ls1 where ls1: "addToChildren t w c ls = Inr ls1" "of_width w ls1"
      "\<And>\<sigma>. val_ok \<sigma> \<Longrightarrow> eqm w (fold_num BITVECTOR_PLUS \<sigma> ls1) (fold_num BITVECTOR_PLUS \<sigma> ls + num (eval \<sigma> t) * d_value c)" by blast
    have e: "SolveEq_merge nid w ((t, c) # l) ((u, d) # r) ls rs ch = SolveEq_merge nid w l ((u, d) # r) ls1 rs ch"
      using ls1(1) left asc by (simp add: Assert_def)
    from "4.IH"(1) [OF left, of ls1] "4.prems" ls1(2)
    obtain ls' rs' ch' where r: "SolveEq_merge nid w l ((u, d) # r) ls1 rs ch = Inr (ls', rs', ch')" "of_width w ls'" "of_width w rs'"
      "\<And>\<sigma>. val_ok \<sigma> \<Longrightarrow> eqm w (difference \<sigma> ls' rs') (difference \<sigma> ls1 rs + coef_sum \<sigma> l - coef_sum \<sigma> ((u, d) # r))" by auto
    have "eqm w (difference \<sigma> ls' rs') (difference \<sigma> ls rs + coef_sum \<sigma> ((t, c) # l) - coef_sum \<sigma> ((u, d) # r))" if "val_ok \<sigma>" for \<sigma>
      by (rule eqm_step [OF ls1(3) [OF that] _ r(4) [OF that], of _ 0]) simp_all
    with r show ?thesis unfolding e by blast
  next
    case right
    from addToChildren_value [OF u "4.prems"(6,7,8)] obtain rs1 where rs1: "addToChildren u w d rs = Inr rs1" "of_width w rs1"
      "\<And>\<sigma>. val_ok \<sigma> \<Longrightarrow> eqm w (fold_num BITVECTOR_PLUS \<sigma> rs1) (fold_num BITVECTOR_PLUS \<sigma> rs + num (eval \<sigma> u) * d_value d)" by blast
    have e: "SolveEq_merge nid w ((t, c) # l) ((u, d) # r) ls rs ch = SolveEq_merge nid w ((t, c) # l) r ls rs1 ch"
      using rs1(1) right asc by (simp add: Assert_def)
    from "4.IH"(2) [OF right, of rs1] "4.prems" rs1(2)
    obtain ls' rs' ch' where r: "SolveEq_merge nid w ((t, c) # l) r ls rs1 ch = Inr (ls', rs', ch')" "of_width w ls'" "of_width w rs'"
      "\<And>\<sigma>. val_ok \<sigma> \<Longrightarrow> eqm w (difference \<sigma> ls' rs') (difference \<sigma> ls rs1 + coef_sum \<sigma> ((t, c) # l) - coef_sum \<sigma> r)" by auto
    have "eqm w (difference \<sigma> ls' rs') (difference \<sigma> ls rs + coef_sum \<sigma> ((t, c) # l) - coef_sum \<sigma> ((u, d) # r))" if "val_ok \<sigma>" for \<sigma>
      by (rule eqm_step [OF _ rs1(3) [OF that] r(4) [OF that], of _ 0]) simp_all
    with r show ?thesis unfolding e by blast
  next
    case both
    let ?step = "if bv_gt c d then and_then (bv_sub c d) (\<lambda>e. and_then (addToChildren t w e ls) (\<lambda>cs. Inr (cs, rs)))
      else if bv_gt d c then and_then (bv_sub d c) (\<lambda>e. and_then (addToChildren u w e rs) (\<lambda>cs. Inr (ls, cs))) else Inr (ls, rs)"
    have "\<exists>ls1 rs1. ?step = Inr (ls1, rs1) \<and> of_width w ls1 \<and> of_width w rs1 \<and>
      (\<forall>\<sigma>. val_ok \<sigma> \<longrightarrow> eqm w (difference \<sigma> ls1 rs1) (difference \<sigma> ls rs + num (eval \<sigma> t) * (d_value c - d_value d)))"
      using merge_shared [OF t(1) t(2) u(2) "4.prems"(5-8)] unfolding both(3) .
    then obtain ls1 rs1 where s: "?step = Inr (ls1, rs1)" "of_width w ls1" "of_width w rs1"
      "\<And>\<sigma>. val_ok \<sigma> \<Longrightarrow> eqm w (difference \<sigma> ls1 rs1) (difference \<sigma> ls rs + num (eval \<sigma> t) * (d_value c - d_value d))" by blast
    have e: "SolveEq_merge nid w ((t, c) # l) ((u, d) # r) ls rs ch = SolveEq_merge nid w l r ls1 rs1 True"
      unfolding SolveEq_merge.simps(4) if_not_P [OF both(1)] if_not_P [OF both(2)] s(1) using asc by (simp add: Assert_def)
    from "4.IH"(3) [OF both(1,2), of ls1 rs1] "4.prems" s(2,3)
    obtain ls' rs' ch' where r: "SolveEq_merge nid w l r ls1 rs1 True = Inr (ls', rs', ch')" "of_width w ls'" "of_width w rs'"
      "\<And>\<sigma>. val_ok \<sigma> \<Longrightarrow> eqm w (difference \<sigma> ls' rs') (difference \<sigma> ls1 rs1 + coef_sum \<sigma> l - coef_sum \<sigma> r)" by auto
    have "eqm w (difference \<sigma> ls' rs') (difference \<sigma> ls rs + coef_sum \<sigma> ((t, c) # l) - coef_sum \<sigma> ((u, d) # r))" if "val_ok \<sigma>" for \<sigma>
      by (rule eqm_step [OF s(4) [OF that] eqm_refl [of w "0 + 0"], of _ "coef_sum \<sigma> l" "coef_sum \<sigma> r"]) (use r(4) [OF that] both(3) in \<open>simp_all add: algebra_simps\<close>)
    with r show ?thesis unfolding e by blast
  qed
qed simp

subsection \<open>The constants and the two sides\<close>

text \<open>What the two last steps rely on: a constant that is not zero is the last child of its side.\<close>

definition solve_ok :: "nat \<Rightarrow> solve_state \<Rightarrow> bool" where
  "solve_ok w s \<longleftrightarrow> bv_w w (s_leftConst s) \<and> bv_w w (s_rightConst s) \<and> of_width w (s_left s) \<and> of_width w (s_right s) \<and>
     (d_value (s_leftConst s) \<noteq> 0 \<longrightarrow> d_value (s_rightConst s) = 0 \<and> (\<exists>x. s_left s = x @ [mkConstBV (s_leftConst s)])) \<and>
     (d_value (s_rightConst s) \<noteq> 0 \<longrightarrow> d_value (s_leftConst s) = 0 \<and> (\<exists>x. s_right s = x @ [mkConstBV (s_rightConst s)]))"

lemma bv_eq_zero: "bv_w w c \<Longrightarrow> 0 < w \<Longrightarrow> w < 2147483648 \<Longrightarrow> bv_eq c (mkBitVector w 0) \<longleftrightarrow> d_value c = 0"
  using mkBitVector_w [of w 0] by (simp add: bv_eq_def bv_w_def)

lemma SolveEq_constants_value:
  assumes "bv_w w (s_leftConst s)" "bv_w w (s_rightConst s)" "of_width w (s_left s)" "of_width w (s_right s)" "0 < w" "w < 2147483648"
  shows "\<exists>s'. SolveEq_constants w s = Inr s' \<and> solve_ok w s' \<and> (\<forall>\<sigma>.
    eqm w (difference \<sigma> (s_left s') (s_right s')) (difference \<sigma> (s_left s) (s_right s) + d_value (s_leftConst s) - d_value (s_rightConst s)))"
proof -
  let ?l = "s_leftConst s" and ?r = "s_rightConst s"
  have zero: "bv_w w (mkBitVector w 0)" "d_value (mkBitVector w 0) = 0" using mkBitVector_w assms(5,6) by simp_all
  note eqz = bv_eq_zero [OF _ assms(5,6)]
  note const = bv_w_const(1) [OF _ assms(6)] bv_w_const(2)
  from bv_arith(2) [OF assms(2,1)] obtain e where e: "bv_sub ?r ?l = Inr e" "bv_w w e" "eqm w (d_value e) (d_value ?r - d_value ?l)" by blast
  consider (r) "d_value ?r \<noteq> 0" | (l) "d_value ?r = 0" "d_value ?l \<noteq> 0" | (z) "d_value ?r = 0" "d_value ?l = 0" by blast
  then show ?thesis
  proof cases
    case r
    let ?right = "if d_value e \<noteq> 0 then s_right s @ [mkConstBV e] else s_right s"
    have "fold_num BITVECTOR_PLUS \<sigma> ?right = fold_num BITVECTOR_PLUS \<sigma> (s_right s) + d_value e" for \<sigma>
      by (simp add: fold_plus_append const)
    then have "eqm w (difference \<sigma> (s_left s) ?right) (difference \<sigma> (s_left s) (s_right s) + d_value ?l - d_value ?r)" for \<sigma>
      using eqm_diff [OF eqm_refl e(3), of "difference \<sigma> (s_left s) (s_right s)"] by (simp add: algebra_simps)
    with r assms e zero show ?thesis by (simp add: SolveEq_constants_def eqz solve_ok_def const Let_def)
  next
    case l
    with assms zero show ?thesis by (simp add: SolveEq_constants_def eqz solve_ok_def const Let_def fold_plus_append algebra_simps)
  next
    case z
    with assms zero show ?thesis by (simp add: SolveEq_constants_def eqz solve_ok_def const Let_def)
  qed
qed

lemma nonzero_const: "bv_w w c \<Longrightarrow> eqm w (d_value c) 0 \<Longrightarrow> d_value c = 0"
  by (auto simp: bv_w_def bv_ok_def eqm_def take_bit_id)

lemma eqm_zero_minus: "eqm w (- x) 0 \<longleftrightarrow> eqm w x 0"
  using eqm_minus [of w x 0] eqm_minus [of w "- x" 0] by auto

lemma ends_with_const: "ends_with (x @ [mkConstBV c]) c"
  by (simp add: ends_with_def mkConstBV_def bv_eq_def)

text \<open>The sum of a list of terms.\<close>

lemma plus_node:
  assumes "ts \<noteq> []" "of_width w ts"
  shows "typeOf (mkNaryNode BITVECTOR_PLUS ts) = Some (BitVectorType w)"
    "val_ok \<sigma> \<Longrightarrow> eqm w (num (eval \<sigma> (mkNaryNode BITVECTOR_PLUS ts))) (fold_num BITVECTOR_PLUS \<sigma> ts)"
  using mkNaryNode_ac [of BITVECTOR_PLUS ts w] assms by simp_all

lemma SolveEq_sides_value:
  assumes "solve_ok w s" "0 < w" "w < 2147483648"
  shows "\<exists>r. SolveEq_sides w s = Inr r \<and> (case r of
      None \<Rightarrow> \<forall>\<sigma>. \<not> eqm w (difference \<sigma> (s_left s) (s_right s)) 0
    | Some (a, b, _) \<Rightarrow> typeOf a = Some (BitVectorType w) \<and> typeOf b = Some (BitVectorType w) \<and>
        (\<forall>\<sigma>. val_ok \<sigma> \<longrightarrow> eqm w (num (eval \<sigma> a) - num (eval \<sigma> b)) (difference \<sigma> (s_left s) (s_right s))))"
proof -
  let ?l = "s_leftConst s" and ?r = "s_rightConst s"
  have ok: "bv_w w ?l" "bv_w w ?r" "of_width w (s_left s)" "of_width w (s_right s)"
    and lc: "d_value ?l \<noteq> 0 \<Longrightarrow> d_value ?r = 0 \<and> (\<exists>x. s_left s = x @ [mkConstBV ?l])"
    and rc: "d_value ?r \<noteq> 0 \<Longrightarrow> d_value ?l = 0 \<and> (\<exists>x. s_right s = x @ [mkConstBV ?r])"
    using assms(1) by (auto simp: solve_ok_def)
  note eqz = bv_eq_zero [OF _ assms(2,3)]
  note const = bv_w_const(1) [OF _ assms(3)] bv_w_const(2)
  have zero: "typeOf (mkConst w 0) = Some (BitVectorType w)" "num (eval \<sigma> (mkConst w 0)) = 0" for \<sigma> using assms(2,3) by simp_all
  have one: "mkNaryNode BITVECTOR_PLUS [t] = t" for t by (simp add: mkNaryNode_def)
  consider (L) "s_right s = []" "d_value ?l \<noteq> 0" | (R) "s_left s = []" "d_value ?r \<noteq> 0"
    | (none) "s_right s = [] \<longrightarrow> d_value ?l = 0" "s_left s = [] \<longrightarrow> d_value ?r = 0" by blast
  then show ?thesis
  proof cases
    case L
    with lc obtain x where x: "s_left s = x @ [mkConstBV ?l]" by blast
    from bv_arith(4) [OF ok(1) ok(1)] obtain m where m: "bv_neg ?l = Inr m" "bv_w w m" "eqm w (d_value m) (- d_value ?l)" by blast
    have F: "difference \<sigma> (s_left s) (s_right s) = fold_num BITVECTOR_PLUS \<sigma> x + d_value ?l" for \<sigma>
      by (simp add: x L(1) fold_plus_append const)
    show ?thesis
    proof (cases "x = []")
      case True
      with L x ok nonzero_const [OF ok(1)] show ?thesis unfolding F
        by (auto simp: SolveEq_sides_def eqz Assert_def Let_def ends_with_const [of "[]", simplified])
    next
      case False
      have ow: "of_width w x" using ok(3) by (simp add: x)
      have r: "SolveEq_sides w s = Inr (Some (mkNaryNode BITVECTOR_PLUS x, mkConstBV m, True))"
        using L x ok False m(1) by (simp add: SolveEq_sides_def eqz Assert_def Let_def ends_with_const one)
      have "eqm w (num (eval \<sigma> (mkNaryNode BITVECTOR_PLUS x)) - num (eval \<sigma> (mkConstBV m))) (fold_num BITVECTOR_PLUS \<sigma> x + d_value ?l)"
        if "val_ok \<sigma>" for \<sigma>
        using eqm_diff [OF plus_node(2) [OF False ow that] m(3)] by (simp add: const)
      with r plus_node(1) [OF False ow] const(1) [OF m(2)] show ?thesis unfolding F by simp
    qed
  next
    case R
    with rc obtain x where x: "s_right s = x @ [mkConstBV ?r]" and l0: "d_value ?l = 0" by blast
    from bv_arith(4) [OF ok(2) ok(2)] obtain m where m: "bv_neg ?r = Inr m" "bv_w w m" "eqm w (d_value m) (- d_value ?r)" by blast
    have F: "difference \<sigma> (s_left s) (s_right s) = - (fold_num BITVECTOR_PLUS \<sigma> x + d_value ?r)" for \<sigma>
      by (simp add: x R(1) fold_plus_append const)
    show ?thesis
    proof (cases "x = []")
      case True
      with R x ok nonzero_const [OF ok(2)] show ?thesis unfolding F eqm_zero_minus
        by (auto simp: SolveEq_sides_def eqz Assert_def Let_def ends_with_const [of "[]", simplified])
    next
      case False
      have ow: "of_width w x" using ok(4) by (simp add: x)
      have r: "SolveEq_sides w s = Inr (Some (mkConstBV m, mkNaryNode BITVECTOR_PLUS x, True))"
        using R x l0 ok False m(1) by (simp add: SolveEq_sides_def eqz Assert_def Let_def ends_with_const)
      have "eqm w (num (eval \<sigma> (mkConstBV m)) - num (eval \<sigma> (mkNaryNode BITVECTOR_PLUS x))) (- (fold_num BITVECTOR_PLUS \<sigma> x + d_value ?r))"
        if "val_ok \<sigma>" for \<sigma>
        using eqm_diff [OF m(3) plus_node(2) [OF False ow that]] by (simp add: const algebra_simps)
      with r plus_node(1) [OF False ow] const(1) [OF m(2)] show ?thesis unfolding F by simp
    qed
  next
    case none
    let ?a = "if s_left s = [] then mkConst w 0 else mkNaryNode BITVECTOR_PLUS (s_left s)"
    let ?b = "if s_right s = [] then mkConst w 0 else mkNaryNode BITVECTOR_PLUS (s_right s)"
    have r: "SolveEq_sides w s = Inr (Some (?a, ?b, s_changed s))"
      using none ok by (cases "s_left s = []"; cases "s_right s = []") (simp_all add: SolveEq_sides_def eqz Let_def)
    have "typeOf ?a = Some (BitVectorType w)" "typeOf ?b = Some (BitVectorType w)" using zero(1) plus_node(1) ok(3,4) by simp_all
    moreover have "eqm w (num (eval \<sigma> ?a) - num (eval \<sigma> ?b)) (difference \<sigma> (s_left s) (s_right s))" if "val_ok \<sigma>" for \<sigma>
      by (rule eqm_diff) (use zero(2) plus_node(2) [OF _ _ that] ok(3,4) in simp_all)
    ultimately show ?thesis unfolding r by simp
  qed
qed

subsection \<open>The rule\<close>

lemma eqm_diff_zero: "eqm w (x - y) 0 \<longleftrightarrow> eqm w x y"
  using eqm_add [of w "x - y" 0 y y] eqm_diff [of w x y y y] by auto

lemma equal_iff_eqm:
  assumes "typeOf a = Some (BitVectorType w)" "typeOf b = Some (BitVectorType w)" "val_ok \<sigma>"
  shows "eval \<sigma> a = eval \<sigma> b \<longleftrightarrow> eqm w (num (eval \<sigma> a) - num (eval \<sigma> b)) 0"
  unfolding eqm_diff_zero using eval_bv_eq [OF assms] eval_bv(6) [OF assms(1,3)] eval_bv(6) [OF assms(2,3)] by (simp add: eqm_def)

lemma not_differs:
  assumes "typeOf n = Some (BitVectorType w)" "getKind n = BITVECTOR_NOT" "val_ok \<sigma>" "0 < w"
  shows "eval \<sigma> n \<noteq> eval \<sigma> (child n 0)"
proof -
  from assms(1,2) obtain a where n: "n = App BITVECTOR_NOT [a]" "typeOf a = Some (BitVectorType w)"
    by (auto simp: getKind_iff isBitVector_iff)
  have "bit (sem_not w (num (eval \<sigma> a))) 0 \<noteq> bit (num (eval \<sigma> a)) 0"
    using assms(4) by (simp add: sem_not_def bit_0 even_mask_iff)
  then show ?thesis using eval_bv(1,5) [OF n(2) assms(3)] by (auto simp: n(1))
qed

lemma SolveEq_new_value:
  assumes "typeOf a = Some (BitVectorType w)" "typeOf b = Some (BitVectorType w)" "side_normal a" "side_normal b"
    "0 < w" "w < 2147483648" "inj nid"
  shows "\<exists>r. SolveEq_new nid w a b = Inr r \<and> (case r of
      None \<Rightarrow> \<forall>\<sigma>. val_ok \<sigma> \<longrightarrow> eval \<sigma> a \<noteq> eval \<sigma> b
    | Some (l, r, _) \<Rightarrow> typeOf l = Some (BitVectorType w) \<and> typeOf r = Some (BitVectorType w) \<and>
        (\<forall>\<sigma>. val_ok \<sigma> \<longrightarrow> (eval \<sigma> l = eval \<sigma> r) = (eval \<sigma> a = eval \<sigma> b)))"
proof -
  consider (left) "SolveEq_side nid w a b = Inr None" "getKind a = BITVECTOR_NOT" "child a 0 = b"
    | (right) m c where "SolveEq_side nid w a b = Inr (Some (m, c))" "SolveEq_side nid w b a = Inr None" "getKind b = BITVECTOR_NOT" "child b 0 = a"
    | (both) m c m' c' where "SolveEq_side nid w a b = Inr (Some (m, c))" "SolveEq_side nid w b a = Inr (Some (m', c'))"
      "map_ok w m" "ascending nid m" "bv_w w c" "map_ok w m'" "ascending nid m'" "bv_w w c'"
      "\<And>\<sigma>. val_ok \<sigma> \<Longrightarrow> eqm w (coef_sum \<sigma> m + d_value c) (num (eval \<sigma> a))"
      "\<And>\<sigma>. val_ok \<sigma> \<Longrightarrow> eqm w (coef_sum \<sigma> m' + d_value c') (num (eval \<sigma> b))"
    using SolveEq_side_value [OF assms(1,3,5-7), of b] SolveEq_side_value [OF assms(2,4,5-7), of a] by blast
  then show ?thesis
  proof cases
    case left
    then show ?thesis using not_differs [OF assms(1) left(2) _ assms(5)] by (simp add: SolveEq_new_def)
  next
    case right
    then show ?thesis using not_differs [OF assms(2) right(3) _ assms(5)] by (fastforce simp: SolveEq_new_def)
  next
    case both
    from SolveEq_merge_value [OF both(3,6,4,7) _ _ assms(5-7), of "[]" "[]" False] obtain ls rs ch where
      m: "SolveEq_merge nid w m m' [] [] False = Inr (ls, rs, ch)" "of_width w ls" "of_width w rs"
        "\<And>\<sigma>. val_ok \<sigma> \<Longrightarrow> eqm w (difference \<sigma> ls rs) (coef_sum \<sigma> m - coef_sum \<sigma> m')" by auto
    let ?s = "\<lparr>s_leftConst = c, s_rightConst = c', s_left = ls, s_right = rs, s_changed = ch\<rparr>"
    from SolveEq_constants_value [of w ?s] both(5,8) m(2,3) assms(5,6) obtain s where
      s: "SolveEq_constants w ?s = Inr s" "solve_ok w s"
        "\<And>\<sigma>. eqm w (difference \<sigma> (s_left s) (s_right s)) (difference \<sigma> ls rs + d_value c - d_value c')" by auto
    from SolveEq_sides_value [OF s(2) assms(5,6)] obtain r where r: "SolveEq_sides w s = Inr r"
      "case r of None \<Rightarrow> \<forall>\<sigma>. \<not> eqm w (difference \<sigma> (s_left s) (s_right s)) 0
       | Some (a, b, _) \<Rightarrow> typeOf a = Some (BitVectorType w) \<and> typeOf b = Some (BitVectorType w) \<and>
        (\<forall>\<sigma>. val_ok \<sigma> \<longrightarrow> eqm w (num (eval \<sigma> a) - num (eval \<sigma> b)) (difference \<sigma> (s_left s) (s_right s)))" by blast
    have e: "SolveEq_new nid w a b = Inr r" by (simp add: SolveEq_new_def both(1,2) m(1) s(1) r(1))
    have D: "eqm w (difference \<sigma> (s_left s) (s_right s)) (num (eval \<sigma> a) - num (eval \<sigma> b))" if "val_ok \<sigma>" for \<sigma>
    proof -
      have "eqm w (difference \<sigma> (s_left s) (s_right s)) (coef_sum \<sigma> m - coef_sum \<sigma> m' + (d_value c - d_value c'))"
        using eqm_trans [OF s(3)] eqm_add [OF m(4) [OF that] eqm_refl [of w "d_value c - d_value c'"]] by (simp add: add_diff_eq)
      also have "coef_sum \<sigma> m - coef_sum \<sigma> m' + (d_value c - d_value c') = coef_sum \<sigma> m + d_value c - (coef_sum \<sigma> m' + d_value c')" by simp
      also have "eqm w \<dots> (num (eval \<sigma> a) - num (eval \<sigma> b))" by (rule eqm_diff [OF both(9,10) [OF that]])
      finally show ?thesis .
    qed
    have iff: "eval \<sigma> a = eval \<sigma> b \<longleftrightarrow> eqm w (difference \<sigma> (s_left s) (s_right s)) 0" if "val_ok \<sigma>" for \<sigma>
      using equal_iff_eqm [OF assms(1,2) that] D [OF that] eqm_trans eqm_sym by blast
    show ?thesis
    proof (cases r)
      case None
      with r(2) iff show ?thesis unfolding e by simp
    next
      case (Some lr)
      obtain l rr ch' where lr: "lr = (l, rr, ch')" by (metis surj_pair)
      from r(2) have t: "typeOf l = Some (BitVectorType w)" "typeOf rr = Some (BitVectorType w)"
        "\<And>\<sigma>. val_ok \<sigma> \<Longrightarrow> eqm w (num (eval \<sigma> l) - num (eval \<sigma> rr)) (difference \<sigma> (s_left s) (s_right s))" by (simp_all add: Some lr)
      have "eval \<sigma> l = eval \<sigma> rr \<longleftrightarrow> eval \<sigma> a = eval \<sigma> b" if "val_ok \<sigma>" for \<sigma>
        unfolding equal_iff_eqm [OF t(1,2) that] iff [OF that] using t(3) [OF that] eqm_trans eqm_sym by blast
      with t(1,2) show ?thesis unfolding e by (simp add: Some lr)
    qed
  qed
qed

text \<open>C37: \<open>hasSubterm\<close>, a breadth-first search with a set of visited nodes, terminates and decides whether a term occurs in
  another, strictly below it when \<open>strict\<close> is set.\<close>

theorem hasSubterm_decides: "hasSubterm n t strict \<longleftrightarrow> t \<in> (if strict then strict_subterms n else subterms n)"
  by (rule hasSubterm_correct)

lemma SolveEq_cases:
  assumes "typeOf n = Some T" "getKind n = EQUAL" "typeOf (child n 0) = Some (BitVectorType w)"
    and "side_normal (child n 0)" "side_normal (child n 1)" "inj nid"
  shows "case rule_apply (SolveEq nid rewrite) n of
      Inr m \<Rightarrow> equiv m n
    | Inl e \<Rightarrow> e = AssertionFailure \<and> (\<exists>a b. SolveEq_new nid w (child n 0) (child n 1) = Inr (Some (a, b, True)) \<and>
        (a = b \<or> rewrite a = child n 0 \<and> rewrite b = child n 1 \<or> rewrite b = child n 0 \<and> rewrite a = child n 1))"
proof -
  from assms(1-3) obtain l r where n: "n = App EQUAL [l, r]" "T = BooleanType" and
    t: "typeOf l = Some (BitVectorType w)" "typeOf r = Some (BitVectorType w)"
    by (auto simp: getKind_iff split: if_splits)
  have w: "0 < w" "w < 2147483648" using typeOf_width [OF t(1)] by simp_all
  have boolean: "typeOf (App EQUAL [l, r]) = Some BooleanType" using assms(1) by (simp add: n)
  have size: "getSize l = w" using getSize_typed [OF t(1)] by simp
  from SolveEq_new_value [OF t _ _ w assms(6)] assms(4,5) obtain q where q: "SolveEq_new nid w l r = Inr q"
    "case q of None \<Rightarrow> \<forall>\<sigma>. val_ok \<sigma> \<longrightarrow> eval \<sigma> l \<noteq> eval \<sigma> r
    | Some (a, b, _) \<Rightarrow> typeOf a = Some (BitVectorType w) \<and> typeOf b = Some (BitVectorType w) \<and>
        (\<forall>\<sigma>. val_ok \<sigma> \<longrightarrow> (eval \<sigma> a = eval \<sigma> b) = (eval \<sigma> l = eval \<sigma> r))" by (auto simp: n)
  show ?thesis
  proof (cases q)
    case None
    with q show ?thesis unfolding n by (simp add: SolveEq_def size equiv_def boolean)
  next
    case (Some p)
    obtain a b ch where p: "p = (a, b, ch)" by (metis surj_pair)
    from q(2) [unfolded Some p option.case prod.case] have ab: "typeOf a = Some (BitVectorType w)" "typeOf b = Some (BitVectorType w)"
      "\<And>\<sigma>. val_ok \<sigma> \<Longrightarrow> eval \<sigma> a = eval \<sigma> b \<longleftrightarrow> eval \<sigma> l = eval \<sigma> r" by blast+
    have eq: "eval \<sigma> (App EQUAL [x, y]) = VBool (eval \<sigma> x = eval \<sigma> y)" for \<sigma> x y by simp
    have types: "typeOf (App EQUAL [a, b]) = Some BooleanType" "typeOf (App EQUAL [b, a]) = Some BooleanType" using ab(1,2) by simp_all
    have swap: "(eval \<sigma> b = eval \<sigma> a) = (eval \<sigma> a = eval \<sigma> b)" for \<sigma> by (rule eq_commute)
    have new: "equiv (App EQUAL [a, b]) n" "equiv (App EQUAL [b, a]) n" "equiv n n"
      unfolding equiv_def n(1) eq types boolean swap using ab(3) by simp_all
    have true: "equiv mkTrue n" if "a = b" using ab(3) that unfolding equiv_def n boolean by simp
    consider (same) "\<not> ch" | (true) "ch" "a = b" | (swap) "ch" "a \<noteq> b" "nid a < nid b" | (keep) "ch" "a \<noteq> b" "\<not> nid a < nid b" by blast
    then show ?thesis
      using q(1) new true unfolding n(1) by cases (auto simp: SolveEq_def size Some p Assert_def Let_def)
  qed
qed

text \<open>C36: on an equality whose products have their constants last, \<open>SolveEq\<close> returns an equivalent formula, or one of its
  two last assertions fails: the two sides it built are the same node, or the rewriter sends them back to the sides they
  came from.\<close>

theorem SolveEq_sound:
  assumes "typeOf n = Some T" "getKind n = EQUAL" "typeOf (child n 0) = Some (BitVectorType w)"
    and "side_normal (child n 0)" "side_normal (child n 1)" "inj nid"
  shows "case rule_apply (SolveEq nid rewrite) n of
      Inr m \<Rightarrow> equiv m n
    | Inl e \<Rightarrow> e = AssertionFailure \<and> (\<exists>a b. SolveEq_new nid w (child n 0) (child n 1) = Inr (Some (a, b, True)) \<and>
        (a = b \<or> rewrite a = child n 0 \<and> rewrite b = child n 1 \<or> rewrite b = child n 0 \<and> rewrite a = child n 1))"
  by (rule SolveEq_cases [OF assms])

theorem SolveEq_sound_witness:
  "equiv mkFalse (App EQUAL [App BITVECTOR_PLUS [Var 0 (BitVectorType 8), mkConst 8 1], App BITVECTOR_PLUS [Var 0 (BitVectorType 8), mkConst 8 2]])"
proof -
  let ?x = "Var 0 (BitVectorType 8)"
  let ?n = "App EQUAL [App BITVECTOR_PLUS [?x, mkConst 8 1], App BITVECTOR_PLUS [?x, mkConst 8 2]]"
  have "rule_apply (SolveEq to_nat id) ?n = Inr mkFalse"
    by (simp add: SolveEq_def Let_def getSize_typed [of _ "BitVectorType 8"] isBitVector_iff SolveEq_new_def SolveEq_side_def updateCoefMap_def
      SolveEq_constants_def SolveEq_sides_def ends_with_def ascends_def Assert_def bv_add_sem bv_sub_sem sem_add_def sem_sub_def bv_eq_def bv_gt_def
      mkBitVector_def modByPow2_def bv_ok_def take_bit_eq_mod mkConst_def mkConstBV_def)
  moreover have "mult_normal (mkConst 8 i)" for i by (simp add: mult_normal_def mkConst_def)
  ultimately show ?thesis
    using SolveEq_sound [of ?n BooleanType 8 to_nat id] by (simp add: side_normal_def mult_normal_def [of "Var _ _"] isBitVector_iff)
qed

end
