(* ===== verification/Rewriter.thy ===== *)
theory Rewriter
  imports Rules_OpElim Rules_Simplify_Ext Rules_Simplify_Special Rules_Normalize_SolveEq
begin

section \<open>The rewriter of the theory of bit-vectors\<close>

text \<open>
  \<open>theory/bv/theory_bv_rewriter.cpp\<close>: one function per kind, which runs the rules of that kind in a fixed order
  before (\<open>prerewrite\<close>) or after the children are rewritten, and the dispatch table over the kinds. The response
  tells the driver whether to go on. The options, the identifiers of nodes, the iteration order of hash maps and the
  global rewriter that two assertions of \<open>SolveEq\<close> call are the fields of an environment.
\<close>

subsection \<open>Responses and the environment\<close>

datatype RewriteStatus = REWRITE_DONE | REWRITE_AGAIN | REWRITE_AGAIN_FULL

record RewriteResponse =
  d_status :: RewriteStatus
  d_node :: node

record rewriter_env =
  node_id :: "node \<Rightarrow> nat"
  hash_order :: "count_map \<Rightarrow> count_map"
  Rewriter_rewrite :: "node \<Rightarrow> node"
  bitvectorDivByZeroConst :: bool
  bvExtractArithRewrite :: bool
  bvLazyRewriteExtf :: bool

definition respond :: "RewriteStatus \<Rightarrow> node result \<Rightarrow> RewriteResponse result" where
  "respond st r = and_then r (\<lambda>n. Inr \<lparr>d_status = st, d_node = n\<rparr>)"

text \<open>The response \<open>resultNode == node ? REWRITE_DONE : again\<close>.\<close>

definition respond_changed :: "RewriteStatus \<Rightarrow> node \<Rightarrow> node result \<Rightarrow> RewriteResponse result" where
  "respond_changed again node r = and_then r (\<lambda>n. Inr \<lparr>d_status = (if n = node then REWRITE_DONE else again), d_node = n\<rparr>)"

subsection \<open>A rule applied to the children\<close>

fun run_children :: "rule \<Rightarrow> node list \<Rightarrow> node list result" where
  "run_children r [] = Inr []"
| "run_children r (c # cs) = and_then (RewriteRule_run True r c) (\<lambda>c. and_then (run_children r cs) (\<lambda>cs. Inr (c # cs)))"

definition ApplyRuleToChildren :: "kind \<Rightarrow> rule \<Rightarrow> rule" where
  "ApplyRuleToChildren k r = \<lparr>
    rule_applies = (\<lambda>node. if getKind node = k then True else rule_applies r node),
    rule_apply = (\<lambda>node.
      if getKind node \<noteq> k then RewriteRule_run True r node
      else and_then (run_children r (children node)) (\<lambda>cs. Inr (App k cs)))\<rparr>"

subsection \<open>Predicates and orders\<close>

definition RewriteBitOf :: "node \<Rightarrow> RewriteResponse result" where
  "RewriteBitOf node = respond REWRITE_DONE (LinearRewriteStrategy [BitOfConst] node)"

definition RewriteUlt :: "node \<Rightarrow> RewriteResponse result" where
  "RewriteUlt node = respond_changed REWRITE_AGAIN_FULL node
     (LinearRewriteStrategy [EvalUlt, UltZero, SignExtendUltConst, ZeroExtendUltConst] node)"

definition RewriteUltBv :: "node \<Rightarrow> RewriteResponse result" where
  "RewriteUltBv node = respond REWRITE_DONE (LinearRewriteStrategy [EvalUltBv] node)"

definition RewriteSlt :: "node \<Rightarrow> RewriteResponse result" where
  "RewriteSlt node = respond REWRITE_DONE (LinearRewriteStrategy [EvalSlt, MultSltMult] node)"

definition RewriteSltBv :: "node \<Rightarrow> RewriteResponse result" where
  "RewriteSltBv node = respond REWRITE_DONE (LinearRewriteStrategy [EvalSltBv] node)"

definition RewriteUle :: "node \<Rightarrow> RewriteResponse result" where
  "RewriteUle node = respond_changed REWRITE_AGAIN node
     (LinearRewriteStrategy [EvalUle, UleMax, ZeroUle, UleZero, UleSelf, UleEliminate] node)"

definition RewriteSle :: "node \<Rightarrow> RewriteResponse result" where
  "RewriteSle node = respond_changed REWRITE_AGAIN node (LinearRewriteStrategy [EvalSle, SleEliminate] node)"

definition RewriteUgt :: "rewriter_env \<Rightarrow> node \<Rightarrow> RewriteResponse result" where
  "RewriteUgt env node = respond REWRITE_AGAIN (LinearRewriteStrategy [UgtUrem (bitvectorDivByZeroConst env), UgtEliminate] node)"

definition RewriteSgt :: "node \<Rightarrow> RewriteResponse result" where
  "RewriteSgt node = respond REWRITE_AGAIN (LinearRewriteStrategy [SgtEliminate] node)"

definition RewriteUge :: "node \<Rightarrow> RewriteResponse result" where
  "RewriteUge node = respond REWRITE_AGAIN (LinearRewriteStrategy [UgeEliminate] node)"

definition RewriteSge :: "node \<Rightarrow> RewriteResponse result" where
  "RewriteSge node = respond REWRITE_AGAIN_FULL (LinearRewriteStrategy [SgeEliminate] node)"

definition RewriteITEBv :: "node \<Rightarrow> RewriteResponse result" where
  "RewriteITEBv node =
     and_then (LinearRewriteStrategy [EvalITEBv, BvIteConstCond, BvIteEqualChildren] node) (\<lambda>resultNode.
       if resultNode \<noteq> node then Inr \<lparr>d_status = REWRITE_AGAIN, d_node = resultNode\<rparr>
       else and_then (LinearRewriteStrategy [BvIteConstChildren, BvIteEqualCond] node) (\<lambda>resultNode.
         if resultNode \<noteq> node then Inr \<lparr>d_status = REWRITE_AGAIN, d_node = resultNode\<rparr>
         else respond_changed REWRITE_AGAIN_FULL node
           (LinearRewriteStrategy [BvIteMergeThenIf, BvIteMergeElseIf, BvIteMergeThenElse, BvIteMergeElseElse] node)))"

subsection \<open>Bit-wise operators, extraction and concatenation\<close>

definition RewriteNot :: "node \<Rightarrow> RewriteResponse result" where
  "RewriteNot node = respond REWRITE_DONE (LinearRewriteStrategy [EvalNot, NotIdemp] node)"

definition RewriteExtract :: "rewriter_env \<Rightarrow> node \<Rightarrow> RewriteResponse result" where
  "RewriteExtract env node =
     (if rule_applies ExtractConcat node then respond REWRITE_AGAIN_FULL (RewriteRule_run False ExtractConcat node)
      else if rule_applies ExtractSignExtend node then respond REWRITE_AGAIN_FULL (RewriteRule_run False ExtractSignExtend node)
      else if rule_applies ExtractNot node then respond REWRITE_AGAIN_FULL (RewriteRule_run False ExtractNot node)
      else if bvExtractArithRewrite env \<and> rule_applies ExtractArith node
        then respond REWRITE_AGAIN_FULL (RewriteRule_run False ExtractArith node)
      else respond REWRITE_DONE
        (LinearRewriteStrategy [ExtractConstant, ExtractExtract, ExtractWhole, ExtractMultLeadingBit] node))"

definition RewriteConcat :: "node \<Rightarrow> RewriteResponse result" where
  "RewriteConcat node = respond REWRITE_DONE
     (LinearRewriteStrategy [ConcatFlatten, ConcatExtractMerge, ConcatConstantMerge, ApplyRuleToChildren BITVECTOR_CONCAT ExtractWhole] node)"

text \<open>What \<open>RewriteAnd\<close> and \<open>RewriteOr\<close> share once their first strategy is done.\<close>

definition RewriteBitwise_post :: "rule list \<Rightarrow> node \<Rightarrow> bool \<Rightarrow> node \<Rightarrow> RewriteResponse result" where
  "RewriteBitwise_post rules node prerewrite resultNode =
     (if \<not> prerewrite then
        and_then (LinearRewriteStrategy rules resultNode) (\<lambda>resultNode.
          Inr \<lparr>d_status = (if getKind resultNode \<noteq> getKind node then REWRITE_AGAIN_FULL else REWRITE_DONE), d_node = resultNode\<rparr>)
      else Inr \<lparr>d_status = REWRITE_DONE, d_node = resultNode\<rparr>)"

definition RewriteAnd :: "rewriter_env \<Rightarrow> node \<Rightarrow> bool \<Rightarrow> RewriteResponse result" where
  "RewriteAnd env node prerewrite =
     and_then (LinearRewriteStrategy [FlattenAssocCommutNoDuplicates (node_id env), AndSimplify (hash_order env) (node_id env),
         AndOrXorConcatPullUp] node)
       (RewriteBitwise_post [BitwiseSlicing] node prerewrite)"

definition RewriteOr :: "rewriter_env \<Rightarrow> node \<Rightarrow> bool \<Rightarrow> RewriteResponse result" where
  "RewriteOr env node prerewrite =
     and_then (LinearRewriteStrategy [FlattenAssocCommutNoDuplicates (node_id env), OrSimplify (hash_order env) (node_id env),
         AndOrXorConcatPullUp] node)
       (RewriteBitwise_post [BitwiseSlicing] node prerewrite)"

definition RewriteXor :: "rewriter_env \<Rightarrow> node \<Rightarrow> bool \<Rightarrow> RewriteResponse result" where
  "RewriteXor env node prerewrite =
     and_then (LinearRewriteStrategy [FlattenAssocCommut (node_id env), XorSimplify (hash_order env) (node_id env), XorZero,
         AndOrXorConcatPullUp, BitwiseSlicing] node)
       (RewriteBitwise_post [XorOne, BitwiseSlicing] node prerewrite)"

definition RewriteXnor :: "node \<Rightarrow> RewriteResponse result" where
  "RewriteXnor node = respond REWRITE_AGAIN_FULL (LinearRewriteStrategy [XnorEliminate] node)"

definition RewriteNand :: "node \<Rightarrow> RewriteResponse result" where
  "RewriteNand node = respond REWRITE_AGAIN_FULL (LinearRewriteStrategy [NandEliminate] node)"

definition RewriteNor :: "node \<Rightarrow> RewriteResponse result" where
  "RewriteNor node = respond REWRITE_AGAIN_FULL (LinearRewriteStrategy [NorEliminate] node)"

definition RewriteComp :: "node \<Rightarrow> RewriteResponse result" where
  "RewriteComp node = respond REWRITE_DONE (LinearRewriteStrategy [EvalComp, BvComp] node)"

subsection \<open>Arithmetic\<close>

definition RewriteMult :: "rewriter_env \<Rightarrow> node \<Rightarrow> bool \<Rightarrow> RewriteResponse result" where
  "RewriteMult env node prerewrite =
     and_then (LinearRewriteStrategy [FlattenAssocCommut (node_id env), MultSimplify (node_id env), MultPow2] node) (\<lambda>resultNode.
     respond_changed REWRITE_AGAIN_FULL node
       (if \<not> prerewrite then LinearRewriteStrategy [MultDistribConst, MultDistrib] resultNode else Inr resultNode))"

definition RewritePlus :: "rewriter_env \<Rightarrow> node \<Rightarrow> bool \<Rightarrow> RewriteResponse result" where
  "RewritePlus env node prerewrite =
     (if prerewrite then respond REWRITE_DONE (LinearRewriteStrategy [FlattenAssocCommut (node_id env)] node)
      else respond_changed REWRITE_AGAIN_FULL node
        (LinearRewriteStrategy [FlattenAssocCommut (node_id env), PlusCombineLikeTerms (node_id env)] node))"

definition RewriteSub :: "node \<Rightarrow> RewriteResponse result" where
  "RewriteSub node = respond REWRITE_AGAIN_FULL (LinearRewriteStrategy [SubEliminate] node)"

definition RewriteNeg :: "node \<Rightarrow> bool \<Rightarrow> RewriteResponse result" where
  "RewriteNeg node prerewrite =
     and_then (LinearRewriteStrategy [EvalNeg, NegIdemp, NegSub] node) (\<lambda>resultNode.
       if rule_applies NegPlus node then respond REWRITE_AGAIN_FULL (RewriteRule_run False NegPlus node)
       else if \<not> prerewrite \<and> rule_applies NegMult node then respond REWRITE_AGAIN_FULL (RewriteRule_run False NegMult node)
       else Inr \<lparr>d_status = REWRITE_DONE, d_node = resultNode\<rparr>)"

definition RewriteUdivTotal :: "node \<Rightarrow> RewriteResponse result" where
  "RewriteUdivTotal node =
     (if rule_applies UdivPow2 node then respond REWRITE_AGAIN_FULL (RewriteRule_run False UdivPow2 node)
      else respond REWRITE_DONE (LinearRewriteStrategy [EvalUdiv, UdivZero, UdivOne] node))"

definition RewriteUremTotal :: "node \<Rightarrow> RewriteResponse result" where
  "RewriteUremTotal node =
     (if rule_applies UremPow2 node then respond REWRITE_AGAIN_FULL (RewriteRule_run False UremPow2 node)
      else respond REWRITE_DONE (LinearRewriteStrategy [EvalUrem, UremOne, UremSelf] node))"

definition RewriteUdiv :: "node \<Rightarrow> RewriteResponse result" where
  "RewriteUdiv node =
     (if isConst (child node 1) \<and> d_value (getConstBV (child node 1)) \<noteq> 0 then RewriteUdivTotal node
      else Inr \<lparr>d_status = REWRITE_DONE, d_node = node\<rparr>)"

definition RewriteUrem :: "node \<Rightarrow> RewriteResponse result" where
  "RewriteUrem node =
     (if isConst (child node 1) \<and> d_value (getConstBV (child node 1)) \<noteq> 0 then RewriteUremTotal node
      else Inr \<lparr>d_status = REWRITE_DONE, d_node = node\<rparr>)"

definition RewriteSmod :: "node \<Rightarrow> RewriteResponse result" where
  "RewriteSmod node = respond REWRITE_AGAIN_FULL (LinearRewriteStrategy [SmodEliminate] node)"

definition RewriteSdiv :: "rewriter_env \<Rightarrow> node \<Rightarrow> RewriteResponse result" where
  "RewriteSdiv env node = respond REWRITE_AGAIN_FULL (LinearRewriteStrategy [SdivEliminate (bitvectorDivByZeroConst env)] node)"

definition RewriteSrem :: "rewriter_env \<Rightarrow> node \<Rightarrow> RewriteResponse result" where
  "RewriteSrem env node = respond REWRITE_AGAIN_FULL (LinearRewriteStrategy [SremEliminate (bitvectorDivByZeroConst env)] node)"

subsection \<open>Shifts, extensions and rotations\<close>

definition RewriteShl :: "node \<Rightarrow> RewriteResponse result" where
  "RewriteShl node =
     (if rule_applies ShlByConst node then respond REWRITE_AGAIN_FULL (RewriteRule_run False ShlByConst node)
      else respond REWRITE_DONE (LinearRewriteStrategy [EvalShl, ShiftZero] node))"

definition RewriteLshr :: "node \<Rightarrow> RewriteResponse result" where
  "RewriteLshr node =
     (if rule_applies LshrByConst node then respond REWRITE_AGAIN_FULL (RewriteRule_run False LshrByConst node)
      else respond REWRITE_DONE (LinearRewriteStrategy [EvalLshr, ShiftZero] node))"

definition RewriteAshr :: "node \<Rightarrow> RewriteResponse result" where
  "RewriteAshr node =
     (if rule_applies AshrByConst node then respond REWRITE_AGAIN_FULL (RewriteRule_run False AshrByConst node)
      else respond REWRITE_DONE (LinearRewriteStrategy [EvalAshr, ShiftZero] node))"

definition RewriteRepeat :: "node \<Rightarrow> RewriteResponse result" where
  "RewriteRepeat node = respond REWRITE_AGAIN_FULL (LinearRewriteStrategy [RepeatEliminate] node)"

definition RewriteZeroExtend :: "node \<Rightarrow> RewriteResponse result" where
  "RewriteZeroExtend node = respond REWRITE_AGAIN (LinearRewriteStrategy [ZeroExtendEliminate] node)"

definition RewriteSignExtend :: "node \<Rightarrow> RewriteResponse result" where
  "RewriteSignExtend node = respond_changed REWRITE_AGAIN node (LinearRewriteStrategy [MergeSignExtend, EvalSignExtend] node)"

definition RewriteRotateRight :: "node \<Rightarrow> RewriteResponse result" where
  "RewriteRotateRight node = respond REWRITE_AGAIN_FULL (LinearRewriteStrategy [RotateRightEliminate] node)"

definition RewriteRotateLeft :: "node \<Rightarrow> RewriteResponse result" where
  "RewriteRotateLeft node = respond REWRITE_AGAIN_FULL (LinearRewriteStrategy [RotateLeftEliminate] node)"

definition RewriteRedor :: "node \<Rightarrow> RewriteResponse result" where
  "RewriteRedor node = respond REWRITE_AGAIN_FULL (LinearRewriteStrategy [RedorEliminate] node)"

definition RewriteRedand :: "node \<Rightarrow> RewriteResponse result" where
  "RewriteRedand node = respond REWRITE_AGAIN_FULL (LinearRewriteStrategy [RedandEliminate] node)"

subsection \<open>Conversions and equality\<close>

definition RewriteBVToNat :: "rewriter_env \<Rightarrow> node \<Rightarrow> RewriteResponse result" where
  "RewriteBVToNat env node =
     (if isConst (child node 0) \<or> \<not> bvLazyRewriteExtf env
      then respond REWRITE_AGAIN_FULL (LinearRewriteStrategy [BVToNatEliminate] node)
      else Inr \<lparr>d_status = REWRITE_DONE, d_node = node\<rparr>)"

definition RewriteIntToBV :: "rewriter_env \<Rightarrow> node \<Rightarrow> RewriteResponse result" where
  "RewriteIntToBV env node =
     (if isConst (child node 0) \<or> \<not> bvLazyRewriteExtf env
      then respond REWRITE_AGAIN_FULL (LinearRewriteStrategy [IntToBVEliminate] node)
      else Inr \<lparr>d_status = REWRITE_DONE, d_node = node\<rparr>)"

definition RewriteEqual :: "rewriter_env \<Rightarrow> node \<Rightarrow> bool \<Rightarrow> RewriteResponse result" where
  "RewriteEqual env node prerewrite =
     (if prerewrite then respond REWRITE_DONE (LinearRewriteStrategy [FailEq, SimplifyEq, ReflexivityEq (node_id env)] node)
      else and_then (LinearRewriteStrategy [FailEq, SimplifyEq, ReflexivityEq (node_id env)] node) (\<lambda>resultNode.
        if rule_applies (SolveEq (node_id env) (Rewriter_rewrite env)) resultNode
        then respond_changed REWRITE_AGAIN_FULL node
          (RewriteRule_run False (SolveEq (node_id env) (Rewriter_rewrite env)) resultNode)
        else Inr \<lparr>d_status = REWRITE_DONE, d_node = resultNode\<rparr>))"

definition IdentityRewrite :: "node \<Rightarrow> RewriteResponse result" where
  "IdentityRewrite node = Inr \<lparr>d_status = REWRITE_DONE, d_node = node\<rparr>"

subsection \<open>The dispatch table\<close>

definition d_rewriteTable :: "rewriter_env \<Rightarrow> kind \<Rightarrow> node \<Rightarrow> bool \<Rightarrow> RewriteResponse result" where
  "d_rewriteTable env k n p = (case k of
       EQUAL \<Rightarrow> RewriteEqual env n p
     | BITVECTOR_BITOF i \<Rightarrow> RewriteBitOf n
     | BITVECTOR_ULT \<Rightarrow> RewriteUlt n
     | BITVECTOR_SLT \<Rightarrow> RewriteSlt n
     | BITVECTOR_ULE \<Rightarrow> RewriteUle n
     | BITVECTOR_SLE \<Rightarrow> RewriteSle n
     | BITVECTOR_UGT \<Rightarrow> RewriteUgt env n
     | BITVECTOR_SGT \<Rightarrow> RewriteSgt n
     | BITVECTOR_UGE \<Rightarrow> RewriteUge n
     | BITVECTOR_SGE \<Rightarrow> RewriteSge n
     | BITVECTOR_NOT \<Rightarrow> RewriteNot n
     | BITVECTOR_CONCAT \<Rightarrow> RewriteConcat n
     | BITVECTOR_AND \<Rightarrow> RewriteAnd env n p
     | BITVECTOR_OR \<Rightarrow> RewriteOr env n p
     | BITVECTOR_XOR \<Rightarrow> RewriteXor env n p
     | BITVECTOR_XNOR \<Rightarrow> RewriteXnor n
     | BITVECTOR_NAND \<Rightarrow> RewriteNand n
     | BITVECTOR_NOR \<Rightarrow> RewriteNor n
     | BITVECTOR_COMP \<Rightarrow> RewriteComp n
     | BITVECTOR_MULT \<Rightarrow> RewriteMult env n p
     | BITVECTOR_PLUS \<Rightarrow> RewritePlus env n p
     | BITVECTOR_SUB \<Rightarrow> RewriteSub n
     | BITVECTOR_NEG \<Rightarrow> RewriteNeg n p
     | BITVECTOR_UDIV \<Rightarrow> RewriteUdiv n
     | BITVECTOR_UREM \<Rightarrow> RewriteUrem n
     | BITVECTOR_UDIV_TOTAL \<Rightarrow> RewriteUdivTotal n
     | BITVECTOR_UREM_TOTAL \<Rightarrow> RewriteUremTotal n
     | BITVECTOR_SMOD \<Rightarrow> RewriteSmod n
     | BITVECTOR_SDIV \<Rightarrow> RewriteSdiv env n
     | BITVECTOR_SREM \<Rightarrow> RewriteSrem env n
     | BITVECTOR_SHL \<Rightarrow> RewriteShl n
     | BITVECTOR_LSHR \<Rightarrow> RewriteLshr n
     | BITVECTOR_ASHR \<Rightarrow> RewriteAshr n
     | BITVECTOR_EXTRACT h l \<Rightarrow> RewriteExtract env n
     | BITVECTOR_REPEAT i \<Rightarrow> RewriteRepeat n
     | BITVECTOR_ZERO_EXTEND i \<Rightarrow> RewriteZeroExtend n
     | BITVECTOR_SIGN_EXTEND i \<Rightarrow> RewriteSignExtend n
     | BITVECTOR_ROTATE_RIGHT i \<Rightarrow> RewriteRotateRight n
     | BITVECTOR_ROTATE_LEFT i \<Rightarrow> RewriteRotateLeft n
     | BITVECTOR_REDOR \<Rightarrow> RewriteRedor n
     | BITVECTOR_REDAND \<Rightarrow> RewriteRedand n
     | BITVECTOR_ULTBV \<Rightarrow> RewriteUltBv n
     | BITVECTOR_SLTBV \<Rightarrow> RewriteSltBv n
     | BITVECTOR_ITE \<Rightarrow> RewriteITEBv n
     | BITVECTOR_TO_NAT \<Rightarrow> RewriteBVToNat env n
     | INT_TO_BITVECTOR i \<Rightarrow> RewriteIntToBV env n
     | _ \<Rightarrow> IdentityRewrite n)"

definition preRewrite :: "rewriter_env \<Rightarrow> node \<Rightarrow> RewriteResponse result" where
  "preRewrite env node = d_rewriteTable env (getKind node) node True"

definition postRewrite :: "rewriter_env \<Rightarrow> node \<Rightarrow> RewriteResponse result" where
  "postRewrite env node = d_rewriteTable env (getKind node) node False"

definition eliminateBVSDiv :: "rewriter_env \<Rightarrow> node \<Rightarrow> node result" where
  "eliminateBVSDiv env node = LinearRewriteStrategy
     [SremEliminate (bitvectorDivByZeroConst env), SdivEliminate (bitvectorDivByZeroConst env), SmodEliminate] node"

end
