(* ===== verification/Rewriter_Correct.thy ===== *)
theory Rewriter_Correct
  imports Rewriter
begin

section \<open>Correctness of the rewriter\<close>

text \<open>
  Every entry of the dispatch table returns, without an exception, a node of the same type and value. The strategies
  are instances of the interface \<open>rewrite_strategy\<close>; the entries whose rules rely on what earlier ones
  establish (conditionals, exclusive or, sums and equalities) are treated on their own.
\<close>

subsection \<open>Responses\<close>

definition responds :: "RewriteResponse result \<Rightarrow> ntype \<Rightarrow> node \<Rightarrow> bool" where
  "responds r T n \<longleftrightarrow> rewrites_to (and_then r (\<lambda>q. Inr (d_node q))) T n"

lemma responds_iff: "typeOf n = Some T \<Longrightarrow> responds r T n \<longleftrightarrow> (\<exists>q. r = Inr q \<and> equiv (d_node q) n)"
  by (auto simp: responds_def rewrites_to_equiv)

lemma responds_Inr [simp]: "responds (Inr q) T n \<longleftrightarrow> rewrites_to (Inr (d_node q)) T n"
  by (simp add: responds_def)

lemma responds_respond [simp]: "responds (respond st r) T n \<longleftrightarrow> rewrites_to r T n"
  "responds (respond_changed st m r) T n \<longleftrightarrow> rewrites_to r T n"
  by (cases r; simp add: responds_def respond_def respond_changed_def)+

lemma responds_status [simp]: "responds (and_then r (\<lambda>m. Inr \<lparr>d_status = f m, d_node = m\<rparr>)) T n \<longleftrightarrow> rewrites_to r T n"
  by (cases r) (simp_all add: responds_def)

lemma responds_and_then:
  "rewrites_to r T n \<Longrightarrow> (\<And>m. r = Inr m \<Longrightarrow> typeOf m = Some T \<Longrightarrow> responds (k m) T m) \<Longrightarrow> responds (and_then r k) T n"
  by (force simp: rewrites_to_def responds_def)

subsection \<open>The strategies\<close>

lemma run_children_value:
  assumes "sound_rule r" "\<forall>t\<in>set ts. typeOf t \<noteq> None"
  shows "\<exists>us. run_children r ts = Inr us \<and> map typeOf us = map typeOf ts \<and>
    (\<forall>\<sigma>. val_ok \<sigma> \<longrightarrow> map (eval \<sigma>) us = map (eval \<sigma>) ts)"
  using assms(2)
proof (induction ts)
  case (Cons t ts)
  then obtain T where "typeOf t = Some T" by auto
  with RewriteRule_run_sound [OF assms(1) this, of True] Cons show ?case by (auto simp: rewrites_to_def)
qed simp

lemma typed_children: "typeOf (App k ts) = Some T \<Longrightarrow> \<forall>t\<in>set ts. typeOf t \<noteq> None"
proof (rule ballI)
  fix t assume "typeOf (App k ts) = Some T" "t \<in> set ts"
  then obtain tys where "map typeOf ts = map Some tys" by (auto simp: typeOf_App)
  then have "typeOf ` set ts = Some ` set tys" by (metis set_map)
  with \<open>t \<in> set ts\<close> show "typeOf t \<noteq> None" by (metis imageE imageI option.distinct(1))
qed

lemma ApplyRuleToChildren_sound:
  assumes "sound_rule r" "k \<notin> {VARIABLE, CONST_BOOLEAN, CONST_RATIONAL, CONST_BITVECTOR}"
  shows "sound_rule (ApplyRuleToChildren k r)"
  unfolding sound_rule_def
proof (intro allI impI)
  fix n T assume t: "typeOf n = Some T" and a: "rule_applies (ApplyRuleToChildren k r) n"
  show "rewrites_to (rule_apply (ApplyRuleToChildren k r) n) T n"
  proof (cases "getKind n = k")
    case True
    with assms(2) obtain ts where n: "n = App k ts" by (cases n) auto
    from run_children_value [OF assms(1) typed_children [OF t [unfolded n]]] obtain us where
      us: "run_children r ts = Inr us" "map typeOf us = map typeOf ts" "\<And>\<sigma>. val_ok \<sigma> \<Longrightarrow> map (eval \<sigma>) us = map (eval \<sigma>) ts" by blast
    have len: "length us = length ts" using us(2) by (metis length_map)
    have "typeOf (App k us) = typeOf n" unfolding n typeOf.simps us(2) len ..
    then have "typeOf (App k us) = Some T" using t by simp
    with us show ?thesis by (simp add: ApplyRuleToChildren_def n del: typeOf.simps(5))
  next
    case False
    with a RewriteRule_run_sound [OF assms(1) t, of True] show ?thesis by (simp add: ApplyRuleToChildren_def)
  qed
qed

lemmas rules_sound = const_eval_sound simplify_sound simplify_arith_sound simplify_ext_sound op_elim_sound core_sound normalize_sound
  MultSimplify_sound

lemma strategy_intro: "(\<forall>r\<in>set rules. sound_rule r) \<Longrightarrow> rewrite_strategy rules"
  by (simp add: rewrite_strategy_def)

interpretation bit_of: rewrite_strategy "[BitOfConst]"
  by (rule strategy_intro) (simp add: rules_sound)

interpretation ult: rewrite_strategy "[EvalUlt, UltZero, SignExtendUltConst, ZeroExtendUltConst]"
  by (rule strategy_intro) (simp add: rules_sound)

interpretation ult_bv: rewrite_strategy "[EvalUltBv]"
  by (rule strategy_intro) (simp add: rules_sound)

interpretation eval_slt: rewrite_strategy "[EvalSlt]"
  by (rule strategy_intro) (simp add: rules_sound)

interpretation slt_bv: rewrite_strategy "[EvalSltBv]"
  by (rule strategy_intro) (simp add: rules_sound)

interpretation ule: rewrite_strategy "[EvalUle, UleMax, ZeroUle, UleZero, UleSelf, UleEliminate]"
  by (rule strategy_intro) (simp add: rules_sound)

interpretation sle: rewrite_strategy "[EvalSle, SleEliminate]"
  by (rule strategy_intro) (simp add: rules_sound)

interpretation ugt: rewrite_strategy "[UgtUrem dz, UgtEliminate]" for dz
  by (rule strategy_intro) (simp add: rules_sound)

interpretation sgt: rewrite_strategy "[SgtEliminate]"
  by (rule strategy_intro) (simp add: rules_sound)

interpretation uge: rewrite_strategy "[UgeEliminate]"
  by (rule strategy_intro) (simp add: rules_sound)

interpretation sge: rewrite_strategy "[SgeEliminate]"
  by (rule strategy_intro) (simp add: rules_sound)

interpretation ite_simple: rewrite_strategy "[EvalITEBv, BvIteConstCond, BvIteEqualChildren]"
  by (rule strategy_intro) (simp add: rules_sound)

interpretation ite_merge: rewrite_strategy "[BvIteMergeThenIf, BvIteMergeElseIf, BvIteMergeThenElse, BvIteMergeElseElse]"
  by (rule strategy_intro) (simp add: rules_sound)

interpretation bv_not: rewrite_strategy "[EvalNot, NotIdemp]"
  by (rule strategy_intro) (simp add: rules_sound)

interpretation extraction: rewrite_strategy "[ExtractConstant, ExtractExtract, ExtractWhole, ExtractMultLeadingBit]"
  by (rule strategy_intro) (simp add: rules_sound)

interpretation concat: rewrite_strategy "[ConcatFlatten, ConcatExtractMerge, ConcatConstantMerge, ApplyRuleToChildren BITVECTOR_CONCAT ExtractWhole]"
  by (rule strategy_intro) (simp add: rules_sound ApplyRuleToChildren_sound)

interpretation slicing: rewrite_strategy "[BitwiseSlicing]"
  by (rule strategy_intro) (simp add: rules_sound)

interpretation xnor: rewrite_strategy "[XnorEliminate]"
  by (rule strategy_intro) (simp add: rules_sound)

interpretation nand: rewrite_strategy "[NandEliminate]"
  by (rule strategy_intro) (simp add: rules_sound)

interpretation nor: rewrite_strategy "[NorEliminate]"
  by (rule strategy_intro) (simp add: rules_sound)

interpretation comp: rewrite_strategy "[EvalComp, BvComp]"
  by (rule strategy_intro) (simp add: rules_sound)

interpretation mult: rewrite_strategy "[FlattenAssocCommut nid, MultSimplify nid, MultPow2]" for nid
  by (rule strategy_intro) (simp add: rules_sound)

interpretation distrib: rewrite_strategy "[MultDistribConst, MultDistrib]"
  by (rule strategy_intro) (simp add: rules_sound)

interpretation flatten: rewrite_strategy "[FlattenAssocCommut nid]" for nid
  by (rule strategy_intro) (simp add: rules_sound)

interpretation sub: rewrite_strategy "[SubEliminate]"
  by (rule strategy_intro) (simp add: rules_sound)

interpretation neg: rewrite_strategy "[EvalNeg, NegIdemp, NegSub]"
  by (rule strategy_intro) (simp add: rules_sound)

interpretation udiv: rewrite_strategy "[EvalUdiv, UdivZero, UdivOne]"
  by (rule strategy_intro) (simp add: rules_sound)

interpretation urem: rewrite_strategy "[EvalUrem, UremOne, UremSelf]"
  by (rule strategy_intro) (simp add: rules_sound)

interpretation smod: rewrite_strategy "[SmodEliminate]"
  by (rule strategy_intro) (simp add: rules_sound)

interpretation sdiv: rewrite_strategy "[SdivEliminate dz]" for dz
  by (rule strategy_intro) (simp add: rules_sound)

interpretation srem: rewrite_strategy "[SremEliminate dz]" for dz
  by (rule strategy_intro) (simp add: rules_sound)

interpretation signed_div: rewrite_strategy "[SremEliminate dz, SdivEliminate dz, SmodEliminate]" for dz
  by (rule strategy_intro) (simp add: rules_sound)

interpretation shl: rewrite_strategy "[EvalShl, ShiftZero]"
  by (rule strategy_intro) (simp add: rules_sound)

interpretation lshr: rewrite_strategy "[EvalLshr, ShiftZero]"
  by (rule strategy_intro) (simp add: rules_sound)

interpretation ashr: rewrite_strategy "[EvalAshr, ShiftZero]"
  by (rule strategy_intro) (simp add: rules_sound)

interpretation bv_repeat: rewrite_strategy "[RepeatEliminate]"
  by (rule strategy_intro) (simp add: rules_sound)

interpretation zero_extend: rewrite_strategy "[ZeroExtendEliminate]"
  by (rule strategy_intro) (simp add: rules_sound)

interpretation sign_extend: rewrite_strategy "[MergeSignExtend, EvalSignExtend]"
  by (rule strategy_intro) (simp add: rules_sound)

interpretation rotr: rewrite_strategy "[RotateRightEliminate]"
  by (rule strategy_intro) (simp add: rules_sound)

interpretation rotl: rewrite_strategy "[RotateLeftEliminate]"
  by (rule strategy_intro) (simp add: rules_sound)

interpretation redor: rewrite_strategy "[RedorEliminate]"
  by (rule strategy_intro) (simp add: rules_sound)

interpretation redand: rewrite_strategy "[RedandEliminate]"
  by (rule strategy_intro) (simp add: rules_sound)

interpretation bv2nat: rewrite_strategy "[BVToNatEliminate]"
  by (rule strategy_intro) (simp add: rules_sound)

interpretation int2bv: rewrite_strategy "[IntToBVEliminate]"
  by (rule strategy_intro) (simp add: rules_sound)

interpretation equal: rewrite_strategy "[FailEq, SimplifyEq, ReflexivityEq nid]" for nid
  by (rule strategy_intro) (simp add: rules_sound)

text \<open>The strategies of conjunctions and disjunctions, whatever the iteration order of the hash map.\<close>

lemma and_or_strategies:
  assumes "permutes h"
  shows "rewrite_strategy [FlattenAssocCommutNoDuplicates nid, AndSimplify h nid, AndOrXorConcatPullUp]"
    "rewrite_strategy [FlattenAssocCommutNoDuplicates nid, OrSimplify h nid, AndOrXorConcatPullUp]"
  by (rule strategy_intro, simp add: rules_sound logic_sound [OF assms])+

subsection \<open>Entries that run sound rules only\<close>

lemmas rewriter_defs = RewriteBitOf_def RewriteUlt_def RewriteUltBv_def RewriteSltBv_def RewriteUle_def RewriteSle_def
  RewriteUgt_def RewriteSgt_def RewriteUge_def RewriteSge_def RewriteNot_def RewriteConcat_def RewriteXnor_def RewriteNand_def
  RewriteNor_def RewriteComp_def RewriteSub_def RewriteSmod_def RewriteSdiv_def RewriteSrem_def RewriteRepeat_def
  RewriteZeroExtend_def RewriteSignExtend_def RewriteRotateRight_def RewriteRotateLeft_def RewriteRedor_def RewriteRedand_def

lemmas strategies_sound = bit_of.linear_sound ult.linear_sound ult_bv.linear_sound slt_bv.linear_sound ule.linear_sound sle.linear_sound
  ugt.linear_sound sgt.linear_sound uge.linear_sound sge.linear_sound bv_not.linear_sound concat.linear_sound xnor.linear_sound
  nand.linear_sound nor.linear_sound comp.linear_sound sub.linear_sound smod.linear_sound sdiv.linear_sound srem.linear_sound
  bv_repeat.linear_sound zero_extend.linear_sound sign_extend.linear_sound rotr.linear_sound rotl.linear_sound redor.linear_sound
  redand.linear_sound

lemma linear_entries:
  assumes "typeOf n = Some T"
  shows "responds (RewriteBitOf n) T n" "responds (RewriteUlt n) T n" "responds (RewriteUltBv n) T n" "responds (RewriteSltBv n) T n"
    "responds (RewriteUle n) T n" "responds (RewriteSle n) T n" "responds (RewriteUgt env n) T n" "responds (RewriteSgt n) T n"
    "responds (RewriteUge n) T n" "responds (RewriteSge n) T n" "responds (RewriteNot n) T n" "responds (RewriteConcat n) T n"
    "responds (RewriteXnor n) T n" "responds (RewriteNand n) T n" "responds (RewriteNor n) T n" "responds (RewriteComp n) T n"
    "responds (RewriteSub n) T n" "responds (RewriteSmod n) T n" "responds (RewriteSdiv env n) T n" "responds (RewriteSrem env n) T n"
    "responds (RewriteRepeat n) T n" "responds (RewriteZeroExtend n) T n" "responds (RewriteSignExtend n) T n"
    "responds (RewriteRotateRight n) T n" "responds (RewriteRotateLeft n) T n" "responds (RewriteRedor n) T n" "responds (RewriteRedand n) T n"
  using assms by (simp_all only: rewriter_defs responds_respond strategies_sound)

lemma run_sound: "sound_rule r \<Longrightarrow> rule_applies r n \<Longrightarrow> typeOf n = Some T \<Longrightarrow> rewrites_to (RewriteRule_run False r n) T n"
  by (simp add: RewriteRule_run_sound)

text \<open>Entries that try some rules first.\<close>

lemma guarded_entries:
  assumes "typeOf n = Some T"
  shows "responds (RewriteExtract env n) T n" "responds (RewriteUdivTotal n) T n" "responds (RewriteUremTotal n) T n"
    "responds (RewriteShl n) T n" "responds (RewriteLshr n) T n" "responds (RewriteAshr n) T n"
    "responds (RewriteBVToNat env n) T n" "responds (RewriteIntToBV env n) T n"
proof -
  note run = run_sound [OF _ _ assms]
  show "responds (RewriteExtract env n) T n"
    unfolding RewriteExtract_def using extraction.linear_sound [OF assms] by (auto intro: run simp: rules_sound)
  show "responds (RewriteUdivTotal n) T n"
    unfolding RewriteUdivTotal_def using udiv.linear_sound [OF assms] by (auto intro: run simp: rules_sound)
  show "responds (RewriteUremTotal n) T n"
    unfolding RewriteUremTotal_def using urem.linear_sound [OF assms] by (auto intro: run simp: rules_sound)
  show "responds (RewriteShl n) T n"
    unfolding RewriteShl_def using shl.linear_sound [OF assms] by (auto intro: run simp: rules_sound)
  show "responds (RewriteLshr n) T n"
    unfolding RewriteLshr_def using lshr.linear_sound [OF assms] by (auto intro: run simp: rules_sound)
  show "responds (RewriteAshr n) T n"
    unfolding RewriteAshr_def using ashr.linear_sound [OF assms] by (auto intro: run simp: rules_sound)
  show "responds (RewriteBVToNat env n) T n"
    unfolding RewriteBVToNat_def using assms bv2nat.linear_sound [OF assms] by auto
  show "responds (RewriteIntToBV env n) T n"
    unfolding RewriteIntToBV_def using assms int2bv.linear_sound [OF assms] by auto
qed

lemma division_entries:
  assumes "typeOf n = Some T"
  shows "responds (RewriteUdiv n) T n" "responds (RewriteUrem n) T n"
  unfolding RewriteUdiv_def RewriteUrem_def using guarded_entries(2,3) [OF assms] assms by auto

lemma negation_entry:
  assumes "typeOf n = Some T"
  shows "responds (RewriteNeg n prerewrite) T n"
proof -
  have "\<not> rule_applies NegMult n" using NegMult_dead [OF assms] .
  moreover obtain m where "LinearRewriteStrategy [EvalNeg, NegIdemp, NegSub] n = Inr m" "rewrites_to (Inr m) T n"
    using neg.linear_sound [OF assms] by (metis rewrites_to_def)
  moreover have "rewrites_to (RewriteRule_run False NegPlus n) T n" if "rule_applies NegPlus n"
    using run_sound [OF NegPlus_sound that assms] .
  ultimately show ?thesis unfolding RewriteNeg_def by (simp del: LinearRewriteStrategy.simps rewrites_to_Inr)
qed

lemma mult_entry:
  assumes "typeOf n = Some T"
  shows "responds (RewriteMult env n prerewrite) T n"
  unfolding RewriteMult_def
proof (rule responds_and_then [OF mult.linear_sound [OF assms]])
  fix m assume "typeOf m = Some T"
  with distrib.linear_sound [OF this]
  have "rewrites_to (if \<not> prerewrite then LinearRewriteStrategy [MultDistribConst, MultDistrib] m else Inr m) T m"
    by (simp split: if_splits del: LinearRewriteStrategy.simps)
  then show "responds (respond_changed REWRITE_AGAIN_FULL n
    (if \<not> prerewrite then LinearRewriteStrategy [MultDistribConst, MultDistrib] m else Inr m)) T m"
    by (simp only: responds_respond)
qed

lemma bitwise_post:
  assumes "rewrites_to r T n" "\<And>m. r = Inr m \<Longrightarrow> typeOf m = Some T \<Longrightarrow> rewrites_to (LinearRewriteStrategy rules m) T m"
  shows "responds (and_then r (RewriteBitwise_post rules n prerewrite)) T n"
  using assms(1)
proof (rule responds_and_then)
  fix m assume "r = Inr m" "typeOf m = Some T"
  from assms(2) [OF this] this(2) show "responds (RewriteBitwise_post rules n prerewrite m) T m"
    by (cases prerewrite) (simp_all add: RewriteBitwise_post_def)
qed

lemma and_or_entries:
  assumes "typeOf n = Some T" "permutes (hash_order env)"
  shows "responds (RewriteAnd env n prerewrite) T n" "responds (RewriteOr env n prerewrite) T n"
  unfolding RewriteAnd_def RewriteOr_def
  by (rule bitwise_post, rule rewrite_strategy.linear_sound, rule and_or_strategies, fact+, rule slicing.linear_sound, assumption)+

subsection \<open>Conditionals\<close>

text \<open>The rules of the first stage return a smaller node, so that a node they leave unchanged is one that none of them
  applies to.\<close>

definition shrinks :: "rule \<Rightarrow> bool" where
  "shrinks r \<longleftrightarrow> (\<forall>n m T. typeOf n = Some T \<longrightarrow> rule_applies r n \<longrightarrow> rule_apply r n = Inr m \<longrightarrow> size m < size n)"

lemma strategy_cons:
  assumes "typeOf n = Some T" "rule_applies r n \<Longrightarrow> rewrites_to (rule_apply r n) T n"
    and "\<And>m. (if rule_applies r n then rule_apply r n = Inr m else m = n) \<Longrightarrow> typeOf m = Some T \<Longrightarrow>
      rewrites_to (LinearRewriteStrategy rs m) T m"
  shows "rewrites_to (LinearRewriteStrategy (r # rs) n) T n"
proof (cases "rule_applies r n")
  case True
  with assms(2) obtain m where m: "rule_apply r n = Inr m" "rewrites_to (Inr m) T n" by (auto simp: rewrites_to_def)
  with assms(3) [of m] True show ?thesis by (auto simp: RewriteRule_run_def rewrites_to_def)
qed (use assms(1,3) in simp)

lemma ite_shrinks: "shrinks EvalITEBv" "shrinks BvIteConstCond" "shrinks BvIteEqualChildren"
  unfolding shrinks_def by (auto simp: rule_defs rule_sem getKind_iff Assert_def split: if_splits)

lemma shrinking_strategy:
  assumes "\<forall>r\<in>set rs. shrinks r \<and> sound_rule r" "typeOf n = Some T" "LinearRewriteStrategy rs n = Inr m"
  shows "size m \<le> size n" "size m = size n \<Longrightarrow> \<forall>r\<in>set rs. \<not> rule_applies r n"
proof -
  have "size m \<le> size n \<and> (size m = size n \<longrightarrow> (\<forall>r\<in>set rs. \<not> rule_applies r n))" using assms
  proof (induction rs arbitrary: n)
    case (Cons r rs)
    show ?case
    proof (cases "rule_applies r n")
      case True
      have "rewrites_to (rule_apply r n) T n" using Cons.prems(1,2) True by (simp add: sound_rule_def)
      with Cons.prems(3) True obtain k where k: "rule_apply r n = Inr k" "LinearRewriteStrategy rs k = Inr m" "typeOf k = Some T"
        by (auto simp: RewriteRule_run_def rewrites_to_def)
      with Cons.prems True have "size k < size n" by (auto simp: shrinks_def)
      with Cons.IH [of k] k Cons.prems(1) show ?thesis by auto
    qed (use Cons in auto)
  qed simp
  then show "size m \<le> size n" "size m = size n \<Longrightarrow> \<forall>r\<in>set rs. \<not> rule_applies r n" by blast+
qed

interpretation ite_cond: rewrite_strategy "[BvIteEqualCond]"
  by (rule strategy_intro) (simp add: rules_sound)

lemma ite_entry:
  assumes "typeOf n = Some T"
  shows "responds (RewriteITEBv n) T n"
proof -
  let ?s1 = "[EvalITEBv, BvIteConstCond, BvIteEqualChildren]" and ?s2 = "[BvIteConstChildren, BvIteEqualCond]"
  obtain m where m: "LinearRewriteStrategy ?s1 n = Inr m" "rewrites_to (Inr m) T n"
    using ite_simple.linear_sound [OF assms] by (metis rewrites_to_def)
  show ?thesis
  proof (cases "m = n")
    case True
    have "\<not> rule_applies BvIteEqualChildren n"
      using shrinking_strategy(2) [OF _ assms m(1)] True ite_shrinks by (auto simp: rules_sound)
    then have "rule_applies BvIteConstChildren n \<Longrightarrow> child n 1 \<noteq> child n 2" by (auto simp: rule_defs)
    then have c: "rewrites_to (rule_apply BvIteConstChildren n) T n" if "rule_applies BvIteConstChildren n"
      using BvIteConstChildren_rewrites [OF assms that] that by blast
    have "rewrites_to (LinearRewriteStrategy ?s2 n) T n"
      by (rule strategy_cons [OF assms c]) (assumption, rule ite_cond.linear_sound)
    then obtain k where k: "LinearRewriteStrategy ?s2 n = Inr k" "rewrites_to (Inr k) T n" by (metis rewrites_to_def)
    from ite_merge.linear_sound [OF assms] m k True show ?thesis
      unfolding RewriteITEBv_def by (cases "k = n") (simp_all del: LinearRewriteStrategy.simps rewrites_to_Inr)
  next
    case False
    with m show ?thesis unfolding RewriteITEBv_def by (simp del: LinearRewriteStrategy.simps rewrites_to_Inr)
  qed
qed

subsection \<open>Exclusive or: what the rules establish for each other\<close>

text \<open>After flattening no child is an exclusive or; after \<open>XorSimplify\<close> some child is not a constant. \<open>XorZero\<close>
  and \<open>XorOne\<close> need the second, and keep it only because of the first.\<close>

definition xor_flat :: "node \<Rightarrow> bool" where
  "xor_flat n \<longleftrightarrow> (getKind n = BITVECTOR_XOR \<longrightarrow> (\<forall>c\<in>set (children n). getKind c \<noteq> BITVECTOR_XOR))"

definition xor_ok :: "node \<Rightarrow> bool" where
  "xor_ok n \<longleftrightarrow> xor_flat n \<and> (getKind n = BITVECTOR_XOR \<longrightarrow> (\<exists>c\<in>set (children n). getKind c \<noteq> CONST_BITVECTOR))"

lemma xor_ok_kind: "getKind n \<noteq> BITVECTOR_XOR \<Longrightarrow> xor_ok n"
  by (simp add: xor_ok_def xor_flat_def)

lemma sorted_xor_flat:
  "mkSortedNode nid BITVECTOR_XOR cs = Inr m \<Longrightarrow> \<forall>c\<in>set cs. getKind c \<noteq> BITVECTOR_XOR \<Longrightarrow> xor_flat m"
  by (auto simp: mkSortedNode_def Assert_def xor_flat_def split: if_splits)

lemma flatten_xor_flat:
  assumes "getKind n = BITVECTOR_XOR" "if rule_applies (FlattenAssocCommut nid) n then rule_apply (FlattenAssocCommut nid) n = Inr m else m = n"
  shows "xor_flat m"
proof (cases "rule_applies (FlattenAssocCommut nid) n")
  case True
  with assms(2) have "rule_apply (FlattenAssocCommut nid) n = Inr m" by (rule iffD1 [OF if_P, rotated])
  moreover have "rule_apply (FlattenAssocCommut nid) n = mkSortedNode nid BITVECTOR_XOR (flatten_loop BITVECTOR_XOR [n] [])"
    unfolding FlattenAssocCommut_def rule.select_convs Let_def assms(1) by (rule if_not_P) simp
  ultimately have "mkSortedNode nid BITVECTOR_XOR (flatten_loop BITVECTOR_XOR [n] []) = Inr m" by (rule trans [OF sym, rotated])
  moreover have "getKind c \<noteq> BITVECTOR_XOR" if "c \<in> set (flatten_loop BITVECTOR_XOR [n] [])" for c
    by (rule flatten_loop_flat [OF _ that]) simp
  ultimately show ?thesis by (intro sorted_xor_flat ballI)
next
  case False
  with assms show ?thesis by (auto simp: FlattenAssocCommut_def flat_kind_def xor_flat_def split: if_splits)
qed

text \<open>The nodes with positive occurrences.\<close>

definition positive_in :: "node set \<Rightarrow> count_map \<Rightarrow> bool" where
  "positive_in S m \<longleftrightarrow> (\<forall>e\<in>set m. c_pos (snd e) > 0 \<longrightarrow> fst e \<in> S)"

lemma insert_count_positive: "positive_in S m \<Longrightarrow> (\<not> b \<longrightarrow> n \<in> S) \<Longrightarrow> positive_in S (insert_count m n b)"
  by (induction m n b rule: insert_count.induct) (auto simp: positive_in_def split: if_splits)

lemma xor_collect_positive:
  "xor_collect ts c m = Inr (c', m') \<Longrightarrow> positive_in S m \<Longrightarrow>
   \<forall>t\<in>set ts. getKind t \<notin> {CONST_BITVECTOR, BITVECTOR_NOT} \<longrightarrow> t \<in> S \<Longrightarrow> positive_in S m'"
  by (induction ts c m rule: xor_collect.induct)
    (auto simp: insert_literal_def insert_count_positive split: if_splits option.splits)

lemma XorSimplify_xor_ok:
  assumes "permutes h" "getKind n = BITVECTOR_XOR" "xor_flat n" "rule_apply (XorSimplify h nid) n = Inr m"
  shows "xor_ok m"
proof -
  from assms(2) obtain ts where n: "n = App BITVECTOR_XOR ts" by (auto simp: getKind_iff)
  define S where "S = {t \<in> set ts. getKind t \<notin> {CONST_BITVECTOR, BITVECTOR_NOT}}"
  from assms(4) obtain c cm where c: "xor_collect ts None [] = Inr (c, cm)" by (auto simp: XorSimplify_def n Let_def)
  have pos: "positive_in S cm" by (rule xor_collect_positive [OF c]) (auto simp: positive_in_def S_def)
  have hm: "set (h cm) = set cm" using assms(1) mset_eq_setD [of "h cm" cm] by (auto simp: permutes_def)
  obtain tc seen cs where l: "xor_children (h cm) 0 False [] = (tc, seen, cs)" by (metis surj_pair)
  have cs: "\<forall>x\<in>set cs. getKind x \<noteq> BITVECTOR_XOR \<and> getKind x \<noteq> CONST_BITVECTOR"
  proof
    fix x assume "x \<in> set cs"
    let ?f = "\<lambda>e. if odd (c_pos (snd e)) then fst e else App BITVECTOR_NOT [fst e]"
    from l have "cs = map ?f (filter (\<lambda>e. odd (c_pos (snd e)) \<noteq> odd (c_neg (snd e))) (h cm))" by (simp add: xor_children_eq)
    then have "set cs \<subseteq> ?f ` set cm" unfolding hm [symmetric] by (simp only: set_map set_filter) blast
    with \<open>x \<in> set cs\<close> obtain e where e: "e \<in> set cm" "x = ?f e" by blast
    with pos have "odd (c_pos (snd e)) \<Longrightarrow> fst e \<in> S" using odd_pos by (auto simp: positive_in_def)
    with e(2) assms(3) show "getKind x \<noteq> BITVECTOR_XOR \<and> getKind x \<noteq> CONST_BITVECTOR" by (auto simp: S_def xor_flat_def n)
  qed
  have node: "getSize n = getSize (App BITVECTOR_XOR ts)" "children n = ts" by (simp_all add: n)
  from assms(4) obtain ones ks vs where ks: "(case ks of [] \<Rightarrow> Inr cs | k # rest \<Rightarrow> and_then (xor_constants k rest) (\<lambda>res. Inr (cs @ [mkConstBV res]))) = Inr vs"
      "bv_mkOnes (getSize n) = Inr ones"
    and vs: "Assert (vs \<noteq> []) (mkSortedNode nid BITVECTOR_XOR vs) = Inr m"
    unfolding XorSimplify_def rule.select_convs Let_def node(2) c l and_then.simps prod.case by (fastforce simp: and_then_eq_Inr)
  have vs: "vs = cs \<or> (\<exists>k. vs = cs @ [mkConstBV k])" "vs \<noteq> []" "mkSortedNode nid BITVECTOR_XOR vs = Inr m"
    using ks(1) vs by (auto simp: Assert_def split: list.splits if_splits)
  then have "\<forall>x\<in>set vs. getKind x \<noteq> BITVECTOR_XOR" using cs by (auto simp: mkConstBV_def)
  from sorted_xor_flat [OF vs(3) this] have "xor_flat m" .
  moreover have "\<exists>x\<in>set (children m). getKind x \<noteq> CONST_BITVECTOR" if "getKind m = BITVECTOR_XOR"
  proof -
    from vs(3) that \<open>\<forall>x\<in>set vs. _\<close> vs(2) have m: "m = App BITVECTOR_XOR (sort_key nid vs)" "length vs \<noteq> 1"
      by (auto simp: mkSortedNode_def Assert_def split: if_splits)
    with vs(1,2) have "cs \<noteq> []" by auto
    with vs(1) cs show ?thesis by (cases cs) (auto simp: m)
  qed
  ultimately show ?thesis by (simp add: xor_ok_def)
qed

lemma XorZero_xor_ok:
  assumes "typeOf n = Some T" "xor_ok n" "rule_applies XorZero n"
  shows "rewrites_to (rule_apply XorZero n) T n" "rule_apply XorZero n = Inr m \<Longrightarrow> xor_ok m"
proof -
  from assms(3) have "getKind n = BITVECTOR_XOR" by (simp add: XorZero_def split: if_splits)
  then obtain ts where n: "n = App BITVECTOR_XOR ts" by (auto simp: getKind_iff)
  from assms(2) obtain c where c: "c \<in> set ts" "getKind c \<noteq> CONST_BITVECTOR" and flat: "\<forall>c\<in>set ts. getKind c \<noteq> BITVECTOR_XOR"
    by (auto simp: xor_ok_def xor_flat_def n)
  have nz: "c \<noteq> mkConst w 0" for w using c(2) by (auto simp: mkConst_def)
  obtain w where T: "T = BitVectorType w" using assms(1) typeOf_ac [of BITVECTOR_XOR] by (auto simp: n)
  show "rewrites_to (rule_apply XorZero n) T n"
    using XorZero_sound [of ts w] assms(1) c(1) nz unfolding n T by blast
  let ?us = "filter (\<lambda>t. t \<noteq> mkConst (getSize n) 0) ts"
  assume "rule_apply XorZero n = Inr m"
  then have m: "m = mkNaryNode BITVECTOR_XOR ?us" by (simp add: XorZero_def n Let_def)
  have us: "c \<in> set ?us" "\<forall>c\<in>set ?us. getKind c \<noteq> BITVECTOR_XOR" using c(1) nz flat by auto
  show "xor_ok m"
  proof (cases "length ?us = 1")
    case True
    then obtain u where "?us = [u]" by (metis One_nat_def length_0_conv length_Suc_conv)
    with us(2) have "m = u" "getKind u \<noteq> BITVECTOR_XOR" by (auto simp: m mkNaryNode_def)
    then show ?thesis by (simp add: xor_ok_kind)
  next
    case False
    then have "m = App BITVECTOR_XOR ?us" by (simp add: m mkNaryNode_def)
    with us c(2) show ?thesis by (auto simp: xor_ok_def xor_flat_def)
  qed
qed

lemma Assert_eq_Inr: "Assert b r = Inr m \<longleftrightarrow> b \<and> r = Inr m"
  by (simp add: Assert_def)

lemma PullUp_xor_ok: "rule_apply AndOrXorConcatPullUp n = Inr m \<Longrightarrow> xor_ok m"
  unfolding AndOrXorConcatPullUp_def rule.select_convs Let_def Assert_eq_Inr by (elim conjE) (drule Inr_inject, erule subst, rule xor_ok_kind, unfold getKind.simps, simp)

lemma slices_xor_ok:
  assumes "BitwiseSlicing_loop k d c x i start stop acc = Inr acc'" "\<forall>p\<in>set acc. xor_ok p" "i > 0 \<or> acc \<noteq> []"
  shows "acc' \<noteq> [] \<and> (\<forall>p\<in>set acc'. xor_ok p)"
proof -
  have slice: "xor_ok (App k [mkExtract c hi lo, mkExtract x hi lo])" for hi lo
    by (simp add: xor_ok_def xor_flat_def mkExtract_def)
  show ?thesis using assms
  proof (induction i arbitrary: start stop acc)
    case (Suc i)
    let ?slice = "\<lambda>hi lo. App k [mkExtract c hi lo, mkExtract x hi lo]"
    from Suc.prems(1) obtain b1 b0 where b: "bv_isBitSet d (i + 1) = Inr b1" "bv_isBitSet d i = Inr b0"
      unfolding BitwiseSlicing_loop.simps(2) and_then_eq_Inr by blast
    let ?b = "b1 \<noteq> b0"
    define acc1 where "acc1 = (if ?b then acc @ [?slice stop start] else acc) @ (if i = 0 then [?slice (if ?b then i else stop) 0] else [])"
    have "BitwiseSlicing_loop k d c x i (if ?b then i else start - 1) (if ?b then i else stop) acc1 = Inr acc'"
      using Suc.prems(1) unfolding BitwiseSlicing_loop.simps(2) b and_then.simps acc1_def Let_def
      by (cases ?b; cases "i = 0") (simp_all del: BitwiseSlicing_loop.simps)
    moreover have "\<forall>p\<in>set acc1. xor_ok p" using Suc.prems(2) slice [of stop start] slice [of stop 0] slice [of i 0]
      unfolding acc1_def by (cases ?b; cases "i = 0") simp_all
    moreover have "i > 0 \<or> acc1 \<noteq> []" by (simp add: acc1_def)
    ultimately show ?case by (rule Suc.IH)
  qed simp
qed

lemma BitwiseSlicing_xor_ok:
  assumes "typeOf n = Some T" "rule_applies BitwiseSlicing n" "rule_apply BitwiseSlicing n = Inr m"
  shows "xor_ok m"
proof -
  from assms(2) have k: "getKind n \<in> {BITVECTOR_AND, BITVECTOR_OR, BITVECTOR_XOR}" "getSize n \<noteq> 1"
    by (auto simp: BitwiseSlicing_def bitwise_kind_def split: if_splits)
  then obtain ts where n: "n = App (getKind n) ts" by (cases n) auto
  from k have "ac_kind (getKind n)" by (auto simp: ac_kind_def)
  with assms(1) n obtain w where ts: "of_width w ts" "T = BitVectorType w" using typeOf_ac by metis
  have w: "w \<noteq> 1" "0 < w" using k(2) getSize_typed assms(1) typeOf_width [of n w] ts(2) by auto
  from assms(3) obtain c os where sp: "split_constant (children n) None [] = (Some c, os)"
    by (auto simp: BitwiseSlicing_def split: option.splits prod.splits)
  from split_constant_mset [OF sp] have "mset (children n) = mset (c # os)" by simp
  then have "c \<in> set (children n)" using mset_eq_setD by fastforce
  then have "typeOf c = Some (BitVectorType w)" using ts(1) n by (metis children.simps(1) of_width_def)
  moreover have "getKind c = CONST_BITVECTOR" using split_constant_found(2) [OF sp] by simp
  ultimately have "d_size (getConstBV c) = w" by (cases c) auto
  with assms(3) sp obtain acc where acc: "BitwiseSlicing_loop (getKind n) (getConstBV c) c (mkNaryNode (getKind n) os) (w - 1) (w - 1) (w - 1) [] = Inr acc"
      "m = mkConcat acc"
    by (auto simp: BitwiseSlicing_def Let_def Assert_def split: if_splits)
  from slices_xor_ok [OF acc(1)] w have "acc \<noteq> []" "\<forall>p\<in>set acc. xor_ok p" by auto
  then show ?thesis by (auto simp: acc(2) mkConcat_def xor_ok_kind intro: nth_mem)
qed

lemma XorOne_xor_ok:
  assumes "typeOf n = Some T" "xor_ok n" "rule_applies XorOne n"
  shows "rewrites_to (rule_apply XorOne n) T n"
proof -
  from assms(3) have "getKind n = BITVECTOR_XOR" by (simp add: XorOne_def split: if_splits)
  then obtain ts where n: "n = App BITVECTOR_XOR ts" by (auto simp: getKind_iff)
  from assms(2) obtain c where c: "c \<in> set ts" "getKind c \<noteq> CONST_BITVECTOR" by (auto simp: xor_ok_def n)
  obtain w where T: "T = BitVectorType w" using assms(1) typeOf_ac [of BITVECTOR_XOR] by (auto simp: n)
  have "0 < w" "w < 2147483648" using typeOf_width assms(1) T by auto
  then have "Inr c \<noteq> mkOnes w" using c(2) by (auto simp: mkOnes_eq mkConst_def)
  with XorOne_sound [of ts w] assms(1) c(1) show ?thesis unfolding n T by blast
qed

text \<open>A strategy with a condition that its result satisfies.\<close>

definition rewrites_with :: "(node \<Rightarrow> bool) \<Rightarrow> node result \<Rightarrow> ntype \<Rightarrow> node \<Rightarrow> bool" where
  "rewrites_with Q r T n \<longleftrightarrow> rewrites_to r T n \<and> (\<forall>m. r = Inr m \<longrightarrow> Q m)"

lemma strategy_nil_with: "typeOf n = Some T \<Longrightarrow> Q n \<Longrightarrow> rewrites_with Q (LinearRewriteStrategy [] n) T n"
  by (simp add: rewrites_with_def)

lemma strategy_cons_with:
  assumes "typeOf n = Some T" "rule_applies r n \<Longrightarrow> rewrites_to (rule_apply r n) T n"
    and "\<And>m. (if rule_applies r n then rule_apply r n = Inr m else m = n) \<Longrightarrow> typeOf m = Some T \<Longrightarrow>
      rewrites_with Q (LinearRewriteStrategy rs m) T m"
  shows "rewrites_with Q (LinearRewriteStrategy (r # rs) n) T n"
proof (cases "rule_applies r n")
  case True
  with assms(2) obtain m where m: "rule_apply r n = Inr m" "rewrites_to (Inr m) T n" by (auto simp: rewrites_to_def)
  with assms(3) [of m] True show ?thesis by (auto simp: RewriteRule_run_def rewrites_to_def rewrites_with_def)
qed (use assms(1,3) in simp)

lemma xor_strategy:
  assumes "typeOf n = Some T" "getKind n = BITVECTOR_XOR" "permutes h"
  shows "rewrites_with xor_ok (LinearRewriteStrategy [FlattenAssocCommut nid, XorSimplify h nid, XorZero, AndOrXorConcatPullUp,
    BitwiseSlicing] n) T n"
proof (rule strategy_cons_with [OF assms(1)])
  fix m assume m: "if rule_applies (FlattenAssocCommut nid) n then rule_apply (FlattenAssocCommut nid) n = Inr m else m = n"
    and t: "typeOf m = Some T"
  note flat = flatten_xor_flat [OF assms(2) m]
  show "rewrites_with xor_ok (LinearRewriteStrategy [XorSimplify h nid, XorZero, AndOrXorConcatPullUp, BitwiseSlicing] m) T m"
  proof (rule strategy_cons_with [OF t])
    fix k assume k: "if rule_applies (XorSimplify h nid) m then rule_apply (XorSimplify h nid) m = Inr k else k = m"
      and t: "typeOf k = Some T"
    then have ok: "xor_ok k" using XorSimplify_xor_ok [OF assms(3) _ flat, of nid k] xor_ok_kind [of m]
      by (auto simp: XorSimplify_def split: if_splits)
    show "rewrites_with xor_ok (LinearRewriteStrategy [XorZero, AndOrXorConcatPullUp, BitwiseSlicing] k) T k"
    proof (rule strategy_cons_with [OF t XorZero_xor_ok(1) [OF t ok]])
      fix j assume j: "if rule_applies XorZero k then rule_apply XorZero k = Inr j else j = k" and t': "typeOf j = Some T"
      then have ok: "xor_ok j" using XorZero_xor_ok(2) [OF t ok] ok by (auto split: if_splits)
      show "rewrites_with xor_ok (LinearRewriteStrategy [AndOrXorConcatPullUp, BitwiseSlicing] j) T j"
      proof (rule strategy_cons_with [OF t'])
        fix i assume "if rule_applies AndOrXorConcatPullUp j then rule_apply AndOrXorConcatPullUp j = Inr i else i = j"
          and t: "typeOf i = Some T"
        then have ok: "xor_ok i" using PullUp_xor_ok ok by (auto split: if_splits)
        show "rewrites_with xor_ok (LinearRewriteStrategy [BitwiseSlicing] i) T i"
        proof (rule strategy_cons_with [OF t])
          fix p assume "if rule_applies BitwiseSlicing i then rule_apply BitwiseSlicing i = Inr p else p = i" "typeOf p = Some T"
          then show "rewrites_with xor_ok (LinearRewriteStrategy [] p) T p"
            using BitwiseSlicing_xor_ok [OF t] ok by (intro strategy_nil_with) (auto split: if_splits)
        qed (use t BitwiseSlicing_sound in \<open>simp add: sound_rule_def\<close>)
      qed (use t' AndOrXorConcatPullUp_sound in \<open>simp add: sound_rule_def\<close>)
    qed assumption
  qed (use t XorSimplify_sound [OF assms(3)] in \<open>simp add: sound_rule_def\<close>)
qed (use assms(1) FlattenAssocCommut_sound in \<open>simp add: sound_rule_def\<close>)

lemma xor_entry:
  assumes "typeOf n = Some T" "getKind n = BITVECTOR_XOR" "permutes (hash_order env)"
  shows "responds (RewriteXor env n prerewrite) T n"
  unfolding RewriteXor_def
proof (rule bitwise_post)
  note x = xor_strategy [OF assms, of "node_id env"]
  then show "rewrites_to (LinearRewriteStrategy [FlattenAssocCommut (node_id env), XorSimplify (hash_order env) (node_id env), XorZero,
    AndOrXorConcatPullUp, BitwiseSlicing] n) T n" by (simp add: rewrites_with_def del: LinearRewriteStrategy.simps)
  fix m assume "LinearRewriteStrategy [FlattenAssocCommut (node_id env), XorSimplify (hash_order env) (node_id env), XorZero,
    AndOrXorConcatPullUp, BitwiseSlicing] n = Inr m" and t: "typeOf m = Some T"
  with x have ok: "xor_ok m" by (simp add: rewrites_with_def del: LinearRewriteStrategy.simps)
  show "rewrites_to (LinearRewriteStrategy [XorOne, BitwiseSlicing] m) T m"
    by (rule strategy_cons [OF t XorOne_xor_ok [OF t ok]]) (assumption, rule slicing.linear_sound)
qed

end
