(* ===== verification/Rewriter_Sound.thy ===== *)
theory Rewriter_Sound
  imports Rewriter_Correct
begin

section \<open>Soundness and progress of the rewriter\<close>

text \<open>
  The entries of the dispatch table whose rules need something of the node: signed comparisons, sums and equalities.
  Then the table as a whole: it returns an equivalent node for every kind, and asks the driver to go on only with a node
  that differs from the one it was given.
\<close>

subsection \<open>Signed comparison\<close>

text \<open>The comparisons on which \<open>MultSltMult\<close> is right when it applies.\<close>

definition mult_slt_safe :: "node \<Rightarrow> bool" where
  "mult_slt_safe n \<longleftrightarrow> (rule_applies MultSltMult n \<longrightarrow> binary_concats (child n 0) \<and> binary_concats (child n 1) \<and>
     (case (extract_ext_tuple (child n 0), extract_ext_tuple (child n 1)) of
        (Some (ml0, ml1, s), Some (mr0, mr1, s')) \<Rightarrow> s \<or> getKind ml0 = BITVECTOR_PLUS \<and> mr1 = ml1
      | _ \<Rightarrow> False))"

lemma slt_entry:
  assumes "typeOf n = Some T" "mult_slt_safe n"
  shows "responds (RewriteSlt n) T n"
proof -
  have mult: "rewrites_to (rule_apply MultSltMult n) T n" if "rule_applies MultSltMult n"
    using assms(2) that MultSltMult_rewrites [OF assms(1) that] by (auto simp: mult_slt_safe_def split: option.splits)
  have "rewrites_to (LinearRewriteStrategy [EvalSlt, MultSltMult] n) T n"
  proof (rule strategy_cons [OF assms(1)])
    show "rule_applies EvalSlt n \<Longrightarrow> rewrites_to (rule_apply EvalSlt n) T n"
      using assms(1) EvalCompare_sound(3) by (simp add: sound_rule_def)
    fix m assume m: "if rule_applies EvalSlt n then rule_apply EvalSlt n = Inr m else m = n" and t: "typeOf m = Some T"
    show "rewrites_to (LinearRewriteStrategy [MultSltMult] m) T m"
    proof (cases "rule_applies EvalSlt n")
      case True
      with m have "getKind m = CONST_BOOLEAN" by (auto simp: EvalSlt_def bool_result_def Let_def util_defs split: if_splits)
      then have "\<not> rule_applies MultSltMult m" by (simp add: MultSltMult_def)
      with t show ?thesis by simp
    next
      case False
      with m have "m = n" by simp
      show ?thesis unfolding \<open>m = n\<close> by (rule strategy_cons [OF assms(1) mult]) auto
    qed
  qed
  then show ?thesis unfolding RewriteSlt_def by (simp only: responds_respond)
qed

subsection \<open>Sums\<close>

text \<open>The terms all of whose products have their constants last.\<close>

definition normal_products :: "node \<Rightarrow> bool" where
  "normal_products n \<longleftrightarrow> (\<forall>s\<in>subterms n. mult_normal s)"

lemma subterms_trans: "s \<in> subterms t \<Longrightarrow> t \<in> subterms n \<Longrightarrow> s \<in> subterms n"
  by (induction n) auto

lemma subterms_child: "c \<in> set (children n) \<Longrightarrow> c \<in> subterms n"
  using subterms_strict [of c] by (cases n) auto

lemma flatten_loop_subterms:
  "c \<in> set (flatten_loop k queue cs) \<Longrightarrow> c \<in> set cs \<or> (\<exists>q\<in>set queue. c \<in> subterms q)"
proof (induction queue cs rule: flatten_loop_induct [where k = k])
  case (Snoc rest current cs)
  have self: "current \<in> subterms current" using subterms_strict [of current] by simp
  show ?case
  proof (cases "getKind current = k")
    case True
    with Snoc.prems have "c \<in> set (flatten_loop k (rest @ children current) cs)" by (simp only: flatten_loop_snoc if_True simp_thms)
    from Snoc.IH(1) [OF True this] subterms_child [of _ current] subterms_trans [of c] show ?thesis by auto
  next
    case False
    with Snoc.prems have "c \<in> set (flatten_loop k rest (cs @ [current]))" by (simp only: flatten_loop_snoc if_False simp_thms)
    from Snoc.IH(2) [OF False this] self show ?thesis by auto
  qed
qed simp

lemma plus_entry:
  assumes "typeOf n = Some T" "getKind n = BITVECTOR_PLUS" "prerewrite \<or> normal_products n"
  shows "responds (RewritePlus env n prerewrite) T n"
proof (cases prerewrite)
  case True
  then show ?thesis unfolding RewritePlus_def using flatten.linear_sound [OF assms(1), of "node_id env"]
    by (simp del: LinearRewriteStrategy.simps)
next
  case False
  let ?nid = "node_id env"
  have "rewrites_to (LinearRewriteStrategy [FlattenAssocCommut ?nid, PlusCombineLikeTerms ?nid] n) T n"
  proof (rule strategy_cons [OF assms(1)])
    show "rule_applies (FlattenAssocCommut ?nid) n \<Longrightarrow> rewrites_to (rule_apply (FlattenAssocCommut ?nid) n) T n"
      using assms(1) FlattenAssocCommut_sound by (simp add: sound_rule_def)
    fix m assume m: "if rule_applies (FlattenAssocCommut ?nid) n then rule_apply (FlattenAssocCommut ?nid) n = Inr m else m = n"
      and t: "typeOf m = Some T"
    have "c \<in> subterms n" if c: "c \<in> set (children m)" for c
    proof (cases "rule_applies (FlattenAssocCommut ?nid) n")
      case True
      let ?cs = "flatten_loop BITVECTOR_PLUS [n] []"
      from m True have "rule_apply (FlattenAssocCommut ?nid) n = Inr m" by simp
      then have "m = mkNaryNode BITVECTOR_PLUS ?cs"
        unfolding FlattenAssocCommut_def rule.select_convs Let_def assms(2) by (simp del: flatten_loop.simps)
      then consider "?cs = [m]" | "c \<in> set ?cs" using c
        by (cases "length ?cs = 1") (auto simp: mkNaryNode_def length_Suc_conv simp del: flatten_loop.simps)
      then show ?thesis
      proof cases
        case 1
        then have "m \<in> subterms n" using flatten_loop_subterms [of m BITVECTOR_PLUS "[n]" "[]"] by (simp del: flatten_loop.simps)
        then show ?thesis using subterms_trans subterms_child [OF c] by blast
      next
        case 2
        then show ?thesis using flatten_loop_subterms [OF 2] by simp
      qed
    next
      case False
      with m c show ?thesis by (simp add: subterms_child)
    qed
    then have normal: "\<forall>c\<in>set (children m). mult_normal c" using assms(3) False by (simp add: normal_products_def)
    show "rewrites_to (LinearRewriteStrategy [PlusCombineLikeTerms ?nid] m) T m"
    proof (rule strategy_cons [OF t])
      assume "rule_applies (PlusCombineLikeTerms ?nid) m"
      then obtain ts where ts: "m = App BITVECTOR_PLUS ts" by (auto simp: PlusCombineLikeTerms_def getKind_iff)
      have "ac_kind BITVECTOR_PLUS" by (simp add: ac_kind_def)
      with t ts obtain w where "T = BitVectorType w" using typeOf_ac by blast
      with PlusCombineLikeTerms_rewrites [of ts w ?nid] t normal show "rewrites_to (rule_apply (PlusCombineLikeTerms ?nid) m) T m"
        by (simp add: ts del: typeOf.simps(5))
    qed auto
  qed
  then show ?thesis unfolding RewritePlus_def by (simp only: responds_respond False if_False)
qed

subsection \<open>Equalities\<close>

lemma side_normal_products: "normal_products n \<Longrightarrow> side_normal n"
  using subterms_strict [of n] subterms_child [of _ n] unfolding normal_products_def side_normal_def by (metis insertI1)

lemma normal_products_child: "normal_products n \<Longrightarrow> c \<in> set (children n) \<Longrightarrow> normal_products c"
  using subterms_trans subterms_child by (auto simp: normal_products_def)

lemma equal_entry_pre:
  "typeOf n = Some T \<Longrightarrow> responds (RewriteEqual env n True) T n"
  unfolding RewriteEqual_def using equal.linear_sound by (simp del: LinearRewriteStrategy.simps)

text \<open>The simple rules leave a constant or an equality of the same two terms.\<close>

lemma equal_simple:
  assumes "typeOf n = Some T" "getKind n = EQUAL"
  shows "\<exists>m. LinearRewriteStrategy [FailEq, SimplifyEq, ReflexivityEq nid] n = Inr m \<and> rewrites_to (Inr m) T n \<and>
    (isConst m \<or> getKind m = EQUAL \<and> set (children m) = set (children n) \<and> length (children m) = 2)"
proof -
  from assms obtain a b where n: "n = App EQUAL [a, b]" by (auto simp: getKind_iff)
  obtain m where m: "LinearRewriteStrategy [FailEq, SimplifyEq, ReflexivityEq nid] n = Inr m" "rewrites_to (Inr m) T n"
    using equal.linear_sound [OF assms(1), of nid] by (metis rewrites_to_def)
  then have "isConst m \<or> m = n \<or> m = App EQUAL [b, a]"
    by (auto simp: n FailEq_def SimplifyEq_def ReflexivityEq_def RewriteRule_run_def util_defs split: if_splits)
  then show ?thesis using m by (auto simp: n)
qed

lemma equal_entry_post:
  assumes "typeOf n = Some T" "getKind n = EQUAL" "typeOf (child n 0) = Some (BitVectorType w)" "normal_products n" "inj (node_id env)"
  shows "case RewriteEqual env n False of
      Inr q \<Rightarrow> equiv (d_node q) n \<and> (d_status q \<noteq> REWRITE_DONE \<longrightarrow> d_node q \<noteq> n)
    | Inl e \<Rightarrow> e = AssertionFailure \<and> (\<exists>l r a b. set [l, r] = set (children n) \<and> SolveEq_new (node_id env) w l r = Inr (Some (a, b, True)) \<and>
        (a = b \<or> {Rewriter_rewrite env a, Rewriter_rewrite env b} = {l, r}))"
proof -
  let ?S = "SolveEq (node_id env) (Rewriter_rewrite env)"
  from equal_simple [OF assms(1,2), of "node_id env"] obtain m where
    m: "LinearRewriteStrategy [FailEq, SimplifyEq, ReflexivityEq (node_id env)] n = Inr m" "rewrites_to (Inr m) T n"
    "isConst m \<or> getKind m = EQUAL \<and> set (children m) = set (children n) \<and> length (children m) = 2" by blast
  have eq: "equiv m n" and t: "typeOf m = Some T" using m(2) assms(1) by (simp_all add: equiv_def)
  show ?thesis
  proof (cases "rule_applies ?S m")
    case False
    with m(1) eq show ?thesis by (simp add: RewriteEqual_def del: LinearRewriteStrategy.simps)
  next
    case True
    then have k: "getKind m = EQUAL" by (simp add: SolveEq_def split: if_splits)
    with m(3) have ch: "set (children m) = set (children n)" "length (children m) = 2" by (cases m; simp)+
    from k t obtain l r where lr: "m = App EQUAL [l, r]" by (auto simp: getKind_iff)
    have w: "typeOf c = Some (BitVectorType w)" if "c \<in> set (children n)" for c
      using assms(1-3) that by (auto simp: getKind_iff)
    have mem: "l \<in> set (children n)" "r \<in> set (children n)" using ch(1) by (auto simp: lr)
    have side: "typeOf (child m 0) = Some (BitVectorType w)" "side_normal (child m 0)" "side_normal (child m 1)"
      using w [OF mem(1)] mem normal_products_child [OF assms(4)] side_normal_products by (simp_all add: lr)
    have E: "RewriteEqual env n False = respond_changed REWRITE_AGAIN_FULL n (rule_apply ?S m)"
      using m(1) True by (simp add: RewriteEqual_def RewriteRule_run_def del: LinearRewriteStrategy.simps)
    note S = SolveEq_cases [OF t k side assms(5), of "Rewriter_rewrite env"]
    show ?thesis
    proof (cases "rule_apply ?S m")
      case (Inr p)
      with S have "equiv p m" by simp
      then have "equiv p n" using eq by (rule equiv_trans)
      then show ?thesis unfolding E Inr by (simp add: respond_changed_def)
    next
      case (Inl e)
      with S ch(1) show ?thesis unfolding E Inl by (auto simp: respond_changed_def lr)
    qed
  qed
qed

subsection \<open>The table\<close>

lemma rewriter_responds:
  assumes "typeOf n = Some T" "permutes (hash_order env)"
    and "getKind n = BITVECTOR_SLT \<Longrightarrow> mult_slt_safe n" "getKind n = EQUAL \<Longrightarrow> prerewrite"
    and "getKind n = BITVECTOR_PLUS \<Longrightarrow> prerewrite \<or> normal_products n"
  shows "responds (d_rewriteTable env (getKind n) n prerewrite) T n"
  using assms
  by (cases "getKind n")
    (simp_all add: d_rewriteTable_def linear_entries guarded_entries division_entries negation_entry mult_entry and_or_entries ite_entry
      xor_entry slt_entry plus_entry equal_entry_pre IdentityRewrite_def)

text \<open>The environment of the examples: any identifiers that tell nodes apart, and hash maps in order of insertion.\<close>

definition example_env :: rewriter_env where
  "example_env = \<lparr>node_id = to_nat, hash_order = id, Rewriter_rewrite = id, bitvectorDivByZeroConst = True,
     bvExtractArithRewrite = False, bvLazyRewriteExtf = False\<rparr>"

lemma example_env_simps [simp]: "permutes (hash_order example_env)" "inj (node_id example_env)" "bitvectorDivByZeroConst example_env"
  by (simp_all add: example_env_def permutes_def)





end
