(* ===== verification/Bitblast_Utils.thy ===== *)
theory Bitblast_Utils
  imports BV_Utils
begin

section \<open>Circuits: bitblast_utils\<close>

text \<open>
  \<open>theory/bv/bitblast/bitblast_utils.h\<close> at \<open>T = Node\<close>: the gates, and the circuits that the bit-blasting strategies are
  built from. A vector of bits is a list of Boolean nodes, the least significant bit first. Out-parameters, which every
  caller passes empty, are returned. A loop that reads two vectors at the same index is \<open>map2\<close>, a loop that carries a
  value from bit to bit a recursion on the lists.

  The lemmas say what each circuit computes: \<open>bval\<close> reads a list of bits as an unsigned number under a valuation.
\<close>

subsection \<open>Gates\<close>

definition mkNot_bb :: "node \<Rightarrow> node" where
  "mkNot_bb a = App NOT_K [a]"

definition mkOr_bb :: "node \<Rightarrow> node \<Rightarrow> node" where
  "mkOr_bb a b = App OR_K [a, b]"

definition mkOr_bbs :: "node list \<Rightarrow> node result" where
  "mkOr_bbs cs = Assert (length cs \<noteq> 0) (Inr (if length cs = 1 then cs ! 0 else App OR_K cs))"

definition mkAnd_bb :: "node \<Rightarrow> node \<Rightarrow> node" where
  "mkAnd_bb a b = App AND_K [a, b]"

definition mkAnd_bbs :: "node list \<Rightarrow> node result" where
  "mkAnd_bbs cs = Assert (length cs \<noteq> 0) (Inr (if length cs = 1 then cs ! 0 else App AND_K cs))"

definition mkXor_bb :: "node \<Rightarrow> node \<Rightarrow> node" where
  "mkXor_bb a b = App XOR_K [a, b]"

definition mkIff_bb :: "node \<Rightarrow> node \<Rightarrow> node" where
  "mkIff_bb a b = App EQUAL [a, b]"

definition mkIte_bb :: "node \<Rightarrow> node \<Rightarrow> node \<Rightarrow> node" where
  "mkIte_bb c a b = App ITE [c, a, b]"

subsection \<open>Vectors of bits\<close>

definition extractBits :: "node list \<Rightarrow> nat \<Rightarrow> nat \<Rightarrow> node list result" where
  "extractBits b lo hi = Assert (lo < length b \<and> hi < length b \<and> lo \<le> hi) (Inr (map ((!) b) [lo..<Suc hi]))"

definition negateBits :: "node list \<Rightarrow> node list" where
  "negateBits bits = map mkNot_bb bits"

definition isZeroBits :: "node list \<Rightarrow> bool" where
  "isZeroBits bits \<longleftrightarrow> list_all (\<lambda>b. b = mkFalse) bits"

definition rshift :: "node list \<Rightarrow> nat \<Rightarrow> node list" where
  "rshift bits amount = map (\<lambda>i. if i < length bits - amount then bits ! (i + amount) else mkFalse) [0..<length bits]"

definition lshift :: "node list \<Rightarrow> nat \<Rightarrow> node list" where
  "lshift bits amount = map (\<lambda>i. if amount \<le> i then bits ! (i - amount) else mkFalse) [0..<length bits]"

definition makeZero :: "nat \<Rightarrow> node list" where
  "makeZero width = replicate width mkFalse"

subsection \<open>Arithmetic\<close>

text \<open>The loop of the adder: the sum bits and the carry that is left.\<close>

fun adder_loop :: "node list \<Rightarrow> node list \<Rightarrow> node \<Rightarrow> node list \<times> node" where
  "adder_loop (a # as) (b # bs) carry =
     (let sum = mkXor_bb (mkXor_bb a b) carry;
          carry = mkOr_bb (mkAnd_bb a b) (mkAnd_bb (mkXor_bb a b) carry);
          (res, out) = adder_loop as bs carry
      in (sum # res, out))"
| "adder_loop _ _ carry = ([], carry)"

definition rippleCarryAdder :: "node list \<Rightarrow> node list \<Rightarrow> node \<Rightarrow> (node list \<times> node) result" where
  "rippleCarryAdder a b carry = Assert (length a = length b) (Inr (adder_loop a b carry))"

text \<open>The inner loop of the multiplier adds \<open>bk AND a\<close> to the bits \<open>res[k], res[k + 1], ...\<close>.\<close>

fun multiplier_inner :: "node \<Rightarrow> node list \<Rightarrow> node list \<Rightarrow> node \<Rightarrow> node list" where
  "multiplier_inner bk (a # as) (r # rs) carry_in =
     (let aj = mkAnd_bb bk a;
          carry_out = mkOr_bb (mkAnd_bb r aj) (mkAnd_bb (mkXor_bb r aj) carry_in)
      in mkXor_bb (mkXor_bb r aj) carry_in # multiplier_inner bk as rs carry_out)"
| "multiplier_inner bk _ rs _ = rs"

definition shiftAddMultiplier :: "node list \<Rightarrow> node list \<Rightarrow> node list" where
  "shiftAddMultiplier a b =
     foldl (\<lambda>res k. take k res @ multiplier_inner (b ! k) a (drop k res) mkFalse)
       (map (\<lambda>ai. mkAnd_bb (b ! 0) ai) a) [1..<length a]"

subsection \<open>Comparison\<close>

fun uLessThan_loop :: "node list \<Rightarrow> node list \<Rightarrow> node \<Rightarrow> node" where
  "uLessThan_loop (a # as) (b # bs) res =
     uLessThan_loop as bs (mkOr_bb (mkAnd_bb (mkIff_bb a b) res) (mkAnd_bb (mkNot_bb a) b))"
| "uLessThan_loop _ _ res = res"

definition uLessThanBB :: "node list \<Rightarrow> node list \<Rightarrow> bool \<Rightarrow> node result" where
  "uLessThanBB a b orEqual = Assert (length a \<noteq> 0 \<and> length b \<noteq> 0)
     (let res = mkAnd_bb (mkNot_bb (a ! 0)) (b ! 0);
          res = (if orEqual then mkOr_bb res (mkIff_bb (a ! 0) (b ! 0)) else res)
      in Inr (uLessThan_loop (tl a) (tl b) res))"

definition sLessThanBB :: "node list \<Rightarrow> node list \<Rightarrow> bool \<Rightarrow> node result" where
  "sLessThanBB a b orEqual = Assert (length a \<noteq> 0 \<and> length b \<noteq> 0)
     (if length a = 1 then
        Inr (if orEqual then mkOr_bb (mkIff_bb (a ! 0) (b ! 0)) (mkAnd_bb (a ! 0) (mkNot_bb (b ! 0)))
             else mkAnd_bb (a ! 0) (mkNot_bb (b ! 0)))
      else
        let n = length a - 1 in
        and_then (extractBits a 0 (n - 1)) (\<lambda>a1.
        and_then (extractBits b 0 (n - 1)) (\<lambda>b1.
        and_then (uLessThanBB a1 b1 orEqual) (\<lambda>ures.
        Inr (mkOr_bb (mkAnd_bb (mkIff_bb (a ! n) (b ! n)) ures) (mkAnd_bb (a ! n) (mkNot_bb (b ! n))))))))"

subsection \<open>Division\<close>

text \<open>\<open>uDivModRec\<close> of the strategies: the quotient and the remainder.\<close>

fun uDivModRec :: "node list \<Rightarrow> node list \<Rightarrow> nat \<Rightarrow> (node list \<times> node list) result" where
  "uDivModRec a b rec_width =
     (if rec_width = 0 \<or> isZeroBits a then Inr (makeZero (length a), makeZero (length a))
      else and_then (uDivModRec (rshift a 1) b (rec_width - 1)) (\<lambda>(q1, r1).
        let q1 = lshift q1 1;
            r1 = lshift r1 1;
            is_odd = mkIff_bb (a ! 0) mkTrue;
            one_if_odd = mkIte_bb is_odd mkTrue mkFalse;
            zero = makeZero (length b)
        in and_then (rippleCarryAdder r1 zero one_if_odd) (\<lambda>(r1_shift_add, _).
        let not_b = negateBits b
        in and_then (rippleCarryAdder r1_shift_add not_b mkTrue) (\<lambda>(r_minus_b, co1).
        let sign = mkNot_bb co1;
            q1 = q1[0 := mkIte_bb sign (q1 ! 0) mkTrue];
            r1_shift_add = map2 (mkIte_bb sign) r1_shift_add r_minus_b
        in and_then (rippleCarryAdder a not_b mkTrue) (\<lambda>(a_minus_b, co2).
        let a_lt_b = mkNot_bb co2
        in Inr (map (mkIte_bb a_lt_b mkFalse) q1, map2 (mkIte_bb a_lt_b) a r1_shift_add))))))"

declare uDivModRec.simps [simp del]

subsection \<open>Propositional structure\<close>

text \<open>The SAT solver sees the connectives of a Boolean node, and variables for its atoms.\<close>

definition connective :: "kind \<Rightarrow> node list \<Rightarrow> bool" where
  "connective k ts \<longleftrightarrow> k = NOT_K \<or> k = AND_K \<or> k = OR_K \<or> k = XOR_K \<or> k = IMPLIES \<or>
     k = EQUAL \<and> typeOf (ts ! 0) = Some BooleanType \<or> k = ITE \<and> typeOf (ts ! 1) = Some BooleanType"

fun atoms :: "node \<Rightarrow> node set" where
  "atoms (App k ts) = (if connective k ts then (\<Union>t\<in>set ts. atoms t) else {App k ts})"
| "atoms (ConstBool b) = {}"
| "atoms n = {n}"

text \<open>A Boolean node whose atoms are in \<open>U\<close>.\<close>

definition bit_in :: "node set \<Rightarrow> node \<Rightarrow> bool" where
  "bit_in U b \<longleftrightarrow> typeOf b = Some BooleanType \<and> atoms b \<subseteq> U"

subsection \<open>Bits as numbers\<close>

definition holds :: "valuation \<Rightarrow> node \<Rightarrow> bool" where
  "holds \<sigma> b = truth (eval \<sigma> b)"

definition bval :: "valuation \<Rightarrow> node list \<Rightarrow> int" where
  "bval \<sigma> bits = horner_sum of_bool 2 (map (holds \<sigma>) bits)"

definition bool_bits :: "node set \<Rightarrow> node list \<Rightarrow> bool" where
  "bool_bits U bits \<longleftrightarrow> (\<forall>b\<in>set bits. bit_in U b)"

lemma bval_simps [simp]:
  "bval \<sigma> [] = 0" "bval \<sigma> (b # bs) = of_bool (holds \<sigma> b) + 2 * bval \<sigma> bs"
  "bval \<sigma> (xs @ ys) = bval \<sigma> xs + 2 ^ length xs * bval \<sigma> ys"
  by (simp_all add: bval_def horner_sum_append)

lemma bval_range [simp]: "0 \<le> bval \<sigma> bs" "bval \<sigma> bs < 2 ^ length bs" "take_bit (length bs) (bval \<sigma> bs) = bval \<sigma> bs"
proof -
  show *: "0 \<le> bval \<sigma> bs" "bval \<sigma> bs < 2 ^ length bs"
    using horner_sum_nonnegative horner_sum_bound [of "map (holds \<sigma>) bs"] by (simp_all add: bval_def)
  then show "take_bit (length bs) (bval \<sigma> bs) = bval \<sigma> bs" by (rule take_bit_id)
qed

lemma bit_bval: "bit (bval \<sigma> bs) i \<longleftrightarrow> i < length bs \<and> holds \<sigma> (bs ! i)"
  by (auto simp: bval_def bit_horner_sum_bit_iff)

lemma bval_eqI:
  assumes "length bs = w" "take_bit w x = x" "\<And>i. i < w \<Longrightarrow> holds \<sigma> (bs ! i) = bit x i"
  shows "bval \<sigma> bs = x"
proof (rule bit_eqI)
  fix i
  show "bit (bval \<sigma> bs) i = bit x i"
    using assms by (cases "i < w") (auto simp: bit_bval bit_take_bit_iff dest: arg_cong [of _ _ "\<lambda>y. bit y i"])
qed

lemma bool_bits_simps [simp]:
  "bool_bits U []" "bool_bits U (b # bs) \<longleftrightarrow> bit_in U b \<and> bool_bits U bs"
  "bool_bits U (xs @ ys) \<longleftrightarrow> bool_bits U xs \<and> bool_bits U ys"
  by (auto simp: bool_bits_def)

lemma bool_bits_nth: "bool_bits U bs \<Longrightarrow> i < length bs \<Longrightarrow> bit_in U (bs ! i)"
  by (simp add: bool_bits_def)

subsection \<open>What the gates compute\<close>

lemmas gate_defs = mkNot_bb_def mkOr_bb_def mkAnd_bb_def mkXor_bb_def mkIff_bb_def mkIte_bb_def

lemma gate_types [simp]:
  "bit_in U a \<Longrightarrow> bit_in U (mkNot_bb a)"
  "bit_in U a \<Longrightarrow> bit_in U b \<Longrightarrow> bit_in U (mkOr_bb a b)"
  "bit_in U a \<Longrightarrow> bit_in U b \<Longrightarrow> bit_in U (mkAnd_bb a b)"
  "bit_in U a \<Longrightarrow> bit_in U b \<Longrightarrow> bit_in U (mkXor_bb a b)"
  "bit_in U a \<Longrightarrow> bit_in U b \<Longrightarrow> bit_in U (mkIff_bb a b)"
  "bit_in U c \<Longrightarrow> bit_in U a \<Longrightarrow> bit_in U b \<Longrightarrow> bit_in U (mkIte_bb c a b)"
  "bit_in U mkTrue" "bit_in U mkFalse"
  by (auto simp: bit_in_def gate_defs util_defs leastCommonTypeNode_def connective_def)

lemma holds_gates [simp]:
  "holds \<sigma> (mkNot_bb a) \<longleftrightarrow> \<not> holds \<sigma> a" "holds \<sigma> (mkOr_bb a b) \<longleftrightarrow> holds \<sigma> a \<or> holds \<sigma> b"
  "holds \<sigma> (mkAnd_bb a b) \<longleftrightarrow> holds \<sigma> a \<and> holds \<sigma> b" "holds \<sigma> (mkXor_bb a b) \<longleftrightarrow> holds \<sigma> a \<noteq> holds \<sigma> b"
  "holds \<sigma> (mkIte_bb c a b) \<longleftrightarrow> (if holds \<sigma> c then holds \<sigma> a else holds \<sigma> b)"
  "holds \<sigma> mkTrue" "\<not> holds \<sigma> mkFalse"
  by (simp_all add: holds_def gate_defs util_defs)

lemma holds_mkIff [simp]:
  "val_ok \<sigma> \<Longrightarrow> bit_in U a \<Longrightarrow> bit_in U b \<Longrightarrow> holds \<sigma> (mkIff_bb a b) \<longleftrightarrow> holds \<sigma> a = holds \<sigma> b"
  by (simp add: bit_in_def holds_def gate_defs eval_bool_eq)

lemma mkAnd_bbs_correct:
  assumes "bool_bits U bs" "bs \<noteq> []"
  shows "\<exists>b. mkAnd_bbs bs = Inr b \<and> bit_in U b \<and> (\<forall>\<sigma>. holds \<sigma> b \<longleftrightarrow> (\<forall>x\<in>set bs. holds \<sigma> x))"
proof (cases bs)
  case (Cons x xs)
  with assms show ?thesis
    by (cases xs) (auto simp: mkAnd_bbs_def bool_bits_def bit_in_def holds_def connective_def)
qed (use assms in simp)

subsection \<open>What the circuits compute\<close>

lemma bool_bits_map [simp]: "bool_bits U (map f xs) \<longleftrightarrow> (\<forall>x\<in>set xs. bit_in U (f x))"
  by (simp add: bool_bits_def)

lemma bool_bits_iff: "bool_bits U bs \<longleftrightarrow> (\<forall>b\<in>set bs. bit_in U b)"
  by (simp add: bool_bits_def)

lemma negateBits_correct [simp]:
  "length (negateBits bs) = length bs" "bool_bits U bs \<Longrightarrow> bool_bits U (negateBits bs)"
  "bval \<sigma> (negateBits bs) = 2 ^ length bs - 1 - bval \<sigma> bs"
proof -
  show "bval \<sigma> (negateBits bs) = 2 ^ length bs - 1 - bval \<sigma> bs"
    by (induction bs) (simp_all add: negateBits_def algebra_simps)
qed (simp_all add: negateBits_def bool_bits_iff)

lemma makeZero_correct [simp]: "length (makeZero w) = w" "bool_bits U (makeZero w)" "bval \<sigma> (makeZero w) = 0"
proof -
  show "bval \<sigma> (makeZero w) = 0" by (induction w) (simp_all add: makeZero_def)
qed (simp_all add: makeZero_def bool_bits_iff)

lemma isZeroBits_correct: "isZeroBits bs \<Longrightarrow> bval \<sigma> bs = 0"
  by (induction bs) (simp_all add: isZeroBits_def)

lemma map2_gate:
  assumes "length xs = length ys"
  shows "length (map2 f xs ys) = length xs"
    "bool_bits U xs \<Longrightarrow> bool_bits U ys \<Longrightarrow> (\<And>a b. bit_in U a \<Longrightarrow> bit_in U b \<Longrightarrow> bit_in U (f a b)) \<Longrightarrow>
      bool_bits U (map2 f xs ys)"
  using assms by (auto simp: bool_bits_iff) (meson set_zip_leftD set_zip_rightD)

lemma bval_ite:
  "length xs = length ys \<Longrightarrow> bval \<sigma> (map2 (mkIte_bb c) xs ys) = (if holds \<sigma> c then bval \<sigma> xs else bval \<sigma> ys)"
  by (induction rule: list_induct2) simp_all

lemma bval_ite_const: "bval \<sigma> (map (mkIte_bb c t) ys) = (if holds \<sigma> c then of_bool (holds \<sigma> t) * (2 ^ length ys - 1) else bval \<sigma> ys)"
  by (induction ys) simp_all

lemma rshift_correct:
  "length (rshift bs k) = length bs" "bool_bits U bs \<Longrightarrow> bool_bits U (rshift bs k)" "bval \<sigma> (rshift bs k) = bval \<sigma> bs div 2 ^ k"
proof -
  show "bval \<sigma> (rshift bs k) = bval \<sigma> bs div 2 ^ k"
    unfolding drop_bit_eq_div [symmetric]
  proof (rule bval_eqI [where w = "length bs"])
    show "take_bit (length bs) (drop_bit k (bval \<sigma> bs)) = drop_bit k (bval \<sigma> bs)"
      by (rule bit_eqI) (auto simp: bit_simps bit_bval)
  qed (auto simp: rshift_def bit_drop_bit_eq bit_bval add.commute)
qed (auto simp: rshift_def bool_bits_iff)

lemma lshift_correct:
  "length (lshift bs k) = length bs" "bool_bits U bs \<Longrightarrow> bool_bits U (lshift bs k)"
  "bval \<sigma> (lshift bs k) = take_bit (length bs) (bval \<sigma> bs * 2 ^ k)"
proof -
  show "bval \<sigma> (lshift bs k) = take_bit (length bs) (bval \<sigma> bs * 2 ^ k)"
    unfolding push_bit_eq_mult [symmetric]
    by (rule bval_eqI [where w = "length bs"]) (auto simp: lshift_def bit_simps bit_bval)
qed (auto simp: lshift_def bool_bits_iff)

lemma adder_loop_correct:
  assumes "length as = length bs"
  shows "length (fst (adder_loop as bs c)) = length as"
    "bool_bits U as \<Longrightarrow> bool_bits U bs \<Longrightarrow> bit_in U c \<Longrightarrow>
      bool_bits U (fst (adder_loop as bs c)) \<and> bit_in U (snd (adder_loop as bs c))"
    "bval \<sigma> (fst (adder_loop as bs c)) + 2 ^ length as * of_bool (holds \<sigma> (snd (adder_loop as bs c)))
      = bval \<sigma> as + bval \<sigma> bs + of_bool (holds \<sigma> c)"
proof -
  show "length (fst (adder_loop as bs c)) = length as"
    using assms by (induction as bs arbitrary: c rule: list_induct2) (simp_all add: Let_def split: prod.split, metis fst_conv)
  show "bool_bits U (fst (adder_loop as bs c)) \<and> bit_in U (snd (adder_loop as bs c))"
    if "bool_bits U as" "bool_bits U bs" "bit_in U c"
    using assms that by (induction as bs arbitrary: c rule: list_induct2) (simp_all add: Let_def case_prod_beta)
  show "bval \<sigma> (fst (adder_loop as bs c)) + 2 ^ length as * of_bool (holds \<sigma> (snd (adder_loop as bs c)))
      = bval \<sigma> as + bval \<sigma> bs + of_bool (holds \<sigma> c)"
    using assms
  proof (induction as bs arbitrary: c rule: list_induct2)
    case (Cons a as b bs)
    let ?c = "mkOr_bb (mkAnd_bb a b) (mkAnd_bb (mkXor_bb a b) c)"
    let ?r = "adder_loop as bs ?c"
    define t where "t = 2 ^ length as * (of_bool (holds \<sigma> (snd ?r)) :: int)"
    have "bval \<sigma> (fst ?r) + t = bval \<sigma> as + bval \<sigma> bs + of_bool (holds \<sigma> ?c)" using Cons.IH [of ?c] by (simp add: t_def)
    moreover have "2 ^ length (a # as) * of_bool (holds \<sigma> (snd ?r)) = 2 * t" by (simp add: t_def)
    ultimately show ?case
      by (cases "holds \<sigma> a"; cases "holds \<sigma> b"; cases "holds \<sigma> c") (simp_all add: Let_def case_prod_beta)
  qed simp
qed

lemma rippleCarryAdder_correct:
  assumes "length as = length bs" "bool_bits U as" "bool_bits U bs" "bit_in U c"
  obtains res out where "rippleCarryAdder as bs c = Inr (res, out)" "length res = length as" "bool_bits U res" "bit_in U out"
    "\<And>\<sigma>. bval \<sigma> res + 2 ^ length as * of_bool (holds \<sigma> out) = bval \<sigma> as + bval \<sigma> bs + of_bool (holds \<sigma> c)"
    "\<And>\<sigma>. bval \<sigma> res = take_bit (length as) (bval \<sigma> as + bval \<sigma> bs + of_bool (holds \<sigma> c))"
proof -
  let ?res = "fst (adder_loop as bs c)" and ?out = "snd (adder_loop as bs c)"
  have "bval \<sigma> ?res = take_bit (length as) (bval \<sigma> as + bval \<sigma> bs + of_bool (holds \<sigma> c))" for \<sigma>
    unfolding adder_loop_correct(3) [OF assms(1), symmetric]
    using bval_range(1,2) [of \<sigma> ?res] adder_loop_correct(1) [OF assms(1), of c] by (simp add: take_bit_eq_mod)
  then show thesis
    using adder_loop_correct [OF assms(1), where c = c] assms by (intro that [of ?res ?out]) (simp_all add: rippleCarryAdder_def)
qed

lemma take_bit_Suc_bool: "take_bit (Suc n) (of_bool b + 2 * x) = of_bool b + 2 * take_bit n (x::int)"
  by (cases b) (simp_all add: take_bit_Suc)

lemma multiplier_inner_correct:
  assumes "length rs \<le> length as"
  shows "length (multiplier_inner bk as rs c) = length rs"
    "bool_bits U as \<Longrightarrow> bool_bits U rs \<Longrightarrow> bit_in U bk \<Longrightarrow> bit_in U c \<Longrightarrow> bool_bits U (multiplier_inner bk as rs c)"
    "bval \<sigma> (multiplier_inner bk as rs c) = take_bit (length rs) (bval \<sigma> rs + of_bool (holds \<sigma> bk) * bval \<sigma> as + of_bool (holds \<sigma> c))"
proof -
  show "length (multiplier_inner bk as rs c) = length rs"
    by (induction bk as rs c rule: multiplier_inner.induct) (simp_all add: Let_def)
  show "bool_bits U (multiplier_inner bk as rs c)"
    if "bool_bits U as" "bool_bits U rs" "bit_in U bk" "bit_in U c"
    using that by (induction bk as rs c rule: multiplier_inner.induct) (simp_all add: Let_def)
  show "bval \<sigma> (multiplier_inner bk as rs c) = take_bit (length rs) (bval \<sigma> rs + of_bool (holds \<sigma> bk) * bval \<sigma> as + of_bool (holds \<sigma> c))"
    using assms
  proof (induction bk as rs c rule: multiplier_inner.induct)
    case (1 bk a as r rs c)
    let ?aj = "mkAnd_bb bk a"
    let ?out = "mkOr_bb (mkAnd_bb r ?aj) (mkAnd_bb (mkXor_bb r ?aj) c)"
    have "bval \<sigma> (multiplier_inner bk (a # as) (r # rs) c) = of_bool (holds \<sigma> (mkXor_bb (mkXor_bb r ?aj) c))
      + 2 * take_bit (length rs) (bval \<sigma> rs + of_bool (holds \<sigma> bk) * bval \<sigma> as + of_bool (holds \<sigma> ?out))"
      using 1 by (simp add: Let_def)
    also have "\<dots> = take_bit (Suc (length rs)) (of_bool (holds \<sigma> (mkXor_bb (mkXor_bb r ?aj) c))
      + 2 * (bval \<sigma> rs + of_bool (holds \<sigma> bk) * bval \<sigma> as + of_bool (holds \<sigma> ?out)))"
      by (simp only: take_bit_Suc_bool)
    also have "of_bool (holds \<sigma> (mkXor_bb (mkXor_bb r ?aj) c)) + 2 * (bval \<sigma> rs + of_bool (holds \<sigma> bk) * bval \<sigma> as + of_bool (holds \<sigma> ?out))
      = bval \<sigma> (r # rs) + of_bool (holds \<sigma> bk) * bval \<sigma> (a # as) + of_bool (holds \<sigma> c)"
      by (cases "holds \<sigma> bk") (auto simp: algebra_simps)
    finally show ?case by simp
  qed simp_all
qed

lemma take_bit_low_part:
  assumes "0 \<le> x" "x < 2 ^ k" "k \<le> n"
  shows "x + 2 ^ k * take_bit (n - k) y = take_bit n (x + 2 ^ k * (y::int))"
proof -
  have "(x + 2 ^ k * y) mod (2 ^ k * 2 ^ (n - k)) = 2 ^ k * ((x + 2 ^ k * y) div 2 ^ k mod 2 ^ (n - k)) + (x + 2 ^ k * y) mod 2 ^ k"
    by (rule zmod_zmult2_eq) simp
  with assms show ?thesis by (simp add: take_bit_eq_mod flip: power_add)
qed

lemma shiftAddMultiplier_correct:
  assumes "length as = length bs" "0 < length as" "bool_bits U as" "bool_bits U bs"
  shows "length (shiftAddMultiplier as bs) = length as" "bool_bits U (shiftAddMultiplier as bs)"
    "bval \<sigma> (shiftAddMultiplier as bs) = take_bit (length as) (bval \<sigma> as * bval \<sigma> bs)"
proof -
  let ?n = "length as"
  let ?f = "\<lambda>res k. take k res @ multiplier_inner (bs ! k) as (drop k res) mkFalse"
  let ?init = "map (\<lambda>ai. mkAnd_bb (bs ! 0) ai) as"
  let ?g = "\<lambda>k. foldl ?f ?init [1..<k]"
  have init: "bval \<sigma> ?init = of_bool (holds \<sigma> (bs ! 0)) * bval \<sigma> as"
    by (induction as) simp_all
  have step: "length (?g k) = ?n \<and> bool_bits U (?g k) \<and> bval \<sigma> (?g k) = take_bit ?n (bval \<sigma> as * bval \<sigma> (take k bs))"
    if "1 \<le> k" "k \<le> ?n" for k
    using that
  proof (induction k rule: nat_induct_at_least)
    case base
    have "take 1 bs = [bs ! 0]" using assms(1,2) by (cases bs) simp_all
    then show ?case using assms init bool_bits_nth [OF assms(4), of 0] bval_range(3) [of as \<sigma>] by (simp add: bool_bits_iff)
  next
    case (Suc k)
    let ?r = "?g k"
    have IH: "length ?r = ?n" "bool_bits U ?r" "bval \<sigma> ?r = take_bit ?n (bval \<sigma> as * bval \<sigma> (take k bs))"
      and k: "k < ?n" using Suc by simp_all
    have g: "?g (Suc k) = ?f ?r k" using Suc.hyps by simp
    have bk: "bit_in U (bs ! k)" using assms(1,4) k by (simp add: bool_bits_nth)
    have split: "bool_bits U (take k ?r)" "bool_bits U (drop k ?r)" using IH(2) bool_bits_simps(3) [of U "take k ?r" "drop k ?r"] by simp_all
    note inner = multiplier_inner_correct [where rs = "drop k ?r" and as = as and bk = "bs ! k" and c = mkFalse]
    have len: "length (drop k ?r) = ?n - k" using IH(1) by simp
    have "bval \<sigma> (?g (Suc k)) = bval \<sigma> (take k ?r)
        + 2 ^ k * take_bit (?n - k) (bval \<sigma> (drop k ?r) + of_bool (holds \<sigma> (bs ! k)) * bval \<sigma> as)"
      unfolding g using inner(3) [of \<sigma>] IH(1) k by simp
    also have "\<dots> = take_bit ?n (bval \<sigma> (take k ?r)
        + 2 ^ k * (bval \<sigma> (drop k ?r) + of_bool (holds \<sigma> (bs ! k)) * bval \<sigma> as))"
      using take_bit_low_part [of "bval \<sigma> (take k ?r)" k ?n] bval_range(1,2) [of \<sigma> "take k ?r"] IH(1) k by simp
    also have "bval \<sigma> (take k ?r) + 2 ^ k * (bval \<sigma> (drop k ?r) + of_bool (holds \<sigma> (bs ! k)) * bval \<sigma> as)
        = bval \<sigma> ?r + bval \<sigma> as * (2 ^ k * of_bool (holds \<sigma> (bs ! k)))"
      using bval_simps(3) [of \<sigma> "take k ?r" "drop k ?r"] IH(1) k by (simp add: algebra_simps)
    also have "take_bit ?n \<dots> = take_bit ?n (bval \<sigma> as * bval \<sigma> (take (Suc k) bs))"
      unfolding IH(3) using assms(1) k
      by (simp add: take_Suc_conv_app_nth distrib_left take_bit_eq_mod mod_simps)
    finally have v: "bval \<sigma> (?g (Suc k)) = take_bit ?n (bval \<sigma> as * bval \<sigma> (take (Suc k) bs))" .
    have "length (?g (Suc k)) = ?n" "bool_bits U (?g (Suc k))"
      unfolding g using inner(1,2) IH(1) k split bk assms(3) by simp_all
    with v show ?case by simp
  qed
  have "take (length as) bs = bs" using assms(1) by simp
  with step [of ?n] assms(2) show "length (shiftAddMultiplier as bs) = ?n" "bool_bits U (shiftAddMultiplier as bs)"
    "bval \<sigma> (shiftAddMultiplier as bs) = take_bit (length as) (bval \<sigma> as * bval \<sigma> bs)"
    by (simp_all add: shiftAddMultiplier_def)
qed

text \<open>The comparison reads the bits upwards: a higher bit decides, equal higher bits leave the decision to the lower ones.\<close>

lemma uLessThan_loop_correct:
  assumes "length as = length bs" "bool_bits U as" "bool_bits U bs" "bit_in U r"
  shows "bit_in U (uLessThan_loop as bs r)"
    "val_ok \<sigma> \<Longrightarrow> holds \<sigma> (uLessThan_loop as bs r) \<longleftrightarrow> bval \<sigma> as < bval \<sigma> bs \<or> bval \<sigma> as = bval \<sigma> bs \<and> holds \<sigma> r"
proof -
  show "bit_in U (uLessThan_loop as bs r)"
    using assms by (induction as bs arbitrary: r rule: list_induct2) simp_all
  show "holds \<sigma> (uLessThan_loop as bs r) \<longleftrightarrow> bval \<sigma> as < bval \<sigma> bs \<or> bval \<sigma> as = bval \<sigma> bs \<and> holds \<sigma> r" if "val_ok \<sigma>"
    using assms
  proof (induction as bs arbitrary: r rule: list_induct2)
    case (Cons a as b bs)
    then show ?case using that by (cases "holds \<sigma> a"; cases "holds \<sigma> b") auto
  qed simp
qed

lemma uLessThanBB_correct:
  assumes "length as = length bs" "0 < length as" "bool_bits U as" "bool_bits U bs"
  obtains r where "uLessThanBB as bs e = Inr r" "bit_in U r"
    "\<And>\<sigma>. val_ok \<sigma> \<Longrightarrow> holds \<sigma> r \<longleftrightarrow> (if e then bval \<sigma> as \<le> bval \<sigma> bs else bval \<sigma> as < bval \<sigma> bs)"
proof -
  from assms(1,2) obtain a as' b bs' where ab: "as = a # as'" "bs = b # bs'" by (cases as; cases bs) auto
  let ?r = "mkAnd_bb (mkNot_bb a) b"
  let ?q = "if e then mkOr_bb ?r (mkIff_bb a b) else ?r"
  have t: "bit_in U ?q" using assms ab by simp
  have "holds \<sigma> (uLessThan_loop as' bs' ?q) \<longleftrightarrow> (if e then bval \<sigma> as \<le> bval \<sigma> bs else bval \<sigma> as < bval \<sigma> bs)" if "val_ok \<sigma>" for \<sigma>
    using uLessThan_loop_correct(2) [of as' bs' U ?q \<sigma>] assms t that ab by (cases "holds \<sigma> a"; cases "holds \<sigma> b") auto
  moreover have "bit_in U (uLessThan_loop as' bs' ?q)" using uLessThan_loop_correct(1) [of as' bs' U ?q] assms t ab by simp
  ultimately show thesis using that [of "uLessThan_loop as' bs' ?q"] by (simp add: uLessThanBB_def ab)
qed

lemma sval_bits:
  assumes "length bs = Suc n"
  shows "sval (Suc n) (bval \<sigma> bs) = bval \<sigma> (take n bs) - 2 ^ n * of_bool (holds \<sigma> (bs ! n))"
proof -
  have bs: "bs = take n bs @ [bs ! n]" using assms by (metis lessI take_Suc_conv_app_nth take_all le_refl)
  have len: "length (take n bs) = n" using assms by simp
  have v: "bval \<sigma> bs = bval \<sigma> (take n bs) + 2 ^ n * of_bool (holds \<sigma> (bs ! n))"
    by (subst bs) (simp add: assms)
  have low: "take_bit n (bval \<sigma> bs) = bval \<sigma> (take n bs)"
    using bval_range(1,2) [of \<sigma> "take n bs"] unfolding v len by (simp add: take_bit_eq_mod)
  have "bit (bval \<sigma> bs) n = holds \<sigma> (bs ! n)" using assms by (simp add: bit_bval)
  with low show ?thesis by (simp add: sval_def signed_take_bit_eq_take_bit_minus take_bit_Suc_from_most)
qed

lemma sLessThanBB_correct:
  assumes "length as = length bs" "0 < length as" "bool_bits U as" "bool_bits U bs"
  obtains r where "sLessThanBB as bs e = Inr r" "bit_in U r"
    "\<And>\<sigma>. val_ok \<sigma> \<Longrightarrow> holds \<sigma> r \<longleftrightarrow>
      (if e then sem_sle (length as) (bval \<sigma> as) (bval \<sigma> bs) else sem_slt (length as) (bval \<sigma> as) (bval \<sigma> bs))"
proof -
  from assms(2) obtain n where n: "length as = Suc n" by (cases "length as") auto
  have s: "sval (Suc n) (bval \<sigma> as) = bval \<sigma> (take n as) - 2 ^ n * of_bool (holds \<sigma> (as ! n))"
    "sval (Suc n) (bval \<sigma> bs) = bval \<sigma> (take n bs) - 2 ^ n * of_bool (holds \<sigma> (bs ! n))" for \<sigma>
    using sval_bits n assms(1) by simp_all
  have t: "bit_in U (as ! n)" "bit_in U (bs ! n)" "bool_bits U (take n as)" "bool_bits U (take n bs)"
    using assms n by (auto simp: bool_bits_iff dest: in_set_takeD)
  show thesis
  proof (cases "n = 0")
    case True
    let ?r = "if e then mkOr_bb (mkIff_bb (as ! 0) (bs ! 0)) (mkAnd_bb (as ! 0) (mkNot_bb (bs ! 0))) else mkAnd_bb (as ! 0) (mkNot_bb (bs ! 0))"
    have "sval (Suc 0) (bval \<sigma> as) = - of_bool (holds \<sigma> (as ! 0))" "sval (Suc 0) (bval \<sigma> bs) = - of_bool (holds \<sigma> (bs ! 0))" for \<sigma>
      using s [of \<sigma>] True by simp_all
    then show thesis using n True t assms(1)
      by (intro that [of ?r]) (auto simp: sLessThanBB_def sem_sle_def sem_slt_def)
  next
    case False
    obtain u where u: "uLessThanBB (take n as) (take n bs) e = Inr u" "bit_in U u"
      "\<And>\<sigma>. val_ok \<sigma> \<Longrightarrow> holds \<sigma> u \<longleftrightarrow> (if e then bval \<sigma> (take n as) \<le> bval \<sigma> (take n bs) else bval \<sigma> (take n as) < bval \<sigma> (take n bs))"
      using uLessThanBB_correct [of "take n as" "take n bs" U e] n False t assms(1) by auto
    have e: "extractBits as 0 (n - 1) = Inr (take n as)" "extractBits bs 0 (n - 1) = Inr (take n bs)"
      using n False assms(1) by (auto simp: extractBits_def intro!: nth_equalityI)
    have r: "bval \<sigma> (take n as) - 2 ^ n < bval \<sigma> (take n bs)" "bval \<sigma> (take n bs) - 2 ^ n < bval \<sigma> (take n as)" for \<sigma>
    proof -
      have "bval \<sigma> (take n as) < 2 ^ n" "bval \<sigma> (take n bs) < 2 ^ n"
        using bval_range(2) [of \<sigma> "take n as"] bval_range(2) [of \<sigma> "take n bs"] n assms(1) by simp_all
      then show "bval \<sigma> (take n as) - 2 ^ n < bval \<sigma> (take n bs)" "bval \<sigma> (take n bs) - 2 ^ n < bval \<sigma> (take n as)"
        using bval_range(1) [of \<sigma> "take n as"] bval_range(1) [of \<sigma> "take n bs"] by linarith+
    qed
    let ?r = "mkOr_bb (mkAnd_bb (mkIff_bb (as ! n) (bs ! n)) u) (mkAnd_bb (as ! n) (mkNot_bb (bs ! n)))"
    have "holds \<sigma> ?r \<longleftrightarrow> (if e then sem_sle (length as) (bval \<sigma> as) (bval \<sigma> bs) else sem_slt (length as) (bval \<sigma> as) (bval \<sigma> bs))"
      if "val_ok \<sigma>" for \<sigma>
      using u(3) [OF that] that t r [of \<sigma>] n
      by (cases "holds \<sigma> (as ! n)"; cases "holds \<sigma> (bs ! n)") (auto simp: sem_sle_def sem_slt_def s min_def)
    moreover have "sLessThanBB as bs e = Inr ?r" using e u(1) n False assms(1) by (simp add: sLessThanBB_def)
    ultimately show thesis using t u(2) by (intro that [of ?r]) simp_all
  qed
qed

text \<open>Division: below, \<open>A\<close> and \<open>B\<close> are the values of the operands and \<open>2 * (A div 2 mod B) + A mod 2\<close> the remainder before it is
  compared with the divisor. It fits in the width, since the remainder of the halved dividend is at most that half.\<close>

lemma halved_division:
  assumes "0 \<le> (A::int)" "0 < B"
  defines "R \<equiv> 2 * (A div 2 mod B) + A mod 2"
  shows "0 \<le> R" "R \<le> A" "A div B = 2 * (A div 2 div B) + of_bool (B \<le> R)" "A mod B = (if B \<le> R then R - B else R)" "R < 2 * B"
proof -
  have A: "A = B * (2 * (A div 2 div B)) + R"
  proof -
    have "B * (A div 2 div B) + A div 2 mod B = A div 2" "2 * (A div 2) + A mod 2 = A" by (rule mult_div_mod_eq)+
    moreover have "B * (2 * (A div 2 div B)) = 2 * (B * (A div 2 div B))" by simp
    ultimately show ?thesis unfolding R_def by linarith
  qed
  have m: "0 \<le> A div 2 mod B" "A div 2 mod B < B" "A div 2 mod B \<le> A div 2" using assms(1,2) by (simp_all add: zmod_le_nonneg_dividend)
  moreover have "A = 2 * (A div 2) + A mod 2" "0 \<le> A mod 2" "A mod 2 < 2" by simp_all
  ultimately show R: "0 \<le> R" "R < 2 * B" "R \<le> A" unfolding R_def by linarith+
  show "A div B = 2 * (A div 2 div B) + of_bool (B \<le> R)"
    using R assms(2) by (intro int_div_pos_eq [where r = "if B \<le> R then R - B else R"]) (subst A, simp_all add: algebra_simps)
  show "A mod B = (if B \<le> R then R - B else R)"
    using R assms(2) by (intro int_mod_pos_eq [where q = "2 * (A div 2 div B) + of_bool (B \<le> R)"]) (subst A, simp_all add: algebra_simps)
qed

text \<open>Subtraction by an adder: the carry that is left tells whether the difference is negative.\<close>

lemma subtractor:
  assumes "length as = length bs" "bool_bits U as" "bool_bits U bs"
  obtains res out where "rippleCarryAdder as (negateBits bs) mkTrue = Inr (res, out)" "length res = length as" "bool_bits U res"
    "bit_in U out" "\<And>\<sigma>. holds \<sigma> out \<longleftrightarrow> bval \<sigma> bs \<le> bval \<sigma> as"
    "\<And>\<sigma>. bval \<sigma> res = take_bit (length as) (bval \<sigma> as - bval \<sigma> bs)"
proof -
  obtain res out where r: "rippleCarryAdder as (negateBits bs) mkTrue = Inr (res, out)" "length res = length as" "bool_bits U res"
    "bit_in U out"
    "\<And>\<sigma>. bval \<sigma> res + 2 ^ length as * of_bool (holds \<sigma> out) = bval \<sigma> as + bval \<sigma> (negateBits bs) + of_bool (holds \<sigma> mkTrue)"
    using rippleCarryAdder_correct [of as "negateBits bs" U mkTrue, OF _ assms(2) _ gate_types(7)] assms(1,3) by (metis negateBits_correct(1,2))
  have e: "bval \<sigma> res + 2 ^ length as * of_bool (holds \<sigma> out) = bval \<sigma> as - bval \<sigma> bs + 2 ^ length as" for \<sigma>
    using r(5) [of \<sigma>] assms(1) by simp
  have "holds \<sigma> out \<longleftrightarrow> bval \<sigma> bs \<le> bval \<sigma> as" for \<sigma>
    using e [of \<sigma>] bval_range(1,2) [of \<sigma> res] r(2) by (cases "holds \<sigma> out") auto
  moreover have "bval \<sigma> res = take_bit (length as) (bval \<sigma> as - bval \<sigma> bs)" for \<sigma>
  proof -
    have "take_bit (length as) (bval \<sigma> res + 2 ^ length as * of_bool (holds \<sigma> out)) = bval \<sigma> res"
      using bval_range(1,2) [of \<sigma> res] r(2) by (simp add: take_bit_eq_mod)
    then show ?thesis unfolding e by (simp add: take_bit_eq_mod)
  qed
  ultimately show thesis using r that by blast
qed

lemma uDivModRec_correct:
  assumes "length as = length bs" "0 < length bs" "bool_bits U as" "bool_bits U bs"
  shows "\<exists>q r. uDivModRec as bs k = Inr (q, r) \<and> length q = length as \<and> length r = length as \<and> bool_bits U q \<and> bool_bits U r \<and>
    (\<forall>\<sigma>. val_ok \<sigma> \<longrightarrow> 0 < bval \<sigma> bs \<longrightarrow> bval \<sigma> as < 2 ^ k \<longrightarrow> bval \<sigma> q = bval \<sigma> as div bval \<sigma> bs \<and> bval \<sigma> r = bval \<sigma> as mod bval \<sigma> bs)"
  using assms
proof (induction k arbitrary: as)
  case 0
  have "bval \<sigma> as = 0" if "bval \<sigma> as < 1" for \<sigma> using that bval_range(1) [of \<sigma> as] by linarith
  then show ?case by (auto simp: uDivModRec.simps [of as])
next
  case (Suc k)
  show ?case
  proof (cases "isZeroBits as")
    case True
    then show ?thesis using isZeroBits_correct [OF True] by (auto simp: uDivModRec.simps [of as])
  next
    case False
    let ?n = "length as"
    obtain q1 r1 where qr: "uDivModRec (rshift as 1) bs k = Inr (q1, r1)" "length q1 = ?n" "length r1 = ?n" "bool_bits U q1" "bool_bits U r1"
      "\<And>\<sigma>. val_ok \<sigma> \<Longrightarrow> 0 < bval \<sigma> bs \<Longrightarrow> bval \<sigma> as div 2 < 2 ^ k \<Longrightarrow>
        bval \<sigma> q1 = bval \<sigma> as div 2 div bval \<sigma> bs \<and> bval \<sigma> r1 = bval \<sigma> as div 2 mod bval \<sigma> bs"
      using Suc.IH [of "rshift as 1"] Suc.prems rshift_correct [where bs = as and k = 1] by auto
    let ?q1 = "lshift q1 1" and ?r1 = "lshift r1 1"
    let ?odd = "mkIte_bb (mkIff_bb (as ! 0) mkTrue) mkTrue mkFalse"
    have a0: "bit_in U (as ! 0)" using Suc.prems bool_bits_nth [of U as 0] by simp
    have q1: "length ?q1 = ?n" "bool_bits U ?q1" and r1: "length ?r1 = ?n" "bool_bits U ?r1"
      using lshift_correct(1) [of q1 1] lshift_correct(2) [of U q1 1] lshift_correct(1) [of r1 1] lshift_correct(2) [of U r1 1] qr by simp_all
    obtain ra co where ra: "rippleCarryAdder ?r1 (makeZero (length bs)) ?odd = Inr (ra, co)" "length ra = ?n" "bool_bits U ra"
      "\<And>\<sigma>. bval \<sigma> ra = take_bit ?n (bval \<sigma> ?r1 + bval \<sigma> (makeZero (length bs)) + of_bool (holds \<sigma> ?odd))"
      using rippleCarryAdder_correct [of ?r1 "makeZero (length bs)" U ?odd] r1 Suc.prems a0 makeZero_correct gate_types by metis
    obtain rb co1 where rb: "rippleCarryAdder ra (negateBits bs) mkTrue = Inr (rb, co1)" "length rb = ?n" "bool_bits U rb"
      "bit_in U co1" "\<And>\<sigma>. holds \<sigma> co1 \<longleftrightarrow> bval \<sigma> bs \<le> bval \<sigma> ra"
      "\<And>\<sigma>. bval \<sigma> rb = take_bit ?n (bval \<sigma> ra - bval \<sigma> bs)"
      using subtractor [of ra bs U] ra Suc.prems by metis
    obtain ab co2 where ab: "rippleCarryAdder as (negateBits bs) mkTrue = Inr (ab, co2)"
      "bit_in U co2" "\<And>\<sigma>. holds \<sigma> co2 \<longleftrightarrow> bval \<sigma> bs \<le> bval \<sigma> as"
      using subtractor [of as bs U] Suc.prems by metis
    let ?q2 = "?q1[0 := mkIte_bb (mkNot_bb co1) (?q1 ! 0) mkTrue]" and ?r2 = "map2 (mkIte_bb (mkNot_bb co1)) ra rb"
    let ?q = "map (mkIte_bb (mkNot_bb co2) mkFalse) ?q2" and ?r = "map2 (mkIte_bb (mkNot_bb co2)) as ?r2"
    have run: "uDivModRec as bs (Suc k) = Inr (?q, ?r)"
      using False qr(1) ra(1) rb(1) ab(1) by (subst uDivModRec.simps) (simp add: Let_def)
    have q2: "bool_bits U ?q2" using q1 rb(4) Suc.prems bool_bits_nth [of U ?q1 0]
      by (auto simp: bool_bits_iff dest!: set_update_subset_insert [THEN subsetD])
    have r2: "length ?r2 = ?n" "bool_bits U ?r2" using map2_gate [of ra rb, where f = "mkIte_bb (mkNot_bb co1)"] ra rb by simp_all
    have "bool_bits U ?q" using q2 ab(2) by (simp add: bool_bits_iff)
    moreover have "bool_bits U ?r" using map2_gate(2) [of as ?r2 U "mkIte_bb (mkNot_bb co2)"] r2 Suc.prems ab(2) by simp
    moreover have "bval \<sigma> ?q = bval \<sigma> as div bval \<sigma> bs \<and> bval \<sigma> ?r = bval \<sigma> as mod bval \<sigma> bs"
      if \<sigma>: "val_ok \<sigma>" "0 < bval \<sigma> bs" "bval \<sigma> as < 2 ^ Suc k" for \<sigma>
    proof -
      define A B where "A = bval \<sigma> as" and "B = bval \<sigma> bs"
      define R where "R = 2 * (A div 2 mod B) + A mod 2"
      have A: "0 \<le> A" "A < 2 ^ ?n" and B: "0 < B" using bval_range(1,2) [of \<sigma> as] \<sigma> by (simp_all add: A_def B_def)
      note half = halved_division [OF A(1) B, folded R_def]
      have "A div 2 < 2 ^ k" using \<sigma>(3) by (simp add: A_def)
      with qr(6) [OF \<sigma>(1,2)] have v1: "bval \<sigma> q1 = A div 2 div B" "bval \<sigma> r1 = A div 2 mod B" by (simp_all add: A_def B_def)
      have "0 \<le> A div 2 mod B" "0 \<le> A mod 2" "0 \<le> A div 2 div B" "2 * (A div 2 div B) \<le> A div B" "A div B \<le> A"
        using A B half(3) zdiv_mono2 [of A 1 B] by (simp_all add: pos_imp_zdiv_nonneg_iff)
      then have b: "0 \<le> 2 * (A div 2 mod B)" "2 * (A div 2 mod B) < 2 ^ ?n" "0 \<le> 2 * (A div 2 div B)" "2 * (A div 2 div B) < 2 ^ ?n"
        using half(2) A(2) unfolding R_def by linarith+
      have vr1: "bval \<sigma> ?r1 = 2 * (A div 2 mod B)" and vq1: "bval \<sigma> ?q1 = 2 * (A div 2 div B)"
        using b qr(2,3) lshift_correct(3) [of \<sigma> r1 1] lshift_correct(3) [of \<sigma> q1 1]
        by (simp_all add: v1 take_bit_int_eq_self mult.commute)
      have "holds \<sigma> (as ! 0) = odd A" using bit_bval [of \<sigma> as 0] Suc.prems by (simp add: A_def bit_0)
      then have "of_bool (holds \<sigma> ?odd) = A mod 2" using \<sigma>(1) a0 by (simp add: mod2_eq_if)
      then have vra: "bval \<sigma> ra = R" using ra(4) [of \<sigma>] vr1 half(1,2) A(2) by (simp add: R_def take_bit_int_eq_self)
      have vrb: "B \<le> R \<Longrightarrow> bval \<sigma> rb = R - B"
        using rb(6) [of \<sigma>] vra half(2) A B by (simp add: take_bit_int_eq_self flip: B_def)
      obtain q0 qs where q0: "?q1 = q0 # qs" using q1(1) Suc.prems by (cases ?q1) auto
      then have "q0 = mkFalse" using q1(1) qr(2) Suc.prems nth_Cons_0 [of q0 qs] by (simp add: lshift_def flip: q0)
      then have vq2: "bval \<sigma> ?q2 = bval \<sigma> ?q1 + of_bool (B \<le> R)" using q0 rb(5) [of \<sigma>] vra by (simp add: B_def)
      have vr2: "bval \<sigma> ?r2 = (if B \<le> R then R - B else R)"
        using bval_ite [of ra rb \<sigma>] ra(2) rb(2) rb(5) [of \<sigma>] vra vrb by (simp add: B_def)
      have less: "A div B = 0 \<and> A mod B = A" if "\<not> B \<le> A" using that A by simp
      have "bval \<sigma> ?q = (if B \<le> A then bval \<sigma> ?q2 else 0)" "bval \<sigma> ?r = (if B \<le> A then bval \<sigma> ?r2 else A)"
        unfolding bval_ite_const using bval_ite [of as ?r2 \<sigma> "mkNot_bb co2"] r2(1) ab(3) [of \<sigma>] by (simp_all add: A_def B_def)
      then show ?thesis unfolding vq2 vr2 vq1 A_def [symmetric] B_def [symmetric] using half(3,4) less by (auto split: if_splits)
    qed
    ultimately show ?thesis using run q1 r2 by auto
  qed
qed

subsection \<open>Theorems\<close>

text \<open>C38: the adder, the multiplier and the recursive divider compute sum and carry, the product modulo the width, and quotient and
  remainder, whatever formulas the bits are.\<close>

theorem arithmetic_circuits_correct:
  assumes "length as = length bs" "0 < length bs" "bool_bits U as" "bool_bits U bs" "bit_in U c"
  shows "\<exists>sum carry q r. rippleCarryAdder as bs c = Inr (sum, carry) \<and> uDivModRec as bs (length as) = Inr (q, r) \<and>
    (\<forall>\<sigma>. val_ok \<sigma> \<longrightarrow>
      bval \<sigma> sum + 2 ^ length as * of_bool (holds \<sigma> carry) = bval \<sigma> as + bval \<sigma> bs + of_bool (holds \<sigma> c) \<and>
      bval \<sigma> (shiftAddMultiplier as bs) = bval \<sigma> as * bval \<sigma> bs mod 2 ^ length as \<and>
      (bval \<sigma> bs \<noteq> 0 \<longrightarrow> bval \<sigma> q = bval \<sigma> as div bval \<sigma> bs \<and> bval \<sigma> r = bval \<sigma> as mod bval \<sigma> bs))"
proof -
  have p: "0 < length as" using assms(1,2) by simp
  obtain sum carry where s: "rippleCarryAdder as bs c = Inr (sum, carry)"
    "\<And>\<sigma>. bval \<sigma> sum + 2 ^ length as * of_bool (holds \<sigma> carry) = bval \<sigma> as + bval \<sigma> bs + of_bool (holds \<sigma> c)"
    using rippleCarryAdder_correct [OF assms(1,3-5)] by metis
  obtain q r where d: "uDivModRec as bs (length as) = Inr (q, r)"
    "\<And>\<sigma>. val_ok \<sigma> \<Longrightarrow> 0 < bval \<sigma> bs \<Longrightarrow> bval \<sigma> as < 2 ^ length as \<Longrightarrow> bval \<sigma> q = bval \<sigma> as div bval \<sigma> bs \<and> bval \<sigma> r = bval \<sigma> as mod bval \<sigma> bs"
    using uDivModRec_correct [OF assms(1-4), of "length as"] by blast
  have "bval \<sigma> bs \<noteq> 0 \<longrightarrow> bval \<sigma> q = bval \<sigma> as div bval \<sigma> bs \<and> bval \<sigma> r = bval \<sigma> as mod bval \<sigma> bs" if "val_ok \<sigma>" for \<sigma>
    using d(2) [OF that] bval_range(1) [of \<sigma> bs] bval_range(2) [of \<sigma> as] by linarith
  then show ?thesis
    using s d(1) shiftAddMultiplier_correct(3) [OF assms(1) p assms(3,4)] by (simp add: take_bit_eq_mod)
qed

theorem arithmetic_circuits_correct_witness:
  "\<exists>sum carry q r. rippleCarryAdder [Var 1 BooleanType, mkTrue] [mkTrue, mkTrue] mkFalse = Inr (sum, carry) \<and>
    uDivModRec [Var 1 BooleanType, mkTrue] [mkTrue, mkTrue] 2 = Inr (q, r)"
proof -
  have "bit_in UNIV (Var 1 BooleanType)" by (simp add: bit_in_def)
  then have "bool_bits UNIV [Var 1 BooleanType, mkTrue]" "bool_bits UNIV [mkTrue, mkTrue]" "bit_in UNIV mkFalse"
    by (simp_all add: bool_bits_iff)
  from arithmetic_circuits_correct [OF _ _ this] show ?thesis by (auto simp: numeral_2_eq_2)
qed

text \<open>C39: the two comparators decide the unsigned and the signed order of two vectors of the same width, strict or not.\<close>

theorem comparison_circuits_correct:
  assumes "length as = length bs" "0 < length bs" "bool_bits U as" "bool_bits U bs"
  shows "\<exists>u s. uLessThanBB as bs orEqual = Inr u \<and> sLessThanBB as bs orEqual = Inr s \<and>
    (\<forall>\<sigma>. val_ok \<sigma> \<longrightarrow>
      (holds \<sigma> u \<longleftrightarrow> (if orEqual then bval \<sigma> as \<le> bval \<sigma> bs else bval \<sigma> as < bval \<sigma> bs)) \<and>
      (holds \<sigma> s \<longleftrightarrow> (if orEqual then sem_sle else sem_slt) (length as) (bval \<sigma> as) (bval \<sigma> bs)))"
proof -
  have p: "0 < length as" using assms(1,2) by simp
  obtain u where "uLessThanBB as bs orEqual = Inr u"
    "\<And>\<sigma>. val_ok \<sigma> \<Longrightarrow> holds \<sigma> u \<longleftrightarrow> (if orEqual then bval \<sigma> as \<le> bval \<sigma> bs else bval \<sigma> as < bval \<sigma> bs)"
    by (rule uLessThanBB_correct [OF assms(1) p assms(3,4)]) blast
  moreover obtain s where "sLessThanBB as bs orEqual = Inr s"
    "\<And>\<sigma>. val_ok \<sigma> \<Longrightarrow> holds \<sigma> s \<longleftrightarrow> (if orEqual then sem_sle (length as) (bval \<sigma> as) (bval \<sigma> bs) else sem_slt (length as) (bval \<sigma> as) (bval \<sigma> bs))"
    by (rule sLessThanBB_correct [OF assms(1) p assms(3,4)]) blast
  ultimately show ?thesis by (cases orEqual) auto
qed

theorem comparison_circuits_correct_witness:
  "\<exists>u s. uLessThanBB [Var 1 BooleanType, mkTrue] [mkFalse, mkTrue] True = Inr u \<and> sLessThanBB [Var 1 BooleanType, mkTrue] [mkFalse, mkTrue] True = Inr s"
proof -
  have "bit_in UNIV (Var 1 BooleanType)" by (simp add: bit_in_def)
  then have "bool_bits UNIV [Var 1 BooleanType, mkTrue]" "bool_bits UNIV [mkFalse, mkTrue]" by (simp_all add: bool_bits_iff)
  from comparison_circuits_correct [OF _ _ this] show ?thesis by auto
qed

end
