(* ===== verification/Bitblaster.thy ===== *)
theory Bitblaster
  imports Bitblast_Utils "HOL-Library.Log_Nat"
begin

section \<open>The bit-blaster\<close>

text \<open>
  \<open>bitblast_strategies_template.h\<close>, \<open>bitblaster.h\<close> and \<open>eager_bitblaster.cpp\<close>: one strategy per kind, the two dispatch
  tables, and the caches around them. The state holds the term cache, the atoms and variables seen and, for
  \<open>d_cnfStream\<close>, the formulas handed to \<open>convertAndAssert\<close>, the latest first; the conversion to clauses and the SAT solver
  are outside the model.

  A strategy calls the bit-blaster back through its virtual functions; they are the record \<open>TBitblaster\<close>. The shift
  strategies bit-blast a comparison that went through the rewriter, so that the calls do not follow the structure of
  the term: \<open>EagerBitblaster\<close> ties the knot with a bound on the depth of calls, and a run that exceeds it is \<open>None\<close>.
  \<open>Rewriter::rewrite\<close> is the argument \<open>rewrite\<close>.
\<close>

subsection \<open>State and calls\<close>

record bitblaster =
  d_termCache :: "node \<Rightarrow> node list option"
  d_bbAtoms :: "node set"
  d_variables :: "node set"
  d_cnfStream :: "node list"

definition new_bitblaster :: bitblaster where
  "new_bitblaster = \<lparr>d_termCache = (\<lambda>_. None), d_bbAtoms = {}, d_variables = {}, d_cnfStream = []\<rparr>"

text \<open>A computation on a state of type \<open>'s\<close>: \<open>None\<close> when it does not return, an error, or a result and the new state.\<close>

type_synonym ('s, 'a) run = "'s \<Rightarrow> ('a \<times> 's) result option"

type_synonym 'a bb_call = "(bitblaster, 'a) run"

definition bb_return :: "'a \<Rightarrow> ('s, 'a) run" where
  "bb_return x = (\<lambda>s. Some (Inr (x, s)))"

definition bb_bind :: "('s, 'a) run \<Rightarrow> ('a \<Rightarrow> ('s, 'b) run) \<Rightarrow> ('s, 'b) run" where
  "bb_bind m k = (\<lambda>s. case m s of None \<Rightarrow> None | Some (Inl e) \<Rightarrow> Some (Inl e) | Some (Inr (x, s')) \<Rightarrow> k x s')"

definition bb_lift :: "'a result \<Rightarrow> ('s, 'a) run" where
  "bb_lift r = (\<lambda>s. Some (and_then r (\<lambda>x. Inr (x, s))))"

definition bb_assert :: "bool \<Rightarrow> ('s, unit) run" where
  "bb_assert c = bb_lift (Assert c (Inr ()))"

record TBitblaster =
  bbTerm :: "node \<Rightarrow> node list bb_call"
  bbAtom :: "node \<Rightarrow> unit bb_call"

definition hasBBTerm :: "bitblaster \<Rightarrow> node \<Rightarrow> bool" where
  "hasBBTerm s node \<longleftrightarrow> d_termCache s node \<noteq> None"

definition getBBTerm :: "node \<Rightarrow> node list bb_call" where
  "getBBTerm node = (\<lambda>s. bb_bind (bb_assert (hasBBTerm s node)) (\<lambda>_. bb_return (the (d_termCache s node))) s)"

text \<open>\<open>insert\<close> keeps an entry that is there.\<close>

definition storeBBTerm :: "node \<Rightarrow> node list \<Rightarrow> unit bb_call" where
  "storeBBTerm node bits = (\<lambda>s. Some (Inr ((), if hasBBTerm s node then s else s\<lparr>d_termCache := (d_termCache s)(node := Some bits)\<rparr>)))"

definition hasBBAtom :: "bitblaster \<Rightarrow> node \<Rightarrow> bool" where
  "hasBBAtom s atom \<longleftrightarrow> atom \<in> d_bbAtoms s"

definition storeBBAtom :: "node \<Rightarrow> node \<Rightarrow> unit bb_call" where
  "storeBBAtom atom atom_bb = (\<lambda>s. Some (Inr ((), s\<lparr>d_bbAtoms := insert atom (d_bbAtoms s)\<rparr>)))"

definition getBBAtom :: "node \<Rightarrow> node" where
  "getBBAtom node = node"

definition convertAndAssert :: "node \<Rightarrow> unit bb_call" where
  "convertAndAssert f = (\<lambda>s. Some (Inr ((), s\<lparr>d_cnfStream := f # d_cnfStream s\<rparr>)))"

definition makeVariable :: "node \<Rightarrow> node list bb_call" where
  "makeVariable var = (\<lambda>s. Some (Inr (map (mkBitOf var) [0..<getSize var], s\<lparr>d_variables := insert var (d_variables s)\<rparr>)))"

subsection \<open>Strategies for atoms\<close>

text \<open>The two operands.\<close>

definition bb_operands :: "TBitblaster \<Rightarrow> node \<Rightarrow> (node list \<Rightarrow> node list \<Rightarrow> 'a bb_call) \<Rightarrow> 'a bb_call" where
  "bb_operands bb node k = bb_bind (bbTerm bb (child node 0)) (\<lambda>a. bb_bind (bbTerm bb (child node 1)) (\<lambda>b. k a b))"

definition UndefinedAtomBBStrategy :: "node \<Rightarrow> TBitblaster \<Rightarrow> node bb_call" where
  "UndefinedAtomBBStrategy node bb = bb_lift (Inl UnreachableCode)"

definition DefaultEqBB :: "node \<Rightarrow> TBitblaster \<Rightarrow> node bb_call" where
  "DefaultEqBB node bb = bb_bind (bb_assert (getKind node = EQUAL)) (\<lambda>_. bb_operands bb node (\<lambda>lhs rhs.
     bb_bind (bb_assert (length lhs = length rhs)) (\<lambda>_. bb_lift (mkAnd_bbs (map2 mkIff_bb lhs rhs)))))"

definition AdderUltBB :: "node \<Rightarrow> TBitblaster \<Rightarrow> node bb_call" where
  "AdderUltBB node bb = bb_bind (bb_assert (getKind node = BITVECTOR_ULT)) (\<lambda>_. bb_operands bb node (\<lambda>a b.
     bb_bind (bb_assert (length a = length b)) (\<lambda>_.
       let not_b = negateBits b in bb_return (mkNot_bb (snd (adder_loop a not_b mkTrue))))))"

definition DefaultUltBB :: "node \<Rightarrow> TBitblaster \<Rightarrow> node bb_call" where
  "DefaultUltBB node bb = bb_bind (bb_assert (getKind node = BITVECTOR_ULT)) (\<lambda>_. bb_operands bb node (\<lambda>a b.
     bb_bind (bb_assert (length a = length b)) (\<lambda>_. bb_lift (uLessThanBB a b False))))"

definition DefaultUleBB :: "node \<Rightarrow> TBitblaster \<Rightarrow> node bb_call" where
  "DefaultUleBB node bb = bb_bind (bb_assert (getKind node = BITVECTOR_ULE)) (\<lambda>_. bb_operands bb node (\<lambda>a b.
     bb_bind (bb_assert (length a = length b)) (\<lambda>_. bb_lift (uLessThanBB a b True))))"

definition DefaultUgtBB :: "node \<Rightarrow> TBitblaster \<Rightarrow> node bb_call" where
  "DefaultUgtBB node bb = bb_lift (Inl UnimplementedCode)"

definition DefaultUgeBB :: "node \<Rightarrow> TBitblaster \<Rightarrow> node bb_call" where
  "DefaultUgeBB node bb = bb_lift (Inl UnimplementedCode)"

definition DefaultSltBB :: "node \<Rightarrow> TBitblaster \<Rightarrow> node bb_call" where
  "DefaultSltBB node bb = bb_operands bb node (\<lambda>a b.
     bb_bind (bb_assert (length a = length b)) (\<lambda>_. bb_lift (sLessThanBB a b False)))"

definition DefaultSleBB :: "node \<Rightarrow> TBitblaster \<Rightarrow> node bb_call" where
  "DefaultSleBB node bb = bb_operands bb node (\<lambda>a b.
     bb_bind (bb_assert (length a = length b)) (\<lambda>_. bb_lift (sLessThanBB a b True)))"

definition DefaultSgtBB :: "node \<Rightarrow> TBitblaster \<Rightarrow> node bb_call" where
  "DefaultSgtBB node bb = bb_lift (Inl UnimplementedCode)"

definition DefaultSgeBB :: "node \<Rightarrow> TBitblaster \<Rightarrow> node bb_call" where
  "DefaultSgeBB node bb = bb_lift (Inl UnimplementedCode)"

subsection \<open>Strategies for constants, variables and bit-wise operators\<close>

definition UndefinedTermBBStrategy :: "node \<Rightarrow> TBitblaster \<Rightarrow> node list bb_call" where
  "UndefinedTermBBStrategy node bb = bb_lift (Inl UnreachableCode)"

text \<open>What the strategies that are not implemented share.\<close>

definition UnimplementedBB :: "node \<Rightarrow> TBitblaster \<Rightarrow> node list bb_call" where
  "UnimplementedBB node bb = bb_lift (Inl UnimplementedCode)"

definition DefaultVarBB :: "node \<Rightarrow> TBitblaster \<Rightarrow> node list bb_call" where
  "DefaultVarBB node bb = makeVariable node"

fun const_loop :: "BitVector \<Rightarrow> nat list \<Rightarrow> node list result" where
  "const_loop b [] = Inr []"
| "const_loop b (i # is) = and_then (bv_extract b i i) (\<lambda>e.
     let bit = d_value e in
     if bit = 0 then and_then (const_loop b is) (\<lambda>bits. Inr (mkFalse # bits))
     else Assert (bit = 1) (and_then (const_loop b is) (\<lambda>bits. Inr (mkTrue # bits))))"

definition DefaultConstBB :: "node \<Rightarrow> TBitblaster \<Rightarrow> node list bb_call" where
  "DefaultConstBB node bb = bb_bind (bb_assert (getKind node = CONST_BITVECTOR)) (\<lambda>_.
     bb_lift (const_loop (getConstBV node) [0..<getSize node]))"

definition DefaultNotBB :: "node \<Rightarrow> TBitblaster \<Rightarrow> node list bb_call" where
  "DefaultNotBB node bb = bb_bind (bb_assert (getKind node = BITVECTOR_NOT)) (\<lambda>_.
     bb_bind (bbTerm bb (child node 0)) (\<lambda>bv. bb_return (negateBits bv)))"

text \<open>The loop runs from the last child to the first.\<close>

fun concat_loop :: "TBitblaster \<Rightarrow> node list \<Rightarrow> node list \<Rightarrow> node list bb_call" where
  "concat_loop bb [] bits = bb_return bits"
| "concat_loop bb (current # cs) bits = bb_bind (bbTerm bb current) (\<lambda>current_bits.
     concat_loop bb cs (bits @ map ((!) current_bits) [0..<getSize current]))"

definition DefaultConcatBB :: "node \<Rightarrow> TBitblaster \<Rightarrow> node list bb_call" where
  "DefaultConcatBB node bb = bb_bind (bb_assert (getKind node = BITVECTOR_CONCAT)) (\<lambda>_.
     bb_bind (concat_loop bb (rev (children node)) []) (\<lambda>bits.
     bb_bind (bb_assert (length bits = getSize node)) (\<lambda>_. bb_return bits)))"

text \<open>The loop over the further children of an n-ary operator.\<close>

fun nary_loop :: "(node list \<Rightarrow> node list \<Rightarrow> node list result) \<Rightarrow> TBitblaster \<Rightarrow> node list \<Rightarrow> node list \<Rightarrow> node list bb_call" where
  "nary_loop f bb [] bits = bb_return bits"
| "nary_loop f bb (c # cs) bits = bb_bind (bbTerm bb c) (\<lambda>current.
     bb_bind (bb_lift (f bits current)) (\<lambda>bits. nary_loop f bb cs bits))"

definition nary_bb :: "(node list \<Rightarrow> node list \<Rightarrow> node list result) \<Rightarrow> node \<Rightarrow> TBitblaster \<Rightarrow> node list bb_call" where
  "nary_bb f node bb = bb_bind (bbTerm bb (child node 0)) (\<lambda>bits. nary_loop f bb (tl (children node)) bits)"

definition DefaultAndBB :: "node \<Rightarrow> TBitblaster \<Rightarrow> node list bb_call" where
  "DefaultAndBB node bb = bb_bind (bb_assert (getKind node = BITVECTOR_AND)) (\<lambda>_.
     bb_bind (nary_bb (\<lambda>bits current. Inr (map2 mkAnd_bb bits current)) node bb) (\<lambda>bits.
     bb_bind (bb_assert (length bits = getSize node)) (\<lambda>_. bb_return bits)))"

definition DefaultOrBB :: "node \<Rightarrow> TBitblaster \<Rightarrow> node list bb_call" where
  "DefaultOrBB node bb = bb_bind (bb_assert (getKind node = BITVECTOR_OR)) (\<lambda>_.
     bb_bind (nary_bb (\<lambda>bits current. Inr (map2 mkOr_bb bits current)) node bb) (\<lambda>bits.
     bb_bind (bb_assert (length bits = getSize node)) (\<lambda>_. bb_return bits)))"

definition DefaultXorBB :: "node \<Rightarrow> TBitblaster \<Rightarrow> node list bb_call" where
  "DefaultXorBB node bb = bb_bind (bb_assert (getKind node = BITVECTOR_XOR)) (\<lambda>_.
     bb_bind (nary_bb (\<lambda>bits current. Inr (map2 mkXor_bb bits current)) node bb) (\<lambda>bits.
     bb_bind (bb_assert (length bits = getSize node)) (\<lambda>_. bb_return bits)))"

definition DefaultXnorBB :: "node \<Rightarrow> TBitblaster \<Rightarrow> node list bb_call" where
  "DefaultXnorBB node bb = bb_bind (bb_assert (getNumChildren node = 2 \<and> getKind node = BITVECTOR_XNOR)) (\<lambda>_.
     bb_operands bb node (\<lambda>lhs rhs. bb_bind (bb_assert (length lhs = length rhs)) (\<lambda>_. bb_return (map2 mkIff_bb lhs rhs))))"

definition DefaultCompBB :: "node \<Rightarrow> TBitblaster \<Rightarrow> node list bb_call" where
  "DefaultCompBB node bb = bb_bind (bb_assert (getSize node = 1 \<and> getKind node = BITVECTOR_COMP)) (\<lambda>_.
     bb_operands bb node (\<lambda>a b. bb_bind (bb_lift (mkAnd_bbs (map2 mkIff_bb a b))) (\<lambda>a_eq_b. bb_return [a_eq_b])))"

subsection \<open>Strategies for arithmetic\<close>

definition DefaultMultBB :: "node \<Rightarrow> TBitblaster \<Rightarrow> node list bb_call" where
  "DefaultMultBB node bb = bb_bind (bb_assert (getKind node = BITVECTOR_MULT)) (\<lambda>_.
     nary_bb (\<lambda>res current. Inr (shiftAddMultiplier res current)) node bb)"

definition DefaultPlusBB :: "node \<Rightarrow> TBitblaster \<Rightarrow> node list bb_call" where
  "DefaultPlusBB node bb = bb_bind (bb_assert (getKind node = BITVECTOR_PLUS)) (\<lambda>_.
     bb_bind (nary_bb (\<lambda>res current. and_then (rippleCarryAdder res current mkFalse) (\<lambda>(newres, _). Inr newres)) node bb) (\<lambda>res.
     bb_bind (bb_assert (length res = getSize node)) (\<lambda>_. bb_return res)))"

definition DefaultSubBB :: "node \<Rightarrow> TBitblaster \<Rightarrow> node list bb_call" where
  "DefaultSubBB node bb = bb_bind (bb_assert (getKind node = BITVECTOR_SUB \<and> getNumChildren node = 2)) (\<lambda>_.
     bb_operands bb node (\<lambda>a b. bb_bind (bb_assert (length a = length b \<and> getSize node = length a)) (\<lambda>_.
       bb_lift (and_then (rippleCarryAdder a (negateBits b) mkTrue) (\<lambda>(bits, _). Inr bits)))))"

definition DefaultNegBB :: "node \<Rightarrow> TBitblaster \<Rightarrow> node list bb_call" where
  "DefaultNegBB node bb = bb_bind (bb_assert (getKind node = BITVECTOR_NEG)) (\<lambda>_.
     bb_bind (bbTerm bb (child node 0)) (\<lambda>a. bb_bind (bb_assert (getSize node = length a)) (\<lambda>_.
       bb_lift (and_then (rippleCarryAdder (negateBits a) (makeZero (getSize node)) mkTrue) (\<lambda>(bits, _). Inr bits)))))"

text \<open>Both division strategies compute the quotient and the remainder, with the values for a zero divisor.\<close>

definition divide_bb :: "node \<Rightarrow> TBitblaster \<Rightarrow> (node list \<times> node list) bb_call" where
  "divide_bb node bb = bb_operands bb node (\<lambda>a b.
     bb_bind (bb_lift (uDivModRec a b (getSize node))) (\<lambda>(q, r).
     bb_bind (bb_lift (mkAnd_bbs (map (\<lambda>bi. mkIff_bb bi mkFalse) b))) (\<lambda>b_is_0.
     bb_return (map (mkIte_bb b_is_0 mkTrue) q, map2 (mkIte_bb b_is_0) a r))))"

definition DefaultUdivBB :: "(node \<Rightarrow> node) \<Rightarrow> node \<Rightarrow> TBitblaster \<Rightarrow> node list bb_call" where
  "DefaultUdivBB rewrite node bb = bb_bind (bb_assert (getKind node = BITVECTOR_UDIV_TOTAL)) (\<lambda>_.
     bb_bind (divide_bb node bb) (\<lambda>(q, r).
       let remainder = rewrite (App BITVECTOR_UREM_TOTAL [child node 0, child node 1])
       in bb_bind (storeBBTerm remainder r) (\<lambda>_. bb_return q)))"

definition DefaultUremBB :: "(node \<Rightarrow> node) \<Rightarrow> node \<Rightarrow> TBitblaster \<Rightarrow> node list bb_call" where
  "DefaultUremBB rewrite node bb = bb_bind (bb_assert (getKind node = BITVECTOR_UREM_TOTAL)) (\<lambda>_.
     bb_bind (divide_bb node bb) (\<lambda>(q, rem).
       let quotient = rewrite (App BITVECTOR_UDIV_TOTAL [child node 0, child node 1])
       in bb_bind (storeBBTerm quotient q) (\<lambda>_. bb_return rem)))"

subsection \<open>Strategies for shifts\<close>

text \<open>\<open>std::ceil(log2((double)size))\<close>; widths are below \<open>2 ^ 31\<close>, where the floating-point result is exact.\<close>

definition log2_size :: "nat \<Rightarrow> nat" where
  "log2_size w = ceillog2 w"

text \<open>The comparison of the amount with the width.\<close>

definition b_ult_a_size_node :: "(node \<Rightarrow> node) \<Rightarrow> node \<Rightarrow> node" where
  "b_ult_a_size_node rewrite node = rewrite (App BITVECTOR_ULT [child node 1, mkConst (getSize node) (int (getSize node))])"

text \<open>One stage of a barrel shifter, to the left and to the right; \<open>fill\<close> comes in from above.\<close>

definition shl_stage :: "node \<Rightarrow> nat \<Rightarrow> node list \<Rightarrow> node list" where
  "shl_stage b_s threshold prev_res = map (\<lambda>i.
     if i < threshold then mkIte_bb b_s mkFalse (prev_res ! i)
     else mkIte_bb b_s (prev_res ! (i - threshold)) (prev_res ! i)) [0..<length prev_res]"

definition shr_stage :: "node \<Rightarrow> node \<Rightarrow> nat \<Rightarrow> node list \<Rightarrow> node list" where
  "shr_stage fill b_s threshold prev_res = map (\<lambda>i.
     if length prev_res \<le> i + threshold then mkIte_bb b_s fill (prev_res ! i)
     else mkIte_bb (mkNot_bb b_s) (prev_res ! i) (prev_res ! (i + threshold))) [0..<length prev_res]"

text \<open>The operands, the guard and the stages, with the last step that looks at the guard.\<close>

definition shift_bb :: "(node \<Rightarrow> node) \<Rightarrow> (node list \<Rightarrow> node) \<Rightarrow> (node list \<Rightarrow> node \<Rightarrow> nat \<Rightarrow> node list \<Rightarrow> node list) \<Rightarrow> node \<Rightarrow> TBitblaster
    \<Rightarrow> node list bb_call" where
  "shift_bb rewrite fill stage node bb = bb_operands bb node (\<lambda>a b.
     let w = getSize node; guard = b_ult_a_size_node rewrite node
     in bb_bind (bbAtom bb guard) (\<lambda>_.
       let b_ult_a_size = getBBAtom guard;
           res = foldl (\<lambda>res s. stage a (b ! s) (2 ^ s) res) a [0..<log2_size w]
       in bb_return (map (\<lambda>i. mkIte_bb b_ult_a_size (res ! i) (fill a)) [0..<length b])))"

definition DefaultShlBB :: "(node \<Rightarrow> node) \<Rightarrow> node \<Rightarrow> TBitblaster \<Rightarrow> node list bb_call" where
  "DefaultShlBB rewrite node bb = bb_bind (bb_assert (getKind node = BITVECTOR_SHL)) (\<lambda>_.
     shift_bb rewrite (\<lambda>a. mkFalse) (\<lambda>a. shl_stage) node bb)"

definition DefaultLshrBB :: "(node \<Rightarrow> node) \<Rightarrow> node \<Rightarrow> TBitblaster \<Rightarrow> node list bb_call" where
  "DefaultLshrBB rewrite node bb = bb_bind (bb_assert (getKind node = BITVECTOR_LSHR)) (\<lambda>_.
     shift_bb rewrite (\<lambda>a. mkFalse) (\<lambda>a. shr_stage mkFalse) node bb)"

definition DefaultAshrBB :: "(node \<Rightarrow> node) \<Rightarrow> node \<Rightarrow> TBitblaster \<Rightarrow> node list bb_call" where
  "DefaultAshrBB rewrite node bb = bb_bind (bb_assert (getKind node = BITVECTOR_ASHR)) (\<lambda>_.
     shift_bb rewrite last (\<lambda>a. shr_stage (last a)) node bb)"

subsection \<open>Strategies for comparisons as bit-vectors, conditionals, extraction and extension\<close>

definition DefaultUltbvBB :: "node \<Rightarrow> TBitblaster \<Rightarrow> node list bb_call" where
  "DefaultUltbvBB node bb = bb_bind (bb_assert (getKind node = BITVECTOR_ULTBV)) (\<lambda>_. bb_operands bb node (\<lambda>a b.
     bb_bind (bb_assert (length a = length b)) (\<lambda>_. bb_lift (and_then (uLessThanBB a b False) (\<lambda>r. Inr [r])))))"

definition DefaultSltbvBB :: "node \<Rightarrow> TBitblaster \<Rightarrow> node list bb_call" where
  "DefaultSltbvBB node bb = bb_bind (bb_assert (getKind node = BITVECTOR_SLTBV)) (\<lambda>_. bb_operands bb node (\<lambda>a b.
     bb_bind (bb_assert (length a = length b)) (\<lambda>_. bb_lift (and_then (sLessThanBB a b False) (\<lambda>r. Inr [r])))))"

definition DefaultIteBB :: "node \<Rightarrow> TBitblaster \<Rightarrow> node list bb_call" where
  "DefaultIteBB node bb = bb_bind (bb_assert (getKind node = BITVECTOR_ITE)) (\<lambda>_.
     bb_bind (bbTerm bb (child node 0)) (\<lambda>cond. bb_bind (bbTerm bb (child node 1)) (\<lambda>thenpart.
     bb_bind (bbTerm bb (child node 2)) (\<lambda>elsepart.
     bb_bind (bb_assert (length cond = 1)) (\<lambda>_. bb_bind (bb_assert (length thenpart = length elsepart)) (\<lambda>_.
     bb_return (map2 (\<lambda>t e. mkAnd_bb (mkOr_bb (mkNot_bb (cond ! 0)) t) (mkOr_bb (cond ! 0) e)) thenpart elsepart)))))))"

definition DefaultExtractBB :: "node \<Rightarrow> TBitblaster \<Rightarrow> node list bb_call" where
  "DefaultExtractBB node bb = bb_bind (bb_assert (is_EXTRACT (getKind node))) (\<lambda>_.
     bb_bind (bbTerm bb (child node 0)) (\<lambda>base_bits.
       let high = getExtractHigh node; low = getExtractLow node; bits = map ((!) base_bits) [low..<Suc high]
       in bb_bind (bb_assert (length bits = high - low + 1)) (\<lambda>_. bb_return bits)))"

definition DefaultSignExtendBB :: "node \<Rightarrow> TBitblaster \<Rightarrow> node list bb_call" where
  "DefaultSignExtendBB node bb = bb_bind (bb_assert (is_SIGN_EXTEND (getKind node))) (\<lambda>_.
     bb_bind (bbTerm bb (child node 0)) (\<lambda>bits.
       let sign_bit = last bits; amount = d_signExtendAmount (getKind node); res_bits = bits @ replicate amount sign_bit
       in bb_bind (bb_assert (length res_bits = amount + length bits)) (\<lambda>_. bb_return res_bits)))"

subsection \<open>The tables\<close>

definition d_atomBBStrategies :: "kind \<Rightarrow> node \<Rightarrow> TBitblaster \<Rightarrow> node bb_call" where
  "d_atomBBStrategies k = (case k of
       EQUAL \<Rightarrow> DefaultEqBB | BITVECTOR_ULT \<Rightarrow> DefaultUltBB | BITVECTOR_ULE \<Rightarrow> DefaultUleBB
     | BITVECTOR_UGT \<Rightarrow> DefaultUgtBB | BITVECTOR_UGE \<Rightarrow> DefaultUgeBB
     | BITVECTOR_SLT \<Rightarrow> DefaultSltBB | BITVECTOR_SLE \<Rightarrow> DefaultSleBB
     | BITVECTOR_SGT \<Rightarrow> DefaultSgtBB | BITVECTOR_SGE \<Rightarrow> DefaultSgeBB
     | _ \<Rightarrow> UndefinedAtomBBStrategy)"

definition d_termBBStrategies :: "(node \<Rightarrow> node) \<Rightarrow> kind \<Rightarrow> node \<Rightarrow> TBitblaster \<Rightarrow> node list bb_call" where
  "d_termBBStrategies rewrite k = (case k of
       CONST_BITVECTOR \<Rightarrow> DefaultConstBB | BITVECTOR_NOT \<Rightarrow> DefaultNotBB | BITVECTOR_CONCAT \<Rightarrow> DefaultConcatBB
     | BITVECTOR_AND \<Rightarrow> DefaultAndBB | BITVECTOR_OR \<Rightarrow> DefaultOrBB | BITVECTOR_XOR \<Rightarrow> DefaultXorBB
     | BITVECTOR_XNOR \<Rightarrow> DefaultXnorBB | BITVECTOR_NAND \<Rightarrow> UnimplementedBB | BITVECTOR_NOR \<Rightarrow> UnimplementedBB
     | BITVECTOR_COMP \<Rightarrow> DefaultCompBB | BITVECTOR_MULT \<Rightarrow> DefaultMultBB | BITVECTOR_PLUS \<Rightarrow> DefaultPlusBB
     | BITVECTOR_SUB \<Rightarrow> DefaultSubBB | BITVECTOR_NEG \<Rightarrow> DefaultNegBB
     | BITVECTOR_UDIV \<Rightarrow> UndefinedTermBBStrategy | BITVECTOR_UREM \<Rightarrow> UndefinedTermBBStrategy
     | BITVECTOR_UDIV_TOTAL \<Rightarrow> DefaultUdivBB rewrite | BITVECTOR_UREM_TOTAL \<Rightarrow> DefaultUremBB rewrite
     | BITVECTOR_SDIV \<Rightarrow> UndefinedTermBBStrategy | BITVECTOR_SREM \<Rightarrow> UndefinedTermBBStrategy
     | BITVECTOR_SMOD \<Rightarrow> UndefinedTermBBStrategy
     | BITVECTOR_SHL \<Rightarrow> DefaultShlBB rewrite | BITVECTOR_LSHR \<Rightarrow> DefaultLshrBB rewrite | BITVECTOR_ASHR \<Rightarrow> DefaultAshrBB rewrite
     | BITVECTOR_ULTBV \<Rightarrow> DefaultUltbvBB | BITVECTOR_SLTBV \<Rightarrow> DefaultSltbvBB | BITVECTOR_ITE \<Rightarrow> DefaultIteBB
     | BITVECTOR_EXTRACT high low \<Rightarrow> DefaultExtractBB | BITVECTOR_REPEAT i \<Rightarrow> UnimplementedBB
     | BITVECTOR_ZERO_EXTEND i \<Rightarrow> UnimplementedBB | BITVECTOR_SIGN_EXTEND i \<Rightarrow> DefaultSignExtendBB
     | BITVECTOR_ROTATE_RIGHT i \<Rightarrow> UnimplementedBB | BITVECTOR_ROTATE_LEFT i \<Rightarrow> UnimplementedBB
     | _ \<Rightarrow> DefaultVarBB)"

subsection \<open>The eager bit-blaster\<close>

definition Eager_bbTerm :: "(node \<Rightarrow> node) \<Rightarrow> TBitblaster \<Rightarrow> node \<Rightarrow> node list bb_call" where
  "Eager_bbTerm rewrite bb node = bb_bind (bb_assert (is_bv node)) (\<lambda>_ s.
     if hasBBTerm s node then getBBTerm node s
     else bb_bind (d_termBBStrategies rewrite (getKind node) node bb) (\<lambda>bits.
       bb_bind (bb_assert (length bits = getSize node)) (\<lambda>_.
       bb_bind (storeBBTerm node bits) (\<lambda>_. bb_return bits))) s)"

definition Eager_bbAtom :: "(node \<Rightarrow> node) \<Rightarrow> TBitblaster \<Rightarrow> node \<Rightarrow> unit bb_call" where
  "Eager_bbAtom rewrite bb node = (\<lambda>s.
     let node = (if getKind node = NOT_K then child node 0 else node) in
     if is_BITOF (getKind node) \<or> getKind node = CONST_BOOLEAN \<or> hasBBAtom s node then Some (Inr ((), s))
     else
       let normalized = rewrite node in
       bb_bind (if getKind normalized \<noteq> CONST_BOOLEAN then d_atomBBStrategies (getKind normalized) normalized bb
           else bb_return normalized) (\<lambda>atom_bb.
         let atom_bb = rewrite atom_bb; atom_definition = App EQUAL [node, atom_bb]
         in bb_bind (storeBBAtom node atom_bb) (\<lambda>_. convertAndAssert atom_definition)) s)"

fun EagerBitblaster :: "(node \<Rightarrow> node) \<Rightarrow> nat \<Rightarrow> TBitblaster" where
  "EagerBitblaster rewrite 0 = \<lparr>bbTerm = (\<lambda>_ _. None), bbAtom = (\<lambda>_ _. None)\<rparr>"
| "EagerBitblaster rewrite (Suc depth) =
     (let bb = EagerBitblaster rewrite depth in \<lparr>bbTerm = Eager_bbTerm rewrite bb, bbAtom = Eager_bbAtom rewrite bb\<rparr>)"

text \<open>The CNF stream announces the atoms of a formula to the registrar, one by one; then the formula is asserted, or, at inner
  levels of incremental solving, only given a literal.\<close>

definition preRegister :: "TBitblaster \<Rightarrow> node \<Rightarrow> unit bb_call" where
  "preRegister bb n = bbAtom bb n"

fun preRegister_all :: "TBitblaster \<Rightarrow> node list \<Rightarrow> unit bb_call" where
  "preRegister_all bb [] = bb_return ()"
| "preRegister_all bb (n # ns) = bb_bind (preRegister bb n) (\<lambda>_. preRegister_all bb ns)"

definition bbFormula :: "bool \<Rightarrow> nat \<Rightarrow> node \<Rightarrow> unit bb_call" where
  "bbFormula incrementalSolving level node =
     (if incrementalSolving \<and> 1 < level then bb_return () else convertAndAssert node)"

text \<open>The value that a model of the SAT solver gives to a term; \<open>bit_value\<close> is \<open>None\<close> for a bit without a literal.\<close>

fun model_loop :: "(node \<Rightarrow> bool option) \<Rightarrow> bool \<Rightarrow> node list \<Rightarrow> int \<Rightarrow> int option" where
  "model_loop bit_value fullModel [] value = Some value"
| "model_loop bit_value fullModel (b # bits) value = (case bit_value b of
     Some v \<Rightarrow> model_loop bit_value fullModel bits (value * 2 + (if v then 1 else 0))
   | None \<Rightarrow> if \<not> fullModel then None else model_loop bit_value fullModel bits (value * 2 + 0))"

definition getModelFromSatSolver :: "(node \<Rightarrow> bool option) \<Rightarrow> bitblaster \<Rightarrow> node \<Rightarrow> bool \<Rightarrow> node option" where
  "getModelFromSatSolver bit_value s a fullModel = (case d_termCache s a of
     None \<Rightarrow> if fullModel then Some (mkConst (getSize a) 0) else None
   | Some bits \<Rightarrow> (case model_loop bit_value fullModel (rev bits) 0 of
       None \<Rightarrow> None | Some value \<Rightarrow> Some (mkConst (length bits) value)))"

end
