(* ===== verification/Cnf_Stream.thy ===== *)
theory Cnf_Stream
  imports Bitblaster
begin

section \<open>The conversion to clauses\<close>

text \<open>
  \<open>prop/cnf_stream.cpp\<close>, with the literals of \<open>prop/sat_solver_types.h\<close>: a formula is turned into clauses with a fresh
  variable for each connective, and asserted formulas are split before. The state holds the two maps between nodes and literals, the
  Boolean variables, and, for \<open>d_satSolver\<close>, the number of variables and the clauses received, the latest first; its first two
  variables are the constants, as \<open>Minisat::Solver\<close> makes them. The identifiers of clauses, proofs and dumps are left out.

  The registrar is an object with one virtual function, \<open>preRegister\<close>, which may call the stream back. It is a field of the
  environment that works on the state of the stream, in which \<open>d_registrar\<close> holds the state of the registrar itself.

  A function that recurses on the children of a node hands the conversions of the children to the handler of its kind.
\<close>

subsection \<open>Literals and the solver\<close>

record SatLiteral =
  l_value :: nat

definition mkLiteral :: "nat \<Rightarrow> bool \<Rightarrow> SatLiteral" where
  "mkLiteral var negated = \<lparr>l_value = var + var + (if negated then 1 else 0)\<rparr>"

definition getSatVariable :: "SatLiteral \<Rightarrow> nat" where
  "getSatVariable l = l_value l div 2"

definition isNegated :: "SatLiteral \<Rightarrow> bool" where
  "isNegated l \<longleftrightarrow> odd (l_value l)"

definition lit_not :: "SatLiteral \<Rightarrow> SatLiteral" where
  "lit_not l = mkLiteral (getSatVariable l) (\<not> isNegated l)"

type_synonym SatClause = "SatLiteral list"

record SatSolver =
  d_numVars :: nat
  d_clauses :: "SatClause list"

definition trueVar :: nat where
  "trueVar = 0"

definition falseVar :: nat where
  "falseVar = 1"

definition new_solver :: SatSolver where
  "new_solver = \<lparr>d_numVars = 2, d_clauses = [[mkLiteral falseVar True], [mkLiteral trueVar False]]\<rparr>"

subsection \<open>The state\<close>

record 'r CnfStream =
  d_satSolver :: SatSolver
  d_booleanVariables :: "node list"
  d_nodeToLiteralMap :: "node \<Rightarrow> SatLiteral option"
  d_literalToNodeMap :: "SatLiteral \<Rightarrow> node option"
  d_removable :: bool
  d_registrar :: 'r

record 'r cnf_env =
  d_fullLitToNodeMap :: bool
  registrar :: "node \<Rightarrow> ('r CnfStream, unit) run"

type_synonym ('r, 'a) cnf_call = "('r CnfStream, 'a) run"

definition new_CnfStream :: "'r \<Rightarrow> 'r CnfStream" where
  "new_CnfStream r = \<lparr>d_satSolver = new_solver, d_booleanVariables = [], d_nodeToLiteralMap = (\<lambda>_. None),
     d_literalToNodeMap = (\<lambda>_. None), d_removable = False, d_registrar = r\<rparr>"

definition newVar :: "('r, nat) cnf_call" where
  "newVar = (\<lambda>s. let v = d_numVars (d_satSolver s)
     in Some (Inr (v, s\<lparr>d_satSolver := (d_satSolver s)\<lparr>d_numVars := Suc v\<rparr>\<rparr>)))"

definition assertClause :: "SatClause \<Rightarrow> ('r, unit) cnf_call" where
  "assertClause c = (\<lambda>s. Some (Inr ((),
     s\<lparr>d_satSolver := (d_satSolver s)\<lparr>d_clauses := c # d_clauses (d_satSolver s)\<rparr>\<rparr>)))"

fun assertClauses :: "SatClause list \<Rightarrow> ('r, unit) cnf_call" where
  "assertClauses [] = bb_return ()"
| "assertClauses (c # cs) = bb_bind (assertClause c) (\<lambda>_. assertClauses cs)"

definition hasLiteral :: "'r CnfStream \<Rightarrow> node \<Rightarrow> bool" where
  "hasLiteral s n \<longleftrightarrow> d_nodeToLiteralMap s n \<noteq> None"

definition getLiteral :: "node \<Rightarrow> ('r, SatLiteral) cnf_call" where
  "getLiteral n = (\<lambda>s. bb_bind (bb_assert (hasLiteral s n)) (\<lambda>_. bb_return (the (d_nodeToLiteralMap s n))) s)"

text \<open>\<open>insert\<close> of the insert-only map asserts that the key is new; \<open>insert_safe\<close> keeps an entry that is there.\<close>

definition insertLiteral :: "node \<Rightarrow> SatLiteral \<Rightarrow> ('r, unit) cnf_call" where
  "insertLiteral n lit = (\<lambda>s. bb_bind (bb_assert (\<not> hasLiteral s n)) (\<lambda>_ s.
     Some (Inr ((), s\<lparr>d_nodeToLiteralMap := (d_nodeToLiteralMap s)(n := Some lit)\<rparr>))) s)"

definition insertNode_safe :: "SatLiteral \<Rightarrow> node \<Rightarrow> ('r, unit) cnf_call" where
  "insertNode_safe lit n = (\<lambda>s. Some (Inr ((), if d_literalToNodeMap s lit = None
     then s\<lparr>d_literalToNodeMap := (d_literalToNodeMap s)(lit := Some n)\<rparr> else s)))"

definition insertNode :: "SatLiteral \<Rightarrow> node \<Rightarrow> ('r, unit) cnf_call" where
  "insertNode lit n = (\<lambda>s. bb_bind (bb_assert (d_literalToNodeMap s lit = None)) (\<lambda>_ s.
     Some (Inr ((), s\<lparr>d_literalToNodeMap := (d_literalToNodeMap s)(lit := Some n)\<rparr>))) s)"

subsection \<open>Atoms\<close>

definition notNode :: "node \<Rightarrow> node" where
  "notNode n = App NOT_K [n]"

definition freshLiteral :: "node \<Rightarrow> ('r, SatLiteral) cnf_call" where
  "freshLiteral node =
     bb_bind (case node of
         ConstBool b \<Rightarrow> bb_return (mkLiteral (if b then trueVar else falseVar) False)
       | _ \<Rightarrow> bb_bind newVar (\<lambda>v. bb_return (mkLiteral v False))) (\<lambda>lit.
     bb_bind (insertLiteral node lit) (\<lambda>_. bb_bind (insertLiteral (notNode node) (lit_not lit)) (\<lambda>_. bb_return lit)))"

definition backMap :: "node \<Rightarrow> SatLiteral \<Rightarrow> ('r, unit) cnf_call" where
  "backMap node lit = bb_bind (insertNode_safe lit node) (\<lambda>_. insertNode_safe (lit_not lit) (notNode node))"

definition call_registrar :: "'r cnf_env \<Rightarrow> node \<Rightarrow> ('r, unit) cnf_call" where
  "call_registrar env node = (\<lambda>s. let backupRemovable = d_removable s
     in bb_bind (registrar env node) (\<lambda>_ s. Some (Inr ((), s\<lparr>d_removable := backupRemovable\<rparr>))) s)"

definition newLiteral :: "'r cnf_env \<Rightarrow> node \<Rightarrow> bool \<Rightarrow> bool \<Rightarrow> ('r, SatLiteral) cnf_call" where
  "newLiteral env node isTheoryAtom preReg =
     bb_bind (bb_assert (getKind node \<noteq> NOT_K)) (\<lambda>_.
     bb_bind (\<lambda>s. if \<not> hasLiteral s node then freshLiteral node s else getLiteral node s) (\<lambda>lit.
     bb_bind (if isTheoryAtom \<or> d_fullLitToNodeMap env then backMap node lit else bb_return ()) (\<lambda>_.
     bb_bind (if preReg then call_registrar env node else bb_return ()) (\<lambda>_. bb_return lit))))"

definition addBooleanVariable :: "node \<Rightarrow> ('r, unit) cnf_call" where
  "addBooleanVariable node = (\<lambda>s. Some (Inr ((), s\<lparr>d_booleanVariables := d_booleanVariables s @ [node]\<rparr>)))"

definition convertAtom :: "'r cnf_env \<Rightarrow> node \<Rightarrow> bool \<Rightarrow> ('r, SatLiteral) cnf_call" where
  "convertAtom env node noPreregistration = (\<lambda>s.
     bb_bind (bb_assert (\<not> hasLiteral s node)) (\<lambda>_.
       if isVar node then bb_bind (addBooleanVariable node) (\<lambda>_. newLiteral env node False False)
       else newLiteral env node True (\<not> noPreregistration)) s)"

subsection \<open>Connectives\<close>

type_synonym 'r conversion = "bool \<Rightarrow> ('r, SatLiteral) cnf_call"

fun run_all :: "('r, 'a) cnf_call list \<Rightarrow> ('r, 'a list) cnf_call" where
  "run_all [] = bb_return []"
| "run_all (m # ms) = bb_bind m (\<lambda>x. bb_bind (run_all ms) (\<lambda>xs. bb_return (x # xs)))"

text \<open>The assertions of the handlers: the node has no literal, the kind and the number of children fit, the clauses stay.\<close>

definition handler_asserts :: "node \<Rightarrow> kind \<Rightarrow> bool \<Rightarrow> ('r, unit) cnf_call" where
  "handler_asserts node k arity = (\<lambda>s. bb_assert (\<not> hasLiteral s node \<and> getKind node = k \<and> arity \<and> \<not> d_removable s) s)"

definition handleXor :: "'r cnf_env \<Rightarrow> node \<Rightarrow> 'r conversion list \<Rightarrow> ('r, SatLiteral) cnf_call" where
  "handleXor env xorNode cs =
     bb_bind (handler_asserts xorNode XOR_K (getNumChildren xorNode = 2)) (\<lambda>_.
     bb_bind ((cs ! 0) False) (\<lambda>a. bb_bind ((cs ! 1) False) (\<lambda>b.
     bb_bind (newLiteral env xorNode False False) (\<lambda>xorLit.
     bb_bind (assertClauses [[a, b, lit_not xorLit], [lit_not a, lit_not b, lit_not xorLit], [a, lit_not b, xorLit], [lit_not a, b, xorLit]]) (\<lambda>_.
     bb_return xorLit)))))"

definition handleOr :: "'r cnf_env \<Rightarrow> node \<Rightarrow> 'r conversion list \<Rightarrow> ('r, SatLiteral) cnf_call" where
  "handleOr env orNode cs =
     bb_bind (handler_asserts orNode OR_K (1 < getNumChildren orNode)) (\<lambda>_.
     bb_bind (run_all (map (\<lambda>c. c False) cs)) (\<lambda>clause.
     bb_bind (newLiteral env orNode False False) (\<lambda>orLit.
     bb_bind (assertClauses (map (\<lambda>l. [orLit, lit_not l]) clause)) (\<lambda>_.
     bb_bind (assertClause (clause @ [lit_not orLit])) (\<lambda>_. bb_return orLit)))))"

definition handleAnd :: "'r cnf_env \<Rightarrow> node \<Rightarrow> 'r conversion list \<Rightarrow> ('r, SatLiteral) cnf_call" where
  "handleAnd env andNode cs =
     bb_bind (handler_asserts andNode AND_K (1 < getNumChildren andNode)) (\<lambda>_.
     bb_bind (run_all (map (\<lambda>c. bb_bind (c False) (\<lambda>l. bb_return (lit_not l))) cs)) (\<lambda>clause.
     bb_bind (newLiteral env andNode False False) (\<lambda>andLit.
     bb_bind (assertClauses (map (\<lambda>l. [lit_not andLit, lit_not l]) clause)) (\<lambda>_.
     bb_bind (assertClause (clause @ [andLit])) (\<lambda>_. bb_return andLit)))))"

definition handleImplies :: "'r cnf_env \<Rightarrow> node \<Rightarrow> 'r conversion list \<Rightarrow> ('r, SatLiteral) cnf_call" where
  "handleImplies env impliesNode cs =
     bb_bind (handler_asserts impliesNode IMPLIES (getNumChildren impliesNode = 2)) (\<lambda>_.
     bb_bind ((cs ! 0) False) (\<lambda>a. bb_bind ((cs ! 1) False) (\<lambda>b.
     bb_bind (newLiteral env impliesNode False False) (\<lambda>impliesLit.
     bb_bind (assertClauses [[lit_not impliesLit, lit_not a, b], [a, impliesLit], [lit_not b, impliesLit]]) (\<lambda>_.
     bb_return impliesLit)))))"

definition handleIff :: "'r cnf_env \<Rightarrow> node \<Rightarrow> 'r conversion list \<Rightarrow> ('r, SatLiteral) cnf_call" where
  "handleIff env iffNode cs =
     bb_bind (handler_asserts iffNode EQUAL (getNumChildren iffNode = 2)) (\<lambda>_.
     bb_bind ((cs ! 0) False) (\<lambda>a. bb_bind ((cs ! 1) False) (\<lambda>b.
     bb_bind (newLiteral env iffNode False False) (\<lambda>iffLit.
     bb_bind (assertClauses [[lit_not a, b, lit_not iffLit], [a, lit_not b, lit_not iffLit], [lit_not a, lit_not b, iffLit], [a, b, iffLit]]) (\<lambda>_.
     bb_return iffLit)))))"

definition handleIte :: "'r cnf_env \<Rightarrow> node \<Rightarrow> 'r conversion list \<Rightarrow> ('r, SatLiteral) cnf_call" where
  "handleIte env iteNode cs =
     bb_bind (handler_asserts iteNode ITE (getNumChildren iteNode = 3)) (\<lambda>_.
     bb_bind ((cs ! 0) False) (\<lambda>condLit. bb_bind ((cs ! 1) False) (\<lambda>thenLit. bb_bind ((cs ! 2) False) (\<lambda>elseLit.
     bb_bind (newLiteral env iteNode False False) (\<lambda>iteLit.
     bb_bind (assertClauses [[lit_not iteLit, thenLit, elseLit], [lit_not iteLit, lit_not condLit, thenLit], [lit_not iteLit, condLit, elseLit],
       [iteLit, lit_not thenLit, lit_not elseLit], [iteLit, lit_not condLit, lit_not thenLit], [iteLit, condLit, lit_not elseLit]]) (\<lambda>_.
     bb_return iteLit))))))"

definition negateIf :: "bool \<Rightarrow> SatLiteral \<Rightarrow> SatLiteral" where
  "negateIf negated lit = (if negated then lit_not lit else lit)"

text \<open>The literal of a node that was translated before, or the conversion of its kind.\<close>

definition translated :: "node \<Rightarrow> ('r, SatLiteral) cnf_call \<Rightarrow> 'r conversion" where
  "translated node m negated = bb_bind (\<lambda>s. if hasLiteral s node then getLiteral node s else m s) (\<lambda>nodeLit. bb_return (negateIf negated nodeLit))"

fun toCNF :: "'r cnf_env \<Rightarrow> node \<Rightarrow> 'r conversion" where
  "toCNF env (App k ts) = (let node = App k ts; cs = map (toCNF env) ts in translated node (case k of
       NOT_K \<Rightarrow> bb_bind ((cs ! 0) False) (\<lambda>l. bb_return (lit_not l))
     | XOR_K \<Rightarrow> handleXor env node cs
     | ITE \<Rightarrow> handleIte env node cs
     | IMPLIES \<Rightarrow> handleImplies env node cs
     | OR_K \<Rightarrow> handleOr env node cs
     | AND_K \<Rightarrow> handleAnd env node cs
     | EQUAL \<Rightarrow> if typeOf (child node 0) = Some BooleanType then handleIff env node cs else convertAtom env node False
     | _ \<Rightarrow> convertAtom env node False))"
| "toCNF env node = translated node (convertAtom env node False)"

subsection \<open>Assertions\<close>

type_synonym 'r assertion = "bool \<Rightarrow> ('r, unit) cnf_call"

fun run_each :: "('r, unit) cnf_call list \<Rightarrow> ('r, unit) cnf_call" where
  "run_each [] = bb_return ()"
| "run_each (m # ms) = bb_bind m (\<lambda>_. run_each ms)"

definition convertAndAssertAnd :: "'r cnf_env \<Rightarrow> node \<Rightarrow> 'r assertion list \<Rightarrow> 'r assertion" where
  "convertAndAssertAnd env node as negated = bb_bind (bb_assert (getKind node = AND_K)) (\<lambda>_.
     if \<not> negated then run_each (map (\<lambda>a. a False) as)
     else bb_bind (run_all (map (\<lambda>t. toCNF env t True) (children node))) assertClause)"

definition convertAndAssertOr :: "'r cnf_env \<Rightarrow> node \<Rightarrow> 'r assertion list \<Rightarrow> 'r assertion" where
  "convertAndAssertOr env node as negated = bb_bind (bb_assert (getKind node = OR_K)) (\<lambda>_.
     if \<not> negated then bb_bind (run_all (map (\<lambda>t. toCNF env t False) (children node))) assertClause
     else run_each (map (\<lambda>a. a True) as))"

definition convertAndAssertXor :: "'r cnf_env \<Rightarrow> node \<Rightarrow> 'r assertion" where
  "convertAndAssertXor env node negated = bb_bind (bb_assert (getKind node = XOR_K)) (\<lambda>_.
     bb_bind (toCNF env (child node 0) False) (\<lambda>p. bb_bind (toCNF env (child node 1) False) (\<lambda>q.
     if \<not> negated then assertClauses [[lit_not p, lit_not q], [p, q]]
     else assertClauses [[lit_not p, q], [p, lit_not q]])))"

definition convertAndAssertIff :: "'r cnf_env \<Rightarrow> node \<Rightarrow> 'r assertion" where
  "convertAndAssertIff env node negated = bb_bind (bb_assert (getKind node = EQUAL)) (\<lambda>_.
     bb_bind (toCNF env (child node 0) False) (\<lambda>p. bb_bind (toCNF env (child node 1) False) (\<lambda>q.
     if \<not> negated then assertClauses [[lit_not p, q], [p, lit_not q]]
     else assertClauses [[lit_not p, lit_not q], [p, q]])))"

definition convertAndAssertImplies :: "'r cnf_env \<Rightarrow> node \<Rightarrow> 'r assertion list \<Rightarrow> 'r assertion" where
  "convertAndAssertImplies env node as negated = bb_bind (bb_assert (getKind node = IMPLIES)) (\<lambda>_.
     if \<not> negated then
       bb_bind (toCNF env (child node 0) False) (\<lambda>p. bb_bind (toCNF env (child node 1) False) (\<lambda>q. assertClause [lit_not p, q]))
     else bb_bind ((as ! 0) False) (\<lambda>_. (as ! 1) True))"

definition convertAndAssertIte :: "'r cnf_env \<Rightarrow> node \<Rightarrow> 'r assertion" where
  "convertAndAssertIte env node negated = bb_bind (bb_assert (getKind node = ITE)) (\<lambda>_.
     bb_bind (toCNF env (child node 0) False) (\<lambda>p. bb_bind (toCNF env (child node 1) negated) (\<lambda>q.
     bb_bind (toCNF env (child node 2) negated) (\<lambda>r. assertClauses [[lit_not p, q], [p, r]]))))"

definition convertAndAssertAtom :: "'r cnf_env \<Rightarrow> node \<Rightarrow> 'r assertion" where
  "convertAndAssertAtom env node negated = bb_bind (toCNF env node negated) (\<lambda>l. assertClause [l])"

fun convertAndAssert_node :: "'r cnf_env \<Rightarrow> node \<Rightarrow> 'r assertion" where
  "convertAndAssert_node env (App k ts) = (\<lambda>negated. let node = App k ts; as = map (convertAndAssert_node env) ts in case k of
       AND_K \<Rightarrow> convertAndAssertAnd env node as negated
     | OR_K \<Rightarrow> convertAndAssertOr env node as negated
     | XOR_K \<Rightarrow> convertAndAssertXor env node negated
     | IMPLIES \<Rightarrow> convertAndAssertImplies env node as negated
     | ITE \<Rightarrow> convertAndAssertIte env node negated
     | NOT_K \<Rightarrow> (as ! 0) (\<not> negated)
     | EQUAL \<Rightarrow> if typeOf (child node 0) = Some BooleanType then convertAndAssertIff env node negated else convertAndAssertAtom env node negated
     | _ \<Rightarrow> convertAndAssertAtom env node negated)"
| "convertAndAssert_node env node = convertAndAssertAtom env node"

definition CnfStream_convertAndAssert :: "'r cnf_env \<Rightarrow> node \<Rightarrow> bool \<Rightarrow> bool \<Rightarrow> ('r, unit) cnf_call" where
  "CnfStream_convertAndAssert env node removable negated = (\<lambda>s. convertAndAssert_node env node negated (s\<lparr>d_removable := removable\<rparr>))"

text \<open>A literal for a formula that is not asserted; \<open>is_bool\<close> tells the nodes of the Boolean theory, which are the connectives.\<close>

definition getNode :: "'r CnfStream \<Rightarrow> SatLiteral \<Rightarrow> node option" where
  "getNode s lit = d_literalToNodeMap s lit"

definition ensureLiteral :: "'r cnf_env \<Rightarrow> (node \<Rightarrow> bool) \<Rightarrow> node \<Rightarrow> bool \<Rightarrow> ('r, unit) cnf_call" where
  "ensureLiteral env is_bool n noPreregistration = (\<lambda>s. let s = s\<lparr>d_removable := False\<rparr> in
     if hasLiteral s n then
       bb_bind (getLiteral n) (\<lambda>lit s. if d_literalToNodeMap s lit = None
         then bb_bind (insertNode lit n) (\<lambda>_. insertNode (lit_not lit) (notNode n)) s else Some (Inr ((), s))) s
     else bb_bind (bb_lift (CheckArgument (typeOf n = Some BooleanType) (Inr ()))) (\<lambda>_.
       let n = (if getKind n = NOT_K then child n 0 else n) in
       bb_bind (if is_bool n \<and> \<not> isVar n
           then bb_bind (toCNF env n False) (\<lambda>lit. bb_bind (backMap n lit) (\<lambda>_. bb_return lit))
           else convertAtom env n noPreregistration) (\<lambda>lit.
       \<lambda>s. bb_assert (hasLiteral s n \<and> getNode s lit = Some n) s)) s)"

end
