(* ===== verification/Bitblaster_Correct.thy ===== *)
theory Bitblaster_Correct
  imports Bitblaster Nary
begin

section \<open>The circuits of the bit-blaster denote the terms\<close>

text \<open>
  The locale \<open>virtual_blaster\<close> states what a strategy may rely on when it calls the bit-blaster back: on the terms and
  atoms it accepts, the call succeeds, keeps the invariant of the state and returns bits that denote the term. Inside it
  every strategy is shown to return bits that denote its term; the interpretation on \<open>EagerBitblaster\<close> then closes the
  recursion.

  The invariant of the state: the cached bits denote their terms, and the formulas handed to the SAT solver define the
  atoms one after the other, each by an equivalent formula over bits of variables and atoms defined before it.
\<close>

unbundle bit_operations_syntax

subsection \<open>The invariant\<close>

text \<open>The bits of the variables.\<close>

definition bit_atoms :: "node set" where
  "bit_atoms = {App (BITVECTOR_BITOF i) [Var v (BitVectorType w)] | v w i. type_ok (BitVectorType w) \<and> i < w}"

text \<open>What the bit-blaster relies on in the rewriter: it returns an equivalent node, whose atoms are in normal form, and
  adds no atom to a formula whose atoms are; the bits of variables are in normal form.\<close>

definition rewriter_ok :: "(node \<Rightarrow> node) \<Rightarrow> bool" where
  "rewriter_ok rewrite \<longleftrightarrow> (\<forall>n T. typeOf n = Some T \<longrightarrow> equiv (rewrite n) n) \<and> (\<forall>n. \<forall>a\<in>atoms (rewrite n). rewrite a = a) \<and>
     (\<forall>n. typeOf n = Some BooleanType \<longrightarrow> (\<forall>a\<in>atoms n. rewrite a = a) \<longrightarrow> atoms (rewrite n) \<subseteq> atoms n) \<and> (\<forall>a\<in>bit_atoms. rewrite a = a)"

definition usable :: "(node \<Rightarrow> node) \<Rightarrow> bitblaster \<Rightarrow> node set" where
  "usable rewrite s = {a \<in> bit_atoms \<union> d_bbAtoms s. rewrite a = a}"

definition bits_of :: "(node \<Rightarrow> node) \<Rightarrow> bitblaster \<Rightarrow> node \<Rightarrow> node list \<Rightarrow> bool" where
  "bits_of rewrite s n bits \<longleftrightarrow> is_bv n \<and> length bits = getSize n \<and> bool_bits (usable rewrite s) bits \<and>
     (\<forall>\<sigma>. val_ok \<sigma> \<longrightarrow> bval \<sigma> bits = num (eval \<sigma> n))"

fun defined :: "node list \<Rightarrow> node set" where
  "defined [] = {}"
| "defined (App EQUAL [a, d] # fs) = insert a (defined fs)"
| "defined (f # fs) = defined fs"

fun definitional :: "node list \<Rightarrow> bool" where
  "definitional [] \<longleftrightarrow> True"
| "definitional (App EQUAL [a, d] # fs) \<longleftrightarrow> typeOf a = Some BooleanType \<and> atoms a = {a} \<and> equiv d a \<and>
     atoms d \<subseteq> bit_atoms \<union> defined fs \<and> definitional fs"
| "definitional (f # fs) \<longleftrightarrow> False"

definition bb_inv :: "(node \<Rightarrow> node) \<Rightarrow> bitblaster \<Rightarrow> bool" where
  "bb_inv rewrite s \<longleftrightarrow> (\<forall>n bits. d_termCache s n = Some bits \<longrightarrow> bits_of rewrite s n bits) \<and>
     definitional (d_cnfStream s) \<and> d_bbAtoms s = defined (d_cnfStream s)"

lemma usable_mono: "d_bbAtoms s \<subseteq> d_bbAtoms s' \<Longrightarrow> usable rw s \<subseteq> usable rw s'"
  by (auto simp: usable_def)

lemma bool_bits_mono: "U \<subseteq> V \<Longrightarrow> bool_bits U bits \<Longrightarrow> bool_bits V bits"
  by (auto simp: bool_bits_def bit_in_def)

lemma bits_of_mono: "bits_of rw s n bits \<Longrightarrow> d_bbAtoms s \<subseteq> d_bbAtoms s' \<Longrightarrow> bits_of rw s' n bits"
  using usable_mono [of s s' rw] by (auto simp: bits_of_def bool_bits_def bit_in_def)

lemma bits_of_cong: "d_bbAtoms s' = d_bbAtoms s \<Longrightarrow> bits_of rw s' n bits = bits_of rw s n bits"
  by (simp add: bits_of_def usable_def)

lemma new_bitblaster_inv: "bb_inv rw new_bitblaster"
  by (simp add: bb_inv_def new_bitblaster_def)

subsection \<open>Calls that succeed\<close>

text \<open>Formulas are only added to those handed to the SAT solver.\<close>

definition asserts_more :: "bitblaster \<Rightarrow> bitblaster \<Rightarrow> bool" where
  "asserts_more s s' \<longleftrightarrow> (\<exists>fs. d_cnfStream s' = fs @ d_cnfStream s)"

lemma asserts_more_refl [simp]: "d_cnfStream s' = d_cnfStream s \<Longrightarrow> asserts_more s s'"
  by (simp add: asserts_more_def)

lemma asserts_more_trans: "asserts_more s s' \<Longrightarrow> asserts_more s' s'' \<Longrightarrow> asserts_more s s''"
  by (auto simp: asserts_more_def)

definition call_ok :: "(node \<Rightarrow> node) \<Rightarrow> bitblaster \<Rightarrow> 'a bb_call \<Rightarrow> ('a \<Rightarrow> bitblaster \<Rightarrow> bool) \<Rightarrow> bool" where
  "call_ok rewrite s m P \<longleftrightarrow> (bb_inv rewrite s \<longrightarrow>
     (\<exists>x s'. m s = Some (Inr (x, s')) \<and> bb_inv rewrite s' \<and> d_bbAtoms s \<subseteq> d_bbAtoms s' \<and> asserts_more s s' \<and> P x s'))"

lemma call_bind:
  assumes "call_ok rw s m P" "\<And>x s'. bb_inv rw s' \<Longrightarrow> d_bbAtoms s \<subseteq> d_bbAtoms s' \<Longrightarrow> P x s' \<Longrightarrow> call_ok rw s' (k x) Q"
  shows "call_ok rw s (bb_bind m k) Q"
  unfolding call_ok_def
proof
  assume inv: "bb_inv rw s"
  with assms(1) obtain x s' where 1: "m s = Some (Inr (x, s'))" "bb_inv rw s'" "d_bbAtoms s \<subseteq> d_bbAtoms s'" "asserts_more s s'" "P x s'"
    by (auto simp: call_ok_def)
  with assms(2) [of s' x] obtain y s'' where 2: "k x s' = Some (Inr (y, s''))" "bb_inv rw s''" "d_bbAtoms s' \<subseteq> d_bbAtoms s''"
    "asserts_more s' s''" "Q y s''"
    by (auto simp: call_ok_def)
  with 1 asserts_more_trans [OF 1(4) 2(4)]
  show "\<exists>x s'. bb_bind m k s = Some (Inr (x, s')) \<and> bb_inv rw s' \<and> d_bbAtoms s \<subseteq> d_bbAtoms s' \<and> asserts_more s s' \<and> Q x s'"
    by (force simp: bb_bind_def)
qed

lemma bind_simps [simp]:
  "bb_bind (bb_return x) k = k x" "bb_bind (bb_lift (Inr x)) k = k x" "c \<Longrightarrow> bb_bind (bb_assert c) j = j ()"
  by (auto simp: bb_bind_def bb_return_def bb_lift_def bb_assert_def)

lemma bb_lift_Inr: "bb_lift (Inr x) = bb_return x"
  by (simp add: bb_lift_def bb_return_def)

lemma call_return [simp]: "call_ok rw s (bb_return x) P \<longleftrightarrow> (bb_inv rw s \<longrightarrow> P x s)"
  by (simp add: call_ok_def bb_return_def)

lemma call_mono: "call_ok rw s m P \<Longrightarrow> (\<And>x s'. P x s' \<Longrightarrow> Q x s') \<Longrightarrow> call_ok rw s m Q"
  by (fastforce simp: call_ok_def)

lemma call_store:
  assumes "bb_inv rw s \<Longrightarrow> bits_of rw s n bits"
  shows "call_ok rw s (storeBBTerm n bits) (\<lambda>_ s'. \<forall>n bits. bits_of rw s' n bits = bits_of rw s n bits)"
  using assms by (auto simp: call_ok_def storeBBTerm_def bb_inv_def bits_of_cong [of "_\<lparr>d_termCache := _\<rparr>" s])

subsection \<open>Bit-wise circuits\<close>

lemma bval_bitwise:
  assumes "length xs = length ys"
  shows "bval \<sigma> (map2 mkAnd_bb xs ys) = bval \<sigma> xs AND bval \<sigma> ys" "bval \<sigma> (map2 mkOr_bb xs ys) = bval \<sigma> xs OR bval \<sigma> ys"
    "bval \<sigma> (map2 mkXor_bb xs ys) = bval \<sigma> xs XOR bval \<sigma> ys"
    "val_ok \<sigma> \<Longrightarrow> bool_bits U xs \<Longrightarrow> bool_bits U ys \<Longrightarrow> bval \<sigma> (map2 mkIff_bb xs ys) = sem_not (length xs) (bval \<sigma> xs XOR bval \<sigma> ys)"
proof -
  show "bval \<sigma> (map2 mkAnd_bb xs ys) = bval \<sigma> xs AND bval \<sigma> ys" "bval \<sigma> (map2 mkOr_bb xs ys) = bval \<sigma> xs OR bval \<sigma> ys"
    "bval \<sigma> (map2 mkXor_bb xs ys) = bval \<sigma> xs XOR bval \<sigma> ys"
    using assms by (auto intro!: bit_eqI simp: bit_simps bit_bval)
  assume \<sigma>: "val_ok \<sigma>" "bool_bits U xs" "bool_bits U ys"
  have "bval \<sigma> (map2 mkIff_bb xs ys) = bval \<sigma> (negateBits (map2 mkXor_bb xs ys))"
    using assms \<sigma> holds_mkIff [OF \<sigma>(1) bool_bits_nth [OF \<sigma>(2)] bool_bits_nth [OF \<sigma>(3)]]
    by (auto intro!: bit_eqI simp: bit_bval negateBits_def)
  then show "bval \<sigma> (map2 mkIff_bb xs ys) = sem_not (length xs) (bval \<sigma> xs XOR bval \<sigma> ys)"
    using assms \<open>bval \<sigma> (map2 mkXor_bb xs ys) = bval \<sigma> xs XOR bval \<sigma> ys\<close> by (simp add: sem_not_def mask_eq_exp_minus_1)
qed

lemma digit_eq: "of_bool a + 2 * x = of_bool b + 2 * (y :: int) \<longleftrightarrow> a = b \<and> x = y"
  by (cases a; cases b) (simp_all, presburger+)

lemma bval_eq_iff: "length xs = length ys \<Longrightarrow> bval \<sigma> xs = bval \<sigma> ys \<longleftrightarrow> (\<forall>(x, y)\<in>set (zip xs ys). holds \<sigma> x = holds \<sigma> y)"
  by (induction rule: list_induct2) (simp_all add: digit_eq)

text \<open>The comparison of two vectors, as an equality and as a bit.\<close>

lemma equality_circuit:
  assumes "length xs = length ys" "0 < length xs" "bool_bits U xs" "bool_bits U ys"
  obtains b where "mkAnd_bbs (map2 mkIff_bb xs ys) = Inr b" "bit_in U b" "\<And>\<sigma>. val_ok \<sigma> \<Longrightarrow> holds \<sigma> b \<longleftrightarrow> bval \<sigma> xs = bval \<sigma> ys"
proof -
  have "bool_bits U (map2 mkIff_bb xs ys)" by (rule map2_gate(2) [OF assms(1,3,4) gate_types(5)])
  moreover have "map2 mkIff_bb xs ys \<noteq> []" using assms by auto
  ultimately have "\<exists>b. mkAnd_bbs (map2 mkIff_bb xs ys) = Inr b \<and> bit_in U b \<and> (\<forall>\<sigma>. holds \<sigma> b \<longleftrightarrow> (\<forall>x\<in>set (map2 mkIff_bb xs ys). holds \<sigma> x))"
    by (rule mkAnd_bbs_correct)
  then obtain b where b: "mkAnd_bbs (map2 mkIff_bb xs ys) = Inr b" "bit_in U b" "\<And>\<sigma>. holds \<sigma> b \<longleftrightarrow> (\<forall>x\<in>set (map2 mkIff_bb xs ys). holds \<sigma> x)" by blast
  have "holds \<sigma> b \<longleftrightarrow> bval \<sigma> xs = bval \<sigma> ys" if "val_ok \<sigma>" for \<sigma>
  proof -
    have "holds \<sigma> (mkIff_bb x y) \<longleftrightarrow> holds \<sigma> x = holds \<sigma> y" if "(x, y) \<in> set (zip xs ys)" for x y
      using that assms(3,4) holds_mkIff [OF \<open>val_ok \<sigma>\<close>] unfolding bool_bits_def by (meson set_zip_leftD set_zip_rightD)
    then show ?thesis unfolding b(3) bval_eq_iff [OF assms(1)] by auto
  qed
  with b that show thesis by blast
qed

lemma bits_of_typed: "typeOf n = Some (BitVectorType w) \<Longrightarrow> bits_of rw s n bits \<longleftrightarrow> length bits = w \<and> bool_bits (usable rw s) bits \<and>
  (\<forall>\<sigma>. val_ok \<sigma> \<longrightarrow> bval \<sigma> bits = num (eval \<sigma> n))"
  by (simp add: bits_of_def)

subsection \<open>The contract of the virtual functions\<close>

definition atom_known :: "bitblaster \<Rightarrow> node \<Rightarrow> bool" where
  "atom_known s g \<longleftrightarrow> typeOf g = Some BooleanType \<and> atoms g \<subseteq> bit_atoms \<union> d_bbAtoms s"

locale virtual_blaster =
  fixes rw :: "node \<Rightarrow> node" and bb :: TBitblaster and T :: "node set" and A :: "node set"
  assumes term_law: "rewriter_ok rw \<Longrightarrow> n \<in> T \<Longrightarrow> call_ok rw s (bbTerm bb n) (\<lambda>bits s'. bits_of rw s' n bits)"
    and atom_law: "rewriter_ok rw \<Longrightarrow> g \<in> A \<Longrightarrow> call_ok rw s (bbAtom bb g) (\<lambda>_ s'. atom_known s' g)"
begin

lemma operands:
  assumes "rewriter_ok rw" "a \<in> T" "b \<in> T"
    and "\<And>x y s'. d_bbAtoms s \<subseteq> d_bbAtoms s' \<Longrightarrow> bits_of rw s' a x \<Longrightarrow> bits_of rw s' b y \<Longrightarrow> call_ok rw s' (k x y) Q"
  shows "call_ok rw s (bb_operands bb (App K [a, b]) k) Q"
  unfolding bb_operands_def
  by (rule call_bind [OF term_law], use assms in simp_all)
    (rule call_bind [OF term_law], use assms in \<open>auto intro!: assms(4) intro: bits_of_mono\<close>)

lemma DefaultNotBB:
  assumes "rewriter_ok rw" "typeOf (App BITVECTOR_NOT [a]) = Some (BitVectorType w)" "a \<in> T"
  shows "call_ok rw s (DefaultNotBB (App BITVECTOR_NOT [a]) bb) (\<lambda>bits s'. bits_of rw s' (App BITVECTOR_NOT [a]) bits)"
  unfolding DefaultNotBB_def using assms
  by (auto intro!: call_bind [OF term_law] simp: bits_of_typed [OF assms(2)] bits_of_typed [of a w] sem_not_def mask_eq_exp_minus_1)

lemma DefaultXnorBB:
  assumes "rewriter_ok rw" "typeOf (App BITVECTOR_XNOR [a, b]) = Some (BitVectorType w)" "a \<in> T" "b \<in> T"
  shows "call_ok rw s (DefaultXnorBB (App BITVECTOR_XNOR [a, b]) bb) (\<lambda>bits s'. bits_of rw s' (App BITVECTOR_XNOR [a, b]) bits)"
  unfolding DefaultXnorBB_def using assms
  by (auto intro!: operands map2_gate(2) simp: bits_of_typed [OF assms(2)] bits_of_typed [of a w] bits_of_typed [of b w] bval_bitwise(4) simp del: bool_bits_map)

end

subsection \<open>N-ary operators\<close>

text \<open>A circuit for the operator of an n-ary kind.\<close>

definition circuit_for :: "kind \<Rightarrow> (node list \<Rightarrow> node list \<Rightarrow> node list result) \<Rightarrow> bool" where
  "circuit_for k f \<longleftrightarrow> (\<forall>U xs ys. length xs = length ys \<longrightarrow> 0 < length xs \<longrightarrow> bool_bits U xs \<longrightarrow> bool_bits U ys \<longrightarrow>
     (\<exists>zs. f xs ys = Inr zs \<and> length zs = length xs \<and> bool_bits U zs \<and>
       (\<forall>\<sigma>. val_ok \<sigma> \<longrightarrow> bval \<sigma> zs = take_bit (length xs) (op_fun k (bval \<sigma> xs) (bval \<sigma> ys)))))"

lemma bitwise_circuits:
  "circuit_for BITVECTOR_AND (\<lambda>bits current. Inr (map2 mkAnd_bb bits current))"
  "circuit_for BITVECTOR_OR (\<lambda>bits current. Inr (map2 mkOr_bb bits current))"
  "circuit_for BITVECTOR_XOR (\<lambda>bits current. Inr (map2 mkXor_bb bits current))"
proof -
  have r: "take_bit (length ys) (bval \<sigma> xs) = bval \<sigma> xs" if "length xs = length ys" for \<sigma> xs ys
    using that bval_range(3) [of xs \<sigma>] by simp
  show "circuit_for BITVECTOR_AND (\<lambda>bits current. Inr (map2 mkAnd_bb bits current))"
    "circuit_for BITVECTOR_OR (\<lambda>bits current. Inr (map2 mkOr_bb bits current))"
    "circuit_for BITVECTOR_XOR (\<lambda>bits current. Inr (map2 mkXor_bb bits current))"
    unfolding circuit_for_def
    by (auto intro!: map2_gate(2) simp: bval_bitwise r simp del: bool_bits_map)
qed

lemma arithmetic_circuits:
  "circuit_for BITVECTOR_PLUS (\<lambda>res current. and_then (rippleCarryAdder res current mkFalse) (\<lambda>(newres, _). Inr newres))"
  "circuit_for BITVECTOR_MULT (\<lambda>res current. Inr (shiftAddMultiplier res current))"
proof -
  have "\<exists>zs. and_then (rippleCarryAdder xs ys mkFalse) (\<lambda>(newres, _). Inr newres) = Inr zs \<and> length zs = length xs \<and> bool_bits U zs \<and>
       (\<forall>\<sigma>. val_ok \<sigma> \<longrightarrow> bval \<sigma> zs = take_bit (length xs) (op_fun BITVECTOR_PLUS (bval \<sigma> xs) (bval \<sigma> ys)))"
    if assms: "length xs = length ys" "bool_bits U xs" "bool_bits U ys" for U xs ys
    by (rule rippleCarryAdder_correct [OF assms gate_types(8)]) simp
  then show "circuit_for BITVECTOR_PLUS (\<lambda>res current. and_then (rippleCarryAdder res current mkFalse) (\<lambda>(newres, _). Inr newres))"
    unfolding circuit_for_def by blast
  show "circuit_for BITVECTOR_MULT (\<lambda>res current. Inr (shiftAddMultiplier res current))"
    unfolding circuit_for_def using shiftAddMultiplier_correct by auto
qed

lemma call_checked:
  assumes "call_ok rw s m (\<lambda>bits s'. bits_of rw s' n bits)"
  shows "call_ok rw s (bb_bind m (\<lambda>bits. bb_bind (bb_assert (length bits = getSize n)) (\<lambda>_. bb_return bits))) (\<lambda>bits s'. bits_of rw s' n bits)"
  by (rule call_bind [OF assms]) (simp add: bits_of_def)

context virtual_blaster
begin

lemma nary_loop:
  assumes "rewriter_ok rw" "circuit_for k f" "ac_kind k" "set cs \<subseteq> T" "of_width w ps" "of_width w cs" "0 < w" "ps \<noteq> []"
    and "length bits = w" "bool_bits (usable rw s) bits" "\<forall>\<sigma>. val_ok \<sigma> \<longrightarrow> bval \<sigma> bits = take_bit w (fold_num k \<sigma> ps)"
  shows "call_ok rw s (nary_loop f bb cs bits) (\<lambda>bits s'. length bits = w \<and> bool_bits (usable rw s') bits \<and>
    (\<forall>\<sigma>. val_ok \<sigma> \<longrightarrow> bval \<sigma> bits = take_bit w (fold_num k \<sigma> (ps @ cs))))"
  using assms(4-)
proof (induction cs arbitrary: ps bits s)
  case (Cons c cs)
  show ?case unfolding nary_loop.simps
  proof (rule call_bind [OF term_law [OF assms(1)]])
    show "c \<in> T" using Cons.prems by simp
    fix current s' assume s': "d_bbAtoms s \<subseteq> d_bbAtoms s'" "bits_of rw s' c current"
    have c: "typeOf c = Some (BitVectorType w)" using Cons.prems by simp
    with s'(2) have cur: "length current = w" "bool_bits (usable rw s') current" "\<forall>\<sigma>. val_ok \<sigma> \<longrightarrow> bval \<sigma> current = num (eval \<sigma> c)"
      by (simp_all add: bits_of_typed)
    have bits: "bool_bits (usable rw s') bits" using Cons.prems(7) usable_mono [OF s'(1)] by (auto simp: bool_bits_def bit_in_def)
    obtain zs where zs: "f bits current = Inr zs" "length zs = w" "bool_bits (usable rw s') zs"
      "\<forall>\<sigma>. val_ok \<sigma> \<longrightarrow> bval \<sigma> zs = take_bit w (op_fun k (bval \<sigma> bits) (bval \<sigma> current))"
      using assms(2) Cons.prems(4,6) cur bits unfolding circuit_for_def by metis
    have "\<forall>\<sigma>. val_ok \<sigma> \<longrightarrow> bval \<sigma> zs = take_bit w (fold_num k \<sigma> (ps @ [c]))"
      using zs(4) cur(3) Cons.prems(8) by (simp add: fold_num_append assms(3) op_trunc op_unit_id)
    with Cons.IH [of "ps @ [c]" zs s'] Cons.prems c zs(2,3)
    show "call_ok rw s' (bb_bind (bb_lift (f bits current)) (\<lambda>bits. nary_loop f bb cs bits)) (\<lambda>bits s'. length bits = w \<and>
        bool_bits (usable rw s') bits \<and> (\<forall>\<sigma>. val_ok \<sigma> \<longrightarrow> bval \<sigma> bits = take_bit w (fold_num k \<sigma> (ps @ c # cs))))"
      by (simp add: zs(1))
  qed
qed simp

lemma nary_bb:
  assumes "rewriter_ok rw" "circuit_for k f" "ac_kind k" "typeOf (App k ts) = Some (BitVectorType w)" "set ts \<subseteq> T"
  shows "call_ok rw s (nary_bb f (App k ts) bb) (\<lambda>bits s'. bits_of rw s' (App k ts) bits)"
proof -
  from assms(3,4) have ts: "2 \<le> length ts" "of_width w ts" by (auto simp: typeOf_ac)
  then obtain c cs where cs: "ts = c # cs" by (cases ts) auto
  with ts(2) have c: "typeOf c = Some (BitVectorType w)" "of_width w cs" by auto
  have w: "0 < w" using typeOf_bv_width [OF assms(4)] by simp
  show ?thesis unfolding nary_bb_def cs children.simps nth_Cons_0 list.sel
  proof (rule call_bind [OF term_law [OF assms(1)]])
    fix bits s' assume "bits_of rw s' c bits"
    with c have bits: "length bits = w" "bool_bits (usable rw s') bits" "\<forall>\<sigma>. val_ok \<sigma> \<longrightarrow> bval \<sigma> bits = take_bit w (fold_num k \<sigma> [c])"
      by (simp_all add: bits_of_typed op_unit_id assms(3))
    show "call_ok rw s' (nary_loop f bb cs bits) (\<lambda>bits s'. bits_of rw s' (App k (c # cs)) bits)"
    proof (rule call_mono [OF nary_loop [OF assms(1-3) _ _ c(2) w _ bits]])
      show "bits_of rw s' (App k (c # cs)) x" if "length x = w \<and> bool_bits (usable rw s') x \<and>
          (\<forall>\<sigma>. val_ok \<sigma> \<longrightarrow> bval \<sigma> x = take_bit w (fold_num k \<sigma> ([c] @ cs)))" for x s'
      proof -
        have "num (eval \<sigma> (App k (c # cs))) = take_bit w (fold_num k \<sigma> (c # cs))" if "val_ok \<sigma>" for \<sigma>
          using eval_ac [OF assms(3) _ ts(2) that] cs by (simp del: eval.simps(5))
        then show ?thesis using that bits_of_typed [OF assms(4)] by (simp add: cs del: eval.simps(5))
      qed
    qed (use assms(5) c cs in auto)
  qed (use assms(5) cs in simp)
qed

lemma nary_strategies:
  assumes "rewriter_ok rw" "ac_kind k" "typeOf (App k ts) = Some (BitVectorType w)" "set ts \<subseteq> T"
  shows "call_ok rw s (d_termBBStrategies rewrite k (App k ts) bb) (\<lambda>bits s'. bits_of rw s' (App k ts) bits)"
proof -
  note run = nary_bb [OF assms(1) _ assms(2-4)]
  from assms(2) consider "k = BITVECTOR_AND" | "k = BITVECTOR_OR" | "k = BITVECTOR_XOR" | "k = BITVECTOR_PLUS" | "k = BITVECTOR_MULT"
    by (auto simp: ac_kind_def)
  then show ?thesis
  proof cases
    case 1
    with call_checked [OF run, of _ s] bitwise_circuits(1) show ?thesis by (simp add: d_termBBStrategies_def DefaultAndBB_def)
  next
    case 2
    with call_checked [OF run, of _ s] bitwise_circuits(2) show ?thesis by (simp add: d_termBBStrategies_def DefaultOrBB_def)
  next
    case 3
    with call_checked [OF run, of _ s] bitwise_circuits(3) show ?thesis by (simp add: d_termBBStrategies_def DefaultXorBB_def)
  next
    case 4
    with call_checked [OF run, of _ s] arithmetic_circuits(1) show ?thesis by (simp add: d_termBBStrategies_def DefaultPlusBB_def)
  next
    case 5
    with arithmetic_circuits(2) run show ?thesis by (auto simp: d_termBBStrategies_def DefaultMultBB_def)
  qed
qed

end

subsection \<open>Comparison, subtraction, conditionals, extraction\<close>

lemma equiv_boolI:
  assumes "typeOf f = Some BooleanType" "typeOf n = Some BooleanType" "\<And>\<sigma>. val_ok \<sigma> \<Longrightarrow> holds \<sigma> f \<longleftrightarrow> truth (eval \<sigma> n)"
  shows "equiv f n"
  using assms by (auto simp: equiv_def holds_def eval_bool_eq)

lemma bval_singleton: "bval \<sigma> [b] = of_bool (holds \<sigma> b)"
  by simp

lemma bval_ite_clauses:
  "length xs = length ys \<Longrightarrow> bval \<sigma> (map2 (\<lambda>t e. mkAnd_bb (mkOr_bb (mkNot_bb c) t) (mkOr_bb c e)) xs ys) = (if holds \<sigma> c then bval \<sigma> xs else bval \<sigma> ys)"
  by (induction rule: list_induct2) simp_all

context virtual_blaster
begin

text \<open>Two operands of one width, and what the strategies do with their bits.\<close>

lemma two_operands:
  assumes "rewriter_ok rw" "a \<in> T" "b \<in> T" "typeOf a = Some (BitVectorType w)" "typeOf b = Some (BitVectorType w)"
    and "\<And>x y s'. d_bbAtoms s \<subseteq> d_bbAtoms s' \<Longrightarrow> length x = w \<Longrightarrow> length y = w \<Longrightarrow> 0 < w \<Longrightarrow>
      bool_bits (usable rw s') x \<Longrightarrow> bool_bits (usable rw s') y \<Longrightarrow> (\<And>\<sigma>. val_ok \<sigma> \<Longrightarrow> bval \<sigma> x = num (eval \<sigma> a)) \<Longrightarrow>
      (\<And>\<sigma>. val_ok \<sigma> \<Longrightarrow> bval \<sigma> y = num (eval \<sigma> b)) \<Longrightarrow> call_ok rw s' (k x y) Q"
  shows "call_ok rw s (bb_operands bb (App K [a, b]) k) Q"
proof (rule operands [OF assms(1-3)])
  fix x y s' assume s': "d_bbAtoms s \<subseteq> d_bbAtoms s'" "bits_of rw s' a x" "bits_of rw s' b y"
  have "0 < w" using typeOf_bv_width [OF assms(4)] by simp
  with s' show "call_ok rw s' (k x y) Q" using assms(4,5) by (intro assms(6)) (auto simp: bits_of_typed)
qed

lemma DefaultCompBB:
  assumes "rewriter_ok rw" "typeOf (App BITVECTOR_COMP [a, b]) = Some (BitVectorType w)" "a \<in> T" "b \<in> T"
  shows "call_ok rw s (DefaultCompBB (App BITVECTOR_COMP [a, b]) bb) (\<lambda>bits s'. bits_of rw s' (App BITVECTOR_COMP [a, b]) bits)"
proof -
  from assms(2) obtain v where v: "w = 1" "typeOf a = Some (BitVectorType v)" "typeOf b = Some (BitVectorType v)" by (auto simp: isBitVector_iff)
  have "call_ok rw s (bb_operands bb (App BITVECTOR_COMP [a, b]) (\<lambda>a b. bb_bind (bb_lift (mkAnd_bbs (map2 mkIff_bb a b))) (\<lambda>a_eq_b. bb_return [a_eq_b])))
    (\<lambda>bits s'. bits_of rw s' (App BITVECTOR_COMP [a, b]) bits)"
  proof (rule two_operands [OF assms(1,3,4) v(2,3)])
    fix x y s' assume xy: "length x = v" "length y = v" "0 < v" "bool_bits (usable rw s') x" "bool_bits (usable rw s') y"
      "\<And>\<sigma>. val_ok \<sigma> \<Longrightarrow> bval \<sigma> x = num (eval \<sigma> a)" "\<And>\<sigma>. val_ok \<sigma> \<Longrightarrow> bval \<sigma> y = num (eval \<sigma> b)"
    show "call_ok rw s' (bb_bind (bb_lift (mkAnd_bbs (map2 mkIff_bb x y))) (\<lambda>a_eq_b. bb_return [a_eq_b])) (\<lambda>bits s'. bits_of rw s' (App BITVECTOR_COMP [a, b]) bits)"
      using xy by (auto intro: equality_circuit [of x y "usable rw s'"] simp: bits_of_typed [OF assms(2)] v)
  qed
  then show ?thesis by (simp add: DefaultCompBB_def getSize_typed [OF assms(2)] v(1))
qed

lemma bv_comparisons:
  assumes "rewriter_ok rw" "typeOf (App k [a, b]) = Some (BitVectorType w)" "a \<in> T" "b \<in> T"
  shows "k = BITVECTOR_ULTBV \<Longrightarrow> call_ok rw s (DefaultUltbvBB (App k [a, b]) bb) (\<lambda>bits s'. bits_of rw s' (App k [a, b]) bits)"
    "k = BITVECTOR_SLTBV \<Longrightarrow> call_ok rw s (DefaultSltbvBB (App k [a, b]) bb) (\<lambda>bits s'. bits_of rw s' (App k [a, b]) bits)"
proof -
  assume k: "k = BITVECTOR_ULTBV"
  with assms(2) obtain v where v: "w = 1" "typeOf a = Some (BitVectorType v)" "typeOf b = Some (BitVectorType v)" by (auto simp: isBitVector_iff)
  show "call_ok rw s (DefaultUltbvBB (App k [a, b]) bb) (\<lambda>bits s'. bits_of rw s' (App k [a, b]) bits)"
    unfolding DefaultUltbvBB_def k getKind.simps bind_simps(3) [OF refl]
  proof (rule two_operands [OF assms(1,3,4) v(2,3)])
    fix x y s' assume xy: "length x = v" "length y = v" "0 < v" "bool_bits (usable rw s') x" "bool_bits (usable rw s') y"
      "\<And>\<sigma>. val_ok \<sigma> \<Longrightarrow> bval \<sigma> x = num (eval \<sigma> a)" "\<And>\<sigma>. val_ok \<sigma> \<Longrightarrow> bval \<sigma> y = num (eval \<sigma> b)"
    then show "call_ok rw s' (bb_bind (bb_assert (length x = length y)) (\<lambda>_. bb_lift (and_then (uLessThanBB x y False) (\<lambda>r. Inr [r]))))
        (\<lambda>bits s'. bits_of rw s' (App BITVECTOR_ULTBV [a, b]) bits)"
      by (auto intro: uLessThanBB_correct [of x y "usable rw s'" False] simp: bb_lift_Inr bits_of_typed [OF assms(2)] k v
        bits_of_typed [OF assms(2) [unfolded k]])
  qed
next
  assume k: "k = BITVECTOR_SLTBV"
  with assms(2) obtain v where v: "w = 1" "typeOf a = Some (BitVectorType v)" "typeOf b = Some (BitVectorType v)" by (auto simp: isBitVector_iff)
  show "call_ok rw s (DefaultSltbvBB (App k [a, b]) bb) (\<lambda>bits s'. bits_of rw s' (App k [a, b]) bits)"
    unfolding DefaultSltbvBB_def k getKind.simps bind_simps(3) [OF refl]
  proof (rule two_operands [OF assms(1,3,4) v(2,3)])
    fix x y s' assume xy: "length x = v" "length y = v" "0 < v" "bool_bits (usable rw s') x" "bool_bits (usable rw s') y"
      "\<And>\<sigma>. val_ok \<sigma> \<Longrightarrow> bval \<sigma> x = num (eval \<sigma> a)" "\<And>\<sigma>. val_ok \<sigma> \<Longrightarrow> bval \<sigma> y = num (eval \<sigma> b)"
    then show "call_ok rw s' (bb_bind (bb_assert (length x = length y)) (\<lambda>_. bb_lift (and_then (sLessThanBB x y False) (\<lambda>r. Inr [r]))))
        (\<lambda>bits s'. bits_of rw s' (App BITVECTOR_SLTBV [a, b]) bits)"
      by (auto intro: sLessThanBB_correct [of x y "usable rw s'" False] simp: bb_lift_Inr bits_of_typed [OF assms(2) [unfolded k]] v)
  qed
qed

lemma DefaultSubBB:
  assumes "rewriter_ok rw" "typeOf (App BITVECTOR_SUB [a, b]) = Some (BitVectorType w)" "a \<in> T" "b \<in> T"
  shows "call_ok rw s (DefaultSubBB (App BITVECTOR_SUB [a, b]) bb) (\<lambda>bits s'. bits_of rw s' (App BITVECTOR_SUB [a, b]) bits)"
proof -
  from assms(2) have v: "typeOf a = Some (BitVectorType w)" "typeOf b = Some (BitVectorType w)" by auto
  have "call_ok rw s (bb_operands bb (App BITVECTOR_SUB [a, b]) (\<lambda>x y. bb_bind (bb_assert (length x = length y \<and> getSize (App BITVECTOR_SUB [a, b]) = length x)) (\<lambda>_.
       bb_lift (and_then (rippleCarryAdder x (negateBits y) mkTrue) (\<lambda>(bits, _). Inr bits))))) (\<lambda>bits s'. bits_of rw s' (App BITVECTOR_SUB [a, b]) bits)"
  proof (rule two_operands [OF assms(1,3,4) v])
    fix x y s' assume xy: "length x = w" "length y = w" "bool_bits (usable rw s') x" "bool_bits (usable rw s') y"
      "\<And>\<sigma>. val_ok \<sigma> \<Longrightarrow> bval \<sigma> x = num (eval \<sigma> a)" "\<And>\<sigma>. val_ok \<sigma> \<Longrightarrow> bval \<sigma> y = num (eval \<sigma> b)"
    then show "call_ok rw s' (bb_bind (bb_assert (length x = length y \<and> getSize (App BITVECTOR_SUB [a, b]) = length x)) (\<lambda>_.
       bb_lift (and_then (rippleCarryAdder x (negateBits y) mkTrue) (\<lambda>(bits, _). Inr bits)))) (\<lambda>bits s'. bits_of rw s' (App BITVECTOR_SUB [a, b]) bits)"
      using v by (auto intro: subtractor [of x y "usable rw s'"] simp: bb_lift_Inr bits_of_typed [OF assms(2)] getSize_typed [OF assms(2)] sem_sub_def)
  qed
  then show ?thesis by (simp add: DefaultSubBB_def)
qed
lemma DefaultNegBB:
  assumes "rewriter_ok rw" "typeOf (App BITVECTOR_NEG [a]) = Some (BitVectorType w)" "a \<in> T"
  shows "call_ok rw s (DefaultNegBB (App BITVECTOR_NEG [a]) bb) (\<lambda>bits s'. bits_of rw s' (App BITVECTOR_NEG [a]) bits)"
proof -
  from assms(2) have v: "typeOf a = Some (BitVectorType w)" by auto
  have "call_ok rw s (bb_bind (bbTerm bb a) (\<lambda>x. bb_bind (bb_assert (w = length x)) (\<lambda>_.
      bb_lift (and_then (rippleCarryAdder (negateBits x) (makeZero w) mkTrue) (\<lambda>(bits, _). Inr bits)))))
    (\<lambda>bits s'. bits_of rw s' (App BITVECTOR_NEG [a]) bits)"
  proof (rule call_bind [OF term_law [OF assms(1,3)]])
    fix x s' assume "bits_of rw s' a x"
    then have x: "length x = w" "bool_bits (usable rw s') x" "\<And>\<sigma>. val_ok \<sigma> \<Longrightarrow> bval \<sigma> x = num (eval \<sigma> a)" using v by (auto simp: bits_of_typed)
    then show "call_ok rw s' (bb_bind (bb_assert (w = length x)) (\<lambda>_.
        bb_lift (and_then (rippleCarryAdder (negateBits x) (makeZero w) mkTrue) (\<lambda>(bits, _). Inr bits)))) (\<lambda>bits s'. bits_of rw s' (App BITVECTOR_NEG [a]) bits)"
      by (auto intro: rippleCarryAdder_correct [of "negateBits x" "makeZero w" "usable rw s'" mkTrue]
        simp: bb_lift_Inr bits_of_typed [OF assms(2)] v sem_neg_def take_bit_eq_mod)
  qed
  then show ?thesis by (simp add: DefaultNegBB_def getSize_typed [OF assms(2)])
qed

lemma DefaultIteBB:
  assumes "rewriter_ok rw" "typeOf (App BITVECTOR_ITE [c, a, b]) = Some (BitVectorType w)" "c \<in> T" "a \<in> T" "b \<in> T"
  shows "call_ok rw s (DefaultIteBB (App BITVECTOR_ITE [c, a, b]) bb) (\<lambda>bits s'. bits_of rw s' (App BITVECTOR_ITE [c, a, b]) bits)"
proof -
  from assms(2) have v: "typeOf c = Some (BitVectorType 1)" "typeOf a = Some (BitVectorType w)" "typeOf b = Some (BitVectorType w)" by auto
  show ?thesis unfolding DefaultIteBB_def getKind.simps bind_simps(3) [OF refl] children.simps nth_Cons_0
  proof (rule call_bind [OF term_law [OF assms(1,3)]])
    fix z s0 assume z: "bits_of rw s0 c z"
    show "call_ok rw s0 (bb_bind (bbTerm bb ([c, a, b] ! 1)) (\<lambda>thenpart. bb_bind (bbTerm bb ([c, a, b] ! 2)) (\<lambda>elsepart.
      bb_bind (bb_assert (length z = 1)) (\<lambda>_. bb_bind (bb_assert (length thenpart = length elsepart)) (\<lambda>_.
      bb_return (map2 (\<lambda>t e. mkAnd_bb (mkOr_bb (mkNot_bb (z ! 0)) t) (mkOr_bb (z ! 0) e)) thenpart elsepart))))))
      (\<lambda>bits s'. bits_of rw s' (App BITVECTOR_ITE [c, a, b]) bits)"
    proof (simp, rule call_bind [OF term_law [OF assms(1,4)]], rule call_bind [OF term_law [OF assms(1,5)]])
      fix x y s1 s2 assume s: "d_bbAtoms s0 \<subseteq> d_bbAtoms s1" "bits_of rw s1 a x" "d_bbAtoms s1 \<subseteq> d_bbAtoms s2" "bits_of rw s2 b y"
      have "bits_of rw s2 c z" "bits_of rw s2 a x" using s z by (blast intro: bits_of_mono)+
      with s(4) v have b: "length z = 1" "bool_bits (usable rw s2) z" "\<And>\<sigma>. val_ok \<sigma> \<Longrightarrow> bval \<sigma> z = num (eval \<sigma> c)"
        "length x = w" "bool_bits (usable rw s2) x" "\<And>\<sigma>. val_ok \<sigma> \<Longrightarrow> bval \<sigma> x = num (eval \<sigma> a)"
        "length y = w" "bool_bits (usable rw s2) y" "\<And>\<sigma>. val_ok \<sigma> \<Longrightarrow> bval \<sigma> y = num (eval \<sigma> b)"
        by (simp_all add: bits_of_typed)
      then obtain z0 where z0: "z = [z0]" by (cases z) auto
      let ?f = "\<lambda>t e. mkAnd_bb (mkOr_bb (mkNot_bb z0) t) (mkOr_bb z0 e)"
      have "bool_bits (usable rw s2) (map2 ?f x y)" using b z0 by (intro map2_gate(2)) simp_all
      moreover have "bval \<sigma> (map2 ?f x y) = num (eval \<sigma> (App BITVECTOR_ITE [c, a, b]))" if "val_ok \<sigma>" for \<sigma>
        using b(3,6,9) [OF that] z0 b(4,7) by (simp add: bval_ite_clauses) (metis of_bool_eq_1_iff)
      ultimately show "call_ok rw s2 (bb_bind (bb_assert (length z = Suc 0)) (\<lambda>_. bb_bind (bb_assert (length x = length y)) (\<lambda>_.
          bb_return (map2 (\<lambda>t e. mkAnd_bb (mkOr_bb (mkNot_bb (z ! 0)) t) (mkOr_bb (z ! 0) e)) x y))))
        (\<lambda>bits s'. bits_of rw s' (App BITVECTOR_ITE [c, a, b]) bits)"
        using b(4,7) z0 by (simp add: bits_of_typed [OF assms(2)] del: bool_bits_map eval.simps(5))
    qed
  qed
qed

lemma DefaultExtractBB:
  assumes "rewriter_ok rw" "typeOf (App (BITVECTOR_EXTRACT high low) [a]) = Some (BitVectorType w)" "a \<in> T"
  shows "call_ok rw s (DefaultExtractBB (App (BITVECTOR_EXTRACT high low) [a]) bb) (\<lambda>bits s'. bits_of rw s' (App (BITVECTOR_EXTRACT high low) [a]) bits)"
proof -
  from assms(2) obtain v where v: "typeOf a = Some (BitVectorType v)" "low \<le> high" "high < v" "w = high - low + 1"
    by (auto simp: isBitVector_iff split: if_splits)
  have "call_ok rw s (bb_bind (bbTerm bb a) (\<lambda>x. bb_return (map ((!) x) [low..<Suc high])))
    (\<lambda>bits s'. bits_of rw s' (App (BITVECTOR_EXTRACT high low) [a]) bits)"
  proof (rule call_bind [OF term_law [OF assms(1,3)]])
    fix x s' assume "bits_of rw s' a x"
    then have x: "length x = v" "bool_bits (usable rw s') x" "\<And>\<sigma>. val_ok \<sigma> \<Longrightarrow> bval \<sigma> x = num (eval \<sigma> a)" using v(1) by (auto simp: bits_of_typed)
    have "bval \<sigma> (map ((!) x) [low..<Suc high]) = sem_extract high low (bval \<sigma> x)" for \<sigma>
      using v x(1) by (intro bval_eqI [where w = w]) (auto simp: sem_extract_def bit_simps bit_bval add.commute simp del: upt_Suc)
    then show "call_ok rw s' (bb_return (map ((!) x) [low..<Suc high])) (\<lambda>bits s'. bits_of rw s' (App (BITVECTOR_EXTRACT high low) [a]) bits)"
      using x v by (auto simp: bits_of_typed [OF assms(2)] bool_bits_iff)
  qed
  then show ?thesis using v(2) by (simp add: DefaultExtractBB_def util_defs Let_def Suc_diff_le)
qed

lemma DefaultSignExtendBB:
  assumes "rewriter_ok rw" "typeOf (App (BITVECTOR_SIGN_EXTEND n) [a]) = Some (BitVectorType w)" "a \<in> T"
  shows "call_ok rw s (DefaultSignExtendBB (App (BITVECTOR_SIGN_EXTEND n) [a]) bb) (\<lambda>bits s'. bits_of rw s' (App (BITVECTOR_SIGN_EXTEND n) [a]) bits)"
proof -
  from assms(2) obtain v where v: "typeOf a = Some (BitVectorType v)" "w = n + v" by (auto simp: isBitVector_iff)
  have v0: "0 < v" using typeOf_bv_width [OF v(1)] by simp
  have "call_ok rw s (bb_bind (bbTerm bb a) (\<lambda>x. bb_return (x @ replicate n (last x))))
    (\<lambda>bits s'. bits_of rw s' (App (BITVECTOR_SIGN_EXTEND n) [a]) bits)"
  proof (rule call_bind [OF term_law [OF assms(1,3)]])
    fix x s' assume "bits_of rw s' a x"
    then have x: "length x = v" "bool_bits (usable rw s') x" "\<And>\<sigma>. val_ok \<sigma> \<Longrightarrow> bval \<sigma> x = num (eval \<sigma> a)" using v(1) by (auto simp: bits_of_typed)
    then have last: "last x = x ! (v - 1)" "last x \<in> set x" using v0 by (auto simp: last_conv_nth)
    have top: "holds \<sigma> (x ! i) = holds \<sigma> (x ! (v - Suc 0))" if "v - Suc 0 \<le> i" "i < v" for \<sigma> i
      using that by (intro arg_cong [where f = "\<lambda>i. holds \<sigma> (x ! i)"]) linarith
    have "bval \<sigma> (x @ replicate n (last x)) = sem_sign_extend v n (bval \<sigma> x)" for \<sigma>
      using v x(1) last v0 by (intro bval_eqI [where w = w]) (auto simp: sem_sign_extend_def sval_def bit_simps bit_bval add.commute nth_append min_def, (metis top)+)
    then show "call_ok rw s' (bb_return (x @ replicate n (last x))) (\<lambda>bits s'. bits_of rw s' (App (BITVECTOR_SIGN_EXTEND n) [a]) bits)"
      using x v last by (auto simp: bits_of_typed [OF assms(2)] bool_bits_iff simp del: bval_simps)
  qed
  then show ?thesis by (simp add: DefaultSignExtendBB_def Let_def add.commute)
qed

end

subsection \<open>Constants, variables, concatenation\<close>

lemma const_loop_eq:
  assumes "bv_ok b" "\<forall>i\<in>set is. i < d_size b"
  shows "const_loop b is = Inr (map (\<lambda>i. if bit (d_value b) i then mkTrue else mkFalse) is)"
  using assms
proof (induction "is")
  case (Cons i "is")
  have "sem_extract i i (d_value b) = of_bool (bit (d_value b) i)"
    by (simp add: sem_extract_def take_bit_Suc_0 bit_iff_odd_drop_bit mod2_eq_if)
  with Cons show ?case by (simp add: bv_extract_sem Let_def)
qed simp

lemma DefaultConstBB:
  assumes "typeOf (ConstBV b) = Some (BitVectorType w)"
  shows "call_ok rw s (DefaultConstBB (ConstBV b) bb) (\<lambda>bits s'. bits_of rw s' (ConstBV b) bits)"
proof -
  have b: "bv_ok b" "d_size b = w" using assms by (auto simp: BitVectorConstantTypeRule_def split: if_splits)
  have "bval \<sigma> (map (\<lambda>i. if bit (d_value b) i then mkTrue else mkFalse) [0..<w]) = d_value b" for \<sigma>
    using b by (intro bval_eqI [where w = w]) (auto simp: bv_ok_def take_bit_int_eq_self)
  then show ?thesis
    using b by (simp add: DefaultConstBB_def getSize_typed [OF assms] const_loop_eq bb_lift_Inr bits_of_typed [OF assms])
qed

lemma bit_atom_bits:
  assumes "type_ok (BitVectorType w)" "rewriter_ok rw"
  shows "bool_bits (usable rw s) (map (mkBitOf (Var v (BitVectorType w))) [0..<w])"
  using assms by (auto simp: bit_in_def util_defs isBitVector_iff connective_def usable_def bit_atoms_def rewriter_ok_def)

lemma DefaultVarBB:
  assumes "rewriter_ok rw" "type_ok (BitVectorType w)"
  shows "call_ok rw s (DefaultVarBB (Var v (BitVectorType w)) bb) (\<lambda>bits s'. bits_of rw s' (Var v (BitVectorType w)) bits)"
proof -
  let ?n = "Var v (BitVectorType w)" and ?s = "s\<lparr>d_variables := insert (Var v (BitVectorType w)) (d_variables s)\<rparr>"
  have t: "typeOf ?n = Some (BitVectorType w)" using assms(2) by simp
  have "bval \<sigma> (map (mkBitOf ?n) [0..<w]) = num (eval \<sigma> ?n)" if "val_ok \<sigma>" for \<sigma>
    using eval_bv(6) [OF t that] by (intro bval_eqI [where w = w]) (simp_all add: holds_def util_defs)
  then have "bits_of rw ?s ?n (map (mkBitOf ?n) [0..<w])"
    using bit_atom_bits [OF assms(2,1), of ?s v] by (simp add: bits_of_typed [OF t] del: bool_bits_map)
  moreover have "bb_inv rw ?s" if "bb_inv rw s" using that by (auto simp: bb_inv_def bits_of_cong [of ?s s])
  ultimately show ?thesis by (simp add: call_ok_def DefaultVarBB_def makeVariable_def getSize_typed [OF t])
qed

context virtual_blaster
begin

lemma concat_loop:
  assumes "rewriter_ok rw" "\<forall>c\<in>set cs. c \<in> T \<and> is_bv c" "\<forall>q\<in>set qs. is_bv q"
    and "length bits = sum_list (map getSize qs)" "bool_bits (usable rw s) bits" "\<forall>\<sigma>. val_ok \<sigma> \<longrightarrow> bval \<sigma> bits = cat_value (map (eval \<sigma>) qs)"
  shows "call_ok rw s (concat_loop bb cs bits) (\<lambda>bits s'. length bits = sum_list (map getSize (rev cs @ qs)) \<and> bool_bits (usable rw s') bits \<and>
    (\<forall>\<sigma>. val_ok \<sigma> \<longrightarrow> bval \<sigma> bits = cat_value (map (eval \<sigma>) (rev cs @ qs))))"
  using assms(2-)
proof (induction cs arbitrary: qs bits s)
  case (Cons c cs)
  from Cons.prems(1) obtain w where c: "c \<in> T" "typeOf c = Some (BitVectorType w)" by (auto simp: is_bv_def)
  show ?case unfolding concat_loop.simps
  proof (rule call_bind [OF term_law [OF assms(1) c(1)]])
    fix x s' assume s': "d_bbAtoms s \<subseteq> d_bbAtoms s'" "bits_of rw s' c x"
    with c have x: "length x = w" "bool_bits (usable rw s') x" "\<And>\<sigma>. val_ok \<sigma> \<Longrightarrow> bval \<sigma> x = num (eval \<sigma> c)" by (simp_all add: bits_of_typed)
    have bits: "bool_bits (usable rw s') bits" using Cons.prems(4) usable_mono [OF s'(1)] by (auto simp: bool_bits_def bit_in_def)
    have wds: "sum_list (map (wd \<circ> eval \<sigma>) qs) = sum_list (map getSize qs)" if "val_ok \<sigma>" for \<sigma>
      using Cons.prems(2) that by (intro arg_cong [where f = sum_list] map_cong) (auto simp: is_bv_def)
    have m: "map ((!) x) [0..<getSize c] = x" using x(1) map_nth [of x] by (simp add: getSize_typed [OF c(2)])
    have "call_ok rw s' (concat_loop bb cs (bits @ x)) (\<lambda>bits s'. length bits = sum_list (map getSize (rev cs @ c # qs)) \<and>
        bool_bits (usable rw s') bits \<and> (\<forall>\<sigma>. val_ok \<sigma> \<longrightarrow> bval \<sigma> bits = cat_value (map (eval \<sigma>) (rev cs @ c # qs))))"
    proof (rule Cons.IH)
      show "length (bits @ x) = sum_list (map getSize (c # qs))" using Cons.prems(3) x(1) by (simp add: getSize_typed [OF c(2)])
      show "\<forall>\<sigma>. val_ok \<sigma> \<longrightarrow> bval \<sigma> (bits @ x) = cat_value (map (eval \<sigma>) (c # qs))"
        using Cons.prems(3,5) x(3) wds by (simp add: sem_concat_def push_bit_eq_mult)
    qed (use Cons.prems(1,2) c(2) bits x(2) in auto)
    then show "call_ok rw s' (concat_loop bb cs (bits @ map ((!) x) [0..<getSize c])) (\<lambda>bits s'. length bits = sum_list (map getSize (rev (c # cs) @ qs)) \<and>
        bool_bits (usable rw s') bits \<and> (\<forall>\<sigma>. val_ok \<sigma> \<longrightarrow> bval \<sigma> bits = cat_value (map (eval \<sigma>) (rev (c # cs) @ qs))))"
      unfolding m by simp
  qed
qed simp

lemma DefaultConcatBB:
  assumes "rewriter_ok rw" "typeOf (App BITVECTOR_CONCAT ts) = Some (BitVectorType w)" "set ts \<subseteq> T"
  shows "call_ok rw s (DefaultConcatBB (App BITVECTOR_CONCAT ts) bb) (\<lambda>bits s'. bits_of rw s' (App BITVECTOR_CONCAT ts) bits)"
proof -
  from assms(2) have ts: "\<forall>t\<in>set ts. is_bv t" "w = sum_list (map getSize ts)" by auto
  have "call_ok rw s (concat_loop bb (rev ts) []) (\<lambda>bits s'. bits_of rw s' (App BITVECTOR_CONCAT ts) bits)"
    by (rule call_mono [OF concat_loop [OF assms(1), of "rev ts" "[]"]]) (use assms(3) ts in \<open>auto simp: bits_of_typed [OF assms(2)]\<close>)
  from call_checked [OF this] show ?thesis by (simp add: DefaultConcatBB_def)
qed

end

subsection \<open>Division\<close>

lemma zero_circuit:
  assumes "bool_bits U bs" "0 < length bs"
  shows "\<exists>z. mkAnd_bbs (map (\<lambda>bi. mkIff_bb bi mkFalse) bs) = Inr z \<and> bit_in U z \<and> (\<forall>\<sigma>. val_ok \<sigma> \<longrightarrow> holds \<sigma> z = (bval \<sigma> bs = 0))"
proof -
  have "bool_bits U (map (\<lambda>bi. mkIff_bb bi mkFalse) bs)" using assms(1) by (auto simp: bool_bits_iff)
  from mkAnd_bbs_correct [OF this] assms(2) obtain z where z: "mkAnd_bbs (map (\<lambda>bi. mkIff_bb bi mkFalse) bs) = Inr z" "bit_in U z"
    "\<And>\<sigma>. holds \<sigma> z \<longleftrightarrow> (\<forall>b\<in>set bs. holds \<sigma> (mkIff_bb b mkFalse))" by auto
  have zero: "bval \<sigma> bs = 0 \<longleftrightarrow> (\<forall>b\<in>set bs. \<not> holds \<sigma> b)" for \<sigma>
    using digit_eq [of _ _ False 0] by (induction bs) simp_all
  have "holds \<sigma> (mkIff_bb b mkFalse) \<longleftrightarrow> \<not> holds \<sigma> b" if "val_ok \<sigma>" "b \<in> set bs" for b \<sigma>
    using holds_mkIff [OF that(1), of U b mkFalse] assms(1) that(2) by (simp add: bool_bits_def)
  then show ?thesis using z zero by auto
qed

lemma divide_circuit:
  assumes "length x = length y" "0 < length y" "bool_bits U x" "bool_bits U y"
  obtains q r z where "uDivModRec x y (length x) = Inr (q, r)" "mkAnd_bbs (map (\<lambda>bi. mkIff_bb bi mkFalse) y) = Inr z"
    "length (map (mkIte_bb z mkTrue) q) = length x" "length (map2 (mkIte_bb z) x r) = length x"
    "bool_bits U (map (mkIte_bb z mkTrue) q)" "bool_bits U (map2 (mkIte_bb z) x r)"
    "\<And>\<sigma>. val_ok \<sigma> \<Longrightarrow> bval \<sigma> (map (mkIte_bb z mkTrue) q) = sem_udiv (length x) (bval \<sigma> x) (bval \<sigma> y)"
    "\<And>\<sigma>. val_ok \<sigma> \<Longrightarrow> bval \<sigma> (map2 (mkIte_bb z) x r) = sem_urem (length x) (bval \<sigma> x) (bval \<sigma> y)"
proof -
  from uDivModRec_correct [OF assms, of "length x"] obtain q r where qr: "uDivModRec x y (length x) = Inr (q, r)" "length q = length x"
    "length r = length x" "bool_bits U q" "bool_bits U r"
    "\<And>\<sigma>. val_ok \<sigma> \<Longrightarrow> 0 < bval \<sigma> y \<Longrightarrow> bval \<sigma> q = bval \<sigma> x div bval \<sigma> y \<and> bval \<sigma> r = bval \<sigma> x mod bval \<sigma> y" by auto
  from zero_circuit [OF assms(4,2)] obtain z where z: "mkAnd_bbs (map (\<lambda>bi. mkIff_bb bi mkFalse) y) = Inr z" "bit_in U z"
    "\<And>\<sigma>. val_ok \<sigma> \<Longrightarrow> holds \<sigma> z = (bval \<sigma> y = 0)" by blast
  have pos: "bval \<sigma> y \<noteq> 0 \<Longrightarrow> 0 < bval \<sigma> y" for \<sigma> using bval_range(1) [of \<sigma> y] by linarith
  have "bool_bits U (map (mkIte_bb z mkTrue) q)" using qr(4) z(2) by (auto simp: bool_bits_iff)
  moreover have "bool_bits U (map2 (mkIte_bb z) x r)" using qr(3,5) assms(3) z(2) by (intro map2_gate(2)) simp_all
  moreover have "bval \<sigma> (map (mkIte_bb z mkTrue) q) = sem_udiv (length x) (bval \<sigma> x) (bval \<sigma> y)" if "val_ok \<sigma>" for \<sigma>
    using qr(2,6) z(3) pos that by (simp add: bval_ite_const sem_udiv_def mask_eq_exp_minus_1)
  moreover have "bval \<sigma> (map2 (mkIte_bb z) x r) = sem_urem (length x) (bval \<sigma> x) (bval \<sigma> y)" if "val_ok \<sigma>" for \<sigma>
    using qr(3,6) z(3) pos that by (simp add: bval_ite sem_urem_def)
  ultimately show thesis using qr z that [of q r z] by simp
qed

lemma bits_of_rewrite:
  assumes "bits_of rw s n bits" "rewriter_ok rw"
  shows "bits_of rw s (rw n) bits"
proof -
  from assms(1) obtain w where n: "typeOf n = Some (BitVectorType w)" by (auto simp: bits_of_def is_bv_def)
  with assms(2) have "equiv (rw n) n" by (auto simp: rewriter_ok_def)
  with n have "typeOf (rw n) = Some (BitVectorType w)" "\<And>\<sigma>. val_ok \<sigma> \<Longrightarrow> eval \<sigma> (rw n) = eval \<sigma> n" by (auto simp: equiv_def)
  with assms(1) n show ?thesis by (simp add: bits_of_typed)
qed

context virtual_blaster
begin

lemma divide_bb:
  assumes "rewriter_ok rw" "typeOf (App K [a, b]) = Some (BitVectorType w)" "a \<in> T" "b \<in> T" "K = BITVECTOR_UDIV_TOTAL \<or> K = BITVECTOR_UREM_TOTAL"
  shows "call_ok rw s (divide_bb (App K [a, b]) bb) (\<lambda>(q, r) s'. bits_of rw s' (App BITVECTOR_UDIV_TOTAL [a, b]) q \<and> bits_of rw s' (App BITVECTOR_UREM_TOTAL [a, b]) r)"
proof -
  from assms(2,5) have v: "typeOf a = Some (BitVectorType w)" "typeOf b = Some (BitVectorType w)" by auto
  have t: "typeOf (App BITVECTOR_UDIV_TOTAL [a, b]) = Some (BitVectorType w)" "typeOf (App BITVECTOR_UREM_TOTAL [a, b]) = Some (BitVectorType w)"
    using v by auto
  show ?thesis unfolding divide_bb_def
  proof (rule two_operands [OF assms(1,3,4) v])
    fix x y s' assume xy: "length x = w" "length y = w" "0 < w" "bool_bits (usable rw s') x" "bool_bits (usable rw s') y"
      "\<And>\<sigma>. val_ok \<sigma> \<Longrightarrow> bval \<sigma> x = num (eval \<sigma> a)" "\<And>\<sigma>. val_ok \<sigma> \<Longrightarrow> bval \<sigma> y = num (eval \<sigma> b)"
    obtain q r z where c: "uDivModRec x y w = Inr (q, r)" "mkAnd_bbs (map (\<lambda>bi. mkIff_bb bi mkFalse) y) = Inr z"
      "length (map (mkIte_bb z mkTrue) q) = w" "length (map2 (mkIte_bb z) x r) = w"
      "bool_bits (usable rw s') (map (mkIte_bb z mkTrue) q)" "bool_bits (usable rw s') (map2 (mkIte_bb z) x r)"
      "\<And>\<sigma>. val_ok \<sigma> \<Longrightarrow> bval \<sigma> (map (mkIte_bb z mkTrue) q) = sem_udiv w (bval \<sigma> x) (bval \<sigma> y)"
      "\<And>\<sigma>. val_ok \<sigma> \<Longrightarrow> bval \<sigma> (map2 (mkIte_bb z) x r) = sem_urem w (bval \<sigma> x) (bval \<sigma> y)"
      using divide_circuit [of x y "usable rw s'"] xy(1-5) by metis
    show "call_ok rw s' (bb_bind (bb_lift (uDivModRec x y (getSize (App K [a, b])))) (\<lambda>(q, r). bb_bind (bb_lift (mkAnd_bbs (map (\<lambda>bi. mkIff_bb bi mkFalse) y)))
        (\<lambda>b_is_0. bb_return (map (mkIte_bb b_is_0 mkTrue) q, map2 (mkIte_bb b_is_0) x r))))
      (\<lambda>(q, r) s'. bits_of rw s' (App BITVECTOR_UDIV_TOTAL [a, b]) q \<and> bits_of rw s' (App BITVECTOR_UREM_TOTAL [a, b]) r)"
      using c xy(6,7) v by (simp add: getSize_typed [OF assms(2)] bits_of_typed [OF t(1)] bits_of_typed [OF t(2)] del: bool_bits_map length_map)
  qed
qed

lemma DefaultUdivBB:
  assumes "rewriter_ok rw" "typeOf (App BITVECTOR_UDIV_TOTAL [a, b]) = Some (BitVectorType w)" "a \<in> T" "b \<in> T"
  shows "call_ok rw s (DefaultUdivBB rw (App BITVECTOR_UDIV_TOTAL [a, b]) bb) (\<lambda>bits s'. bits_of rw s' (App BITVECTOR_UDIV_TOTAL [a, b]) bits)"
  unfolding DefaultUdivBB_def getKind.simps bind_simps(3) [OF refl]
  by (rule call_bind [OF divide_bb [OF assms]])
    (auto intro!: call_bind [OF call_store] intro: bits_of_rewrite [OF _ assms(1)] simp: Let_def)

lemma DefaultUremBB:
  assumes "rewriter_ok rw" "typeOf (App BITVECTOR_UREM_TOTAL [a, b]) = Some (BitVectorType w)" "a \<in> T" "b \<in> T"
  shows "call_ok rw s (DefaultUremBB rw (App BITVECTOR_UREM_TOTAL [a, b]) bb) (\<lambda>bits s'. bits_of rw s' (App BITVECTOR_UREM_TOTAL [a, b]) bits)"
  unfolding DefaultUremBB_def getKind.simps bind_simps(3) [OF refl]
  by (rule call_bind [OF divide_bb [OF assms]])
    (auto intro!: call_bind [OF call_store] intro: bits_of_rewrite [OF _ assms(1)] simp: Let_def)

end

subsection \<open>Shifts\<close>

lemma log2_size_bound: "w \<le> 2 ^ log2_size w" "log2_size w \<le> w"
proof -
  have "w \<le> 2 ^ log2_size w \<and> log2_size w \<le> w"
  proof (cases "w = 0")
    case False
    have "w \<le> 2 ^ w" using less_exp [of w] by simp
    with False show ?thesis using ceillog2_le_iff [of w "ceillog2 w"] ceillog2_le_iff [of w w] by (simp add: log2_size_def)
  qed (simp add: log2_size_def)
  then show "w \<le> 2 ^ log2_size w" "log2_size w \<le> w" by auto
qed

text \<open>A vector shifted by \<open>k\<close> places, bit by bit.\<close>

definition shifted_left :: "valuation \<Rightarrow> node list \<Rightarrow> nat \<Rightarrow> node list \<Rightarrow> bool" where
  "shifted_left \<sigma> a k res \<longleftrightarrow> (\<forall>i<length a. holds \<sigma> (res ! i) \<longleftrightarrow> k \<le> i \<and> holds \<sigma> (a ! (i - k)))"

definition shifted_right :: "node \<Rightarrow> valuation \<Rightarrow> node list \<Rightarrow> nat \<Rightarrow> node list \<Rightarrow> bool" where
  "shifted_right fill \<sigma> a k res \<longleftrightarrow> (\<forall>i<length a. holds \<sigma> (res ! i) \<longleftrightarrow> (if i + k < length a then holds \<sigma> (a ! (i + k)) else holds \<sigma> fill))"

text \<open>A stage shifts by its threshold when its bit of the amount is set.\<close>

definition stage_ok :: "(node \<Rightarrow> nat \<Rightarrow> node list \<Rightarrow> node list) \<Rightarrow> (valuation \<Rightarrow> node list \<Rightarrow> nat \<Rightarrow> node list \<Rightarrow> bool) \<Rightarrow> node set \<Rightarrow> bool" where
  "stage_ok stage shifted U \<longleftrightarrow> (\<forall>\<sigma> a. shifted \<sigma> a 0 a) \<and> (\<forall>c t a res. bit_in U c \<longrightarrow> length res = length a \<longrightarrow> bool_bits U res \<longrightarrow>
     length (stage c t res) = length a \<and> bool_bits U (stage c t res) \<and>
     (\<forall>\<sigma> k. shifted \<sigma> a k res \<longrightarrow> shifted \<sigma> a (if holds \<sigma> c then k + t else k) (stage c t res)))"

lemma shl_stage_ok: "stage_ok shl_stage shifted_left U"
proof -
  have step: "length (shl_stage c t res) = length a \<and> bool_bits U (shl_stage c t res) \<and>
     (\<forall>\<sigma> k. shifted_left \<sigma> a k res \<longrightarrow> shifted_left \<sigma> a (if holds \<sigma> c then k + t else k) (shl_stage c t res))"
    if "bit_in U c" "length res = length a" "bool_bits U res" for c t res a
  proof -
    have "shifted_left \<sigma> a (if holds \<sigma> c then k + t else k) (shl_stage c t res)" if *: "shifted_left \<sigma> a k res" for \<sigma> k
      unfolding shifted_left_def
    proof (intro allI impI)
      fix i assume i: "i < length a"
      have "holds \<sigma> (res ! i) \<longleftrightarrow> k \<le> i \<and> holds \<sigma> (a ! (i - k))" using * i by (simp add: shifted_left_def)
      moreover have "holds \<sigma> (res ! (i - t)) \<longleftrightarrow> k \<le> i - t \<and> holds \<sigma> (a ! (i - t - k))" using * i by (simp add: shifted_left_def)
      moreover have "i - t - k = i - (k + t)" by simp
      ultimately show "holds \<sigma> (shl_stage c t res ! i) \<longleftrightarrow> (if holds \<sigma> c then k + t else k) \<le> i \<and> holds \<sigma> (a ! (i - (if holds \<sigma> c then k + t else k)))"
        using i \<open>length res = length a\<close> by (auto simp: shl_stage_def)
    qed
    with that show ?thesis by (auto simp: shl_stage_def bool_bits_nth)
  qed
  then show ?thesis unfolding stage_ok_def by (auto simp: shifted_left_def)
qed

lemma shr_stage_ok:
  assumes "bit_in U fill"
  shows "stage_ok (shr_stage fill) (shifted_right fill) U"
proof -
  have step: "length (shr_stage fill c t res) = length a \<and> bool_bits U (shr_stage fill c t res) \<and>
     (\<forall>\<sigma> k. shifted_right fill \<sigma> a k res \<longrightarrow> shifted_right fill \<sigma> a (if holds \<sigma> c then k + t else k) (shr_stage fill c t res))"
    if "bit_in U c" "length res = length a" "bool_bits U res" for c t res a
  proof -
    have "shifted_right fill \<sigma> a (if holds \<sigma> c then k + t else k) (shr_stage fill c t res)" if *: "shifted_right fill \<sigma> a k res" for \<sigma> k
      unfolding shifted_right_def
    proof (intro allI impI)
      fix i assume i: "i < length a"
      have 1: "holds \<sigma> (res ! i) \<longleftrightarrow> (if i + k < length a then holds \<sigma> (a ! (i + k)) else holds \<sigma> fill)" using * i by (simp add: shifted_right_def)
      have 2: "holds \<sigma> (res ! (i + t)) \<longleftrightarrow> (if i + (k + t) < length a then holds \<sigma> (a ! (i + (k + t))) else holds \<sigma> fill)" if "i + t < length a"
        using * that by (simp add: shifted_right_def ac_simps)
      show "holds \<sigma> (shr_stage fill c t res ! i) \<longleftrightarrow> (if i + (if holds \<sigma> c then k + t else k) < length a
          then holds \<sigma> (a ! (i + (if holds \<sigma> c then k + t else k))) else holds \<sigma> fill)"
        using i 1 2 \<open>length res = length a\<close> by (simp add: shr_stage_def)
    qed
    with that assms show ?thesis by (auto simp: shr_stage_def bool_bits_nth)
  qed
  then show ?thesis unfolding stage_ok_def by (auto simp: shifted_right_def)
qed

lemma barrel:
  assumes "stage_ok stage shifted U" "bool_bits U a" "bool_bits U b" "n \<le> length b"
  defines "res \<equiv> foldl (\<lambda>res s. stage (b ! s) (2 ^ s) res) a [0..<n]"
  shows "length res = length a \<and> bool_bits U res \<and> (\<forall>\<sigma>. shifted \<sigma> a (nat (take_bit n (bval \<sigma> b))) res)"
  unfolding res_def using assms(4)
proof (induction n)
  case 0
  with assms(1,2) show ?case by (simp add: stage_ok_def)
next
  case (Suc n)
  let ?r = "foldl (\<lambda>res s. stage (b ! s) (2 ^ s) res) a [0..<n]"
  have b: "bit_in U (b ! n)" using Suc.prems assms(3) by (simp add: bool_bits_nth)
  have "nat (take_bit (Suc n) (bval \<sigma> b)) = (if holds \<sigma> (b ! n) then nat (take_bit n (bval \<sigma> b)) + 2 ^ n else nat (take_bit n (bval \<sigma> b)))" for \<sigma>
    using Suc.prems by (simp add: take_bit_Suc_from_most bit_bval nat_add_distrib nat_power_eq)
  with Suc assms(1) b show ?case unfolding stage_ok_def by simp
qed

lemma bits_of_guard:
  assumes "rewriter_ok rw" "atom_known s g" "\<forall>a\<in>atoms g. rw a = a"
  shows "bit_in (usable rw s) g"
  using assms by (auto simp: atom_known_def bit_in_def usable_def)

context virtual_blaster
begin

lemma shift_bb:
  assumes "rewriter_ok rw" "typeOf (App K [a, b]) = Some (BitVectorType w)" "a \<in> T" "b \<in> T"
    "K = BITVECTOR_SHL \<or> K = BITVECTOR_LSHR \<or> K = BITVECTOR_ASHR"
    and A: "b_ult_a_size_node rw (App K [a, b]) \<in> A"
    and stage: "\<And>U x. length x = w \<Longrightarrow> bool_bits U x \<Longrightarrow> stage_ok (stage x) (shifted x) U \<and> bit_in U (fill x)"
    and sem: "\<And>\<sigma>. val_ok \<sigma> \<Longrightarrow> num (eval \<sigma> (App K [a, b])) = sem (num (eval \<sigma> a)) (num (eval \<sigma> b))"
    and below: "\<And>\<sigma> x res B i. length x = w \<Longrightarrow> 0 \<le> B \<Longrightarrow> B < int w \<Longrightarrow> shifted x \<sigma> x (nat B) res \<Longrightarrow> i < w \<Longrightarrow>
      holds \<sigma> (res ! i) \<longleftrightarrow> bit (sem (bval \<sigma> x) B) i"
    and above: "\<And>\<sigma> x B i. length x = w \<Longrightarrow> \<not> B < int w \<Longrightarrow> i < w \<Longrightarrow> holds \<sigma> (fill x) \<longleftrightarrow> bit (sem (bval \<sigma> x) B) i"
  shows "call_ok rw s (shift_bb rw fill stage (App K [a, b]) bb) (\<lambda>bits s'. bits_of rw s' (App K [a, b]) bits)"
proof -
  from assms(2,5) have v: "typeOf a = Some (BitVectorType w)" "typeOf b = Some (BitVectorType w)" by auto
  let ?g = "b_ult_a_size_node rw (App K [a, b])" and ?u = "App BITVECTOR_ULT [b, mkConst w (int w)]"
  have w: "0 < w" "w < 2147483648" using typeOf_bv_width [OF assms(2)] by simp_all
  have small: "int w < 2 ^ w" using less_exp [of w] by (metis of_nat_less_iff of_nat_numeral of_nat_power)
  have u: "typeOf ?u = Some BooleanType" using v(2) w by (simp add: isBitVector_iff)
  have g: "?g = rw ?u" by (simp add: b_ult_a_size_node_def getSize_typed [OF assms(2)])
  have eq: "equiv ?g ?u" using assms(1) u unfolding g rewriter_ok_def by blast
  have gv: "holds \<sigma> ?g \<longleftrightarrow> num (eval \<sigma> b) < int w" if "val_ok \<sigma>" for \<sigma>
  proof -
    have "holds \<sigma> ?g \<longleftrightarrow> truth (eval \<sigma> ?u)" using eq that by (simp add: equiv_def holds_def)
    then show ?thesis using small by (simp add: mkConst_def mkBitVector_def modByPow2_def take_bit_int_eq_self)
  qed
  have fixed: "\<forall>x\<in>atoms ?g. rw x = x" using assms(1) unfolding g rewriter_ok_def by blast
  show ?thesis unfolding shift_bb_def Let_def getSize_typed [OF assms(2)] getBitVectorSize.simps
  proof (rule two_operands [OF assms(1,3,4) v])
    fix x y s' assume xy: "length x = w" "length y = w" "bool_bits (usable rw s') x" "bool_bits (usable rw s') y"
      "\<And>\<sigma>. val_ok \<sigma> \<Longrightarrow> bval \<sigma> x = num (eval \<sigma> a)" "\<And>\<sigma>. val_ok \<sigma> \<Longrightarrow> bval \<sigma> y = num (eval \<sigma> b)"
    let ?res = "foldl (\<lambda>res s. stage x (y ! s) (2 ^ s) res) x [0..<log2_size w]"
    let ?bits = "map (\<lambda>i. mkIte_bb (getBBAtom ?g) (?res ! i) (fill x)) [0..<length y]"
    show "call_ok rw s' (bb_bind (bbAtom bb ?g) (\<lambda>_. bb_return ?bits)) (\<lambda>bits s'. bits_of rw s' (App K [a, b]) bits)"
    proof (rule call_bind [OF atom_law [OF assms(1) A]])
      fix s'' assume s'': "d_bbAtoms s' \<subseteq> d_bbAtoms s''" "atom_known s'' ?g"
      have bits: "bool_bits (usable rw s'') x" "bool_bits (usable rw s'') y"
        using xy(3,4) bool_bits_mono [OF usable_mono [OF s''(1)]] by blast+
      note st = stage [OF xy(1) bits(1)]
      have bar: "length ?res = w" "bool_bits (usable rw s'') ?res" "\<And>\<sigma>. shifted x \<sigma> x (nat (take_bit (log2_size w) (bval \<sigma> y))) ?res"
        using barrel [OF conjunct1 [OF st] bits] log2_size_bound(2) [of w] xy(1,2) by auto
      have gb: "bit_in (usable rw s'') ?g" by (rule bits_of_guard [OF assms(1) s''(2) fixed])
      then have wf: "bool_bits (usable rw s'') ?bits" using st bar(1,2) xy(2) by (simp add: getBBAtom_def bool_bits_nth)
      have "bval \<sigma> ?bits = num (eval \<sigma> (App K [a, b]))" if \<sigma>: "val_ok \<sigma>" for \<sigma>
        unfolding sem [OF \<sigma>]
      proof (rule bval_eqI)
        let ?A = "num (eval \<sigma> a)" and ?B = "num (eval \<sigma> b)"
        show "length ?bits = w" using xy(2) by simp
        show "take_bit w (sem ?A ?B) = sem ?A ?B" using eval_bv(6) [OF assms(2) \<sigma>] sem [OF \<sigma>] by simp
        fix i assume i: "i < w"
        have "take_bit (log2_size w) ?B = ?B" if "?B < int w"
        proof -
          have "int w \<le> 2 ^ log2_size w" using log2_size_bound(1) [of w] by (metis of_nat_le_iff of_nat_numeral of_nat_power)
          then show ?thesis using less_le_trans [OF that] eval_bv(2) [OF v(2) \<sigma>] by (intro take_bit_id)
        qed
        then show "holds \<sigma> (?bits ! i) = bit (sem ?A ?B) i"
          using i xy(2) gv [OF \<sigma>] below [OF xy(1) _ _ _ i, of ?B \<sigma> ?res] above [OF xy(1) _ i, of ?B \<sigma>] bar(3) [of \<sigma>] xy(5,6) [OF \<sigma>] eval_bv(2) [OF v(2) \<sigma>]
          by (cases "?B < int w") (simp_all add: getBBAtom_def)
      qed
      with wf xy(2) show "call_ok rw s'' (bb_return ?bits) (\<lambda>bits s'. bits_of rw s' (App K [a, b]) bits)"
        by (simp add: bits_of_typed [OF assms(2)] del: bool_bits_map eval.simps(5))
    qed
  qed
qed

lemma DefaultShlBB:
  assumes "rewriter_ok rw" "typeOf (App BITVECTOR_SHL [a, b]) = Some (BitVectorType w)" "a \<in> T" "b \<in> T"
    "b_ult_a_size_node rw (App BITVECTOR_SHL [a, b]) \<in> A"
  shows "call_ok rw s (DefaultShlBB rw (App BITVECTOR_SHL [a, b]) bb) (\<lambda>bits s'. bits_of rw s' (App BITVECTOR_SHL [a, b]) bits)"
  unfolding DefaultShlBB_def getKind.simps bind_simps(3) [OF refl]
proof (rule shift_bb [OF assms(1-4) _ assms(5), where shifted = "\<lambda>_. shifted_left" and sem = "sem_shl w"])
  show "stage_ok shl_stage shifted_left U \<and> bit_in U mkFalse" for U using shl_stage_ok by simp
qed (use assms(2) in \<open>auto simp: sem_shl_def shifted_left_def bit_simps bit_bval nat_le_iff\<close>)

lemma DefaultLshrBB:
  assumes "rewriter_ok rw" "typeOf (App BITVECTOR_LSHR [a, b]) = Some (BitVectorType w)" "a \<in> T" "b \<in> T"
    "b_ult_a_size_node rw (App BITVECTOR_LSHR [a, b]) \<in> A"
  shows "call_ok rw s (DefaultLshrBB rw (App BITVECTOR_LSHR [a, b]) bb) (\<lambda>bits s'. bits_of rw s' (App BITVECTOR_LSHR [a, b]) bits)"
  unfolding DefaultLshrBB_def getKind.simps bind_simps(3) [OF refl]
proof (rule shift_bb [OF assms(1-4) _ assms(5), where shifted = "\<lambda>_. shifted_right mkFalse" and sem = "sem_lshr w"])
  show "stage_ok (shr_stage mkFalse) (shifted_right mkFalse) U \<and> bit_in U mkFalse" for U using shr_stage_ok [of U mkFalse] by simp
qed (use assms(2) in \<open>auto simp: sem_lshr_def shifted_right_def bit_simps bit_bval add.commute\<close>)

lemma DefaultAshrBB:
  assumes "rewriter_ok rw" "typeOf (App BITVECTOR_ASHR [a, b]) = Some (BitVectorType w)" "a \<in> T" "b \<in> T"
    "b_ult_a_size_node rw (App BITVECTOR_ASHR [a, b]) \<in> A"
  shows "call_ok rw s (DefaultAshrBB rw (App BITVECTOR_ASHR [a, b]) bb) (\<lambda>bits s'. bits_of rw s' (App BITVECTOR_ASHR [a, b]) bits)"
  unfolding DefaultAshrBB_def getKind.simps bind_simps(3) [OF refl]
proof (rule shift_bb [OF assms(1-4) _ assms(5), where shifted = "\<lambda>x. shifted_right (last x)" and sem = "sem_ashr w"])
  have w: "0 < w" using typeOf_bv_width [OF assms(2)] by simp
  show "stage_ok (shr_stage (last x)) (shifted_right (last x)) U \<and> bit_in U (last x)" if "length x = w" "bool_bits U x" for U x
  proof -
    have "last x \<in> set x" using that w by auto
    then have "bit_in U (last x)" using that(2) by (auto simp: bool_bits_def)
    then show ?thesis using shr_stage_ok by blast
  qed
  have last: "holds \<sigma> (last x) = bit (bval \<sigma> x) (w - 1)" if "length x = w" for x \<sigma> using that w by (auto simp: bit_bval last_conv_nth)
  show "holds \<sigma> (res ! i) \<longleftrightarrow> bit (sem_ashr w (bval \<sigma> x) B) i"
    if "length x = w" "0 \<le> B" "B < int w" "shifted_right (last x) \<sigma> x (nat B) res" "i < w" for \<sigma> x res B i
  proof -
    have top: "holds \<sigma> (x ! j) = holds \<sigma> (last x)" if "w - Suc 0 \<le> j" "j < w" for j
    proof -
      have "j = length x - 1" using that \<open>length x = w\<close> by simp
      moreover have "x \<noteq> []" using w \<open>length x = w\<close> by auto
      ultimately show ?thesis by (simp add: last_conv_nth)
    qed
    show ?thesis using that w last [OF that(1), of \<sigma>]
      by (auto simp: sem_ashr_def sval_def shifted_right_def bit_simps bit_bval min_def add.commute, (metis top)+)
  qed
  show "holds \<sigma> (last x) \<longleftrightarrow> bit (sem_ashr w (bval \<sigma> x) B) i" if "length x = w" "\<not> B < int w" "i < w" for \<sigma> x B i
    using that w last [OF that(1), of \<sigma>] by (auto simp: sem_ashr_def sval_def bit_simps)
qed (use assms(2) in auto)

end

end
