(* ===== verification/Bitblaster_Eager.thy ===== *)
theory Bitblaster_Eager
  imports Bitblaster_Correct
begin

section \<open>The eager bit-blaster is correct\<close>

text \<open>
  The atom strategies, the dispatch and the two virtual functions of \<open>EagerBitblaster\<close>, which make the locale
  \<open>virtual_blaster\<close> hold at every depth of calls. The theorems follow: bit-blasting a term yields bits that denote it,
  and the formulas given to the SAT solver are satisfied by a truth assignment exactly when it comes from a valuation of
  the bit-vector variables.
\<close>

subsection \<open>What the bit-blaster accepts\<close>

text \<open>The kinds with a strategy; the others are eliminated by the rewriter before.\<close>

definition bb_kind :: "kind \<Rightarrow> bool" where
  "bb_kind k \<longleftrightarrow> k \<in> {BITVECTOR_NOT, BITVECTOR_CONCAT, BITVECTOR_AND, BITVECTOR_OR, BITVECTOR_XOR, BITVECTOR_XNOR, BITVECTOR_COMP,
     BITVECTOR_MULT, BITVECTOR_PLUS, BITVECTOR_SUB, BITVECTOR_NEG, BITVECTOR_UDIV_TOTAL, BITVECTOR_UREM_TOTAL,
     BITVECTOR_SHL, BITVECTOR_LSHR, BITVECTOR_ASHR, BITVECTOR_ULTBV, BITVECTOR_SLTBV, BITVECTOR_ITE} \<or> is_EXTRACT k \<or> is_SIGN_EXTEND k"

definition shift_kind :: "kind \<Rightarrow> bool" where
  "shift_kind k \<longleftrightarrow> k \<in> {BITVECTOR_SHL, BITVECTOR_LSHR, BITVECTOR_ASHR}"

definition strip_not :: "node \<Rightarrow> node" where
  "strip_not g = (if getKind g = NOT_K then child g 0 else g)"

text \<open>A term, when the terms in \<open>T\<close> and the atoms in \<open>A\<close> are accepted by the calls below.\<close>

definition accepts_term :: "(node \<Rightarrow> node) \<Rightarrow> node set \<Rightarrow> node set \<Rightarrow> node \<Rightarrow> bool" where
  "accepts_term rewrite T A n \<longleftrightarrow> is_bv n \<and> (case n of
       Var v ty \<Rightarrow> True | ConstBV b \<Rightarrow> True
     | App k ts \<Rightarrow> bb_kind k \<and> set ts \<subseteq> T \<and> (shift_kind k \<longrightarrow> b_ult_a_size_node rewrite n \<in> A)
     | _ \<Rightarrow> False)"

text \<open>An atom or its negation; what is bit-blasted is its normal form.\<close>

definition accepts_atom :: "(node \<Rightarrow> node) \<Rightarrow> node set \<Rightarrow> node \<Rightarrow> bool" where
  "accepts_atom rewrite T g \<longleftrightarrow> typeOf g = Some BooleanType \<and> (let a = strip_not g in
     a \<in> bit_atoms \<or> getKind a = CONST_BOOLEAN \<or>
     atoms a = {a} \<and> \<not> is_BITOF (getKind a) \<and> (case rewrite a of
         ConstBool b \<Rightarrow> True
       | App k [x, y] \<Rightarrow> k \<in> {EQUAL, BITVECTOR_ULT, BITVECTOR_ULE, BITVECTOR_SLT, BITVECTOR_SLE} \<and> x \<in> T \<and> y \<in> T \<and> is_bv x
       | _ \<Rightarrow> False))"

text \<open>The terms and atoms whose bit-blasting needs calls of depth less than \<open>d\<close>.\<close>

fun accepted :: "(node \<Rightarrow> node) \<Rightarrow> nat \<Rightarrow> node set \<times> node set" where
  "accepted rewrite 0 = ({}, {})"
| "accepted rewrite (Suc d) = (let (T, A) = accepted rewrite d in ({n. accepts_term rewrite T A n}, {g. accepts_atom rewrite T g}))"

subsection \<open>Atoms\<close>

text \<open>A circuit with one output that decides a relation of its inputs.\<close>

definition decides :: "(node list \<Rightarrow> node list \<Rightarrow> node result) \<Rightarrow> (nat \<Rightarrow> int \<Rightarrow> int \<Rightarrow> bool) \<Rightarrow> bool" where
  "decides c P \<longleftrightarrow> (\<forall>U x y. length x = length y \<longrightarrow> 0 < length x \<longrightarrow> bool_bits U x \<longrightarrow> bool_bits U y \<longrightarrow>
     (\<exists>f. c x y = Inr f \<and> bit_in U f \<and> (\<forall>\<sigma>. val_ok \<sigma> \<longrightarrow> holds \<sigma> f = P (length x) (bval \<sigma> x) (bval \<sigma> y))))"

lemma comparison_circuits:
  "decides (\<lambda>x y. mkAnd_bbs (map2 mkIff_bb x y)) (\<lambda>w. (=))"
  "decides (\<lambda>x y. uLessThanBB x y False) (\<lambda>w. (<))" "decides (\<lambda>x y. uLessThanBB x y True) (\<lambda>w. (\<le>))"
  "decides (\<lambda>x y. sLessThanBB x y False) sem_slt" "decides (\<lambda>x y. sLessThanBB x y True) sem_sle"
  unfolding decides_def
  using equality_circuit uLessThanBB_correct [where e = False] uLessThanBB_correct [where e = True]
    sLessThanBB_correct [where e = False] sLessThanBB_correct [where e = True] by (simp_all, metis+)

lemma call_cong: "m s = m' s \<Longrightarrow> call_ok rw s m P \<longleftrightarrow> call_ok rw s m' P"
  by (simp add: call_ok_def)

context virtual_blaster
begin

lemma atom_strategies:
  assumes "rewriter_ok rw" "k \<in> {EQUAL, BITVECTOR_ULT, BITVECTOR_ULE, BITVECTOR_SLT, BITVECTOR_SLE}" "typeOf (App k [a, b]) = Some BooleanType"
    "a \<in> T" "b \<in> T" "is_bv a"
  shows "call_ok rw s (d_atomBBStrategies k (App k [a, b]) bb) (\<lambda>f s'. bit_in (usable rw s') f \<and> equiv f (App k [a, b]))"
proof -
  from assms(2,3,6) obtain w where v: "typeOf a = Some (BitVectorType w)" "typeOf b = Some (BitVectorType w)"
    by (auto simp: is_bv_def isBitVector_iff leastCommonTypeNode_def split: if_splits)
  have eqv: "equiv f (App k [a, b])" if "bit_in (usable rw s') f" "\<And>\<sigma>. val_ok \<sigma> \<Longrightarrow> holds \<sigma> f \<longleftrightarrow> truth (eval \<sigma> (App k [a, b]))" for f s'
    using that assms(3) by (intro equiv_boolI) (auto simp: bit_in_def)
  have main: "call_ok rw s (bb_operands bb (App k [a, b]) (\<lambda>x y. bb_bind (bb_assert (length x = length y)) (\<lambda>_. bb_lift (c x y))))
      (\<lambda>f s'. bit_in (usable rw s') f \<and> equiv f (App k [a, b]))"
    if c: "decides c P" and P: "\<And>\<sigma>. val_ok \<sigma> \<Longrightarrow> truth (eval \<sigma> (App k [a, b])) = P w (num (eval \<sigma> a)) (num (eval \<sigma> b))" for c P
  proof (rule two_operands [OF assms(1,4,5) v])
    fix x y s' assume xy: "length x = w" "length y = w" "0 < w" "bool_bits (usable rw s') x" "bool_bits (usable rw s') y"
      "\<And>\<sigma>. val_ok \<sigma> \<Longrightarrow> bval \<sigma> x = num (eval \<sigma> a)" "\<And>\<sigma>. val_ok \<sigma> \<Longrightarrow> bval \<sigma> y = num (eval \<sigma> b)"
    from c xy(1-5) obtain f where f: "c x y = Inr f" "bit_in (usable rw s') f" "\<forall>\<sigma>. val_ok \<sigma> \<longrightarrow> holds \<sigma> f = P (length x) (bval \<sigma> x) (bval \<sigma> y)"
      unfolding decides_def by metis
    then show "call_ok rw s' (bb_bind (bb_assert (length x = length y)) (\<lambda>_. bb_lift (c x y))) (\<lambda>f s'. bit_in (usable rw s') f \<and> equiv f (App k [a, b]))"
      using xy eqv [OF f(2)] P by (simp add: bb_lift_Inr del: eval.simps(5))
  qed
  from assms(2) consider "k = EQUAL" | "k = BITVECTOR_ULT" | "k = BITVECTOR_ULE" | "k = BITVECTOR_SLT" | "k = BITVECTOR_SLE" by auto
  then show ?thesis
  proof cases
    case 1
    with main [OF comparison_circuits(1)] v show ?thesis by (simp add: d_atomBBStrategies_def DefaultEqBB_def)
  next
    case 2
    with main [OF comparison_circuits(2)] v show ?thesis by (simp add: d_atomBBStrategies_def DefaultUltBB_def)
  next
    case 3
    with main [OF comparison_circuits(3)] v show ?thesis by (simp add: d_atomBBStrategies_def DefaultUleBB_def)
  next
    case 4
    with main [OF comparison_circuits(4)] v show ?thesis by (simp add: d_atomBBStrategies_def DefaultSltBB_def)
  next
    case 5
    with main [OF comparison_circuits(5)] v show ?thesis by (simp add: d_atomBBStrategies_def DefaultSleBB_def)
  qed
qed

subsection \<open>Dispatch\<close>

lemma term_strategies:
  assumes "rewriter_ok rw" "accepts_term rw T A n"
  shows "call_ok rw s (d_termBBStrategies rw (getKind n) n bb) (\<lambda>bits s'. bits_of rw s' n bits)"
proof -
  from assms(2) obtain w where t: "typeOf n = Some (BitVectorType w)" by (auto simp: accepts_term_def is_bv_def)
  show ?thesis
  proof (cases n)
    case (App k ts)
    with assms(2) t have k: "bb_kind k" "set ts \<subseteq> T" "shift_kind k \<Longrightarrow> b_ult_a_size_node rw (App k ts) \<in> A" "typeOf (App k ts) = Some (BitVectorType w)"
      by (auto simp: accepts_term_def)
    show ?thesis
    proof (cases "ac_kind k")
      case True
      from nary_strategies [OF assms(1) True k(4,2)] App show ?thesis by simp
    next
      case False
      with k(1) consider "k = BITVECTOR_NOT" | "k = BITVECTOR_CONCAT" | "k = BITVECTOR_XNOR" | "k = BITVECTOR_COMP" | "k = BITVECTOR_SUB"
        | "k = BITVECTOR_NEG" | "k = BITVECTOR_UDIV_TOTAL" | "k = BITVECTOR_UREM_TOTAL" | "k = BITVECTOR_SHL" | "k = BITVECTOR_LSHR"
        | "k = BITVECTOR_ASHR" | "k = BITVECTOR_ULTBV" | "k = BITVECTOR_SLTBV" | "k = BITVECTOR_ITE"
        | (slice) high low where "k = BITVECTOR_EXTRACT high low" | (sext) i where "k = BITVECTOR_SIGN_EXTEND i"
        by (auto simp: bb_kind_def ac_kind_def)
      then show ?thesis
      proof cases
        case 2
        with DefaultConcatBB [OF assms(1), of ts w] k(2,4) App show ?thesis by (simp add: d_termBBStrategies_def)
      next
        case slice
        moreover from this k(4) obtain a where "ts = [a]" by auto
        ultimately show ?thesis using DefaultExtractBB [OF assms(1), of high low _ w] k(2,4) App by (simp add: d_termBBStrategies_def)
      next
        case sext
        moreover from this k(4) obtain a where "ts = [a]" by auto
        ultimately show ?thesis using DefaultSignExtendBB [OF assms(1), of i _ w] k(2,4) App by (simp add: d_termBBStrategies_def)
      qed (use k App in \<open>auto simp: d_termBBStrategies_def shift_kind_def
        intro: DefaultNotBB [OF assms(1)] DefaultXnorBB [OF assms(1)] DefaultCompBB [OF assms(1)] DefaultSubBB [OF assms(1)]
          DefaultNegBB [OF assms(1)] DefaultUdivBB [OF assms(1)] DefaultUremBB [OF assms(1)] DefaultShlBB [OF assms(1)]
          DefaultLshrBB [OF assms(1)] DefaultAshrBB [OF assms(1)] bv_comparisons [OF assms(1)] DefaultIteBB [OF assms(1)]\<close>)
    qed
  next
    case (Var v ty)
    with t DefaultVarBB [OF assms(1), of w s v bb] show ?thesis by (auto simp: d_termBBStrategies_def split: if_splits)
  next
    case (ConstBV b)
    with t DefaultConstBB [of b w rw s bb] show ?thesis by (simp add: d_termBBStrategies_def)
  qed (use assms(2) in \<open>simp_all add: accepts_term_def\<close>)
qed

end

subsection \<open>The virtual functions\<close>

lemma rewriter_okD:
  "rewriter_ok rw \<Longrightarrow> typeOf n = Some ty \<Longrightarrow> equiv (rw n) n"
  "rewriter_ok rw \<Longrightarrow> typeOf n = Some BooleanType \<Longrightarrow> (\<And>a. a \<in> atoms n \<Longrightarrow> rw a = a) \<Longrightarrow> atoms (rw n) \<subseteq> atoms n"
  unfolding rewriter_ok_def by metis+

lemma definitional_atoms: "definitional fs \<Longrightarrow> a \<in> defined fs \<Longrightarrow> atoms a = {a} \<and> typeOf a = Some BooleanType"
  by (induction fs rule: definitional.induct) auto

lemma bit_atoms_atoms: "a \<in> bit_atoms \<Longrightarrow> atoms a = {a}"
  by (auto simp: bit_atoms_def connective_def)

context virtual_blaster
begin

lemma Eager_bbTerm:
  assumes "rewriter_ok rw" "accepts_term rw T A n"
  shows "call_ok rw s (Eager_bbTerm rw bb n) (\<lambda>bits s'. bits_of rw s' n bits)"
proof -
  from assms(2) have n: "is_bv n" by (simp add: accepts_term_def)
  show ?thesis
  proof (cases "hasBBTerm s n")
    case True
    with n have "Eager_bbTerm rw bb n s = Some (Inr (the (d_termCache s n), s))"
      by (simp add: Eager_bbTerm_def getBBTerm_def bb_return_def)
    moreover have "bits_of rw s n (the (d_termCache s n))" if "bb_inv rw s" using that True by (auto simp: bb_inv_def hasBBTerm_def)
    ultimately show ?thesis by (simp add: call_ok_def)
  next
    case False
    let ?m = "bb_bind (d_termBBStrategies rw (getKind n) n bb) (\<lambda>bits. bb_bind (bb_assert (length bits = getSize n)) (\<lambda>_.
       bb_bind (storeBBTerm n bits) (\<lambda>_. bb_return bits)))"
    have "call_ok rw s ?m (\<lambda>bits s'. bits_of rw s' n bits)"
    proof (rule call_bind [OF term_strategies [OF assms]])
      fix bits s' assume b: "bits_of rw s' n bits"
      then have "length bits = getSize n" by (simp add: bits_of_def)
      moreover have "call_ok rw s' (bb_bind (storeBBTerm n bits) (\<lambda>_. bb_return bits)) (\<lambda>bits s'. bits_of rw s' n bits)"
        by (rule call_bind [OF call_store]) (use b in auto)
      ultimately show "call_ok rw s' (bb_bind (bb_assert (length bits = getSize n)) (\<lambda>_. bb_bind (storeBBTerm n bits) (\<lambda>_. bb_return bits)))
        (\<lambda>bits s'. bits_of rw s' n bits)" by simp
    qed
    moreover have "Eager_bbTerm rw bb n s = ?m s" using n False by (simp add: Eager_bbTerm_def)
    ultimately show ?thesis using call_cong by blast
  qed
qed

text \<open>The definition that \<open>bbAtom\<close> stores keeps the invariant.\<close>

lemma store_definition:
  assumes "rewriter_ok rw" "typeOf a = Some BooleanType" "atoms a = {a}" "equiv f a" "bit_in (usable rw s) f"
  shows "call_ok rw s (bb_bind (storeBBAtom a (rw f)) (\<lambda>_. convertAndAssert (App EQUAL [a, rw f]))) (\<lambda>_ s'. a \<in> d_bbAtoms s')"
proof -
  let ?s = "s\<lparr>d_bbAtoms := insert a (d_bbAtoms s), d_cnfStream := App EQUAL [a, rw f] # d_cnfStream s\<rparr>"
  have f: "typeOf f = Some BooleanType" "atoms f \<subseteq> usable rw s" using assms(5) by (auto simp: bit_in_def)
  have r: "equiv (rw f) f" "atoms (rw f) \<subseteq> atoms f"
  proof -
    show "equiv (rw f) f" by (rule rewriter_okD(1) [OF assms(1) f(1)])
    have "rw x = x" if "x \<in> atoms f" for x using that f(2) by (auto simp: usable_def)
    then show "atoms (rw f) \<subseteq> atoms f" by (rule rewriter_okD(2) [OF assms(1) f(1)])
  qed
  have "bb_inv rw ?s" if inv: "bb_inv rw s"
  proof -
    have "atoms (rw f) \<subseteq> bit_atoms \<union> defined (d_cnfStream s)" using r(2) f(2) inv by (auto simp: usable_def bb_inv_def)
    moreover have "bits_of rw ?s n bits" if "d_termCache s n = Some bits" for n bits
    proof (rule bits_of_mono)
      show "bits_of rw s n bits" using inv that by (simp add: bb_inv_def)
    qed auto
    ultimately show ?thesis using inv assms(2,3) equiv_trans [OF r(1) assms(4)] by (simp add: bb_inv_def)
  qed
  then show ?thesis by (auto simp: call_ok_def bb_bind_def storeBBAtom_def convertAndAssert_def asserts_more_def)
qed

lemma Eager_bbAtom:
  assumes "rewriter_ok rw" "accepts_atom rw T g"
  shows "call_ok rw s (Eager_bbAtom rw bb g) (\<lambda>_ s'. atom_known s' g)"
proof -
  let ?a = "strip_not g"
  from assms(2) have g: "typeOf g = Some BooleanType" by (simp add: accepts_atom_def)
  have strip: "atoms g = atoms ?a" "typeOf ?a = Some BooleanType"
    using g by (cases g; auto simp: strip_not_def connective_def)+
  show ?thesis
  proof (cases "is_BITOF (getKind ?a) \<or> getKind ?a = CONST_BOOLEAN \<or> hasBBAtom s ?a")
    case True
    then have "Eager_bbAtom rw bb g s = Some (Inr ((), s))" by (simp add: Eager_bbAtom_def strip_not_def Let_def)
    moreover have "atoms ?a \<subseteq> bit_atoms \<union> d_bbAtoms s" if "bb_inv rw s"
    proof -
      from True assms(2) consider "?a \<in> bit_atoms" | "getKind ?a = CONST_BOOLEAN" | "?a \<in> d_bbAtoms s"
        by (auto simp: accepts_atom_def Let_def hasBBAtom_def)
      then show ?thesis
      proof cases
        case 2
        with strip(2) show ?thesis by (cases ?a) auto
      next
        case 3
        with that definitional_atoms show ?thesis by (auto simp: bb_inv_def)
      qed (simp add: bit_atoms_atoms)
    qed
    ultimately show ?thesis using g strip by (simp add: call_ok_def atom_known_def)
  next
    case False
    with assms(2) have a: "atoms ?a = {?a}" by (auto simp: accepts_atom_def Let_def bit_atoms_def)
    have eq: "equiv (rw ?a) ?a" by (rule rewriter_okD(1) [OF assms(1) strip(2)])
    then have t: "typeOf (rw ?a) = Some BooleanType" using strip(2) by (simp add: equiv_def)
    let ?n = "rw ?a"
    let ?body = "if getKind ?n \<noteq> CONST_BOOLEAN then d_atomBBStrategies (getKind ?n) ?n bb else bb_return ?n"
    have body: "call_ok rw s ?body (\<lambda>f s'. bit_in (usable rw s') f \<and> equiv f ?n)"
    proof (cases ?n)
      case (ConstBool b)
      then show ?thesis by (simp add: bit_in_def)
    next
      case (App k ts)
      with assms(2) False obtain x y where k: "ts = [x, y]" "k \<in> {EQUAL, BITVECTOR_ULT, BITVECTOR_ULE, BITVECTOR_SLT, BITVECTOR_SLE}" "x \<in> T" "y \<in> T" "is_bv x"
        by (auto simp: accepts_atom_def Let_def bit_atoms_def split: list.splits)
      with App t have "call_ok rw s (d_atomBBStrategies k (App k [x, y]) bb) (\<lambda>f s'. bit_in (usable rw s') f \<and> equiv f (App k [x, y]))"
        by (intro atom_strategies [OF assms(1)]) simp_all
      with App k show ?thesis by auto
    qed (use assms(2) False in \<open>auto simp: accepts_atom_def Let_def bit_atoms_def\<close>)
    have "call_ok rw s (bb_bind ?body (\<lambda>f. bb_bind (storeBBAtom ?a (rw f)) (\<lambda>_. convertAndAssert (App EQUAL [?a, rw f])))) (\<lambda>_ s'. atom_known s' g)"
    proof (rule call_bind [OF body])
      fix f s' assume f: "bit_in (usable rw s') f \<and> equiv f ?n"
      show "call_ok rw s' (bb_bind (storeBBAtom ?a (rw f)) (\<lambda>_. convertAndAssert (App EQUAL [?a, rw f]))) (\<lambda>_ s'. atom_known s' g)"
        by (rule call_mono [OF store_definition [OF assms(1) strip(2) a]])
          (use f g a strip equiv_trans [OF _ eq] in \<open>auto simp: atom_known_def\<close>)
    qed
    moreover have "Eager_bbAtom rw bb g s = bb_bind ?body (\<lambda>f. bb_bind (storeBBAtom ?a (rw f)) (\<lambda>_. convertAndAssert (App EQUAL [?a, rw f]))) s"
      using False by (simp add: Eager_bbAtom_def strip_not_def Let_def)
    ultimately show ?thesis using call_cong by blast
  qed
qed

text \<open>One level of calls further, the contract holds again.\<close>

lemma next_level:
  "virtual_blaster rw \<lparr>bbTerm = Eager_bbTerm rw bb, bbAtom = Eager_bbAtom rw bb\<rparr> {n. accepts_term rw T A n} {g. accepts_atom rw T g}"
  by unfold_locales (simp_all add: Eager_bbTerm Eager_bbAtom)

end

lemma EagerBitblaster_contract:
  "virtual_blaster rewrite (EagerBitblaster rewrite d) (fst (accepted rewrite d)) (snd (accepted rewrite d))"
proof (induction d)
  case 0
  show ?case by unfold_locales simp_all
next
  case (Suc d)
  from virtual_blaster.next_level [OF this] show ?case by (simp add: Let_def case_prod_beta)
qed

interpretation eager: virtual_blaster rewrite "EagerBitblaster rewrite d" "fst (accepted rewrite d)" "snd (accepted rewrite d)"
  for rewrite d
  by (rule EagerBitblaster_contract)

subsection \<open>The depth of calls\<close>

lemma accepted_mono: "d \<le> d' \<Longrightarrow> fst (accepted rw d) \<subseteq> fst (accepted rw d') \<and> snd (accepted rw d) \<subseteq> snd (accepted rw d')"
proof -
  have step: "fst (accepted rw d) \<subseteq> fst (accepted rw (Suc d)) \<and> snd (accepted rw d) \<subseteq> snd (accepted rw (Suc d))" for d
  proof (induction d)
    case (Suc d)
    have "accepts_term rw T A n \<Longrightarrow> T \<subseteq> T' \<Longrightarrow> A \<subseteq> A' \<Longrightarrow> accepts_term rw T' A' n" for T A T' A' n
      by (auto simp: accepts_term_def split: node.splits)
    moreover have "accepts_atom rw T g \<Longrightarrow> T \<subseteq> T' \<Longrightarrow> accepts_atom rw T' g" for T T' g
      by (auto simp: accepts_atom_def Let_def split: node.splits list.splits)
    ultimately show ?case using Suc by (auto simp: case_prod_beta Let_def)
  qed simp
  show "d \<le> d' \<Longrightarrow> fst (accepted rw d) \<subseteq> fst (accepted rw d') \<and> snd (accepted rw d) \<subseteq> snd (accepted rw d')"
    by (induction rule: dec_induct) (use step in blast)+
qed

text \<open>Terms over the kinds with a strategy; the guards of their shifts need a depth \<open>e\<close>.\<close>

fun blastable :: "(node \<Rightarrow> node) \<Rightarrow> nat \<Rightarrow> node \<Rightarrow> bool" where
  "blastable rewrite e (App k ts) \<longleftrightarrow> is_bv (App k ts) \<and> bb_kind k \<and> (\<forall>t\<in>set ts. blastable rewrite e t) \<and>
     (shift_kind k \<longrightarrow> b_ult_a_size_node rewrite (App k ts) \<in> snd (accepted rewrite e))"
| "blastable rewrite e (Var v ty) \<longleftrightarrow> is_bv (Var v ty)"
| "blastable rewrite e (ConstBV b) \<longleftrightarrow> is_bv (ConstBV b)"
| "blastable rewrite e n \<longleftrightarrow> False"

lemma blastable_accepted: "blastable rw e n \<Longrightarrow> n \<in> fst (accepted rw (Suc (e + size n)))"
proof (induction n)
  case (App k ts)
  let ?d = "e + size (App k ts)"
  have "t \<in> fst (accepted rw ?d)" if "t \<in> set ts" for t
  proof -
    have "size t < size (App k ts)" using that size_list_estimation' [of t ts _ size] by (simp add: less_Suc_eq_le)
    then have "Suc (e + size t) \<le> ?d" by simp
    with App that show ?thesis using accepted_mono [of "Suc (e + size t)" ?d rw] by auto
  qed
  moreover have "shift_kind k \<longrightarrow> b_ult_a_size_node rw (App k ts) \<in> snd (accepted rw ?d)"
    using App.prems accepted_mono [of e ?d rw] by auto
  ultimately show ?case using App.prems by (auto simp: accepts_term_def case_prod_beta Let_def simp del: size_list_def node.size)
qed (auto simp: accepts_term_def case_prod_beta Let_def)

subsection \<open>What the SAT solver sees\<close>

text \<open>The value of a formula under a truth assignment to its atoms.\<close>

fun sat_value :: "(node \<Rightarrow> bool) \<Rightarrow> node \<Rightarrow> bool" where
  "sat_value \<beta> (App k ts) = (if connective k ts then truth (op_value k (map (\<lambda>t. VBool (sat_value \<beta> t)) ts)) else \<beta> (App k ts))"
| "sat_value \<beta> (ConstBool b) = b"
| "sat_value \<beta> n = \<beta> n"

lemma connective_types:
  assumes "typeOf (App k ts) = Some BooleanType" "connective k ts" "t \<in> set ts"
  shows "typeOf t = Some BooleanType"
proof -
  have "\<forall>t\<in>set ts. typeOf t = Some BooleanType" if "map typeOf ts = map Some tys" "\<forall>ty\<in>set tys. ty = BooleanType" for tys
    using that by (metis image_iff list.set_map)
  then show ?thesis using assms unfolding typeOf_App
    by (auto simp: connective_def BooleanTypeRule_def leastCommonTypeNode_def EqualityTypeRule_def IteTypeRule_def Let_def
      length_Suc_conv numeral_eq_Suc split: if_splits)
qed

lemma sat_value_eval:
  assumes "typeOf n = Some BooleanType" "val_ok \<sigma>" "\<And>a. a \<in> atoms n \<Longrightarrow> \<beta> a = truth (eval \<sigma> a)"
  shows "sat_value \<beta> n = truth (eval \<sigma> n)"
  using assms(1,3)
proof (induction n)
  case (App k ts)
  show ?case
  proof (cases "connective k ts")
    case True
    have "VBool (sat_value \<beta> t) = eval \<sigma> t" if "t \<in> set ts" for t
    proof -
      have t: "typeOf t = Some BooleanType" by (rule connective_types [OF App.prems(1) True that])
      with App True that have "sat_value \<beta> t = truth (eval \<sigma> t)" by auto
      then show ?thesis using t assms(2) by simp
    qed
    then have "map (\<lambda>t. VBool (sat_value \<beta> t)) ts = map (eval \<sigma>) ts" by simp
    with True show ?thesis by (simp del: map_eq_conv)
  next
    case False
    with App.prems(2) show ?thesis by simp
  qed
qed auto

lemma atoms_size: "a \<in> atoms n \<Longrightarrow> size a \<le> size n"
proof (induction n)
  case (App k ts)
  have "size t < size (App k ts)" if "t \<in> set ts" for t using that size_list_estimation' [of t ts _ size] by (simp add: less_Suc_eq_le)
  with App show ?case by (fastforce split: if_splits)
qed auto

lemma sat_value_atom: "atoms a = {a} \<Longrightarrow> sat_value \<beta> a = \<beta> a"
proof (cases a)
  case (App k ts)
  assume a: "atoms a = {a}"
  have "\<not> connective k ts"
  proof
    assume "connective k ts"
    with a App obtain t where t: "t \<in> set ts" "App k ts \<in> atoms t" by auto
    from atoms_size [OF t(2)] size_list_estimation' [of t ts _ size] t(1) show False by (simp add: less_Suc_eq_le) fastforce
  qed
  with App show ?thesis by simp
qed auto

text \<open>The valuation that an assignment to the bits of the variables stands for.\<close>

definition sat_valuation :: "(node \<Rightarrow> bool) \<Rightarrow> valuation" where
  "sat_valuation \<beta> v ty = (case ty of
       BooleanType \<Rightarrow> VBool (\<beta> (Var v ty)) | IntegerType \<Rightarrow> VInt 0
     | BitVectorType w \<Rightarrow> VBV w (horner_sum of_bool 2 (map (\<lambda>i. \<beta> (mkBitOf (Var v ty) i)) [0..<w])))"

lemma sat_valuation_ok [simp]: "val_ok (sat_valuation \<beta>)"
  using horner_sum_bound [of "map _ [0..<_]"] by (auto simp: val_ok_def sat_valuation_def horner_sum_nonnegative split: ntype.splits)

lemma sat_valuation_bits: "a \<in> bit_atoms \<Longrightarrow> \<beta> a = truth (eval (sat_valuation \<beta>) a)"
  by (auto simp: bit_atoms_def sat_valuation_def bit_horner_sum_bit_iff util_defs)

lemma definitions_force_atoms:
  assumes "definitional fs" "\<forall>f\<in>set fs. sat_value \<beta> f" "a \<in> bit_atoms \<union> defined fs"
  shows "\<beta> a = truth (eval (sat_valuation \<beta>) a)"
  using assms
proof (induction fs arbitrary: a rule: definitional.induct)
  case 1
  then show ?case using sat_valuation_bits by simp
next
  case (2 b d fs)
  let ?\<sigma> = "sat_valuation \<beta>"
  have IH: "\<beta> x = truth (eval ?\<sigma> x)" if "x \<in> bit_atoms \<union> defined fs" for x using 2 that by auto
  from 2(2) have b: "typeOf b = Some BooleanType" "atoms b = {b}" "equiv d b" "atoms d \<subseteq> bit_atoms \<union> defined fs" by auto
  then have d: "typeOf d = Some BooleanType" by (simp add: equiv_def)
  have "sat_value \<beta> d = truth (eval ?\<sigma> d)" by (rule sat_value_eval [OF d]) (use b(4) IH in auto)
  also have "\<dots> = truth (eval ?\<sigma> b)" using b(3) by (simp add: equiv_def)
  finally have "sat_value \<beta> d = truth (eval ?\<sigma> b)" .
  moreover have "sat_value \<beta> (App EQUAL [b, d])" by (rule bspec [OF 2(3)]) (rule list.set_intros)
  ultimately have "\<beta> b = truth (eval ?\<sigma> b)" using b(1) sat_value_atom [OF b(2)] by (simp add: connective_def)
  with 2(4) IH show ?case by auto
qed auto

lemma definitions_valid:
  assumes "definitional fs" "val_ok \<sigma>" "f \<in> set fs"
  shows "truth (eval \<sigma> f)" "typeOf f = Some BooleanType"
  using assms by (induction fs rule: definitional.induct) (auto simp: equiv_def leastCommonTypeNode_def)

lemma atoms_atom: "a \<in> atoms n \<Longrightarrow> atoms a = {a}"
  by (induction n) (auto split: if_splits)

lemma atoms_idem: "a \<in> atoms n \<Longrightarrow> a \<in> atoms a"
  by (induction n) (auto split: if_splits)

lemma definitional_bits:
  assumes "bb_inv rw s" "\<forall>f\<in>set (d_cnfStream s). sat_value \<beta> f" "bit_in (usable rw s) b"
  shows "sat_value \<beta> b = holds (sat_valuation \<beta>) b"
proof -
  have "\<beta> a = truth (eval (sat_valuation \<beta>) a)" if "a \<in> atoms b" for a
    by (rule definitions_force_atoms [OF _ assms(2)]) (use assms(1,3) that in \<open>auto simp: bb_inv_def bit_in_def usable_def\<close>)
  with assms(3) show ?thesis by (simp add: sat_value_eval bit_in_def holds_def)
qed

text \<open>A formula whose atoms are known to the bit-blaster, or are Boolean variables.\<close>

lemma known_formula:
  assumes "bb_inv rw s" "\<forall>f\<in>set (d_cnfStream s). sat_value \<beta> f" "typeOf F = Some BooleanType"
    "atoms F \<subseteq> bit_atoms \<union> d_bbAtoms s \<union> range (\<lambda>v. Var v BooleanType)"
  shows "sat_value \<beta> F = truth (eval (sat_valuation \<beta>) F)"
proof (rule sat_value_eval [OF assms(3) sat_valuation_ok])
  fix a assume "a \<in> atoms F"
  with assms(4) consider "a \<in> bit_atoms \<union> defined (d_cnfStream s)" | v where "a = Var v BooleanType"
    using assms(1) unfolding bb_inv_def by blast
  then show "\<beta> a = truth (eval (sat_valuation \<beta>) a)"
  proof cases
    case 1
    show ?thesis by (rule definitions_force_atoms [OF _ assms(2) 1]) (use assms(1) in \<open>simp add: bb_inv_def\<close>)
  next
    case 2
    then show ?thesis by (simp add: sat_valuation_def)
  qed
qed

text \<open>The definitions hold in the assignment that a valuation gives to all atoms.\<close>

definition sat_assignment :: "valuation \<Rightarrow> node \<Rightarrow> bool" where
  "sat_assignment \<sigma> a = truth (eval \<sigma> a)"

lemma sat_assignment_value: "typeOf n = Some BooleanType \<Longrightarrow> val_ok \<sigma> \<Longrightarrow> sat_value (sat_assignment \<sigma>) n = truth (eval \<sigma> n)"
  by (rule sat_value_eval) (simp_all add: sat_assignment_def)

lemma sat_assignment_definitions: "bb_inv rw s \<Longrightarrow> val_ok \<sigma> \<Longrightarrow> f \<in> set (d_cnfStream s) \<Longrightarrow> sat_value (sat_assignment \<sigma>) f"
  using definitions_valid [of "d_cnfStream s" \<sigma> f] by (simp add: sat_assignment_value bb_inv_def)

subsection \<open>Registering the atoms of a formula\<close>

lemma preRegister_atoms:
  assumes "rewriter_ok rw" "set gs \<subseteq> snd (accepted rw d)" "bb_inv rw s"
  shows "\<exists>s'. preRegister_all (EagerBitblaster rw d) gs s = Some (Inr ((), s')) \<and> bb_inv rw s' \<and> d_bbAtoms s \<subseteq> d_bbAtoms s' \<and>
    (\<forall>g\<in>set gs. atom_known s' g)"
  using assms(2,3)
proof (induction gs arbitrary: s)
  case Nil
  then show ?case by (simp add: bb_return_def)
next
  case (Cons g gs)
  have "call_ok rw s (bbAtom (EagerBitblaster rw d) g) (\<lambda>_ s'. atom_known s' g)"
    by (rule eager.atom_law [OF assms(1)]) (use Cons.prems in simp)
  with Cons.prems(2) obtain s1 where 1: "bbAtom (EagerBitblaster rw d) g s = Some (Inr ((), s1))" "bb_inv rw s1" "d_bbAtoms s \<subseteq> d_bbAtoms s1" "atom_known s1 g"
    by (auto simp: call_ok_def)
  from Cons.IH [OF _ 1(2)] Cons.prems(1) obtain s' where "preRegister_all (EagerBitblaster rw d) gs s1 = Some (Inr ((), s'))" "bb_inv rw s'"
    "d_bbAtoms s1 \<subseteq> d_bbAtoms s'" "\<forall>g\<in>set gs. atom_known s' g" by auto
  with 1 show ?case by (auto simp: bb_bind_def preRegister_def atom_known_def)
qed

lemma bbFormula_states:
  assumes "rewriter_ok rw" "set gs \<subseteq> snd (accepted rw d)" "typeOf F = Some BooleanType"
    "atoms F \<subseteq> set gs \<union> range (\<lambda>v. Var v BooleanType)"
  shows "\<exists>s. bb_bind (preRegister_all (EagerBitblaster rw d) gs) (\<lambda>_. bbFormula False level F) new_bitblaster =
      Some (Inr ((), s\<lparr>d_cnfStream := F # d_cnfStream s\<rparr>)) \<and> bb_inv rw s \<and> atoms F \<subseteq> bit_atoms \<union> d_bbAtoms s \<union> range (\<lambda>v. Var v BooleanType)"
proof -
  obtain s where s: "preRegister_all (EagerBitblaster rw d) gs new_bitblaster = Some (Inr ((), s))" "bb_inv rw s" "\<forall>g\<in>set gs. atom_known s g"
    using preRegister_atoms [OF assms(1,2) new_bitblaster_inv] by blast
  have "a \<in> bit_atoms \<union> d_bbAtoms s \<union> range (\<lambda>v. Var v BooleanType)" if "a \<in> atoms F" for a
  proof (cases "a \<in> set gs")
    case True
    with s(3) have "atoms a \<subseteq> bit_atoms \<union> d_bbAtoms s" by (simp add: atom_known_def)
    moreover have "a \<in> atoms a" by (rule atoms_idem [OF that])
    ultimately show ?thesis by auto
  qed (use assms(4) that in auto)
  with s show ?thesis by (auto simp: bb_bind_def bbFormula_def convertAndAssert_def)
qed

subsection \<open>The values of a model\<close>

lemma model_loop_value:
  "model_loop (\<lambda>b. Some (f b)) full bits v = Some (foldl (\<lambda>v b. v * 2 + of_bool (f b)) v bits)"
  by (induction bits arbitrary: v) simp_all

lemma horner_sum_foldl: "foldl (\<lambda>v b. v * 2 + of_bool (f b)) (v :: int) (rev bits) = horner_sum of_bool 2 (map f bits) + 2 ^ length bits * v"
  by (induction bits) (simp_all add: algebra_simps)

lemma getModelFromSatSolver_value:
  assumes "bb_inv rw s" "\<forall>f\<in>set (d_cnfStream s). sat_value \<beta> f" "d_termCache s n = Some bits"
  shows "getModelFromSatSolver (\<lambda>b. Some (sat_value \<beta> b)) s n full = Some (mkConst (getSize n) (num (eval (sat_valuation \<beta>) n)))"
proof -
  have b: "bits_of rw s n bits" using assms(1,3) by (simp add: bb_inv_def)
  have "map (sat_value \<beta>) bits = map (holds (sat_valuation \<beta>)) bits"
  proof (rule map_cong [OF refl])
    fix x assume "x \<in> set bits"
    with b have "bit_in (usable rw s) x" by (simp add: bits_of_def bool_bits_def)
    then show "sat_value \<beta> x = holds (sat_valuation \<beta>) x" by (rule definitional_bits [OF assms(1,2)])
  qed
  moreover have "horner_sum of_bool 2 (map (holds (sat_valuation \<beta>)) bits) = num (eval (sat_valuation \<beta>) n)"
    using b by (simp add: bits_of_def bval_def [symmetric])
  ultimately have "horner_sum of_bool 2 (map (sat_value \<beta>) bits) = num (eval (sat_valuation \<beta>) n)" by (simp only:)
  then show ?thesis
    using b assms(3) by (simp add: getModelFromSatSolver_def model_loop_value horner_sum_foldl bits_of_def)
qed

subsection \<open>The comparison by an adder\<close>

lemma adder_comparison:
  assumes "length x = length y" "0 < length x" "bool_bits U x" "bool_bits U y"
  shows "bit_in U (mkNot_bb (snd (adder_loop x (negateBits y) mkTrue)))"
    "holds \<sigma> (mkNot_bb (snd (adder_loop x (negateBits y) mkTrue))) \<longleftrightarrow> bval \<sigma> x < bval \<sigma> y"
proof -
  obtain res out where r: "rippleCarryAdder x (negateBits y) mkTrue = Inr (res, out)" "bit_in U out"
    "\<And>\<sigma>. holds \<sigma> out \<longleftrightarrow> bval \<sigma> y \<le> bval \<sigma> x"
    using subtractor [OF assms(1,3,4)] by metis
  then have "snd (adder_loop x (negateBits y) mkTrue) = out" using assms(1) by (auto simp: rippleCarryAdder_def)
  with r(2,3) show "bit_in U (mkNot_bb (snd (adder_loop x (negateBits y) mkTrue)))"
    "holds \<sigma> (mkNot_bb (snd (adder_loop x (negateBits y) mkTrue))) \<longleftrightarrow> bval \<sigma> x < bval \<sigma> y" by auto
qed

context virtual_blaster
begin

lemma AdderUltBB:
  assumes "rewriter_ok rw" "typeOf (App BITVECTOR_ULT [a, b]) = Some BooleanType" "a \<in> T" "b \<in> T"
  shows "call_ok rw s (AdderUltBB (App BITVECTOR_ULT [a, b]) bb) (\<lambda>f s'. bit_in (usable rw s') f \<and> equiv f (App BITVECTOR_ULT [a, b]))"
proof -
  from assms(2) obtain w where v: "typeOf a = Some (BitVectorType w)" "typeOf b = Some (BitVectorType w)"
    by (auto simp: isBitVector_iff split: if_splits)
  have "call_ok rw s (bb_operands bb (App BITVECTOR_ULT [a, b]) (\<lambda>x y. bb_bind (bb_assert (length x = length y)) (\<lambda>_.
      bb_return (mkNot_bb (snd (adder_loop x (negateBits y) mkTrue))))))
      (\<lambda>f s'. bit_in (usable rw s') f \<and> equiv f (App BITVECTOR_ULT [a, b]))"
  proof (rule two_operands [OF assms(1,3,4) v])
    fix x y s' assume xy: "length x = w" "length y = w" "0 < w" "bool_bits (usable rw s') x" "bool_bits (usable rw s') y"
      "\<And>\<sigma>. val_ok \<sigma> \<Longrightarrow> bval \<sigma> x = num (eval \<sigma> a)" "\<And>\<sigma>. val_ok \<sigma> \<Longrightarrow> bval \<sigma> y = num (eval \<sigma> b)"
    let ?f = "mkNot_bb (snd (adder_loop x (negateBits y) mkTrue))"
    have c: "length x = length y" "0 < length x" using xy by simp_all
    have f: "bit_in (usable rw s') ?f" by (rule adder_comparison(1) [OF c xy(4,5)])
    moreover have "equiv ?f (App BITVECTOR_ULT [a, b])"
      using f assms(2) adder_comparison(2) [OF c xy(4,5)] xy(6,7)
      by (intro equiv_boolI) (auto simp: bit_in_def simp flip: holds_def)
    ultimately show "call_ok rw s' (bb_bind (bb_assert (length x = length y)) (\<lambda>_. bb_return ?f))
      (\<lambda>f s'. bit_in (usable rw s') f \<and> equiv f (App BITVECTOR_ULT [a, b]))" using xy by simp
  qed
  then show ?thesis by (simp add: AdderUltBB_def)
qed

end

subsection \<open>Theorems\<close>

text \<open>The identity is a rewriter that the bit-blaster can rely on; with it, comparisons are accepted when their operands are.\<close>

lemma id_rewriter_ok: "rewriter_ok id"
  by (simp add: rewriter_ok_def)

lemma accepted_leaf:
  "is_bv (Var v ty) \<Longrightarrow> Var v ty \<in> fst (accepted rw (Suc d))" "is_bv (ConstBV b) \<Longrightarrow> ConstBV b \<in> fst (accepted rw (Suc d))"
  by (simp_all add: accepts_term_def case_prod_beta)

lemma accepted_comparison:
  assumes "k \<in> {BITVECTOR_ULT, BITVECTOR_ULE, BITVECTOR_SLT, BITVECTOR_SLE}" "typeOf (App k [a, b]) = Some BooleanType" "is_bv a"
    "a \<in> fst (accepted id d)" "b \<in> fst (accepted id d)"
  shows "App k [a, b] \<in> snd (accepted id (Suc d))"
  using assms by (auto simp: accepts_atom_def strip_not_def connective_def case_prod_beta simp del: typeOf.simps(5))





text \<open>A satisfying assignment found by the SAT solver is read back as a valuation that satisfies the formula: the model value of
  every bit-blasted term is its value under that valuation.\<close>

theorem sat_model_correct:
  assumes "rewriter_ok rewrite" "set gs \<subseteq> snd (accepted rewrite d)" "typeOf F = Some BooleanType"
    "atoms F \<subseteq> set gs \<union> range (\<lambda>v. Var v BooleanType)"
    "bb_bind (preRegister_all (EagerBitblaster rewrite d) gs) (\<lambda>_. bbFormula False level F) new_bitblaster = Some (Inr ((), s))"
    "\<forall>f\<in>set (d_cnfStream s). sat_value \<beta> f"
  shows "val_ok (sat_valuation \<beta>) \<and> truth (eval (sat_valuation \<beta>) F) \<and>
    (\<forall>n. hasBBTerm s n \<longrightarrow> getModelFromSatSolver (\<lambda>b. Some (sat_value \<beta> b)) s n fullModel = Some (mkConst (getSize n) (num (eval (sat_valuation \<beta>) n))))"
proof -
  obtain s0 where s: "s = s0\<lparr>d_cnfStream := F # d_cnfStream s0\<rparr>" and inv: "bb_inv rewrite s0"
    and F: "atoms F \<subseteq> bit_atoms \<union> d_bbAtoms s0 \<union> range (\<lambda>v. Var v BooleanType)"
    using bbFormula_states [OF assms(1-4), of level] assms(5) by auto
  from assms(6) s have sat: "sat_value \<beta> F" "\<forall>f\<in>set (d_cnfStream s0). sat_value \<beta> f" by auto
  have "getModelFromSatSolver m s n fullModel = getModelFromSatSolver m s0 n fullModel" for m n
    by (simp add: getModelFromSatSolver_def s)
  then show ?thesis
    using known_formula [OF inv sat(2) assms(3) F] sat(1) getModelFromSatSolver_value [OF inv sat(2)] s by (auto simp: hasBBTerm_def)
qed

theorem sat_model_correct_witness:
  "\<exists>s. bb_bind (preRegister_all (EagerBitblaster id 3) [App BITVECTOR_ULT [Var 1 (BitVectorType 1), Var 3 (BitVectorType 1)]])
      (\<lambda>_. bbFormula False 0 (App BITVECTOR_ULT [Var 1 (BitVectorType 1), Var 3 (BitVectorType 1)])) new_bitblaster = Some (Inr ((), s)) \<and>
    (\<exists>\<beta>. (\<forall>f\<in>set (d_cnfStream s). sat_value \<beta> f) \<and> truth (eval (sat_valuation \<beta>) (App BITVECTOR_ULT [Var 1 (BitVectorType 1), Var 3 (BitVectorType 1)])))"
proof -
  let ?F = "App BITVECTOR_ULT [Var 1 (BitVectorType 1), Var 3 (BitVectorType 1)]"
  let ?\<sigma> = "\<lambda>v ty. case ty of BooleanType \<Rightarrow> VBool True | IntegerType \<Rightarrow> VInt 0 | BitVectorType w \<Rightarrow> VBV w (if v = 3 then 1 else 0)"
  have F: "set [?F] \<subseteq> snd (accepted id 3)" "typeOf ?F = Some BooleanType" "atoms ?F \<subseteq> set [?F] \<union> range (\<lambda>v. Var v BooleanType)"
    unfolding numeral_3_eq_3 by (simp_all add: accepted_comparison accepted_leaf is_bv_def connective_def del: accepted.simps)
  obtain s0 where s: "bb_bind (preRegister_all (EagerBitblaster id 3) [?F]) (\<lambda>_. bbFormula False 0 ?F) new_bitblaster =
      Some (Inr ((), s0\<lparr>d_cnfStream := ?F # d_cnfStream s0\<rparr>))" and inv: "bb_inv id s0"
    using bbFormula_states [OF id_rewriter_ok F, of 0] by blast
  let ?s = "s0\<lparr>d_cnfStream := ?F # d_cnfStream s0\<rparr>"
  have \<sigma>: "val_ok ?\<sigma>" "truth (eval ?\<sigma> ?F)" by (auto simp: val_ok_def split: ntype.splits)
  have sat: "\<forall>f\<in>set (d_cnfStream ?s). sat_value (sat_assignment ?\<sigma>) f"
    using sat_assignment_definitions [OF inv \<sigma>(1)] sat_assignment_value [OF F(2) \<sigma>(1)] \<sigma>(2) by auto
  have "truth (eval (sat_valuation (sat_assignment ?\<sigma>)) ?F)"
    using sat_model_correct [OF id_rewriter_ok F s sat] by blast
  with s sat show ?thesis by blast
qed



end
