(* ===== verification/Cnf_Stream_Correct.thy ===== *)
theory Cnf_Stream_Correct
  imports Cnf_Stream Bitblaster_Eager
begin

section \<open>The clauses are equisatisfiable with the formulas\<close>

text \<open>
  The invariant of the CNF stream relates three views of a truth assignment: to the variables of the solver, to the atoms of the
  formulas, and to the formulas themselves. Every variable of the solver stands for a formula, its owner. An assignment that satisfies
  the clauses gives each variable the value of its owner and satisfies the asserted formulas, and an assignment to the atoms that satisfies
  the asserted formulas satisfies the clauses, when each variable has the value of its owner. The owners are ghost data: the lemmas
  state that they exist.

  The registrar may call the stream back. What the stream relies on is the locale \<open>cnf_registrar\<close>.
\<close>

subsection \<open>Literals and clauses\<close>

definition lit_val :: "(nat \<Rightarrow> bool) \<Rightarrow> SatLiteral \<Rightarrow> bool" where
  "lit_val \<alpha> l \<longleftrightarrow> \<alpha> (getSatVariable l) \<noteq> isNegated l"

definition sat_clauses :: "(nat \<Rightarrow> bool) \<Rightarrow> SatClause list \<Rightarrow> bool" where
  "sat_clauses \<alpha> cs \<longleftrightarrow> (\<forall>c\<in>set cs. \<exists>l\<in>set c. lit_val \<alpha> l)"

lemma literal_simps [simp]:
  "getSatVariable (mkLiteral v b) = v" "isNegated (mkLiteral v b) = b"
  "getSatVariable (lit_not l) = getSatVariable l" "isNegated (lit_not l) = (\<not> isNegated l)"
  by (simp_all add: getSatVariable_def isNegated_def mkLiteral_def lit_not_def)

lemma lit_val_simps [simp]:
  "lit_val \<alpha> (mkLiteral v b) \<longleftrightarrow> \<alpha> v \<noteq> b" "lit_val \<alpha> (lit_not l) \<longleftrightarrow> \<not> lit_val \<alpha> l"
  "lit_val \<alpha> (negateIf b l) \<longleftrightarrow> lit_val \<alpha> l \<noteq> b"
  by (auto simp: lit_val_def negateIf_def)

lemma sat_clauses_simps [simp]:
  "sat_clauses \<alpha> []" "sat_clauses \<alpha> (c # cs) \<longleftrightarrow> (\<exists>l\<in>set c. lit_val \<alpha> l) \<and> sat_clauses \<alpha> cs"
  "sat_clauses \<alpha> (cs @ ds) \<longleftrightarrow> sat_clauses \<alpha> cs \<and> sat_clauses \<alpha> ds"
  "sat_clauses \<alpha> (rev cs) \<longleftrightarrow> sat_clauses \<alpha> cs"
  by (auto simp: sat_clauses_def)

definition clause_vars :: "SatClause list \<Rightarrow> nat set" where
  "clause_vars cs = (\<Union>c\<in>set cs. getSatVariable ` set c)"

lemma clause_vars_simps [simp]:
  "clause_vars [] = {}" "clause_vars (c # cs) = getSatVariable ` set c \<union> clause_vars cs"
  "clause_vars (cs @ ds) = clause_vars cs \<union> clause_vars ds" "clause_vars (rev cs) = clause_vars cs"
  by (auto simp: clause_vars_def)

lemma sat_clauses_cong: "(\<And>v. v \<in> clause_vars cs \<Longrightarrow> \<alpha> v = \<alpha>' v) \<Longrightarrow> sat_clauses \<alpha> cs = sat_clauses \<alpha>' cs"
  by (fastforce simp: sat_clauses_def clause_vars_def lit_val_def)

subsection \<open>The invariant\<close>

text \<open>A literal that stands for a formula.\<close>

definition denotes :: "(nat \<Rightarrow> node) \<Rightarrow> (node \<Rightarrow> SatLiteral option) \<Rightarrow> nat \<Rightarrow> SatLiteral \<Rightarrow> node \<Rightarrow> bool" where
  "denotes own nm nv l n \<longleftrightarrow> getSatVariable l < nv \<and> atoms n \<subseteq> dom nm \<and>
     (\<forall>\<beta>. sat_value \<beta> n \<longleftrightarrow> sat_value \<beta> (own (getSatVariable l)) \<noteq> isNegated l)"

definition read_back :: "(nat \<Rightarrow> bool) \<Rightarrow> (node \<Rightarrow> SatLiteral option) \<Rightarrow> node \<Rightarrow> bool" where
  "read_back \<alpha> nm a \<longleftrightarrow> (case nm a of None \<Rightarrow> False | Some l \<Rightarrow> lit_val \<alpha> l)"

definition cnf_ok :: "(nat \<Rightarrow> node) \<Rightarrow> (node \<Rightarrow> SatLiteral option) \<Rightarrow> SatSolver \<Rightarrow> node set \<Rightarrow> bool" where
  "cnf_ok own nm sat Fs \<longleftrightarrow>
     2 \<le> d_numVars sat \<and> own trueVar = ConstBool True \<and> own falseVar = ConstBool False \<and>
     (\<forall>n l. nm n = Some l \<longrightarrow> denotes own nm (d_numVars sat) l n) \<and> (\<forall>n. nm n = None \<longrightarrow> nm (notNode n) = None) \<and>
     (\<forall>v<d_numVars sat. atoms (own v) \<subseteq> dom nm) \<and> clause_vars (d_clauses sat) \<subseteq> {..<d_numVars sat} \<and> (\<forall>f\<in>Fs. atoms f \<subseteq> dom nm) \<and>
     (\<forall>\<alpha>. sat_clauses \<alpha> (d_clauses sat) \<longrightarrow>
        (\<forall>v<d_numVars sat. \<alpha> v = sat_value (read_back \<alpha> nm) (own v)) \<and> (\<forall>f\<in>Fs. sat_value (read_back \<alpha> nm) f)) \<and>
     (\<forall>\<beta>. (\<forall>f\<in>Fs. sat_value \<beta> f) \<longrightarrow> sat_clauses (\<lambda>v. sat_value \<beta> (own v)) (d_clauses sat))"

lemma cnf_okD:
  assumes "cnf_ok own nm sat Fs"
  shows "2 \<le> d_numVars sat" "own trueVar = ConstBool True" "own falseVar = ConstBool False"
    "\<And>n l. nm n = Some l \<Longrightarrow> denotes own nm (d_numVars sat) l n" "\<And>n. nm n = None \<Longrightarrow> nm (notNode n) = None"
    "\<And>v. v < d_numVars sat \<Longrightarrow> atoms (own v) \<subseteq> dom nm" "clause_vars (d_clauses sat) \<subseteq> {..<d_numVars sat}"
    "\<And>f. f \<in> Fs \<Longrightarrow> atoms f \<subseteq> dom nm"
    "\<And>\<alpha> v. sat_clauses \<alpha> (d_clauses sat) \<Longrightarrow> v < d_numVars sat \<Longrightarrow> sat_value (read_back \<alpha> nm) (own v) = \<alpha> v"
    "\<And>\<alpha> f. sat_clauses \<alpha> (d_clauses sat) \<Longrightarrow> f \<in> Fs \<Longrightarrow> sat_value (read_back \<alpha> nm) f"
    "\<And>\<beta>. (\<And>f. f \<in> Fs \<Longrightarrow> sat_value \<beta> f) \<Longrightarrow> sat_clauses (\<lambda>v. sat_value \<beta> (own v)) (d_clauses sat)"
  using assms unfolding cnf_ok_def by metis+

lemma cnf_okI:
  assumes "2 \<le> d_numVars sat" "own trueVar = ConstBool True" "own falseVar = ConstBool False"
    "\<And>n l. nm n = Some l \<Longrightarrow> denotes own nm (d_numVars sat) l n" "\<And>n. nm n = None \<Longrightarrow> nm (notNode n) = None"
    "\<And>v. v < d_numVars sat \<Longrightarrow> atoms (own v) \<subseteq> dom nm" "clause_vars (d_clauses sat) \<subseteq> {..<d_numVars sat}"
    "\<And>f. f \<in> Fs \<Longrightarrow> atoms f \<subseteq> dom nm"
    "\<And>\<alpha> v. sat_clauses \<alpha> (d_clauses sat) \<Longrightarrow> v < d_numVars sat \<Longrightarrow> sat_value (read_back \<alpha> nm) (own v) = \<alpha> v"
    "\<And>\<alpha> f. sat_clauses \<alpha> (d_clauses sat) \<Longrightarrow> f \<in> Fs \<Longrightarrow> sat_value (read_back \<alpha> nm) f"
    "\<And>\<beta>. \<forall>f\<in>Fs. sat_value \<beta> f \<Longrightarrow> sat_clauses (\<lambda>v. sat_value \<beta> (own v)) (d_clauses sat)"
  shows "cnf_ok own nm sat Fs"
  unfolding cnf_ok_def by (intro conjI allI impI ballI) (fact assms(1-8) | simp add: assms(9-11))+

lemma new_solver_ok: "cnf_ok (\<lambda>v. ConstBool (v = trueVar)) (\<lambda>_. None) new_solver {}"
  by (auto simp: cnf_ok_def new_solver_def trueVar_def falseVar_def less_Suc_eq numeral_2_eq_2)

text \<open>The value of a formula depends on its atoms only.\<close>

lemma sat_value_cong: "(\<And>a. a \<in> atoms n \<Longrightarrow> \<beta> a = \<beta>' a) \<Longrightarrow> sat_value \<beta> n = sat_value \<beta>' n"
proof (induction n)
  case (App k ts)
  show ?case
  proof (cases "connective k ts")
    case True
    have "map (\<lambda>t. VBool (sat_value \<beta> t)) ts = map (\<lambda>t. VBool (sat_value \<beta>' t)) ts"
      using App True by (intro map_cong) auto
    then show ?thesis by (simp only: sat_value.simps True if_True)
  qed (use App.prems in simp)
qed auto

lemma read_back_extend: "nm \<subseteq>\<^sub>m nm' \<Longrightarrow> atoms n \<subseteq> dom nm \<Longrightarrow> sat_value (read_back \<alpha> nm') n = sat_value (read_back \<alpha> nm) n"
  by (rule sat_value_cong) (auto simp: read_back_def map_le_def dom_def split: option.splits)

lemma denotes_value:
  assumes "cnf_ok own nm sat Fs" "denotes own nm (d_numVars sat) l n" "sat_clauses \<alpha> (d_clauses sat)"
  shows "lit_val \<alpha> l = sat_value (read_back \<alpha> nm) n"
  using assms cnf_okD(9) [OF assms(1,3)] by (simp add: denotes_def lit_val_def)

lemma denotes_notNode [simp]: "denotes own nm nv (lit_not l) (notNode n) \<longleftrightarrow> denotes own nm nv l n"
  by (auto simp: denotes_def notNode_def connective_def)

lemma denotes_negateIf: "denotes own nm nv l n \<Longrightarrow> denotes own nm nv (negateIf b l) (if b then notNode n else n)"
  by (simp add: negateIf_def)

text \<open>Progress: nodes keep their literals and variables their owners.\<close>

definition grows :: "(nat \<Rightarrow> node) \<Rightarrow> 'r CnfStream \<Rightarrow> (nat \<Rightarrow> node) \<Rightarrow> 'r CnfStream \<Rightarrow> bool" where
  "grows own s own' s' \<longleftrightarrow> (\<forall>v<d_numVars (d_satSolver s). own' v = own v) \<and> d_numVars (d_satSolver s) \<le> d_numVars (d_satSolver s') \<and>
     d_nodeToLiteralMap s \<subseteq>\<^sub>m d_nodeToLiteralMap s'"

lemma grows_refl [simp]: "grows own s own s"
  by (simp add: grows_def)

lemma grows_trans: "grows own s own' s' \<Longrightarrow> grows own' s' own'' s'' \<Longrightarrow> grows own s own'' s''"
  by (auto simp: grows_def intro: map_le_trans)

lemma denotes_grows:
  "denotes own (d_nodeToLiteralMap s) (d_numVars (d_satSolver s)) l n \<Longrightarrow> grows own s own' s' \<Longrightarrow>
    denotes own' (d_nodeToLiteralMap s') (d_numVars (d_satSolver s')) l n"
  using map_le_implies_dom_le by (fastforce simp: denotes_def grows_def)

subsection \<open>New literals\<close>

text \<open>A node gets a fresh variable and the clauses that define it.\<close>

lemma map_add_literal: "nm n = None \<Longrightarrow> nm (notNode n) = None \<Longrightarrow> nm \<subseteq>\<^sub>m nm(n \<mapsto> l, notNode n \<mapsto> l')"
  by (auto simp: map_le_def)

lemma notNode_neq [simp]: "notNode n \<noteq> n" "n \<noteq> notNode n"
proof -
  have "size n < size (notNode n)" by (simp add: notNode_def)
  then show "notNode n \<noteq> n" "n \<noteq> notNode n" by auto
qed

lemma notNode_inject [simp]: "notNode n = notNode m \<longleftrightarrow> n = m"
  by (simp add: notNode_def)

lemma add_node:
  assumes ok: "cnf_ok own nm sat Fs" and new: "nm n = None" "getKind n \<noteq> NOT_K" and at: "atoms n \<subseteq> insert n (dom nm)"
    and vars: "clause_vars cs \<subseteq> {..d_numVars sat}"
  defines "l \<equiv> mkLiteral (d_numVars sat) False"
  defines "nm' \<equiv> nm(n \<mapsto> l, notNode n \<mapsto> lit_not l)"
  assumes sound: "\<And>\<alpha>. sat_clauses \<alpha> (d_clauses sat) \<Longrightarrow> sat_clauses \<alpha> cs \<Longrightarrow> \<alpha> (d_numVars sat) = sat_value (read_back \<alpha> nm') n"
    and complete: "\<And>\<beta> \<alpha>. (\<And>v. v < d_numVars sat \<Longrightarrow> \<alpha> v = sat_value \<beta> (own v)) \<Longrightarrow> \<alpha> (d_numVars sat) = sat_value \<beta> n \<Longrightarrow> sat_clauses \<alpha> cs"
  shows "cnf_ok (own(d_numVars sat := n)) nm' (sat\<lparr>d_numVars := Suc (d_numVars sat), d_clauses := cs @ d_clauses sat\<rparr>) Fs"
proof -
  let ?N = "d_numVars sat" and ?own = "own(d_numVars sat := n)"
  note I = cnf_okD [OF ok]
  have not_new: "nm (notNode n) = None" by (rule I(5) [OF new(1)])
  have le: "nm \<subseteq>\<^sub>m nm'" unfolding nm'_def by (rule map_add_literal [OF new(1) not_new])
  then have dom: "dom nm \<subseteq> dom nm'" by (rule map_le_implies_dom_le)
  have n_dom: "atoms n \<subseteq> dom nm'" using at dom by (auto simp: nm'_def)
  have rb: "sat_value (read_back \<alpha> nm') x = sat_value (read_back \<alpha> nm) x" if "atoms x \<subseteq> dom nm" for \<alpha> x
    by (rule read_back_extend [OF le that])
  have old: "denotes ?own nm' (Suc ?N) l' x" if "nm x = Some l'" for x l'
    using I(4) [OF that] order_trans [OF _ dom, of "atoms x"] by (simp add: denotes_def)
  have self: "denotes ?own nm' (Suc ?N) l n" using n_dom by (simp add: denotes_def l_def)
  have D: "denotes ?own nm' (Suc ?N) l' x" if "nm' x = Some l'" for x l'
    using that old [of x l'] self by (auto simp: nm'_def split: if_splits)
  have N: "nm' (notNode x) = None" if "nm' x = None" for x
    using that I(5) [of x] new by (auto simp: nm'_def notNode_def split: if_splits)
  have A: "atoms (?own v) \<subseteq> dom nm'" if "v < Suc ?N" for v
    using that n_dom order_trans [OF I(6) dom, of v] by (cases "v = ?N") simp_all
  have S: "\<alpha> v = sat_value (read_back \<alpha> nm') (?own v)" if "sat_clauses \<alpha> (d_clauses sat)" "sat_clauses \<alpha> cs" "v < Suc ?N" for \<alpha> v
    using that sound [OF that(1,2)] I(9) [OF that(1), of v] rb [OF I(6), of v] by (auto simp: less_Suc_eq)
  have C: "sat_clauses (\<lambda>v. sat_value \<beta> (?own v)) (cs @ d_clauses sat)" if "\<forall>f\<in>Fs. sat_value \<beta> f" for \<beta>
  proof -
    have "sat_clauses (\<lambda>v. sat_value \<beta> (own v)) (d_clauses sat)" using I(11) that by blast
    moreover have "sat_clauses (\<lambda>v. sat_value \<beta> (?own v)) (d_clauses sat) = sat_clauses (\<lambda>v. sat_value \<beta> (own v)) (d_clauses sat)"
      using I(7) by (intro sat_clauses_cong) auto
    moreover have "sat_clauses (\<lambda>v. sat_value \<beta> (?own v)) cs" by (rule complete [of _ \<beta>]) simp_all
    ultimately show ?thesis by simp
  qed
  show ?thesis
  proof (rule cnf_okI)
    show "clause_vars (d_clauses (sat\<lparr>d_numVars := Suc ?N, d_clauses := cs @ d_clauses sat\<rparr>)) \<subseteq> {..<d_numVars (sat\<lparr>d_numVars := Suc ?N, d_clauses := cs @ d_clauses sat\<rparr>)}"
      using I(7) vars by fastforce
    show "atoms f \<subseteq> dom nm'" "sat_clauses \<alpha> (d_clauses (sat\<lparr>d_numVars := Suc ?N, d_clauses := cs @ d_clauses sat\<rparr>)) \<Longrightarrow> sat_value (read_back \<alpha> nm') f"
      if "f \<in> Fs" for f \<alpha>
      using order_trans [OF I(8) [OF that] dom] I(10) [OF _ that] rb [OF I(8) [OF that]] by simp_all
  qed (use I(1-3) D N A S C in \<open>simp_all add: trueVar_def falseVar_def\<close>)
qed

text \<open>Clauses that hold anyway, and the clauses of an asserted formula.\<close>

lemma add_clauses:
  assumes ok: "cnf_ok own nm sat Fs" and vars: "clause_vars cs \<subseteq> {..<d_numVars sat}" and at: "\<And>f. f \<in> Gs \<Longrightarrow> atoms f \<subseteq> dom nm"
    and sound: "\<And>\<alpha> f. sat_clauses \<alpha> (d_clauses sat) \<Longrightarrow> sat_clauses \<alpha> cs \<Longrightarrow> f \<in> Gs \<Longrightarrow> sat_value (read_back \<alpha> nm) f"
    and complete: "\<And>\<beta>. (\<And>f. f \<in> Fs \<union> Gs \<Longrightarrow> sat_value \<beta> f) \<Longrightarrow> sat_clauses (\<lambda>v. sat_value \<beta> (own v)) cs"
  shows "cnf_ok own nm (sat\<lparr>d_clauses := cs @ d_clauses sat\<rparr>) (Fs \<union> Gs)"
proof -
  note I = cnf_okD [OF ok]
  have C: "sat_clauses (\<lambda>v. sat_value \<beta> (own v)) (cs @ d_clauses sat)" if "\<forall>f\<in>Fs \<union> Gs. sat_value \<beta> f" for \<beta>
    using that complete [of \<beta>] I(11) [of \<beta>] by simp
  show ?thesis
  proof (rule cnf_okI)
    show "atoms f \<subseteq> dom nm" if "f \<in> Fs \<union> Gs" for f using that I(8) at by blast
    show "sat_value (read_back \<alpha> nm) f" if "sat_clauses \<alpha> (d_clauses (sat\<lparr>d_clauses := cs @ d_clauses sat\<rparr>))" "f \<in> Fs \<union> Gs" for \<alpha> f
      using that I(10) [of \<alpha> f] sound [of \<alpha> f] by auto
  qed (use I(1-7,9) vars C in simp_all)
qed

subsection \<open>What the functions of the state do\<close>

lemma assertClauses_effect:
  "assertClauses cs s = Some (Inr ((), s\<lparr>d_satSolver := (d_satSolver s)\<lparr>d_clauses := rev cs @ d_clauses (d_satSolver s)\<rparr>\<rparr>))"
  by (induction cs arbitrary: s) (simp_all add: bb_return_def bb_bind_def assertClause_def)

lemma assertClause_effect: "assertClause c = assertClauses [c]"
  by (rule ext) (simp add: assertClause_def bb_bind_def bb_return_def)

lemma assertClauses_append: "bb_bind (assertClauses cs) (\<lambda>_. bb_bind (assertClause c) k) = bb_bind (assertClauses (cs @ [c])) k"
  by (rule ext) (simp add: bb_bind_def assertClauses_effect assertClause_def)

lemma insertNode_safe_effect: "\<exists>lm. insertNode_safe l n s = Some (Inr ((), s\<lparr>d_literalToNodeMap := lm\<rparr>))"
  unfolding insertNode_safe_def by (cases "d_literalToNodeMap s l = None") (auto intro: exI [of _ "d_literalToNodeMap s"])

lemma backMap_effect: "\<exists>lm. backMap n l s = Some (Inr ((), s\<lparr>d_literalToNodeMap := lm\<rparr>))"
proof -
  obtain lm where 1: "insertNode_safe l n s = Some (Inr ((), s\<lparr>d_literalToNodeMap := lm\<rparr>))" using insertNode_safe_effect by blast
  obtain lm' where "insertNode_safe (lit_not l) (notNode n) (s\<lparr>d_literalToNodeMap := lm\<rparr>) = Some (Inr ((), s\<lparr>d_literalToNodeMap := lm\<rparr>\<lparr>d_literalToNodeMap := lm'\<rparr>))"
    using insertNode_safe_effect by blast
  with 1 show ?thesis by (auto simp: backMap_def bb_bind_def)
qed

lemma getLiteral_effect: "d_nodeToLiteralMap s n = Some l \<Longrightarrow> getLiteral n s = Some (Inr (l, s))"
  by (simp add: getLiteral_def hasLiteral_def bb_return_def)

lemma insertLiterals_effect:
  assumes "d_nodeToLiteralMap s n = None" "d_nodeToLiteralMap s (notNode n) = None"
  shows "bb_bind (insertLiteral n l) (\<lambda>_. bb_bind (insertLiteral (notNode n) (lit_not l)) (\<lambda>_. bb_return l)) s =
    Some (Inr (l, s\<lparr>d_nodeToLiteralMap := (d_nodeToLiteralMap s)(n \<mapsto> l, notNode n \<mapsto> lit_not l)\<rparr>))"
  using assms by (simp add: insertLiteral_def bb_bind_def bb_assert_def bb_lift_def hasLiteral_def bb_return_def)

lemma freshLiteral_effect:
  assumes "d_nodeToLiteralMap s n = None" "d_nodeToLiteralMap s (notNode n) = None"
  shows "getKind n \<noteq> CONST_BOOLEAN \<Longrightarrow> freshLiteral n s = Some (Inr (mkLiteral (d_numVars (d_satSolver s)) False,
      s\<lparr>d_satSolver := (d_satSolver s)\<lparr>d_numVars := Suc (d_numVars (d_satSolver s))\<rparr>,
        d_nodeToLiteralMap := (d_nodeToLiteralMap s)(n \<mapsto> mkLiteral (d_numVars (d_satSolver s)) False,
          notNode n \<mapsto> lit_not (mkLiteral (d_numVars (d_satSolver s)) False))\<rparr>))"
    "n = ConstBool b \<Longrightarrow> freshLiteral n s = Some (Inr (mkLiteral (if b then trueVar else falseVar) False,
      s\<lparr>d_nodeToLiteralMap := (d_nodeToLiteralMap s)(n \<mapsto> mkLiteral (if b then trueVar else falseVar) False,
          notNode n \<mapsto> lit_not (mkLiteral (if b then trueVar else falseVar) False))\<rparr>))"
proof -
  let ?v = "d_numVars (d_satSolver s)"
  let ?s = "s\<lparr>d_satSolver := (d_satSolver s)\<lparr>d_numVars := Suc ?v\<rparr>\<rparr>"
  assume "getKind n \<noteq> CONST_BOOLEAN"
  then have "freshLiteral n s = bb_bind (insertLiteral n (mkLiteral ?v False)) (\<lambda>_. bb_bind (insertLiteral (notNode n) (lit_not (mkLiteral ?v False)))
      (\<lambda>_. bb_return (mkLiteral ?v False))) ?s"
    by (cases n) (simp_all add: freshLiteral_def bb_bind_def newVar_def bb_return_def Let_def)
  also have "\<dots> = Some (Inr (mkLiteral ?v False, ?s\<lparr>d_nodeToLiteralMap := (d_nodeToLiteralMap ?s)(n \<mapsto> mkLiteral ?v False,
      notNode n \<mapsto> lit_not (mkLiteral ?v False))\<rparr>))"
    by (rule insertLiterals_effect) (use assms in simp_all)
  finally show "freshLiteral n s = Some (Inr (mkLiteral (d_numVars (d_satSolver s)) False,
      s\<lparr>d_satSolver := (d_satSolver s)\<lparr>d_numVars := Suc (d_numVars (d_satSolver s))\<rparr>,
        d_nodeToLiteralMap := (d_nodeToLiteralMap s)(n \<mapsto> mkLiteral (d_numVars (d_satSolver s)) False,
          notNode n \<mapsto> lit_not (mkLiteral (d_numVars (d_satSolver s)) False))\<rparr>))" by simp
next
  show "n = ConstBool b \<Longrightarrow> freshLiteral n s = Some (Inr (mkLiteral (if b then trueVar else falseVar) False,
      s\<lparr>d_nodeToLiteralMap := (d_nodeToLiteralMap s)(n \<mapsto> mkLiteral (if b then trueVar else falseVar) False,
          notNode n \<mapsto> lit_not (mkLiteral (if b then trueVar else falseVar) False))\<rparr>))"
    using insertLiterals_effect [OF assms, of "mkLiteral (if b then trueVar else falseVar) False"] by (simp add: freshLiteral_def)
qed

lemma newLiteral_effect:
  fixes s :: "'a CnfStream"
  assumes "getKind n \<noteq> NOT_K"
  shows "d_nodeToLiteralMap s n = Some l \<Longrightarrow> \<exists>lm. newLiteral env n th False s = Some (Inr (l, s\<lparr>d_literalToNodeMap := lm\<rparr>))"
    "d_nodeToLiteralMap s n = None \<Longrightarrow> freshLiteral n s = Some (Inr (l, s1)) \<Longrightarrow>
      \<exists>lm. newLiteral env n th False s = Some (Inr (l, s1\<lparr>d_literalToNodeMap := lm\<rparr>))"
proof -
  have recorded: "\<exists>lm. (if th \<or> d_fullLitToNodeMap env then backMap n l else bb_return ()) s' = Some (Inr ((), s'\<lparr>d_literalToNodeMap := lm\<rparr>))"
    for s' :: "'a CnfStream"
    using backMap_effect [of n l s'] by (auto simp: bb_return_def intro: exI [of _ "d_literalToNodeMap s'"])
  show "\<exists>lm. newLiteral env n th False s = Some (Inr (l, s\<lparr>d_literalToNodeMap := lm\<rparr>))" if "d_nodeToLiteralMap s n = Some l"
  proof -
    obtain lm where "(if th \<or> d_fullLitToNodeMap env then backMap n l else bb_return ()) s = Some (Inr ((), s\<lparr>d_literalToNodeMap := lm\<rparr>))"
      using recorded by blast
    then have "newLiteral env n th False s = Some (Inr (l, s\<lparr>d_literalToNodeMap := lm\<rparr>))"
      using that assms getLiteral_effect [OF that]
      by (simp add: newLiteral_def hasLiteral_def bb_bind_def bb_return_def bb_assert_def bb_lift_def)
    then show ?thesis by blast
  qed
  show "\<exists>lm. newLiteral env n th False s = Some (Inr (l, s1\<lparr>d_literalToNodeMap := lm\<rparr>))"
    if "d_nodeToLiteralMap s n = None" "freshLiteral n s = Some (Inr (l, s1))"
  proof -
    obtain lm where "(if th \<or> d_fullLitToNodeMap env then backMap n l else bb_return ()) s1 = Some (Inr ((), s1\<lparr>d_literalToNodeMap := lm\<rparr>))"
      using recorded by blast
    then have "newLiteral env n th False s = Some (Inr (l, s1\<lparr>d_literalToNodeMap := lm\<rparr>))"
      using that assms
      by (simp add: newLiteral_def hasLiteral_def bb_bind_def bb_return_def bb_assert_def bb_lift_def)
    then show ?thesis by blast
  qed
qed

lemma newLiteral_split: "newLiteral env n th True = bb_bind (newLiteral env n th False) (\<lambda>l. bb_bind (call_registrar env n) (\<lambda>_. bb_return l))"
  by (rule ext) (auto simp: newLiteral_def bb_bind_def bb_return_def split: option.splits sum.splits)

subsection \<open>The contract of the registrar\<close>

definition st_ok :: "('r \<Rightarrow> bool) \<Rightarrow> (nat \<Rightarrow> node) \<Rightarrow> 'r CnfStream \<Rightarrow> node set \<Rightarrow> bool" where
  "st_ok Inv own s Fs \<longleftrightarrow> cnf_ok own (d_nodeToLiteralMap s) (d_satSolver s) Fs \<and> Inv (d_registrar s) \<and> \<not> d_removable s"

abbreviation stands_for :: "(nat \<Rightarrow> node) \<Rightarrow> 'r CnfStream \<Rightarrow> SatLiteral \<Rightarrow> node \<Rightarrow> bool" where
  "stands_for own s \<equiv> denotes own (d_nodeToLiteralMap s) (d_numVars (d_satSolver s))"

text \<open>The atoms with a literal are registered, except those in \<open>P\<close>, whose registration is under way; \<open>K\<close> gives the registered ones.\<close>

definition cover :: "('r \<Rightarrow> node set) \<Rightarrow> node set \<Rightarrow> 'r CnfStream \<Rightarrow> bool" where
  "cover K P s \<longleftrightarrow> (\<forall>a\<in>dom (d_nodeToLiteralMap s). atoms a = {a} \<longrightarrow> a \<in> K (d_registrar s) \<union> range (\<lambda>v. Var v BooleanType) \<union> P)"

definition keeps_cover :: "('r \<Rightarrow> node set) \<Rightarrow> 'r CnfStream \<Rightarrow> 'r CnfStream \<Rightarrow> bool" where
  "keeps_cover K s s' \<longleftrightarrow> (\<forall>P. cover K P s \<longrightarrow> cover K P s')"

lemma keeps_cover_trans: "keeps_cover K s s' \<Longrightarrow> keeps_cover K s' s'' \<Longrightarrow> keeps_cover K s s''"
  by (simp add: keeps_cover_def)

lemma keeps_cover_same: "d_nodeToLiteralMap s' = d_nodeToLiteralMap s \<Longrightarrow> d_registrar s' = d_registrar s \<Longrightarrow> keeps_cover K s s'"
  by (simp add: keeps_cover_def cover_def)

lemma keeps_cover_literal:
  assumes "dom (d_nodeToLiteralMap s') \<subseteq> {n, notNode n} \<union> dom (d_nodeToLiteralMap s)" "K (d_registrar s) \<subseteq> K (d_registrar s')"
    "atoms n = {n} \<Longrightarrow> n \<in> K (d_registrar s') \<union> range (\<lambda>v. Var v BooleanType)"
  shows "keeps_cover K s s'"
proof -
  have not: "atoms (notNode n) \<noteq> {notNode n}"
  proof
    assume "atoms (notNode n) = {notNode n}"
    then have "notNode n \<in> atoms n" by (simp add: notNode_def connective_def)
    from atoms_size [OF this] show False by (simp add: notNode_def)
  qed
  show ?thesis
    unfolding keeps_cover_def
  proof (intro allI impI)
    fix P assume P: "cover K P s"
    show "cover K P s'"
      unfolding cover_def
    proof (intro ballI impI)
      fix a assume a: "a \<in> dom (d_nodeToLiteralMap s')" "atoms a = {a}"
      with assms(1) not consider "a = n" | "a \<in> dom (d_nodeToLiteralMap s)" by blast
      then show "a \<in> K (d_registrar s') \<union> range (\<lambda>v. Var v BooleanType) \<union> P"
      proof cases
        case 1
        with assms(3) a(2) show ?thesis by blast
      next
        case 2
        with P a(2) have "a \<in> K (d_registrar s) \<union> range (\<lambda>v. Var v BooleanType) \<union> P" unfolding cover_def by blast
        with assms(2) show ?thesis by blast
      qed
    qed
  qed
qed

lemma keeps_cover_register:
  assumes "dom (d_nodeToLiteralMap s1) \<subseteq> {n, notNode n} \<union> dom (d_nodeToLiteralMap s)" "d_registrar s1 = d_registrar s" "keeps_cover K s1 s2"
    "atoms n \<subseteq> K (d_registrar s2)"
  shows "keeps_cover K s s2"
  unfolding keeps_cover_def
proof (intro allI impI)
  fix P assume P: "cover K P s"
  have "keeps_cover (\<lambda>r. K r \<union> {n} \<union> P) s s1" by (rule keeps_cover_literal [OF assms(1)]) (simp_all add: assms(2))
  moreover have "cover (\<lambda>r. K r \<union> {n} \<union> P) {} s" using P by (auto simp: cover_def)
  ultimately have "cover (\<lambda>r. K r \<union> {n} \<union> P) {} s1" by (simp add: keeps_cover_def)
  then have "cover K ({n} \<union> P) s1" by (auto simp: cover_def)
  with assms(3) have c: "cover K ({n} \<union> P) s2" by (simp add: keeps_cover_def)
  show "cover K P s2"
    unfolding cover_def
  proof (intro ballI impI)
    fix a assume a: "a \<in> dom (d_nodeToLiteralMap s2)" "atoms a = {a}"
    with c have "a \<in> K (d_registrar s2) \<union> range (\<lambda>v. Var v BooleanType) \<union> ({n} \<union> P)" unfolding cover_def by blast
    moreover have "a = n \<Longrightarrow> a \<in> K (d_registrar s2)" using a(2) assms(4) by auto
    ultimately show "a \<in> K (d_registrar s2) \<union> range (\<lambda>v. Var v BooleanType) \<union> P" by blast
  qed
qed

text \<open>A call that succeeds; it asserts the formulas in \<open>H\<close>, and the registrar those in \<open>G\<close>.\<close>

definition cnf_runs :: "('r \<Rightarrow> bool) \<Rightarrow> ('r \<Rightarrow> node set) \<Rightarrow> ('r \<Rightarrow> node set \<Rightarrow> 'r \<Rightarrow> bool) \<Rightarrow> (nat \<Rightarrow> node) \<Rightarrow> 'r CnfStream \<Rightarrow> node set \<Rightarrow> node set \<Rightarrow>
    ('r, 'a) cnf_call \<Rightarrow> ((nat \<Rightarrow> node) \<Rightarrow> 'r CnfStream \<Rightarrow> 'a \<Rightarrow> bool) \<Rightarrow> bool" where
  "cnf_runs Inv K R own s Fs H m Q \<longleftrightarrow> (st_ok Inv own s Fs \<longrightarrow> (\<exists>x s' own' G. m s = Some (Inr (x, s')) \<and> st_ok Inv own' s' (Fs \<union> G \<union> H) \<and>
     (grows own s own' s' \<and> keeps_cover K s s') \<and> R (d_registrar s) G (d_registrar s') \<and> Q own' s' x))"

lemma cnf_runs_cong: "(st_ok Inv own s Fs \<Longrightarrow> m s = m' s) \<Longrightarrow> cnf_runs Inv K R own s Fs H m' Q \<Longrightarrow> cnf_runs Inv K R own s Fs H m Q"
  by (simp add: cnf_runs_def)

lemma cnf_runs_st: "(st_ok Inv own s Fs \<Longrightarrow> cnf_runs Inv K R own s Fs H m Q) \<Longrightarrow> cnf_runs Inv K R own s Fs H m Q"
  by (simp add: cnf_runs_def)

lemma cnf_runs_mono: "cnf_runs Inv K R own s Fs H m P \<Longrightarrow> (\<And>own' s' x. P own' s' x \<Longrightarrow> Q own' s' x) \<Longrightarrow> cnf_runs Inv K R own s Fs H m Q"
  by (simp add: cnf_runs_def) blast

locale cnf_registrar =
  fixes env :: "'r cnf_env" and Inv :: "'r \<Rightarrow> bool" and A :: "'r \<Rightarrow> node set" and K :: "'r \<Rightarrow> node set" and R :: "'r \<Rightarrow> node set \<Rightarrow> 'r \<Rightarrow> bool"
  assumes R_refl: "R r {} r" and R_trans: "R r G r' \<Longrightarrow> R r' G' r'' \<Longrightarrow> R r (G \<union> G') r''"
    and A_mono: "R r G r' \<Longrightarrow> A r \<subseteq> A r'" and K_mono: "R r G r' \<Longrightarrow> K r \<subseteq> K r'" and A_const: "ConstBool b \<in> A r"
    and registrar_law: "n \<in> A (d_registrar s) \<Longrightarrow> hasLiteral s n \<Longrightarrow> cnf_runs Inv K R own s Fs {} (registrar env n)
      (\<lambda>own' s' x. atoms n \<subseteq> K (d_registrar s'))"
begin

lemma runs_return: "(st_ok Inv own s Fs \<Longrightarrow> Q own s x) \<Longrightarrow> cnf_runs Inv K R own s Fs {} (bb_return x) Q"
  unfolding cnf_runs_def bb_return_def using R_refl [of "d_registrar s"] by (auto intro!: exI [of _ own] exI [of _ "{}"] keeps_cover_same)

lemma runs_bind:
  assumes "cnf_runs Inv K R own s Fs H m P"
    and "\<And>own' s' Fs' x. st_ok Inv own' s' Fs' \<Longrightarrow> grows own s own' s' \<Longrightarrow> A (d_registrar s) \<subseteq> A (d_registrar s') \<Longrightarrow> P own' s' x \<Longrightarrow>
      cnf_runs Inv K R own' s' Fs' H' (k x) Q"
  shows "cnf_runs Inv K R own s Fs (H \<union> H') (bb_bind m k) Q"
  unfolding cnf_runs_def
proof
  assume "st_ok Inv own s Fs"
  with assms(1) obtain x s1 own1 G1 where 1: "m s = Some (Inr (x, s1))" "st_ok Inv own1 s1 (Fs \<union> G1 \<union> H)" "grows own s own1 s1"
    "R (d_registrar s) G1 (d_registrar s1)" "P own1 s1 x" "keeps_cover K s s1" by (auto simp: cnf_runs_def)
  from assms(2) [OF 1(2,3) A_mono [OF 1(4)] 1(5)] 1(2) obtain y s2 own2 G2 where
    2: "k x s1 = Some (Inr (y, s2))" "st_ok Inv own2 s2 (Fs \<union> G1 \<union> H \<union> G2 \<union> H')" "grows own1 s1 own2 s2"
    "R (d_registrar s1) G2 (d_registrar s2)" "Q own2 s2 y" "keeps_cover K s1 s2" by (auto simp: cnf_runs_def)
  have "Fs \<union> G1 \<union> H \<union> G2 \<union> H' = Fs \<union> (G1 \<union> G2) \<union> (H \<union> H')" by blast
  with 1 2 R_trans [OF 1(4) 2(4)] grows_trans [OF 1(3) 2(3)] keeps_cover_trans [OF 1(6) 2(6)]
  show "\<exists>x s' own' G. bb_bind m k s = Some (Inr (x, s')) \<and> st_ok Inv own' s' (Fs \<union> G \<union> (H \<union> H')) \<and> (grows own s own' s' \<and> keeps_cover K s s') \<and>
      R (d_registrar s) G (d_registrar s') \<and> Q own' s' x"
    by (intro exI [of _ y] exI [of _ s2] exI [of _ own2] exI [of _ "G1 \<union> G2"]) (simp add: bb_bind_def)
qed

lemma runs_bind0:
  assumes "cnf_runs Inv K R own s Fs {} m P"
    and "\<And>own' s' Fs' x. st_ok Inv own' s' Fs' \<Longrightarrow> grows own s own' s' \<Longrightarrow> A (d_registrar s) \<subseteq> A (d_registrar s') \<Longrightarrow> P own' s' x \<Longrightarrow>
      cnf_runs Inv K R own' s' Fs' H' (k x) Q"
  shows "cnf_runs Inv K R own s Fs H' (bb_bind m k) Q"
  using runs_bind [OF assms] by simp

subsection \<open>Clauses\<close>

text \<open>Asserting the clauses of a formula.\<close>

lemma runs_assertClauses:
  assumes "clause_vars cs \<subseteq> {..<d_numVars (d_satSolver s)}" "\<And>f. f \<in> H \<Longrightarrow> atoms f \<subseteq> dom (d_nodeToLiteralMap s)"
    and "\<And>\<alpha> f. st_ok Inv own s Fs \<Longrightarrow> sat_clauses \<alpha> (d_clauses (d_satSolver s)) \<Longrightarrow> sat_clauses \<alpha> cs \<Longrightarrow> f \<in> H \<Longrightarrow>
      sat_value (read_back \<alpha> (d_nodeToLiteralMap s)) f"
    and "\<And>\<beta>. (\<And>f. f \<in> H \<Longrightarrow> sat_value \<beta> f) \<Longrightarrow> sat_clauses (\<lambda>v. sat_value \<beta> (own v)) cs"
  shows "cnf_runs Inv K R own s Fs H (assertClauses cs) (\<lambda>own' s' x. True)"
  unfolding cnf_runs_def
proof
  let ?s = "s\<lparr>d_satSolver := (d_satSolver s)\<lparr>d_clauses := rev cs @ d_clauses (d_satSolver s)\<rparr>\<rparr>"
  assume st: "st_ok Inv own s Fs"
  then have "cnf_ok own (d_nodeToLiteralMap s) (d_satSolver s) Fs" by (simp add: st_ok_def)
  from add_clauses [OF this, of "rev cs" H] assms st
  have "cnf_ok own (d_nodeToLiteralMap s) ((d_satSolver s)\<lparr>d_clauses := rev cs @ d_clauses (d_satSolver s)\<rparr>) (Fs \<union> H)" by simp
  with st have "st_ok Inv own ?s (Fs \<union> {} \<union> H)" by (simp add: st_ok_def)
  moreover have "grows own s own ?s \<and> keeps_cover K s ?s" "R (d_registrar s) {} (d_registrar ?s)" by (simp_all add: grows_def R_refl keeps_cover_same)
  ultimately show "\<exists>x s' own' G. assertClauses cs s = Some (Inr (x, s')) \<and> st_ok Inv own' s' (Fs \<union> G \<union> H) \<and> (grows own s own' s' \<and> keeps_cover K s s') \<and>
      R (d_registrar s) G (d_registrar s') \<and> True"
    unfolding assertClauses_effect by blast
qed

text \<open>The literal of a connective, with the clauses that define it.\<close>

lemma runs_connective:
  assumes n: "n = App k ts" "connective k ts" "k \<noteq> NOT_K" and ls: "list_all2 (stands_for own s) ls ts"
    and vars: "\<And>l. clause_vars (C l) \<subseteq> insert (getSatVariable l) (getSatVariable ` set ls)"
    and C: "\<And>\<alpha> l. sat_clauses \<alpha> (C l) \<longleftrightarrow> lit_val \<alpha> l = truth (op_value k (map (\<lambda>l. VBool (lit_val \<alpha> l)) ls))"
  shows "cnf_runs Inv K R own s Fs {} (bb_bind (newLiteral env n False False) (\<lambda>l. bb_bind (assertClauses (C l)) (\<lambda>_. bb_return l)))
    (\<lambda>own' s' l. stands_for own' s' l n)"
  unfolding cnf_runs_def
proof
  assume st: "st_ok Inv own s Fs"
  let ?nm = "d_nodeToLiteralMap s" and ?sat = "d_satSolver s"
  from st have ok: "cnf_ok own ?nm ?sat Fs" and rest: "Inv (d_registrar s)" "\<not> d_removable s" by (simp_all add: st_ok_def)
  note I = cnf_okD [OF ok]
  have kind: "getKind n \<noteq> NOT_K" "getKind n \<noteq> CONST_BOOLEAN" using n by (auto simp: connective_def)
  have at: "atoms n \<subseteq> dom ?nm"
    using ls n(1,2) by (auto simp: list_all2_conv_all_nth in_set_conv_nth denotes_def subset_iff) blast
  have lv: "set (map getSatVariable ls) \<subseteq> {..<d_numVars ?sat}"
    using ls by (auto simp: list_all2_conv_all_nth in_set_conv_nth denotes_def)
  have val: "truth (op_value k (map (\<lambda>l. VBool (lit_val \<alpha> l)) ls)) = sat_value \<beta> n"
    if "\<And>v. v < d_numVars ?sat \<Longrightarrow> \<alpha> v = sat_value \<beta> (own v)" for \<alpha> \<beta>
  proof -
    have "map (\<lambda>l. VBool (lit_val \<alpha> l)) ls = map (\<lambda>t. VBool (sat_value \<beta> t)) ts"
      using ls that by (intro nth_equalityI) (auto simp: list_all2_conv_all_nth denotes_def lit_val_def)
    then show ?thesis using n by simp
  qed
  show "\<exists>x s' own' G. bb_bind (newLiteral env n False False) (\<lambda>l. bb_bind (assertClauses (C l)) (\<lambda>_. bb_return l)) s = Some (Inr (x, s')) \<and>
      st_ok Inv own' s' (Fs \<union> G \<union> {}) \<and> (grows own s own' s' \<and> keeps_cover K s s') \<and> R (d_registrar s) G (d_registrar s') \<and> stands_for own' s' x n"
  proof (cases "?nm n")
    case (Some l)
    from newLiteral_effect(1) [OF kind(1) Some] obtain lm where e: "newLiteral env n False False s = Some (Inr (l, s\<lparr>d_literalToNodeMap := lm\<rparr>))" by blast
    let ?s = "s\<lparr>d_literalToNodeMap := lm, d_satSolver := ?sat\<lparr>d_clauses := rev (C l) @ d_clauses ?sat\<rparr>\<rparr>"
    have l: "denotes own ?nm (d_numVars ?sat) l n" by (rule I(4) [OF Some])
    have "cnf_ok own ?nm (?sat\<lparr>d_clauses := rev (C l) @ d_clauses ?sat\<rparr>) (Fs \<union> {})"
    proof (rule add_clauses [OF ok])
      show "clause_vars (rev (C l)) \<subseteq> {..<d_numVars ?sat}" using vars [of l] lv l by (auto simp: denotes_def)
      show "sat_clauses (\<lambda>v. sat_value \<beta> (own v)) (rev (C l))" for \<beta>
        using val [of "\<lambda>v. sat_value \<beta> (own v)" \<beta>] l by (simp add: C denotes_def lit_val_def)
    qed auto
    then have "st_ok Inv own ?s (Fs \<union> {} \<union> {})" using rest by (simp add: st_ok_def)
    moreover have "grows own s own ?s \<and> keeps_cover K s ?s" "R (d_registrar s) {} (d_registrar ?s)" "stands_for own ?s l n"
      using l by (simp_all add: grows_def R_refl keeps_cover_same)
    moreover have "bb_bind (newLiteral env n False False) (\<lambda>l. bb_bind (assertClauses (C l)) (\<lambda>_. bb_return l)) s = Some (Inr (l, ?s))"
      by (simp add: bb_bind_def e assertClauses_effect bb_return_def)
    ultimately show ?thesis by blast
  next
    case None
    let ?N = "d_numVars ?sat"
    let ?l = "mkLiteral ?N False"
    let ?nm' = "?nm(n \<mapsto> ?l, notNode n \<mapsto> lit_not ?l)"
    have nn: "?nm (notNode n) = None" by (rule I(5) [OF None])
    from newLiteral_effect(2) [OF kind(1) None freshLiteral_effect(1) [OF None nn kind(2)], of env False]
    obtain lm where e: "newLiteral env n False False s = Some (Inr (?l, s\<lparr>d_satSolver := ?sat\<lparr>d_numVars := Suc ?N\<rparr>, d_nodeToLiteralMap := ?nm', d_literalToNodeMap := lm\<rparr>))"
      by auto
    let ?s = "s\<lparr>d_satSolver := ?sat\<lparr>d_numVars := Suc ?N, d_clauses := rev (C ?l) @ d_clauses ?sat\<rparr>, d_nodeToLiteralMap := ?nm', d_literalToNodeMap := lm\<rparr>"
    have le: "?nm \<subseteq>\<^sub>m ?nm'" by (rule map_add_literal [OF None nn])
    have "cnf_ok (own(?N := n)) ?nm' (?sat\<lparr>d_numVars := Suc ?N, d_clauses := rev (C ?l) @ d_clauses ?sat\<rparr>) Fs"
    proof (rule add_node [OF ok None kind(1)])
      show "atoms n \<subseteq> insert n (dom ?nm)" using at by blast
      show "clause_vars (rev (C ?l)) \<subseteq> {..?N}" using vars [of ?l] lv by force
      show "\<alpha> ?N = sat_value (read_back \<alpha> ?nm') n" if "sat_clauses \<alpha> (d_clauses ?sat)" "sat_clauses \<alpha> (rev (C ?l))" for \<alpha>
        using that(2) val [of \<alpha> "read_back \<alpha> ?nm"] I(9) [OF that(1)] by (simp add: C read_back_extend [OF le at])
      show "sat_clauses \<alpha> (rev (C ?l))" if "\<And>v. v < ?N \<Longrightarrow> \<alpha> v = sat_value \<beta> (own v)" "\<alpha> ?N = sat_value \<beta> n" for \<beta> \<alpha>
        using val [OF that(1)] that(2) by (simp add: C)
    qed
    then have "st_ok Inv (own(?N := n)) ?s (Fs \<union> {} \<union> {})" using rest by (simp add: st_ok_def)
    moreover have "atoms n \<noteq> {n}" using at None by auto
    then have "grows own s (own(?N := n)) ?s \<and> keeps_cover K s ?s" "R (d_registrar s) {} (d_registrar ?s)"
      using le by (auto simp: grows_def R_refl intro!: keeps_cover_literal [where n = n])
    moreover have "stands_for (own(?N := n)) ?s ?l n" using order_trans [OF at map_le_implies_dom_le [OF le]] by (simp add: denotes_def)
    moreover have "bb_bind (newLiteral env n False False) (\<lambda>l. bb_bind (assertClauses (C l)) (\<lambda>_. bb_return l)) s = Some (Inr (?l, ?s))"
      by (simp add: bb_bind_def e assertClauses_effect bb_return_def)
    ultimately show ?thesis by blast
  qed
qed

end

lemma lit_not_lit_not [simp]: "lit_not (lit_not l) = l"
proof (cases l)
  case (fields v)
  then show ?thesis by (cases "even v") (auto simp: lit_not_def mkLiteral_def getSatVariable_def isNegated_def elim!: evenE oddE)
qed

text \<open>The atoms that the registrar accepts; Boolean variables are not registered.\<close>

definition known :: "('r \<Rightarrow> node set) \<Rightarrow> 'r \<Rightarrow> node \<Rightarrow> bool" where
  "known A r n \<longleftrightarrow> atoms n \<subseteq> A r \<union> range (\<lambda>v. Var v BooleanType)"

text \<open>A computation of a literal for the formula \<open>u\<close> that registers the atoms of \<open>t\<close>.\<close>

definition converts :: "('r \<Rightarrow> bool) \<Rightarrow> ('r \<Rightarrow> node set) \<Rightarrow> ('r \<Rightarrow> node set) \<Rightarrow> ('r \<Rightarrow> node set \<Rightarrow> 'r \<Rightarrow> bool) \<Rightarrow> ('r, SatLiteral) cnf_call \<Rightarrow> node \<Rightarrow> node \<Rightarrow> bool" where
  "converts Inv A K R m t u \<longleftrightarrow> (\<forall>own s Fs. known A (d_registrar s) t \<longrightarrow> cnf_runs Inv K R own s Fs {} m (\<lambda>own' s' l. stands_for own' s' l u))"

lemma known_mono: "known A r n \<Longrightarrow> A r \<subseteq> A r' \<Longrightarrow> known A r' n"
  by (auto simp: known_def)

lemma known_children: "known A r (App k ts) \<Longrightarrow> connective k ts \<Longrightarrow> t \<in> set ts \<Longrightarrow> known A r t"
  by (auto simp: known_def)

lemma assert_step: "c \<Longrightarrow> bb_bind (bb_assert c) k s = k () s"
  by (simp add: bb_bind_def bb_assert_def bb_lift_def)

context cnf_registrar
begin

subsection \<open>Atoms\<close>

lemma newAtom:
  assumes n: "(\<exists>b. n = ConstBool b) \<or> atoms n = {n} \<and> getKind n \<noteq> CONST_BOOLEAN \<and> getKind n \<noteq> NOT_K"
    and st: "st_ok Inv own s Fs"
  shows "\<exists>x s' own'. newLiteral env n th False s = Some (Inr (x, s')) \<and> st_ok Inv own' s' Fs \<and> grows own s own' s' \<and> d_registrar s' = d_registrar s \<and>
    dom (d_nodeToLiteralMap s') \<subseteq> {n, notNode n} \<union> dom (d_nodeToLiteralMap s) \<and> stands_for own' s' x n \<and> hasLiteral s' n"
proof -
  let ?nm = "d_nodeToLiteralMap s" and ?sat = "d_satSolver s"
  from st have ok: "cnf_ok own ?nm ?sat Fs" and rest: "Inv (d_registrar s)" "\<not> d_removable s" by (simp_all add: st_ok_def)
  note I = cnf_okD [OF ok]
  have kind: "getKind n \<noteq> NOT_K" using n by auto
  show ?thesis
  proof (cases "?nm n")
    case (Some l)
    from newLiteral_effect(1) [OF kind Some] obtain lm where e: "newLiteral env n th False s = Some (Inr (l, s\<lparr>d_literalToNodeMap := lm\<rparr>))" by blast
    have "st_ok Inv own (s\<lparr>d_literalToNodeMap := lm\<rparr>) Fs" "grows own s own (s\<lparr>d_literalToNodeMap := lm\<rparr>)"
      using st by (simp_all add: st_ok_def grows_def)
    moreover have "stands_for own s l n" by (rule I(4) [OF Some])
    ultimately show ?thesis using e Some
      by (intro exI [of _ l] exI [of _ "s\<lparr>d_literalToNodeMap := lm\<rparr>"] exI [of _ own]) (auto simp: hasLiteral_def)
  next
    case None
    have nn: "?nm (notNode n) = None" by (rule I(5) [OF None])
    show ?thesis
    proof (cases "getKind n = CONST_BOOLEAN")
      case True
      with n obtain b where b: "n = ConstBool b" by (cases n) (auto simp: connective_def)
      let ?l = "mkLiteral (if b then trueVar else falseVar) False"
      let ?nm' = "?nm(n \<mapsto> ?l, notNode n \<mapsto> lit_not ?l)"
      from newLiteral_effect(2) [OF kind None freshLiteral_effect(2) [OF None nn b], of env th] obtain lm where
        e: "newLiteral env n th False s = Some (Inr (?l, s\<lparr>d_nodeToLiteralMap := ?nm', d_literalToNodeMap := lm\<rparr>))" by auto
      let ?s = "s\<lparr>d_nodeToLiteralMap := ?nm', d_literalToNodeMap := lm\<rparr>"
      have le: "?nm \<subseteq>\<^sub>m ?nm'" by (rule map_add_literal [OF None nn])
      note dom = map_le_implies_dom_le [OF le]
      have l: "denotes own ?nm' (d_numVars ?sat) ?l n"
        using I(1-3) b by (simp add: denotes_def trueVar_def falseVar_def)
      have "cnf_ok own ?nm' ?sat Fs"
      proof (rule cnf_okI)
        show "denotes own ?nm' (d_numVars ?sat) l' x" if "?nm' x = Some l'" for x l'
        proof (cases "x = n \<or> x = notNode n")
          case True
          with that l show ?thesis by auto
        next
          case False
          with that I(4) [of x l'] show ?thesis using order_trans [OF _ dom, of "atoms x"] by (simp add: denotes_def)
        qed
        show "?nm' (notNode x) = None" if "?nm' x = None" for x
          using that I(5) [of x] kind by (auto simp: notNode_def split: if_splits)
        show "atoms (own v) \<subseteq> dom ?nm'" if "v < d_numVars ?sat" for v using order_trans [OF I(6) [OF that] dom] .
        show "atoms f \<subseteq> dom ?nm'" if "f \<in> Fs" for f using order_trans [OF I(8) [OF that] dom] .
        show "sat_value (read_back \<alpha> ?nm') (own v) = \<alpha> v" if "sat_clauses \<alpha> (d_clauses ?sat)" "v < d_numVars ?sat" for \<alpha> v
          using I(9) [OF that] read_back_extend [OF le I(6) [OF that(2)]] by simp
        show "sat_value (read_back \<alpha> ?nm') f" if "sat_clauses \<alpha> (d_clauses ?sat)" "f \<in> Fs" for \<alpha> f
          using I(10) [OF that] read_back_extend [OF le I(8) [OF that(2)]] by simp
      qed (use I in auto)
      then have "st_ok Inv own ?s Fs" using rest by (simp add: st_ok_def)
      moreover have "grows own s own ?s" "hasLiteral ?s n" using le by (simp_all add: grows_def hasLiteral_def)
      ultimately show ?thesis using e l
        by (intro exI [of _ ?l] exI [of _ ?s] exI [of _ own]) auto
    next
      case False
      with n have at: "atoms n = {n}" by auto
      let ?N = "d_numVars ?sat"
      let ?l = "mkLiteral ?N False"
      let ?nm' = "?nm(n \<mapsto> ?l, notNode n \<mapsto> lit_not ?l)"
      from newLiteral_effect(2) [OF kind None freshLiteral_effect(1) [OF None nn False], of env th] obtain lm where
        e: "newLiteral env n th False s = Some (Inr (?l, s\<lparr>d_satSolver := ?sat\<lparr>d_numVars := Suc ?N\<rparr>, d_nodeToLiteralMap := ?nm', d_literalToNodeMap := lm\<rparr>))"
        by auto
      let ?s = "s\<lparr>d_satSolver := ?sat\<lparr>d_numVars := Suc ?N\<rparr>, d_nodeToLiteralMap := ?nm', d_literalToNodeMap := lm\<rparr>"
      have le: "?nm \<subseteq>\<^sub>m ?nm'" by (rule map_add_literal [OF None nn])
      have "cnf_ok (own(?N := n)) ?nm' (?sat\<lparr>d_numVars := Suc ?N, d_clauses := [] @ d_clauses ?sat\<rparr>) Fs"
        by (rule add_node [OF ok None kind]) (simp_all add: at sat_value_atom read_back_def)
      then have "st_ok Inv (own(?N := n)) ?s Fs" using rest by (simp add: st_ok_def)
      moreover have "grows own s (own(?N := n)) ?s" "hasLiteral ?s n" "stands_for (own(?N := n)) ?s ?l n"
        using le by (simp_all add: grows_def hasLiteral_def denotes_def at)
      ultimately show ?thesis using e
        by (intro exI [of _ ?l] exI [of _ ?s] exI [of _ "own(?N := n)"]) auto
    qed
  qed
qed

lemma runs_call_registrar:
  assumes "n \<in> A (d_registrar s)" "hasLiteral s n"
  shows "cnf_runs Inv K R own s Fs {} (call_registrar env n) (\<lambda>own' s' x. atoms n \<subseteq> K (d_registrar s'))"
  unfolding cnf_runs_def
proof
  assume st: "st_ok Inv own s Fs"
  with registrar_law [OF assms, of own Fs] obtain s' own' G where
    r: "registrar env n s = Some (Inr ((), s'))" "st_ok Inv own' s' (Fs \<union> G \<union> {})" "grows own s own' s' \<and> keeps_cover K s s'"
    "R (d_registrar s) G (d_registrar s')" "atoms n \<subseteq> K (d_registrar s')"
    by (auto simp: cnf_runs_def)
  have "call_registrar env n s = Some (Inr ((), s'\<lparr>d_removable := False\<rparr>))" using st r(1) by (simp add: call_registrar_def bb_bind_def st_ok_def)
  moreover have "s'\<lparr>d_removable := False\<rparr> = s'" using r(2) by (cases s') (simp add: st_ok_def)
  ultimately show "\<exists>x s' own' G. call_registrar env n s = Some (Inr (x, s')) \<and> st_ok Inv own' s' (Fs \<union> G \<union> {}) \<and>
      (grows own s own' s' \<and> keeps_cover K s s') \<and> R (d_registrar s) G (d_registrar s') \<and> atoms n \<subseteq> K (d_registrar s')"
    using r by auto
qed

lemma runs_convertAtom:
  assumes n: "(\<exists>b. n = ConstBool b) \<or> atoms n = {n} \<and> getKind n \<noteq> CONST_BOOLEAN \<and> getKind n \<noteq> NOT_K" and new: "\<not> hasLiteral s n"
    and "known A (d_registrar s) n" "typeOf n = Some BooleanType"
  shows "cnf_runs Inv K R own s Fs {} (convertAtom env n False) (\<lambda>own' s' l. stands_for own' s' l n)"
  unfolding cnf_runs_def
proof
  assume st: "st_ok Inv own s Fs"
  show "\<exists>x s' own' G. convertAtom env n False s = Some (Inr (x, s')) \<and> st_ok Inv own' s' (Fs \<union> G \<union> {}) \<and>
      (grows own s own' s' \<and> keeps_cover K s s') \<and> R (d_registrar s) G (d_registrar s') \<and> stands_for own' s' x n"
  proof (cases "isVar n")
    case True
    let ?s = "s\<lparr>d_booleanVariables := d_booleanVariables s @ [n]\<rparr>"
    have "st_ok Inv own ?s Fs" using st by (simp add: st_ok_def)
    from newAtom [OF n this, of False] obtain x s' own' where e: "newLiteral env n False False ?s = Some (Inr (x, s'))" "st_ok Inv own' s' Fs"
      "grows own ?s own' s'" "d_registrar s' = d_registrar s" "dom (d_nodeToLiteralMap s') \<subseteq> {n, notNode n} \<union> dom (d_nodeToLiteralMap s)"
      "stands_for own' s' x n" by auto
    have "convertAtom env n False s = newLiteral env n False False ?s"
      unfolding convertAtom_def assert_step [OF new] using True by (simp add: addBooleanVariable_def bb_bind_def)
    moreover have "keeps_cover K s s'"
      by (rule keeps_cover_literal [OF e(5)]) (use True assms(4) e(4) in \<open>cases n; auto simp: isVar_def split: if_splits\<close>)+
    moreover have "grows own s own' s'" using e(3) by (simp add: grows_def)
    ultimately show ?thesis using e R_refl [of "d_registrar s"] by (intro exI [of _ x] exI [of _ s'] exI [of _ own'] exI [of _ "{}"]) simp
  next
    case False
    from newAtom [OF n st, of True] obtain x s1 own1 where e: "newLiteral env n True False s = Some (Inr (x, s1))" "st_ok Inv own1 s1 Fs"
      "grows own s own1 s1" "d_registrar s1 = d_registrar s" "dom (d_nodeToLiteralMap s1) \<subseteq> {n, notNode n} \<union> dom (d_nodeToLiteralMap s)"
      "stands_for own1 s1 x n" "hasLiteral s1 n" by auto
    have "n \<in> A (d_registrar s1)"
    proof (cases "getKind n = CONST_BOOLEAN")
      case True
      with n have "\<exists>b. n = ConstBool b" by (cases n) (auto simp: connective_def)
      then show ?thesis using A_const by auto
    next
      case F: False
      with n have "atoms n = {n}" by auto
      with assms(3) have "n \<in> A (d_registrar s) \<union> range (\<lambda>v. Var v BooleanType)" unfolding known_def by blast
      with False e(4) show ?thesis by (auto simp: isVar_def)
    qed
    from runs_call_registrar [OF this e(7), of own1 Fs] e(2) obtain s2 own2 G where r: "call_registrar env n s1 = Some (Inr ((), s2))"
      "st_ok Inv own2 s2 (Fs \<union> G \<union> {})" "grows own1 s1 own2 s2" "keeps_cover K s1 s2" "R (d_registrar s1) G (d_registrar s2)"
      "atoms n \<subseteq> K (d_registrar s2)" by (auto simp: cnf_runs_def)
    have "convertAtom env n False s = Some (Inr (x, s2))"
      unfolding convertAtom_def assert_step [OF new] using False by (simp add: newLiteral_split bb_bind_def e(1) r(1) bb_return_def)
    moreover have "keeps_cover K s s2" by (rule keeps_cover_register [OF e(5,4) r(4,6)])
    moreover have "stands_for own2 s2 x n" by (rule denotes_grows [OF e(6) r(3)])
    ultimately show ?thesis using r e(4) grows_trans [OF e(3) r(3)]
      by (intro exI [of _ x] exI [of _ s2] exI [of _ own2] exI [of _ G]) simp
  qed
qed

end

context cnf_registrar
begin

subsection \<open>Connectives\<close>

lemma converts_runs: "converts Inv A K R m t u \<Longrightarrow> known A (d_registrar s) t \<Longrightarrow> cnf_runs Inv K R own s Fs {} m (\<lambda>own' s' l. stands_for own' s' l u)"
  by (simp add: converts_def)

lemma runs_two:
  assumes "converts Inv A K R m0 t0 u0" "converts Inv A K R m1 t1 u1" "known A (d_registrar s) t0" "known A (d_registrar s) t1"
    and "\<And>own' s' Fs' a b. stands_for own' s' a u0 \<Longrightarrow> stands_for own' s' b u1 \<Longrightarrow> grows own s own' s' \<Longrightarrow> A (d_registrar s) \<subseteq> A (d_registrar s') \<Longrightarrow>
      cnf_runs Inv K R own' s' Fs' H (M a b) Q"
  shows "cnf_runs Inv K R own s Fs H (bb_bind m0 (\<lambda>a. bb_bind m1 (\<lambda>b. M a b))) Q"
proof (rule runs_bind0 [OF converts_runs [OF assms(1,3)]])
  fix own1 s1 Fs1 a assume 1: "grows own s own1 s1" "A (d_registrar s) \<subseteq> A (d_registrar s1)" "stands_for own1 s1 a u0"
  show "cnf_runs Inv K R own1 s1 Fs1 H (bb_bind m1 (\<lambda>b. M a b)) Q"
  proof (rule runs_bind0 [OF converts_runs [OF assms(2) known_mono [OF assms(4) 1(2)]]])
    fix own2 s2 Fs2 b assume 2: "grows own1 s1 own2 s2" "A (d_registrar s1) \<subseteq> A (d_registrar s2)" "stands_for own2 s2 b u1"
    show "cnf_runs Inv K R own2 s2 Fs2 H (M a b) Q"
      by (rule assms(5)) (use 1 2 in \<open>blast intro: denotes_grows grows_trans order_trans\<close>)+
  qed
qed

lemma runs_all:
  assumes "list_all2 (\<lambda>m t. converts Inv A K R m t (u t)) ms ts" "\<And>t. t \<in> set ts \<Longrightarrow> known A (d_registrar s) t"
  shows "cnf_runs Inv K R own s Fs {} (run_all ms) (\<lambda>own' s' ls. list_all2 (stands_for own' s') ls (map u ts))"
  using assms
proof (induction ms ts arbitrary: own s Fs rule: list_all2_induct)
  case Nil
  then show ?case by (auto intro: runs_return)
next
  case (Cons m ms t ts)
  show ?case unfolding run_all.simps
  proof (rule runs_bind0 [OF converts_runs [OF Cons.hyps(1)]])
    fix own1 s1 Fs1 a assume 1: "grows own s own1 s1" "A (d_registrar s) \<subseteq> A (d_registrar s1)" "stands_for own1 s1 a (u t)"
    have "\<And>t. t \<in> set ts \<Longrightarrow> known A (d_registrar s1) t" using Cons.prems 1(2) by (meson known_mono list.set_intros(2))
    note IH = Cons.IH [OF this, of own1 Fs1]
    show "cnf_runs Inv K R own1 s1 Fs1 {} (bb_bind (run_all ms) (\<lambda>xs. bb_return (a # xs))) (\<lambda>own' s' ls. list_all2 (stands_for own' s') ls (map u (t # ts)))"
      by (rule runs_bind0 [OF IH]) (use 1 in \<open>auto intro!: runs_return intro: denotes_grows\<close>)
  qed (use Cons.prems in simp)
qed

lemma runs_asserts:
  assumes "\<not> hasLiteral s n" "getKind n = k" "ar" "cnf_runs Inv K R own s Fs H (M ()) Q"
  shows "cnf_runs Inv K R own s Fs H (bb_bind (handler_asserts n k ar) M) Q"
  by (rule cnf_runs_cong [OF _ assms(4)]) (use assms in \<open>simp add: handler_asserts_def bb_bind_def bb_assert_def bb_lift_def st_ok_def\<close>)

lemma map2_cases: "list_all2 P ls [x, y] \<longleftrightarrow> (\<exists>a b. ls = [a, b] \<and> P a x \<and> P b y)"
  by (auto simp: list_all2_Cons2)

lemma binary_handlers:
  assumes "\<not> hasLiteral s n" "known A (d_registrar s) n" "connective k [t0, t1]" "n = App k [t0, t1]"
    and cs: "converts Inv A K R (c0 False) t0 t0" "converts Inv A K R (c1 False) t1 t1"
  shows "k = XOR_K \<Longrightarrow> cnf_runs Inv K R own s Fs {} (handleXor env n [c0, c1]) (\<lambda>own' s' l. stands_for own' s' l n)"
    "k = IMPLIES \<Longrightarrow> cnf_runs Inv K R own s Fs {} (handleImplies env n [c0, c1]) (\<lambda>own' s' l. stands_for own' s' l n)"
    "k = EQUAL \<Longrightarrow> cnf_runs Inv K R own s Fs {} (handleIff env n [c0, c1]) (\<lambda>own' s' l. stands_for own' s' l n)"
proof -
  have second: "[c0, c1] ! 0 = c0" "[c0, c1] ! 1 = c1" by simp_all
  have kn: "known A (d_registrar s) t0" "known A (d_registrar s) t1" using known_children [OF _ assms(3), of A "d_registrar s"] assms(2,4) by auto
  have main: "cnf_runs Inv K R own s Fs {} (bb_bind (c0 False) (\<lambda>a. bb_bind (c1 False) (\<lambda>b. bb_bind (newLiteral env n False False)
      (\<lambda>l. bb_bind (assertClauses (C a b l)) (\<lambda>_. bb_return l))))) (\<lambda>own' s' l. stands_for own' s' l n)"
    if "k \<noteq> NOT_K" "\<And>a b l. clause_vars (C a b l) \<subseteq> {getSatVariable l, getSatVariable a, getSatVariable b}"
      "\<And>\<alpha> a b l. sat_clauses \<alpha> (C a b l) \<longleftrightarrow> lit_val \<alpha> l = truth (op_value k [VBool (lit_val \<alpha> a), VBool (lit_val \<alpha> b)])" for C
  proof (rule runs_two [OF cs kn])
    fix own' Fs' a b and s' :: "'r CnfStream" assume "stands_for own' s' a t0" "stands_for own' s' b t1"
    then have l: "list_all2 (stands_for own' s') [a, b] [t0, t1]" by simp
    have "clause_vars (C a b l) \<subseteq> insert (getSatVariable l) (getSatVariable ` set [a, b])" for l using that(2) [of a b l] by simp
    then show "cnf_runs Inv K R own' s' Fs' {} (bb_bind (newLiteral env n False False) (\<lambda>l. bb_bind (assertClauses (C a b l)) (\<lambda>_. bb_return l)))
      (\<lambda>own' s' l. stands_for own' s' l n)"
      by (rule runs_connective [OF assms(4,3) that(1) l]) (simp add: that(3))
  qed
  show "k = XOR_K \<Longrightarrow> cnf_runs Inv K R own s Fs {} (handleXor env n [c0, c1]) (\<lambda>own' s' l. stands_for own' s' l n)"
    unfolding handleXor_def second by (rule runs_asserts [OF assms(1)]; (rule main)?) (auto simp: assms(4) getNumChildren_def)
  show "k = IMPLIES \<Longrightarrow> cnf_runs Inv K R own s Fs {} (handleImplies env n [c0, c1]) (\<lambda>own' s' l. stands_for own' s' l n)"
    unfolding handleImplies_def second by (rule runs_asserts [OF assms(1)]; (rule main)?) (auto simp: assms(4) getNumChildren_def)
  show "k = EQUAL \<Longrightarrow> cnf_runs Inv K R own s Fs {} (handleIff env n [c0, c1]) (\<lambda>own' s' l. stands_for own' s' l n)"
    unfolding handleIff_def second by (rule runs_asserts [OF assms(1)]; (rule main)?) (auto simp: assms(4) getNumChildren_def)
qed

lemma handleIte:
  assumes "\<not> hasLiteral s n" "known A (d_registrar s) n" "connective ITE [t0, t1, t2]" "n = App ITE [t0, t1, t2]"
    and cs: "converts Inv A K R (c0 False) t0 t0" "converts Inv A K R (c1 False) t1 t1" "converts Inv A K R (c2 False) t2 t2"
  shows "cnf_runs Inv K R own s Fs {} (handleIte env n [c0, c1, c2]) (\<lambda>own' s' l. stands_for own' s' l n)"
proof -
  have kn: "known A (d_registrar s) t0" "known A (d_registrar s) t1" "known A (d_registrar s) t2"
    using known_children [OF _ assms(3), of A "d_registrar s"] assms(2,4) by auto
  let ?C = "\<lambda>c t e l. [[lit_not l, t, e], [lit_not l, lit_not c, t], [lit_not l, c, e], [l, lit_not t, lit_not e], [l, lit_not c, lit_not t], [l, c, lit_not e]]"
  have "cnf_runs Inv K R own s Fs {} (bb_bind (c0 False) (\<lambda>c. bb_bind (c1 False) (\<lambda>t. bb_bind (c2 False) (\<lambda>e. bb_bind (newLiteral env n False False)
      (\<lambda>l. bb_bind (assertClauses (?C c t e l)) (\<lambda>_. bb_return l)))))) (\<lambda>own' s' l. stands_for own' s' l n)"
  proof (rule runs_two [OF cs(1,2) kn(1,2)])
    fix own1 s1 Fs1 c t assume 1: "stands_for own1 s1 c t0" "stands_for own1 s1 t t1" "A (d_registrar s) \<subseteq> A (d_registrar s1)"
    show "cnf_runs Inv K R own1 s1 Fs1 {} (bb_bind (c2 False) (\<lambda>e. bb_bind (newLiteral env n False False)
      (\<lambda>l. bb_bind (assertClauses (?C c t e l)) (\<lambda>_. bb_return l)))) (\<lambda>own' s' l. stands_for own' s' l n)"
    proof (rule runs_bind0 [OF converts_runs [OF cs(3) known_mono [OF kn(3) 1(3)]]])
      fix own2 s2 Fs2 e assume 2: "grows own1 s1 own2 s2" "stands_for own2 s2 e t2"
      have l: "list_all2 (stands_for own2 s2) [c, t, e] [t0, t1, t2]" using 1 2 by (auto intro: denotes_grows)
      show "cnf_runs Inv K R own2 s2 Fs2 {} (bb_bind (newLiteral env n False False) (\<lambda>l. bb_bind (assertClauses (?C c t e l)) (\<lambda>_. bb_return l)))
        (\<lambda>own' s' l. stands_for own' s' l n)"
        by (rule runs_connective [OF assms(4,3) _ l]) auto
    qed
  qed
  then show ?thesis unfolding handleIte_def by (intro runs_asserts [OF assms(1)]) (simp_all add: assms(4) getNumChildren_def)
qed

lemma stands_for_notNode: "denotes own nm nv l (notNode t) \<longleftrightarrow> denotes own nm nv (lit_not l) t"
  using denotes_notNode [of own nm nv "lit_not l" t] by simp

lemma clause_vars_map: "clause_vars (map (\<lambda>l. [x, lit_not l]) ls) \<subseteq> insert (getSatVariable x) (getSatVariable ` set ls)"
  by (auto simp: clause_vars_def)

lemma sat_clauses_map: "sat_clauses \<alpha> (map (\<lambda>l. [x, lit_not l]) ls) \<longleftrightarrow> lit_val \<alpha> x \<or> (\<forall>l\<in>set ls. \<not> lit_val \<alpha> l)"
  by (auto simp: sat_clauses_def)

lemma nary_handlers:
  assumes "\<not> hasLiteral s n" "known A (d_registrar s) n" "connective k ts" "n = App k ts" "1 < length ts"
    and cs: "list_all2 (\<lambda>c t. converts Inv A K R (c False) t t) cs ts"
  shows "k = OR_K \<Longrightarrow> cnf_runs Inv K R own s Fs {} (handleOr env n cs) (\<lambda>own' s' l. stands_for own' s' l n)"
    "k = AND_K \<Longrightarrow> cnf_runs Inv K R own s Fs {} (handleAnd env n cs) (\<lambda>own' s' l. stands_for own' s' l n)"
proof -
  have kn: "\<And>t. t \<in> set ts \<Longrightarrow> known A (d_registrar s) t" using known_children [OF _ assms(3), of A "d_registrar s"] assms(2,4) by auto
  show "cnf_runs Inv K R own s Fs {} (handleOr env n cs) (\<lambda>own' s' l. stands_for own' s' l n)" if k: "k = OR_K"
  proof -
    have "list_all2 (\<lambda>m t. converts Inv A K R m t t) (map (\<lambda>c. c False) cs) ts" using cs by (simp add: list_all2_map1)
    note all = runs_all [OF this kn, of own Fs]
    show ?thesis unfolding handleOr_def assertClauses_append
    proof (rule runs_asserts [OF assms(1)], goal_cases)
      case 3
      show ?case
      proof (rule runs_bind0 [OF all])
        fix own' Fs' ls and s' :: "'r CnfStream" assume "list_all2 (stands_for own' s') ls (map (\<lambda>t. t) ts)"
        then have ls: "list_all2 (stands_for own' s') ls ts" by simp
        show "cnf_runs Inv K R own' s' Fs' {} (bb_bind (newLiteral env n False False) (\<lambda>orLit. bb_bind (assertClauses (map (\<lambda>l. [orLit, lit_not l]) ls @
          [ls @ [lit_not orLit]])) (\<lambda>_. bb_return orLit))) (\<lambda>own' s' l. stands_for own' s' l n)"
          by (rule runs_connective [OF assms(4,3) _ ls]) (use k clause_vars_map in \<open>auto simp: sat_clauses_map\<close>)
      qed
    qed (use k assms(4,5) in \<open>simp_all add: getNumChildren_def\<close>)
  qed
  show "cnf_runs Inv K R own s Fs {} (handleAnd env n cs) (\<lambda>own' s' l. stands_for own' s' l n)" if k: "k = AND_K"
  proof -
    have neg: "converts Inv A K R (bb_bind (c False) (\<lambda>l. bb_return (lit_not l))) t (notNode t)" if "converts Inv A K R (c False) t t" for c t
      unfolding converts_def using that by (auto simp: converts_def intro!: runs_bind0 [where H' = "{}"] runs_return)
    have "list_all2 (\<lambda>m t. converts Inv A K R m t (notNode t)) (map (\<lambda>c. bb_bind (c False) (\<lambda>l. bb_return (lit_not l))) cs) ts"
      using cs neg by (simp add: list_all2_map1 list_all2_conv_all_nth)
    note all = runs_all [OF this kn, of own Fs]
    show ?thesis unfolding handleAnd_def assertClauses_append
    proof (rule runs_asserts [OF assms(1)], goal_cases)
      case 3
      show ?case
      proof (rule runs_bind0 [OF all])
        fix own' Fs' ls and s' :: "'r CnfStream" assume "list_all2 (stands_for own' s') ls (map notNode ts)"
        then have ls: "list_all2 (stands_for own' s') (map lit_not ls) ts"
          by (auto simp: list_all2_conv_all_nth stands_for_notNode)
        show "cnf_runs Inv K R own' s' Fs' {} (bb_bind (newLiteral env n False False) (\<lambda>andLit. bb_bind (assertClauses (map (\<lambda>l. [lit_not andLit, lit_not l]) ls @
          [ls @ [andLit]])) (\<lambda>_. bb_return andLit))) (\<lambda>own' s' l. stands_for own' s' l n)"
          by (rule runs_connective [OF assms(4,3) _ ls]) (use k clause_vars_map [of "lit_not _"] in \<open>auto simp: sat_clauses_map image_image\<close>)
      qed
    qed (use k assms(4,5) in \<open>simp_all add: getNumChildren_def\<close>)
  qed
qed

lemma runs_translated:
  assumes "\<not> hasLiteral s n \<Longrightarrow> cnf_runs Inv K R own s Fs {} m (\<lambda>own' s' l. stands_for own' s' l n)"
  shows "cnf_runs Inv K R own s Fs {} (translated n m negated) (\<lambda>own' s' l. stands_for own' s' l (if negated then notNode n else n))"
  unfolding translated_def
proof (rule runs_bind0)
  show "cnf_runs Inv K R own s Fs {} (\<lambda>s. if hasLiteral s n then getLiteral n s else m s) (\<lambda>own' s' l. stands_for own' s' l n)"
  proof (cases "d_nodeToLiteralMap s n")
    case None
    then have "\<not> hasLiteral s n" by (simp add: hasLiteral_def)
    then show ?thesis by (intro cnf_runs_cong [OF _ assms]) simp_all
  next
    case (Some l)
    have "cnf_runs Inv K R own s Fs {} (bb_return l) (\<lambda>own' s' l. stands_for own' s' l n)"
    proof (rule runs_return)
      assume "st_ok Inv own s Fs"
      then show "stands_for own s l n" using cnf_okD(4) [where nm = "d_nodeToLiteralMap s" and n = n and l = l] Some by (auto simp: st_ok_def)
    qed
    then show ?thesis by (rule cnf_runs_cong [rotated]) (simp add: Some hasLiteral_def getLiteral_effect bb_return_def)
  qed
qed (auto intro!: runs_return simp: negateIf_def)

end

subsection \<open>Formulas\<close>

text \<open>The children of a typed Boolean node.\<close>

lemma boolean_children:
  assumes "typeOf (App k ts) = Some BooleanType"
  shows "k = NOT_K \<Longrightarrow> \<exists>t. ts = [t]" "k = XOR_K \<or> k = IMPLIES \<or> k = EQUAL \<Longrightarrow> \<exists>t0 t1. ts = [t0, t1]"
    "k = ITE \<Longrightarrow> \<exists>t0 t1 t2. ts = [t0, t1, t2] \<and> typeOf t1 = Some BooleanType" "k = OR_K \<or> k = AND_K \<Longrightarrow> 1 < length ts"
  using assms by (auto simp: IteTypeRule_def leastCommonTypeNode_def numeral_eq_Suc length_Suc_conv split: if_splits)

lemma toCNF_atom:
  assumes "\<not> connective k ts"
  shows "toCNF env (App k ts) = translated (App k ts) (convertAtom env (App k ts) False) \<or> k = ITE"
  using assms by (cases k) (auto simp: connective_def Let_def)

context cnf_registrar
begin

lemma toCNF_converts:
  "typeOf n = Some BooleanType \<Longrightarrow> converts Inv A K R (toCNF env n negated) n (if negated then notNode n else n)"
proof (induction n arbitrary: negated)
  case (App k ts)
  let ?n = "App k ts"
  have goal: ?case if "toCNF env ?n = translated ?n m" "\<And>own s Fs. \<not> hasLiteral s ?n \<Longrightarrow> known A (d_registrar s) ?n \<Longrightarrow>
      cnf_runs Inv K R own s Fs {} m (\<lambda>own' s' l. stands_for own' s' l ?n)" for m
    unfolding converts_def that(1) by (intro allI impI runs_translated that(2))
  show ?case
  proof (cases "connective k ts")
    case False
    with boolean_children(3) [OF App.prems] have "k \<noteq> ITE" by (auto simp: connective_def)
    with toCNF_atom [OF False] have e: "toCNF env ?n = translated ?n (convertAtom env ?n False)" by blast
    show ?thesis by (rule goal [OF e runs_convertAtom]) (use False App.prems in \<open>auto simp: connective_def\<close>)
  next
    case True
    have IH: "converts Inv A K R (toCNF env t b) t (if b then notNode t else t)" if "t \<in> set ts" for t b
      by (rule App.IH [OF that connective_types [OF App.prems True that]])
    have IH0: "converts Inv A K R (toCNF env t False) t t" if "t \<in> set ts" for t using IH [OF that, of False] by simp
    from True consider "k = NOT_K" | "k = XOR_K \<or> k = IMPLIES \<or> k = EQUAL" | "k = ITE" | "k = OR_K \<or> k = AND_K"
      by (auto simp: connective_def)
    then show ?thesis
    proof cases
      case 1
      with boolean_children(1) [OF App.prems] obtain t where t: "ts = [t]" by blast
      have "toCNF env ?n = translated ?n (bb_bind (toCNF env t False) (\<lambda>l. bb_return (lit_not l)))" using 1 t by (simp add: Let_def)
      then show ?thesis
      proof (rule goal)
        fix own Fs and s :: "'r CnfStream" assume "known A (d_registrar s) ?n"
        then have kt: "known A (d_registrar s) t" using known_children [of A _ k ts t] True t by auto
        show "cnf_runs Inv K R own s Fs {} (bb_bind (toCNF env t False) (\<lambda>l. bb_return (lit_not l))) (\<lambda>own' s' l. stands_for own' s' l ?n)"
          by (rule runs_bind0 [OF converts_runs [OF IH0 kt]]) (use 1 t in \<open>auto intro!: runs_return simp flip: notNode_def\<close>)
      qed
    next
      case 2
      with boolean_children(2) [OF App.prems] obtain t0 t1 where t: "ts = [t0, t1]" by blast
      from 2 show ?thesis
      proof (elim disjE)
        assume k: "k = XOR_K"
        then have "toCNF env ?n = translated ?n (handleXor env ?n [toCNF env t0, toCNF env t1])" using t by (simp add: Let_def)
        then show ?thesis by (rule goal) (rule binary_handlers(1) [where ?c0.0 = "toCNF env t0" and ?c1.0 = "toCNF env t1" and ?t0.0 = t0 and ?t1.0 = t1, OF _ _ _ _ IH0 IH0 k]; use t True in simp)
      next
        assume k: "k = IMPLIES"
        then have "toCNF env ?n = translated ?n (handleImplies env ?n [toCNF env t0, toCNF env t1])" using t by (simp add: Let_def)
        then show ?thesis by (rule goal) (rule binary_handlers(2) [where ?c0.0 = "toCNF env t0" and ?c1.0 = "toCNF env t1" and ?t0.0 = t0 and ?t1.0 = t1, OF _ _ _ _ IH0 IH0 k]; use t True in simp)
      next
        assume k: "k = EQUAL"
        then have "toCNF env ?n = translated ?n (handleIff env ?n [toCNF env t0, toCNF env t1])" using t True by (simp add: connective_def Let_def)
        then show ?thesis by (rule goal) (rule binary_handlers(3) [where ?c0.0 = "toCNF env t0" and ?c1.0 = "toCNF env t1" and ?t0.0 = t0 and ?t1.0 = t1, OF _ _ _ _ IH0 IH0 k]; use t True in simp)
      qed
    next
      case 3
      with boolean_children(3) [OF App.prems] obtain t0 t1 t2 where t: "ts = [t0, t1, t2]" by blast
      have "toCNF env ?n = translated ?n (handleIte env ?n [toCNF env t0, toCNF env t1, toCNF env t2])" using 3 t by (simp add: Let_def)
      then show ?thesis by (rule goal) (rule handleIte [where ?c0.0 = "toCNF env t0" and ?c1.0 = "toCNF env t1" and ?c2.0 = "toCNF env t2" and ?t0.0 = t0 and ?t1.0 = t1 and ?t2.0 = t2, OF _ _ _ _ IH0 IH0 IH0]; use 3 t True in simp)
    next
      case 4
      have len: "1 < length ts" by (rule boolean_children(4) [OF App.prems 4])
      have cs: "list_all2 (\<lambda>c t. converts Inv A K R (c False) t t) (map (toCNF env) ts) ts" using IH0 by (simp add: list_all2_conv_all_nth)
      from 4 show ?thesis
      proof
        assume k: "k = OR_K"
        then have "toCNF env ?n = translated ?n (handleOr env ?n (map (toCNF env) ts))" by (simp add: Let_def)
        then show ?thesis by (rule goal) (rule nary_handlers(1) [OF _ _ True refl len cs k])
      next
        assume k: "k = AND_K"
        then have "toCNF env ?n = translated ?n (handleAnd env ?n (map (toCNF env) ts))" by (simp add: Let_def)
        then show ?thesis by (rule goal) (rule nary_handlers(2) [OF _ _ True refl len cs k])
      qed
    qed
  qed
next
  case (Var v ty)
  then show ?case unfolding converts_def toCNF.simps by (intro allI impI runs_translated runs_convertAtom) simp_all
next
  case (ConstBool b)
  then show ?case unfolding converts_def toCNF.simps by (intro allI impI runs_translated runs_convertAtom) simp_all
qed (simp_all add: BitVectorConstantTypeRule_def split: if_splits)

end

lemma notNode_value [simp]: "sat_value \<beta> (notNode n) \<longleftrightarrow> \<not> sat_value \<beta> n" "atoms (notNode n) = atoms n"
  by (simp_all add: notNode_def connective_def)

lemma list_all2_denotes:
  assumes "list_all2 (denotes own nm nv) ls us"
  shows "\<And>l. l \<in> set ls \<Longrightarrow> getSatVariable l < nv" "\<And>u. u \<in> set us \<Longrightarrow> atoms u \<subseteq> dom nm"
    "(\<And>v. v < nv \<Longrightarrow> \<alpha> v = sat_value \<beta> (own v)) \<Longrightarrow> map (lit_val \<alpha>) ls = map (sat_value \<beta>) us"
proof -
  show "\<And>l. l \<in> set ls \<Longrightarrow> getSatVariable l < nv" "\<And>u. u \<in> set us \<Longrightarrow> atoms u \<subseteq> dom nm"
    using assms by (auto simp: list_all2_conv_all_nth in_set_conv_nth denotes_def)
  show "map (lit_val \<alpha>) ls = map (sat_value \<beta>) us" if "\<And>v. v < nv \<Longrightarrow> \<alpha> v = sat_value \<beta> (own v)"
    using assms that by (intro nth_equalityI) (auto simp: list_all2_conv_all_nth denotes_def lit_val_def)
qed

text \<open>The formula that an assertion adds.\<close>

definition asserted :: "node \<Rightarrow> bool \<Rightarrow> node" where
  "asserted n negated = (if negated then notNode n else n)"

lemma asserted_value [simp]: "sat_value \<beta> (asserted n negated) \<longleftrightarrow> sat_value \<beta> n \<noteq> negated" "atoms (asserted n negated) = atoms n"
  by (simp_all add: asserted_def)

context cnf_registrar
begin

text \<open>Clauses over literals for formulas \<open>us\<close> that say what \<open>f\<close> says.\<close>

lemma runs_assert_literals:
  assumes "list_all2 (stands_for own s) ls us" "clause_vars C \<subseteq> getSatVariable ` set ls" "atoms f \<subseteq> (\<Union>u\<in>set us. atoms u)"
    and "\<And>\<alpha>. sat_clauses \<alpha> C \<longleftrightarrow> P (map (lit_val \<alpha>) ls)" "\<And>\<beta>. sat_value \<beta> f \<longleftrightarrow> P (map (sat_value \<beta>) us)"
  shows "cnf_runs Inv K R own s Fs {f} (assertClauses C) (\<lambda>own' s' x. True)"
proof (rule runs_assertClauses)
  note D = list_all2_denotes [OF assms(1)]
  show "clause_vars C \<subseteq> {..<d_numVars (d_satSolver s)}" using assms(2) D(1) by auto
  show "atoms g \<subseteq> dom (d_nodeToLiteralMap s)" if "g \<in> {f}" for g using that assms(3) D(2) by blast
  show "sat_value (read_back \<alpha> (d_nodeToLiteralMap s)) g"
    if st: "st_ok Inv own s Fs" and \<alpha>: "sat_clauses \<alpha> (d_clauses (d_satSolver s))" "sat_clauses \<alpha> C" and g: "g \<in> {f}" for \<alpha> g
  proof -
    have "\<alpha> v = sat_value (read_back \<alpha> (d_nodeToLiteralMap s)) (own v)" if "v < d_numVars (d_satSolver s)" for v
      using cnf_okD(9) [OF _ \<alpha>(1) that, of own "d_nodeToLiteralMap s" Fs] st by (simp add: st_ok_def)
    from D(3) [OF this] \<alpha>(2) g assms(4,5) show ?thesis by simp
  qed
  show "sat_clauses (\<lambda>v. sat_value \<beta> (own v)) C" if "\<And>g. g \<in> {f} \<Longrightarrow> sat_value \<beta> g" for \<beta>
    using D(3) [of "\<lambda>v. sat_value \<beta> (own v)" \<beta>] that [of f] assms(4,5) by simp
qed

text \<open>Asserting formulas that say together what \<open>f\<close> says.\<close>

lemma runs_swap:
  assumes "cnf_runs Inv K R own s Fs H m Q" "\<And>\<beta>. sat_value \<beta> f \<longleftrightarrow> (\<forall>h\<in>H. sat_value \<beta> h)" "atoms f \<subseteq> (\<Union>h\<in>H. atoms h)"
  shows "cnf_runs Inv K R own s Fs {f} m Q"
proof -
  have "st_ok Inv own' s' (Gs \<union> {f})" if "st_ok Inv own' s' (Gs \<union> H)" for own' s' Gs
  proof -
    from that have "cnf_ok own' (d_nodeToLiteralMap s') (d_satSolver s') (Gs \<union> H)" by (simp add: st_ok_def)
    note I = cnf_okD [OF this]
    have "cnf_ok own' (d_nodeToLiteralMap s') (d_satSolver s') (Gs \<union> {f})"
    proof (rule cnf_okI)
      show "atoms g \<subseteq> dom (d_nodeToLiteralMap s')" if "g \<in> Gs \<union> {f}" for g
        using that assms(3) I(8) [of g] I(8) by blast
      show "sat_value (read_back \<alpha> (d_nodeToLiteralMap s')) g" if "sat_clauses \<alpha> (d_clauses (d_satSolver s'))" "g \<in> Gs \<union> {f}" for \<alpha> g
        using that assms(2) I(10) [OF that(1)] by auto
      show "sat_clauses (\<lambda>v. sat_value \<beta> (own' v)) (d_clauses (d_satSolver s'))" if "\<forall>g\<in>Gs \<union> {f}. sat_value \<beta> g" for \<beta>
        using that assms(2) by (intro I(11)) auto
    qed (use I in simp_all)
    with that show ?thesis by (simp add: st_ok_def)
  qed
  with assms(1) show ?thesis unfolding cnf_runs_def by blast
qed

lemma runs_each:
  assumes "\<And>t own s Fs. t \<in> set ts \<Longrightarrow> known A (d_registrar s) t \<Longrightarrow> cnf_runs Inv K R own s Fs {g t} (c t) (\<lambda>own' s' x. True)"
    and "\<And>t. t \<in> set ts \<Longrightarrow> known A (d_registrar s) t"
  shows "cnf_runs Inv K R own s Fs (g ` set ts) (run_each (map c ts)) (\<lambda>own' s' x. True)"
  using assms
proof (induction ts arbitrary: own s Fs)
  case Nil
  then show ?case by (auto intro: runs_return)
next
  case (Cons t ts)
  have "cnf_runs Inv K R own s Fs ({g t} \<union> g ` set ts) (bb_bind (c t) (\<lambda>_. run_each (map c ts))) (\<lambda>own' s' x. True)"
  proof (rule runs_bind)
    show "cnf_runs Inv K R own s Fs {g t} (c t) (\<lambda>own' s' x. True)" using Cons.prems by simp
    fix own' Fs' and s' :: "'r CnfStream" assume "A (d_registrar s) \<subseteq> A (d_registrar s')"
    then have "\<And>t. t \<in> set ts \<Longrightarrow> known A (d_registrar s') t" using Cons.prems(2) by (meson known_mono list.set_intros(2))
    with Cons show "cnf_runs Inv K R own' s' Fs' (g ` set ts) (run_each (map c ts)) (\<lambda>own' s' x. True)" by simp
  qed
  then show ?case by simp
qed

text \<open>A clause of the children, and the two clauses of a binary connective.\<close>

lemma runs_clause:
  assumes "\<And>t. t \<in> set ts \<Longrightarrow> typeOf t = Some BooleanType" "\<And>t. t \<in> set ts \<Longrightarrow> known A (d_registrar s) t" "atoms f \<subseteq> (\<Union>t\<in>set ts. atoms t)"
    "\<And>\<beta>. sat_value \<beta> f \<longleftrightarrow> (\<exists>t\<in>set ts. sat_value \<beta> t \<noteq> negated)"
  shows "cnf_runs Inv K R own s Fs {f} (bb_bind (run_all (map (\<lambda>t. toCNF env t negated) ts)) assertClause) (\<lambda>own' s' x. True)"
proof -
  let ?u = "\<lambda>t. if negated then notNode t else t"
  have "list_all2 (\<lambda>m t. converts Inv A K R m t (?u t)) (map (\<lambda>t. toCNF env t negated) ts) ts"
    using toCNF_converts [OF assms(1)] by (simp add: list_all2_conv_all_nth)
  from runs_all [OF this assms(2)] show ?thesis
  proof (rule runs_bind0)
    fix own' Fs' ls and s' :: "'r CnfStream" assume ls: "list_all2 (stands_for own' s') ls (map ?u ts)"
    show "cnf_runs Inv K R own' s' Fs' {f} (assertClause ls) (\<lambda>own' s' x. True)"
      unfolding assertClause_effect
      by (rule runs_assert_literals [OF ls, where P = "\<lambda>bs. \<exists>b\<in>set bs. b"]) (use assms(3,4) in \<open>auto simp: UN_subset_iff\<close>)
  qed
qed

lemma runs_binary:
  assumes "typeOf t0 = Some BooleanType" "typeOf t1 = Some BooleanType" "known A (d_registrar s) t0" "known A (d_registrar s) t1"
    and "\<And>p q. clause_vars (C p q) \<subseteq> {getSatVariable p, getSatVariable q}" "atoms f \<subseteq> atoms t0 \<union> atoms t1"
    and "\<And>\<alpha> p q. sat_clauses \<alpha> (C p q) \<longleftrightarrow> P (lit_val \<alpha> p) (lit_val \<alpha> q)" "\<And>\<beta>. sat_value \<beta> f \<longleftrightarrow> P (sat_value \<beta> t0) (sat_value \<beta> t1)"
  shows "cnf_runs Inv K R own s Fs {f} (bb_bind (toCNF env t0 False) (\<lambda>p. bb_bind (toCNF env t1 False) (\<lambda>q. assertClauses (C p q)))) (\<lambda>own' s' x. True)"
proof -
  have "converts Inv A K R (toCNF env t0 False) t0 t0" "converts Inv A K R (toCNF env t1 False) t1 t1"
    using toCNF_converts [OF assms(1), of False] toCNF_converts [OF assms(2), of False] by simp_all
  then show ?thesis
  proof (rule runs_two [OF _ _ assms(3,4)])
    fix own' Fs' p q and s' :: "'r CnfStream" assume "stands_for own' s' p t0" "stands_for own' s' q t1"
    then have ls: "list_all2 (stands_for own' s') [p, q] [t0, t1]" by simp
    show "cnf_runs Inv K R own' s' Fs' {f} (assertClauses (C p q)) (\<lambda>own' s' x. True)"
      by (rule runs_assert_literals [OF ls, where P = "\<lambda>bs. P (bs ! 0) (bs ! 1)"]) (use assms(5-8) in simp_all)
  qed
qed

end

context cnf_registrar
begin

text \<open>Every formula is asserted, negated or not.\<close>

lemma runs_atom_assertion:
  assumes "typeOf n = Some BooleanType" "known A (d_registrar s) n"
  shows "cnf_runs Inv K R own s Fs {asserted n negated} (convertAndAssertAtom env n negated) (\<lambda>own' s' x. True)"
  unfolding convertAndAssertAtom_def
proof (rule runs_bind0 [OF converts_runs [OF toCNF_converts [OF assms(1)] assms(2)]])
  fix own' Fs' l and s' :: "'r CnfStream" assume "stands_for own' s' l (if negated then notNode n else n)"
  then have ls: "list_all2 (stands_for own' s') [l] [asserted n negated]" by (simp add: asserted_def)
  show "cnf_runs Inv K R own' s' Fs' {asserted n negated} (assertClause [l]) (\<lambda>own' s' x. True)"
    unfolding assertClause_effect by (rule runs_assert_literals [OF ls, where P = hd]) simp_all
qed

lemma xor_iff_assertions:
  assumes "typeOf t0 = Some BooleanType" "typeOf t1 = Some BooleanType" "known A (d_registrar s) t0" "known A (d_registrar s) t1"
  shows "cnf_runs Inv K R own s Fs {asserted (App XOR_K [t0, t1]) negated} (convertAndAssertXor env (App XOR_K [t0, t1]) negated) (\<lambda>own' s' x. True)"
    "cnf_runs Inv K R own s Fs {asserted (App EQUAL [t0, t1]) negated} (convertAndAssertIff env (App EQUAL [t0, t1]) negated) (\<lambda>own' s' x. True)"
proof -
  have C: "cnf_runs Inv K R own s Fs {f} (bb_bind (toCNF env t0 False) (\<lambda>p. bb_bind (toCNF env t1 False) (\<lambda>q. assertClauses [[lit_not p, lit_not q], [p, q]]))) (\<lambda>own' s' x. True)"
    if "\<And>\<beta>. sat_value \<beta> f \<longleftrightarrow> sat_value \<beta> t0 \<noteq> sat_value \<beta> t1" "atoms f \<subseteq> atoms t0 \<union> atoms t1" for f
    by (rule runs_binary [OF assms, where P = "(\<noteq>)"]) (use that in auto)
  have D: "cnf_runs Inv K R own s Fs {f} (bb_bind (toCNF env t0 False) (\<lambda>p. bb_bind (toCNF env t1 False) (\<lambda>q. assertClauses [[lit_not p, q], [p, lit_not q]]))) (\<lambda>own' s' x. True)"
    if "\<And>\<beta>. sat_value \<beta> f \<longleftrightarrow> sat_value \<beta> t0 = sat_value \<beta> t1" "atoms f \<subseteq> atoms t0 \<union> atoms t1" for f
    by (rule runs_binary [OF assms, where P = "(=)"]) (use that in auto)
  have at: "atoms (asserted (App XOR_K [t0, t1]) negated) \<subseteq> atoms t0 \<union> atoms t1" "atoms (asserted (App EQUAL [t0, t1]) negated) \<subseteq> atoms t0 \<union> atoms t1"
    using assms by (simp_all add: connective_def)
  show "cnf_runs Inv K R own s Fs {asserted (App XOR_K [t0, t1]) negated} (convertAndAssertXor env (App XOR_K [t0, t1]) negated) (\<lambda>own' s' x. True)"
    using C [OF _ at(1)] D [OF _ at(1)] by (cases negated) (simp_all add: convertAndAssertXor_def connective_def del: assertClauses.simps)
  show "cnf_runs Inv K R own s Fs {asserted (App EQUAL [t0, t1]) negated} (convertAndAssertIff env (App EQUAL [t0, t1]) negated) (\<lambda>own' s' x. True)"
    using C [OF _ at(2)] D [OF _ at(2)] assms by (cases negated) (simp_all add: convertAndAssertIff_def connective_def del: assertClauses.simps)
qed

lemma ite_assertion:
  assumes "typeOf t0 = Some BooleanType" "typeOf t1 = Some BooleanType" "typeOf t2 = Some BooleanType"
    "known A (d_registrar s) t0" "known A (d_registrar s) t1" "known A (d_registrar s) t2"
  shows "cnf_runs Inv K R own s Fs {asserted (App ITE [t0, t1, t2]) negated} (convertAndAssertIte env (App ITE [t0, t1, t2]) negated) (\<lambda>own' s' x. True)"
proof -
  let ?n = "App ITE [t0, t1, t2]" and ?u = "\<lambda>t. if negated then notNode t else t"
  have at: "atoms (asserted ?n negated) \<subseteq> atoms t0 \<union> atoms t1 \<union> atoms t2" using assms by (auto simp: connective_def)
  have "cnf_runs Inv K R own s Fs {asserted ?n negated} (bb_bind (toCNF env t0 False) (\<lambda>p. bb_bind (toCNF env t1 negated) (\<lambda>q.
      bb_bind (toCNF env t2 negated) (\<lambda>r. assertClauses [[lit_not p, q], [p, r]])))) (\<lambda>own' s' x. True)"
  proof (rule runs_two [where ?t0.0 = t0 and ?u0.0 = t0 and ?t1.0 = t1 and ?u1.0 = "?u t1"])
    show "converts Inv A K R (toCNF env t0 False) t0 t0" "converts Inv A K R (toCNF env t1 negated) t1 (?u t1)"
      using toCNF_converts [OF assms(1), of False] toCNF_converts [OF assms(2), of negated] by simp_all
    fix own1 Fs1 p q and s1 :: "'r CnfStream"
    assume 1: "stands_for own1 s1 p t0" "stands_for own1 s1 q (?u t1)" "A (d_registrar s) \<subseteq> A (d_registrar s1)"
    have "cnf_runs Inv K R own1 s1 Fs1 {} (toCNF env t2 negated) (\<lambda>own' s' l. stands_for own' s' l (?u t2))"
      by (rule converts_runs [OF toCNF_converts [OF assms(3)] known_mono [OF assms(6) 1(3)]])
    then show "cnf_runs Inv K R own1 s1 Fs1 {asserted ?n negated} (bb_bind (toCNF env t2 negated) (\<lambda>r. assertClauses [[lit_not p, q], [p, r]])) (\<lambda>own' s' x. True)"
    proof (rule runs_bind0)
      fix own2 Fs2 r and s2 :: "'r CnfStream" assume 2: "grows own1 s1 own2 s2" "stands_for own2 s2 r (?u t2)"
      have ls: "list_all2 (stands_for own2 s2) [p, q, r] [t0, ?u t1, ?u t2]" using 1(1,2) 2 by (simp add: denotes_grows [OF _ 2(1)])
      show "cnf_runs Inv K R own2 s2 Fs2 {asserted ?n negated} (assertClauses [[lit_not p, q], [p, r]]) (\<lambda>own' s' x. True)"
        by (rule runs_assert_literals [OF ls, where P = "\<lambda>bs. if bs ! 0 then bs ! 1 else bs ! 2"]) (use at assms in \<open>auto simp: connective_def\<close>)
    qed
  qed (use assms in simp_all)
  then show ?thesis by (simp add: convertAndAssertIte_def del: assertClauses.simps)
qed

text \<open>The connectives that assert their children one by one in one of the polarities.\<close>

lemma implies_assertion:
  assumes "typeOf t0 = Some BooleanType" "typeOf t1 = Some BooleanType" "known A (d_registrar s) t0" "known A (d_registrar s) t1"
    and IH: "\<And>t b own s Fs. t \<in> {t0, t1} \<Longrightarrow> known A (d_registrar s) t \<Longrightarrow> cnf_runs Inv K R own s Fs {asserted t b} (convertAndAssert_node env t b) (\<lambda>own' s' x. True)"
  shows "cnf_runs Inv K R own s Fs {asserted (App IMPLIES [t0, t1]) negated}
    (convertAndAssertImplies env (App IMPLIES [t0, t1]) [convertAndAssert_node env t0, convertAndAssert_node env t1] negated) (\<lambda>own' s' x. True)"
proof (cases negated)
  case False
  have "cnf_runs Inv K R own s Fs {asserted (App IMPLIES [t0, t1]) negated} (bb_bind (toCNF env t0 False) (\<lambda>p. bb_bind (toCNF env t1 False)
      (\<lambda>q. assertClauses [[lit_not p, q]]))) (\<lambda>own' s' x. True)"
    by (rule runs_binary [OF assms(1-4), where P = "(\<longrightarrow>)"]) (use False in \<open>auto simp: connective_def\<close>)
  then show ?thesis using False by (simp add: convertAndAssertImplies_def assertClause_effect del: assertClauses.simps)
next
  case True
  have "cnf_runs Inv K R own s Fs ({asserted t0 False} \<union> {asserted t1 True})
      (bb_bind (convertAndAssert_node env t0 False) (\<lambda>_. convertAndAssert_node env t1 True)) (\<lambda>own' s' x. True)"
    by (rule runs_bind [OF IH IH]) (use assms(3) known_mono [OF assms(4)] in auto)
  then have "cnf_runs Inv K R own s Fs {asserted (App IMPLIES [t0, t1]) negated}
      (bb_bind (convertAndAssert_node env t0 False) (\<lambda>_. convertAndAssert_node env t1 True)) (\<lambda>own' s' x. True)"
    by (rule runs_swap) (use True in \<open>auto simp: connective_def\<close>)
  then show ?thesis using True by (simp add: convertAndAssertImplies_def)
qed

lemma or_and_assertions:
  assumes "\<And>t. t \<in> set ts \<Longrightarrow> typeOf t = Some BooleanType" "\<And>t. t \<in> set ts \<Longrightarrow> known A (d_registrar s) t"
    and IH: "\<And>t b own s Fs. t \<in> set ts \<Longrightarrow> known A (d_registrar s) t \<Longrightarrow> cnf_runs Inv K R own s Fs {asserted t b} (convertAndAssert_node env t b) (\<lambda>own' s' x. True)"
  shows "cnf_runs Inv K R own s Fs {asserted (App OR_K ts) negated} (convertAndAssertOr env (App OR_K ts) (map (convertAndAssert_node env) ts) negated) (\<lambda>own' s' x. True)"
    "cnf_runs Inv K R own s Fs {asserted (App AND_K ts) negated} (convertAndAssertAnd env (App AND_K ts) (map (convertAndAssert_node env) ts) negated) (\<lambda>own' s' x. True)"
proof -
  have each: "cnf_runs Inv K R own s Fs ((\<lambda>t. asserted t b) ` set ts) (run_each (map (\<lambda>a. a b) (map (convertAndAssert_node env) ts))) (\<lambda>own' s' x. True)" for b
    unfolding map_map comp_def by (rule runs_each [OF IH assms(2)])
  have one: "cnf_runs Inv K R own s Fs {asserted (App k ts) negated} (run_each (map (\<lambda>a. a negated) (map (convertAndAssert_node env) ts))) (\<lambda>own' s' x. True)"
    if "k = OR_K \<and> negated \<or> k = AND_K \<and> \<not> negated" for k
    by (rule runs_swap [OF each [of negated]]) (use that in \<open>auto simp: connective_def\<close>)
  have clause: "cnf_runs Inv K R own s Fs {asserted (App k ts) negated} (bb_bind (run_all (map (\<lambda>t. toCNF env t negated) ts)) assertClause) (\<lambda>own' s' x. True)"
    if "k = OR_K \<and> \<not> negated \<or> k = AND_K \<and> negated" for k
    by (rule runs_clause [OF assms(1,2)]) (use that in \<open>auto simp: connective_def\<close>)
  show "cnf_runs Inv K R own s Fs {asserted (App OR_K ts) negated} (convertAndAssertOr env (App OR_K ts) (map (convertAndAssert_node env) ts) negated) (\<lambda>own' s' x. True)"
    "cnf_runs Inv K R own s Fs {asserted (App AND_K ts) negated} (convertAndAssertAnd env (App AND_K ts) (map (convertAndAssert_node env) ts) negated) (\<lambda>own' s' x. True)"
    using one [of OR_K] one [of AND_K] clause [of OR_K] clause [of AND_K]
    by (cases negated; simp add: convertAndAssertOr_def convertAndAssertAnd_def del: map_map)+
qed

lemma convertAndAssert_asserts:
  "typeOf n = Some BooleanType \<Longrightarrow> known A (d_registrar s) n \<Longrightarrow>
    cnf_runs Inv K R own s Fs {asserted n negated} (convertAndAssert_node env n negated) (\<lambda>own' s' x. True)"
proof (induction n arbitrary: negated own s Fs)
  case (App k ts)
  let ?n = "App k ts"
  show ?case
  proof (cases "connective k ts")
    case False
    with boolean_children(3) [OF App.prems(1)] have "k \<noteq> ITE" by (auto simp: connective_def)
    with False have "convertAndAssert_node env ?n negated = convertAndAssertAtom env ?n negated"
      by (cases k) (auto simp: connective_def Let_def)
    then show ?thesis using runs_atom_assertion [OF App.prems] by simp
  next
    case True
    have ty: "typeOf t = Some BooleanType" if "t \<in> set ts" for t by (rule connective_types [OF App.prems(1) True that])
    have kn: "known A (d_registrar s) t" if "t \<in> set ts" for t by (rule known_children [OF App.prems(2) True that])
    have IH: "cnf_runs Inv K R own s Fs {asserted t b} (convertAndAssert_node env t b) (\<lambda>own' s' x. True)"
      if "t \<in> set ts" "known A (d_registrar s) t" for t b own Fs and s :: "'r CnfStream"
      by (rule App.IH [OF that(1) ty [OF that(1)] that(2)])
    from True consider "k = NOT_K" | "k = XOR_K \<or> k = IMPLIES \<or> k = EQUAL" | "k = ITE" | "k = OR_K \<or> k = AND_K"
      by (auto simp: connective_def)
    then show ?thesis
    proof cases
      case 1
      with boolean_children(1) [OF App.prems(1)] obtain t where t: "ts = [t]" by blast
      have "cnf_runs Inv K R own s Fs {asserted t (\<not> negated)} (convertAndAssert_node env t (\<not> negated)) (\<lambda>own' s' x. True)"
        by (rule IH) (use t kn in auto)
      then have "cnf_runs Inv K R own s Fs {asserted ?n negated} (convertAndAssert_node env t (\<not> negated)) (\<lambda>own' s' x. True)"
        by (rule runs_swap) (use 1 t in \<open>auto simp: connective_def\<close>)
      then show ?thesis using 1 t by (simp add: Let_def)
    next
      case 2
      with boolean_children(2) [OF App.prems(1)] obtain t0 t1 where t: "ts = [t0, t1]" by blast
      then have a: "typeOf t0 = Some BooleanType" "typeOf t1 = Some BooleanType" "known A (d_registrar s) t0" "known A (d_registrar s) t1"
        using ty kn by simp_all
      from 2 show ?thesis
        using xor_iff_assertions [OF a, where own = own and Fs = Fs and negated = negated] implies_assertion [OF a IH, where own = own and Fs = Fs and negated = negated] t a(1)
        by (elim disjE) (simp_all add: Let_def)
    next
      case 3
      with boolean_children(3) [OF App.prems(1)] obtain t0 t1 t2 where t: "ts = [t0, t1, t2]" by blast
      then show ?thesis using ite_assertion [of t0 t1 t2 s, where own = own and Fs = Fs and negated = negated] ty kn 3 by (simp add: Let_def)
    next
      case 4
      then show ?thesis using or_and_assertions [OF ty kn IH, where own = own and Fs = Fs and negated = negated] by (elim disjE) (simp_all add: Let_def)
    qed
  qed
next
  case (Var v ty)
  then show ?case using runs_atom_assertion by simp
next
  case (ConstBool b)
  then show ?case using runs_atom_assertion by simp
qed (simp_all add: BitVectorConstantTypeRule_def split: if_splits)

text \<open>The public function, for clauses that stay.\<close>

lemma CnfStream_convertAndAssert_asserts:
  assumes "typeOf n = Some BooleanType" "known A (d_registrar s) n"
  shows "cnf_runs Inv K R own s Fs {asserted n negated} (CnfStream_convertAndAssert env n False negated) (\<lambda>own' s' x. True)"
proof (rule cnf_runs_cong [OF _ convertAndAssert_asserts [OF assms]])
  assume "st_ok Inv own s Fs"
  then have "s\<lparr>d_removable := False\<rparr> = s" by (cases s) (simp add: st_ok_def)
  then show "CnfStream_convertAndAssert env n False negated s = convertAndAssert_node env n negated s" by (simp add: CnfStream_convertAndAssert_def)
qed

end

subsection \<open>The stream on its own\<close>

text \<open>\<open>NullRegistrar\<close>.\<close>

definition null_env :: "bool \<Rightarrow> 'r cnf_env" where
  "null_env full = \<lparr>d_fullLitToNodeMap = full, registrar = (\<lambda>n. bb_return ())\<rparr>"

definition unchanged :: "'r \<Rightarrow> node set \<Rightarrow> 'r \<Rightarrow> bool" where
  "unchanged r G r' \<longleftrightarrow> r' = r \<and> G = {}"

interpretation null: cnf_registrar "null_env full" "\<lambda>r. True" "\<lambda>r. UNIV" "\<lambda>r. UNIV" unchanged
  for full
proof unfold_locales
  fix n own Fs and s :: "'a CnfStream"
  show "cnf_runs (\<lambda>r. True) (\<lambda>r. UNIV) unchanged own s Fs {} (registrar (null_env full) n) (\<lambda>own' s' x. atoms n \<subseteq> UNIV)"
    using keeps_cover_same [of s s "\<lambda>r. UNIV"] by (auto simp: cnf_runs_def null_env_def bb_return_def unchanged_def intro!: exI [of _ own] exI [of _ "{}"])
qed (simp_all add: unchanged_def)

text \<open>C5: the conversion of a formula to clauses, negated or not, always succeeds, and the assignments to its atoms that make it true are those
  that some assignment satisfying the clauses extends.\<close>

theorem cnf_equisatisfiable:
  fixes r :: 'r
  assumes "typeOf F = Some BooleanType"
  shows "\<exists>s. CnfStream_convertAndAssert (null_env full) F False negated (new_CnfStream r) = Some (Inr ((), s)) \<and>
    (\<forall>\<beta>. sat_value \<beta> F \<noteq> negated \<longleftrightarrow>
      (\<exists>\<alpha>. sat_clauses \<alpha> (d_clauses (d_satSolver s)) \<and> (\<forall>a\<in>atoms F. \<exists>l. d_nodeToLiteralMap s a = Some l \<and> lit_val \<alpha> l = \<beta> a)))"
proof -
  have "st_ok (\<lambda>r. True) (\<lambda>v. ConstBool (v = trueVar)) (new_CnfStream r) {}"
    using new_solver_ok by (simp add: st_ok_def new_CnfStream_def)
  with null.CnfStream_convertAndAssert_asserts [OF assms, of "new_CnfStream r" "\<lambda>v. ConstBool (v = trueVar)" "{}" negated full]
  obtain s own where s: "CnfStream_convertAndAssert (null_env full) F False negated (new_CnfStream r) = Some (Inr ((), s))"
    "st_ok (\<lambda>r. True) own s {asserted F negated}" by (auto simp: known_def cnf_runs_def unchanged_def)
  let ?nm = "d_nodeToLiteralMap s"
  from s(2) have ok: "cnf_ok own ?nm (d_satSolver s) {asserted F negated}" by (simp add: st_ok_def)
  have at: "atoms F \<subseteq> dom ?nm" using cnf_okD(8) [OF ok, of "asserted F negated"] by simp
  have "\<exists>\<alpha>. sat_clauses \<alpha> (d_clauses (d_satSolver s)) \<and> (\<forall>a\<in>atoms F. \<exists>l. ?nm a = Some l \<and> lit_val \<alpha> l = \<beta> a)" if "sat_value \<beta> F \<noteq> negated" for \<beta>
  proof (rule exI [of _ "\<lambda>v. sat_value \<beta> (own v)"], intro conjI ballI)
    show "sat_clauses (\<lambda>v. sat_value \<beta> (own v)) (d_clauses (d_satSolver s))" by (rule cnf_okD(11) [OF ok]) (use that in simp)
    fix a assume a: "a \<in> atoms F"
    with at obtain l where l: "?nm a = Some l" by blast
    with cnf_okD(4) [OF ok l] sat_value_atom [OF atoms_atom [OF a], of \<beta>] show "\<exists>l. ?nm a = Some l \<and> lit_val (\<lambda>v. sat_value \<beta> (own v)) l = \<beta> a"
      by (auto simp: denotes_def lit_val_def)
  qed
  moreover have "sat_value \<beta> F \<noteq> negated"
    if "sat_clauses \<alpha> (d_clauses (d_satSolver s))" "\<forall>a\<in>atoms F. \<exists>l. ?nm a = Some l \<and> lit_val \<alpha> l = \<beta> a" for \<alpha> \<beta>
  proof -
    have "sat_value (read_back \<alpha> ?nm) F = sat_value \<beta> F" using that(2) by (intro sat_value_cong) (auto simp: read_back_def)
    then show ?thesis using cnf_okD(10) [OF ok that(1)] by simp
  qed
  ultimately show ?thesis using s(1) by blast
qed

theorem cnf_equisatisfiable_witness:
  "\<exists>s. CnfStream_convertAndAssert (null_env False) (App XOR_K [Var 1 BooleanType, Var 2 BooleanType]) False True (new_CnfStream ()) = Some (Inr ((), s)) \<and>
    (\<exists>\<alpha>. sat_clauses \<alpha> (d_clauses (d_satSolver s)))"
proof -
  have "typeOf (App XOR_K [Var 1 BooleanType, Var 2 BooleanType]) = Some BooleanType" by simp
  from cnf_equisatisfiable [OF this, of False True "()"] obtain s where
    s: "CnfStream_convertAndAssert (null_env False) (App XOR_K [Var 1 BooleanType, Var 2 BooleanType]) False True (new_CnfStream ()) = Some (Inr ((), s))"
    "sat_value (\<lambda>a. False) (App XOR_K [Var 1 BooleanType, Var 2 BooleanType]) \<noteq> True \<longrightarrow> (\<exists>\<alpha>. sat_clauses \<alpha> (d_clauses (d_satSolver s)))" by blast
  then show ?thesis by (auto simp: connective_def)
qed

text \<open>On a triple negation \<open>ensureLiteral\<close> fails its last assertion: it strips one negation and asserts that the rest has a literal, but \<open>toCNF\<close>
  registers none for a negated negation.\<close>

lemma ensureLiteral_triple_negation:
  "ensureLiteral (null_env False) (\<lambda>n. getKind n = NOT_K) (notNode (notNode (notNode (Var 1 BooleanType)))) False (new_CnfStream ()) = Some (Inl AssertionFailure)"
  by (simp add: ensureLiteral_def notNode_def new_CnfStream_def hasLiteral_def Let_def translated_def bb_bind_def bb_return_def bb_assert_def bb_lift_def
    convertAtom_def newLiteral_def freshLiteral_def newVar_def insertLiteral_def addBooleanVariable_def getLiteral_def backMap_def insertNode_safe_def
    isVar_def getNode_def null_env_def negateIf_def)

end
