(* ===== verification/Bitblaster_Clauses.thy ===== *)
theory Bitblaster_Clauses
  imports Cnf_Stream_Correct
begin

section \<open>From bit-vector formulas to clauses\<close>

text \<open>
  The eager bit-blaster is the registrar of its CNF stream: when the stream meets an atom, it calls \<open>preRegister\<close>, and the
  bit-blaster hands the definitions of the atom, and of the comparisons that its shifts need, back to the stream. Here the two are put
  together, and the clauses are shown to be satisfiable exactly when the bit-vector formula is.

  The definitions are converted when \<open>bbAtom\<close> returns, in the order in which it handed them over. A conversion may call the
  registrar again; the depth of these nested calls has a bound, and two levels are enough: the atoms of a definition are bits or atoms
  that were bit-blasted before, on which the registrar does nothing.
\<close>

subsection \<open>The registrar\<close>

text \<open>The formulas that a call handed over, the first one first.\<close>

definition handed_over :: "bitblaster \<Rightarrow> bitblaster \<Rightarrow> node list" where
  "handed_over r r' = rev (take (length (d_cnfStream r') - length (d_cnfStream r)) (d_cnfStream r'))"

fun assert_all :: "'r cnf_env \<Rightarrow> node list \<Rightarrow> ('r, unit) cnf_call" where
  "assert_all env [] = bb_return ()"
| "assert_all env (f # fs) = bb_bind (CnfStream_convertAndAssert env f False False) (\<lambda>_. assert_all env fs)"

definition eager_preRegister :: "(node \<Rightarrow> node) \<Rightarrow> nat \<Rightarrow> bitblaster cnf_env \<Rightarrow> node \<Rightarrow> (bitblaster, unit) cnf_call" where
  "eager_preRegister rewrite d env n = (\<lambda>s. case preRegister (EagerBitblaster rewrite d) n (d_registrar s) of
       None \<Rightarrow> None
     | Some (Inl e) \<Rightarrow> Some (Inl e)
     | Some (Inr (_, r)) \<Rightarrow> assert_all env (handed_over (d_registrar s) r) (s\<lparr>d_registrar := r\<rparr>))"

fun eager_env :: "(node \<Rightarrow> node) \<Rightarrow> nat \<Rightarrow> bool \<Rightarrow> nat \<Rightarrow> bitblaster cnf_env" where
  "eager_env rewrite d full 0 = \<lparr>d_fullLitToNodeMap = full, registrar = (\<lambda>_ _. None)\<rparr>"
| "eager_env rewrite d full (Suc k) = \<lparr>d_fullLitToNodeMap = full, registrar = eager_preRegister rewrite d (eager_env rewrite d full k)\<rparr>"

text \<open>The bit-blaster and its stream on a formula; the eager bit-blaster keeps no literals of formulas it does not need.\<close>

definition eager_solver :: "(node \<Rightarrow> node) \<Rightarrow> nat \<Rightarrow> node \<Rightarrow> (bitblaster, unit) cnf_call" where
  "eager_solver rewrite d F = CnfStream_convertAndAssert (eager_env rewrite d False 2) F False False"

subsection \<open>The atoms of definitions\<close>

definition registered :: "bitblaster \<Rightarrow> node set" where
  "registered r = bit_atoms \<union> d_bbAtoms r"

lemma preRegister_again:
  assumes "bb_inv rw r" "n \<in> registered r \<union> range ConstBool" "0 < d"
  shows "preRegister (EagerBitblaster rw d) n r = Some (Inr ((), r))"
proof -
  have a: "atoms n = {n} \<or> (\<exists>b. n = ConstBool b)"
    using assms(1,2) bit_atoms_atoms definitional_atoms by (auto simp: registered_def bb_inv_def)
  have strip: "getKind n \<noteq> NOT_K"
  proof
    assume k: "getKind n = NOT_K"
    then obtain ts where n: "n = App NOT_K ts" by (cases n) auto
    with a have "App NOT_K ts \<in> (\<Union>t\<in>set ts. atoms t)" by (auto simp: connective_def)
    then obtain t where t: "t \<in> set ts" "App NOT_K ts \<in> atoms t" by blast
    from atoms_size [OF t(2)] size_list_estimation' [OF t(1), of _ size] show False by fastforce
  qed
  have "is_BITOF (getKind n) \<or> getKind n = CONST_BOOLEAN \<or> hasBBAtom r n"
    using assms(2) by (auto simp: registered_def hasBBAtom_def bit_atoms_def)
  with strip assms(3) show ?thesis by (cases d) (auto simp: preRegister_def Eager_bbAtom_def Let_def)
qed

lemma atoms_not_const: "a \<in> atoms n \<Longrightarrow> a \<notin> range ConstBool"
  using atoms_idem by fastforce

lemma definitional_closed:
  assumes "definitional fs" "f \<in> set fs"
  shows "atoms f \<subseteq> bit_atoms \<union> defined fs"
  using assms
proof (induction fs rule: definitional.induct)
  case (2 a d fs)
  show ?case
  proof (cases "f = App EQUAL [a, d]")
    case True
    with 2(2) show ?thesis by (auto simp: connective_def)
  next
    case False
    with 2 show ?thesis by auto
  qed
qed auto

lemma handed_over:
  assumes "asserts_more r r'"
  shows "set (d_cnfStream r') = set (d_cnfStream r) \<union> set (handed_over r r')"
  using assms by (auto simp: asserts_more_def handed_over_def)

subsection \<open>The bit-blaster keeps the contract\<close>

text \<open>What the registrar accepts, and how its state changes, at the two levels.\<close>

definition only_refl :: "bitblaster \<Rightarrow> node set \<Rightarrow> bitblaster \<Rightarrow> bool" where
  "only_refl r G r' \<longleftrightarrow> r' = r \<and> G = {}"

definition bitblasted :: "bitblaster \<Rightarrow> node set \<Rightarrow> bitblaster \<Rightarrow> bool" where
  "bitblasted r G r' \<longleftrightarrow> d_bbAtoms r \<subseteq> d_bbAtoms r' \<and> set (d_cnfStream r') = set (d_cnfStream r) \<union> G"

lemma nested_registrar:
  assumes "0 < d"
  shows "cnf_registrar (eager_env rw d full (Suc k)) (bb_inv rw) (\<lambda>r. registered r \<union> range ConstBool) registered only_refl"
proof (unfold_locales)
  fix n own Fs and s :: "bitblaster CnfStream"
  assume n: "n \<in> registered (d_registrar s) \<union> range ConstBool"
  show "cnf_runs (bb_inv rw) registered only_refl own s Fs {} (registrar (eager_env rw d full (Suc k)) n) (\<lambda>own' s' x. atoms n \<subseteq> registered (d_registrar s'))"
    unfolding cnf_runs_def
  proof
    assume st: "st_ok (bb_inv rw) own s Fs"
    then have inv: "bb_inv rw (d_registrar s)" by (simp add: st_ok_def)
    have "registrar (eager_env rw d full (Suc k)) n s = Some (Inr ((), s))"
      using preRegister_again [OF inv n assms] by (simp add: eager_preRegister_def handed_over_def bb_return_def)
    moreover have "atoms n \<subseteq> registered (d_registrar s)"
      using n inv bit_atoms_atoms definitional_atoms by (auto simp: registered_def bb_inv_def)
    ultimately show "\<exists>x s' own' G. registrar (eager_env rw d full (Suc k)) n s = Some (Inr (x, s')) \<and> st_ok (bb_inv rw) own' s' (Fs \<union> G \<union> {}) \<and>
        (grows own s own' s' \<and> keeps_cover registered s s') \<and> only_refl (d_registrar s) G (d_registrar s') \<and> atoms n \<subseteq> registered (d_registrar s')"
      using st keeps_cover_same [of s s registered] by (intro exI [of _ "()"] exI [of _ s] exI [of _ own] exI [of _ "{}"]) (simp add: only_refl_def)
  qed
qed (auto simp: only_refl_def)

interpretation nested: cnf_registrar "eager_env rw (Suc d) full (Suc k)" "bb_inv rw" "\<lambda>r. registered r \<union> range ConstBool" registered only_refl
  for rw d full k
  by (rule nested_registrar) simp

lemma assert_definitions:
  assumes "\<And>f. f \<in> set fs \<Longrightarrow> typeOf f = Some BooleanType" "\<And>f. f \<in> set fs \<Longrightarrow> atoms f \<subseteq> registered (d_registrar s)"
  shows "cnf_runs (bb_inv rw) registered only_refl own s Fs (set fs) (assert_all (eager_env rw (Suc d) full (Suc k)) fs) (\<lambda>own' s' x. True)"
  using assms
proof (induction fs arbitrary: own s Fs)
  case Nil
  then show ?case by (simp add: nested.runs_return)
next
  case (Cons f fs)
  let ?env = "eager_env rw (Suc d) full (Suc k)"
  have "cnf_runs (bb_inv rw) registered only_refl own s Fs ({asserted f False} \<union> set fs)
      (bb_bind (CnfStream_convertAndAssert ?env f False False) (\<lambda>_. assert_all ?env fs)) (\<lambda>own' s' x. True)"
  proof (rule nested.runs_bind [OF nested.CnfStream_convertAndAssert_asserts])
    show "typeOf f = Some BooleanType" using Cons.prems by simp
    show "known (\<lambda>r. registered r \<union> range ConstBool) (d_registrar s) f" using Cons.prems(2) [of f] by (auto simp: known_def)
    fix own' Fs' and s' :: "bitblaster CnfStream" assume "registered (d_registrar s) \<union> range ConstBool \<subseteq> registered (d_registrar s') \<union> range ConstBool"
    then have "atoms h \<subseteq> registered (d_registrar s')" if "h \<in> set fs" for h
      using Cons.prems(2) [of h] atoms_not_const [of _ h] that by (auto simp: subset_iff)
    with Cons show "cnf_runs (bb_inv rw) registered only_refl own' s' Fs' (set fs) (assert_all ?env fs) (\<lambda>own' s' x. True)" by simp
  qed
  then show ?case by (simp add: asserted_def)
qed

text \<open>A call of the registrar from the outside: it bit-blasts the atom and asserts what was handed over.\<close>

lemma call_preRegister:
  assumes "rewriter_ok rw" "n \<in> snd (accepted rw (Suc d)) \<union> registered r \<union> range ConstBool" "bb_inv rw r"
  shows "\<exists>r'. preRegister (EagerBitblaster rw (Suc d)) n r = Some (Inr ((), r')) \<and> bb_inv rw r' \<and> d_bbAtoms r \<subseteq> d_bbAtoms r' \<and>
    asserts_more r r' \<and> atoms n \<subseteq> registered r'"
proof (cases "n \<in> registered r \<union> range ConstBool")
  case True
  have "atoms n \<subseteq> registered r"
    using True assms(3) bit_atoms_atoms definitional_atoms by (auto simp: registered_def bb_inv_def)
  with preRegister_again [OF assms(3) True, of "Suc d"] assms(3) show ?thesis by auto
next
  case False
  with assms(2) have "n \<in> snd (accepted rw (Suc d))" by blast
  from eager.atom_law [OF assms(1) this, of r] assms(3) show ?thesis
    unfolding call_ok_def preRegister_def atom_known_def registered_def by auto
qed

definition eager_inv :: "(node \<Rightarrow> node) \<Rightarrow> bitblaster \<Rightarrow> bool" where
  "eager_inv rewrite r \<longleftrightarrow> rewriter_ok rewrite \<and> bb_inv rewrite r"

lemma eager_registrar:
  "cnf_registrar (eager_env rw (Suc d) full (Suc (Suc k))) (eager_inv rw) (\<lambda>r. snd (accepted rw (Suc d)) \<union> registered r \<union> range ConstBool)
    registered bitblasted"
proof (unfold_locales)
  fix n own Fs and s :: "bitblaster CnfStream"
  let ?env = "eager_env rw (Suc d) full (Suc k)" and ?r = "d_registrar s"
  assume n: "n \<in> snd (accepted rw (Suc d)) \<union> registered ?r \<union> range ConstBool"
  show "cnf_runs (eager_inv rw) registered bitblasted own s Fs {} (registrar (eager_env rw (Suc d) full (Suc (Suc k))) n)
      (\<lambda>own' s' x. atoms n \<subseteq> registered (d_registrar s'))"
    unfolding cnf_runs_def
  proof
    assume st: "st_ok (eager_inv rw) own s Fs"
    then have rw: "rewriter_ok rw" "bb_inv rw ?r" by (simp_all add: st_ok_def eager_inv_def)
    from call_preRegister [OF rw(1) n rw(2)] obtain r where r: "preRegister (EagerBitblaster rw (Suc d)) n ?r = Some (Inr ((), r))" "bb_inv rw r"
      "d_bbAtoms ?r \<subseteq> d_bbAtoms r" "asserts_more ?r r" "atoms n \<subseteq> registered r" by blast
    let ?s = "s\<lparr>d_registrar := r\<rparr>" and ?fs = "handed_over ?r r"
    have fs: "set (d_cnfStream r) = set (d_cnfStream ?r) \<union> set ?fs" by (rule handed_over [OF r(4)])
    have st': "st_ok (bb_inv rw) own ?s Fs" using st r(2) by (simp add: st_ok_def)
    have "typeOf f = Some BooleanType" "atoms f \<subseteq> registered (d_registrar ?s)" if "f \<in> set ?fs" for f
    proof -
      from that fs have f: "f \<in> set (d_cnfStream r)" by blast
      show "typeOf f = Some BooleanType" by (rule definitions_valid(2) [OF _ sat_valuation_ok f]) (use r(2) in \<open>simp add: bb_inv_def\<close>)
      show "atoms f \<subseteq> registered (d_registrar ?s)" using definitional_closed [OF _ f] r(2) by (simp add: bb_inv_def registered_def)
    qed
    from assert_definitions [where fs = ?fs, OF this, where rw = rw and own = own and Fs = Fs and d = d and full = full and k = k] st' obtain s' own' where
      a: "assert_all ?env ?fs ?s = Some (Inr ((), s'))" "st_ok (bb_inv rw) own' s' (Fs \<union> set ?fs)" "grows own ?s own' s'"
        "keeps_cover registered ?s s'" "d_registrar s' = r"
      by (auto simp: cnf_runs_def only_refl_def)
    have "registrar (eager_env rw (Suc d) full (Suc (Suc k))) n s = Some (Inr ((), s'))"
      using r(1) a(1) by (simp add: eager_preRegister_def del: EagerBitblaster.simps eager_env.simps(2) add: eager_env.simps(2) [of rw "Suc d" full "Suc k"])
    moreover have "keeps_cover registered s ?s" using r(3) by (auto simp: keeps_cover_def cover_def registered_def)
    then have "keeps_cover registered s s'" using a(4) by (rule keeps_cover_trans)
    moreover have "grows own s own' s'" using a(3) by (simp add: grows_def)
    moreover have "bitblasted ?r (set ?fs) (d_registrar s')" using r(3) fs a(5) by (simp add: bitblasted_def)
    moreover have "st_ok (eager_inv rw) own' s' (Fs \<union> set ?fs)" using a(2) rw(1) by (simp add: st_ok_def eager_inv_def)
    ultimately show "\<exists>x s' own' G. registrar (eager_env rw (Suc d) full (Suc (Suc k))) n s = Some (Inr (x, s')) \<and>
        st_ok (eager_inv rw) own' s' (Fs \<union> G \<union> {}) \<and> (grows own s own' s' \<and> keeps_cover registered s s') \<and>
        bitblasted (d_registrar s) G (d_registrar s') \<and> atoms n \<subseteq> registered (d_registrar s')"
      using a(5) r(5) by (intro exI [of _ "()"] exI [of _ s'] exI [of _ own'] exI [of _ "set ?fs"]) simp
  qed
qed (auto simp: bitblasted_def registered_def)

interpretation stream: cnf_registrar "eager_env rw (Suc d) full (Suc (Suc k))" "eager_inv rw"
    "\<lambda>r. snd (accepted rw (Suc d)) \<union> registered r \<union> range ConstBool" registered bitblasted
  for rw d full k
  by (rule eager_registrar)

subsection \<open>A formula and its clauses\<close>

lemma eager_solver_state:
  assumes rw: "rewriter_ok rw" and F: "typeOf F = Some BooleanType" "atoms F \<subseteq> snd (accepted rw d) \<union> range (\<lambda>v. Var v BooleanType)" and d: "0 < d"
  shows "\<exists>s own. eager_solver rw d F (new_CnfStream new_bitblaster) = Some (Inr ((), s)) \<and>
    cnf_ok own (d_nodeToLiteralMap s) (d_satSolver s) (insert F (set (d_cnfStream (d_registrar s)))) \<and> bb_inv rw (d_registrar s) \<and>
    atoms F \<subseteq> bit_atoms \<union> d_bbAtoms (d_registrar s) \<union> range (\<lambda>v. Var v BooleanType)"
proof -
  let ?s = "new_CnfStream new_bitblaster" and ?A = "\<lambda>r. snd (accepted rw d) \<union> registered r \<union> range ConstBool"
  obtain d' where d': "d = Suc d'" using d by (cases d) auto
  have known: "known ?A (d_registrar ?s) F" using F(2) by (auto simp: known_def)
  have "st_ok (eager_inv rw) (\<lambda>v. ConstBool (v = trueVar)) ?s {}"
    using new_solver_ok new_bitblaster_inv rw by (simp add: st_ok_def eager_inv_def new_CnfStream_def)
  with stream.CnfStream_convertAndAssert_asserts [OF F(1) known [unfolded d'], where own = "\<lambda>v. ConstBool (v = trueVar)" and Fs = "{}"
      and full = False and k = 0 and negated = False]
  obtain s own G where s: "eager_solver rw d F ?s = Some (Inr ((), s))" "st_ok (eager_inv rw) own s (G \<union> {F})" "keeps_cover registered ?s s"
    "bitblasted (d_registrar ?s) G (d_registrar s)" by (auto simp: cnf_runs_def eager_solver_def asserted_def d' numeral_2_eq_2)
  have G: "set (d_cnfStream (d_registrar s)) = G" using s(4) by (simp add: bitblasted_def new_CnfStream_def new_bitblaster_def)
  have ok: "cnf_ok own (d_nodeToLiteralMap s) (d_satSolver s) (insert F (set (d_cnfStream (d_registrar s))))" "bb_inv rw (d_registrar s)"
    using s(2) by (simp_all add: st_ok_def eager_inv_def G)
  have "cover registered {} ?s" by (simp add: cover_def new_CnfStream_def)
  with s(3) have cov: "cover registered {} s" by (simp add: keeps_cover_def)
  have "a \<in> registered (d_registrar s) \<union> range (\<lambda>v. Var v BooleanType)" if "a \<in> atoms F" for a
  proof -
    from that cnf_okD(8) [OF ok(1), of F] have "a \<in> dom (d_nodeToLiteralMap s)" by blast
    moreover have "atoms a = {a}" by (rule atoms_atom [OF that])
    ultimately show ?thesis using cov unfolding cover_def by blast
  qed
  with s(1) ok show ?thesis unfolding registered_def by blast
qed

text \<open>The value that the solver's assignment gives to a bit, when the bit has a literal.\<close>

definition solver_value :: "'r CnfStream \<Rightarrow> (nat \<Rightarrow> bool) \<Rightarrow> node \<Rightarrow> bool option" where
  "solver_value s \<alpha> b = map_option (lit_val \<alpha>) (d_nodeToLiteralMap s b)"

lemma model_loop_default:
  "model_loop value True bits v = Some (foldl (\<lambda>v b. v * 2 + of_bool (value b = Some True)) v bits)"
  by (induction bits arbitrary: v) (auto split: option.splits)

lemma solver_bit:
  assumes "cnf_ok own (d_nodeToLiteralMap s) (d_satSolver s) Fs" "sat_clauses \<alpha> (d_clauses (d_satSolver s))" "hasLiteral s b \<or> b \<in> bit_atoms"
  shows "(solver_value s \<alpha> b = Some True) = sat_value (read_back \<alpha> (d_nodeToLiteralMap s)) b"
proof (cases "d_nodeToLiteralMap s b")
  case None
  with assms(3) have "b \<in> bit_atoms" by (simp add: hasLiteral_def)
  with None show ?thesis by (simp add: solver_value_def sat_value_atom [OF bit_atoms_atoms] read_back_def)
next
  case (Some l)
  with denotes_value [OF assms(1) cnf_okD(4) [OF assms(1) Some] assms(2)] show ?thesis by (simp add: solver_value_def)
qed





end
