(* ===== verification/Spec2Isabelle.thy ===== *)
theory Spec2Isabelle
  imports BV_Utils_Correct BitVector_Correct Rules_OpElim Rules_ConstEval Rules_Core
    Rules_Simplify_Special Rules_Normalize_Mult Rules_Normalize_Logic Rewriter_Sound
    Bitblaster_Clauses
begin

text \<open>
  This development verifies the bit-vector engine of CVC4 (\<open>src/symbolrt/CVC4/src\<close>), the
  solver that the repository ships and that SYMBOLRT calls.

  The engine has six layers, and the theories follow them.

  Constants. \<open>util/integer_gmp_imp.cpp\<close> wraps unbounded integers (\<open>Integers\<close>), and
  \<open>util/bitvector.cpp\<close> builds fixed-width constants from them (\<open>BitVectors\<close>, a record with
  the two fields of the class). \<open>BV_Ops\<close> gives the arithmetic of a \<open>w\<close>-bit vector as formulas
  on integers and relates them to the library's machine words, and \<open>BitVector_Correct\<close> shows that the
  class computes these formulas, keeps its invariant and throws on mismatched widths.

  Terms. \<open>Nodes\<close> models terms as trees of kinds with the type rules of \<open>theory_bv_type_rules.h\<close> and
  of the Boolean, equality and integer kinds that bit-vector terms contain. \<open>Typing\<close> inverts the
  type rules. \<open>Semantics\<close> gives each kind the meaning that the SMT-LIB theory of bit-vectors
  gives it, over the formulas of \<open>BV_Ops\<close>, and shows that typed terms denote values of
  their type. Typed widths stay below \<open>2 ^ 31\<close>, so that the sums of widths in the code, which are
  \<open>unsigned\<close>, do not wrap and the indices that it stores in \<open>int\<close> are exact.

  Term construction. \<open>BV_Utils\<close> models \<open>theory_bv_utils.cpp\<close>, loops included;
  \<open>BV_Utils_Correct\<close> says what each constructed term denotes.

  Rewriting. \<open>Rewrite_Rules\<close> models the rule and strategy templates: a rule is sound when it
  returns, without an exception, a node of the same type and value for each typed node it
  matches, and the locale \<open>rewrite_strategy\<close> lifts this to the strategies. \<open>Rules_OpElim\<close>,
  \<open>Rules_ConstEval\<close> and \<open>Rules_Core\<close> model the rules of the files
  \<open>theory_bv_rewrite_rules_*.h\<close> of the same names, and \<open>Rules_Simplify\<close>, \<open>Rules_Simplify_Arith\<close>,
  \<open>Rules_Simplify_Ext\<close> and \<open>Rules_Simplify_Special\<close> those of
  \<open>theory_bv_rewrite_rules_simplification.h\<close>. \<open>Nary\<close> states what the rules on n-ary operators need of them
  as the locale \<open>ac_operator\<close>, interpreted on the five operators. \<open>Rules_Normalize\<close> and
  \<open>Rules_Normalize_Mult\<close> model \<open>theory_bv_rewrite_rules_normalization.h\<close>: extractions and flattening,
  then distribution, negation and slices; \<open>Rules_Normalize_Logic\<close> its rules that count the literals of a
  bit-wise operator, with the iteration order of the hash map as a parameter; \<open>Rules_Normalize_Sum\<close> and
  \<open>Rules_Normalize_SolveEq\<close> the rules that collect the coefficients of sums and solve equations between them. The
  rules of the simplification file whose functions are \<open>Unreachable\<close> have no model. \<open>Rewriter\<close> is
  \<open>theory_bv_rewriter.cpp\<close>: one function per kind, which runs lists of rules before and after the children are
  rewritten, and the dispatch table. Its options and the rewriter that two assertions call are the fields of the record
  \<open>rewriter_env\<close>. \<open>Rewriter_Correct\<close> interprets \<open>rewrite_strategy\<close> on the lists of rules, and \<open>Rewriter_Sound\<close>
  concludes that every entry of the table answers with an equivalent node; the two theorems name the rules that fall short.

  Bit-blasting. \<open>Bitblast_Utils\<close> models the gates and circuits of \<open>bitblast_utils.h\<close> and the divider of
  \<open>bitblast_strategies_template.h\<close>, and shows what they compute. \<open>Bitblaster\<close> models one strategy per kind, the two tables of
  \<open>bitblaster.h\<close> and \<open>eager_bitblaster.cpp\<close>; the state is the record \<open>bitblaster\<close>, and a call is a function
  from it to an error or a result and a state. The locale \<open>virtual_blaster\<close> of \<open>Bitblaster_Correct\<close> states what a
  strategy relies on when it calls the bit-blaster back, and each strategy is verified inside it; \<open>Bitblaster_Eager\<close>
  interprets it on \<open>EagerBitblaster\<close>. Calls do not follow the structure of the term, because a shift bit-blasts a
  comparison that went through the rewriter; so \<open>EagerBitblaster\<close> has a bound on the depth of calls, and \<open>blastable_accepted\<close>
  shows that the size of the term, plus the depth that the comparisons of its shifts need, is enough. The rewriter is an argument
  here, with the contract \<open>rewriter_ok\<close>: it returns equivalent nodes and adds no atoms to a formula over normal atoms. The
  theorems say that the bits denote the term, that the formulas handed to the CNF stream are equisatisfiable with the formula
  over bit-vectors, and that an assignment to their atoms is read back as a valuation.

  Clauses. \<open>Cnf_Stream\<close> models \<open>prop/cnf_stream.cpp\<close> with the literals of \<open>prop/sat_solver_types.h\<close>: the maps between nodes and
  literals, the conversion \<open>toCNF\<close> with one handler per connective, and the assertions. The state is the record \<open>CnfStream\<close>; the solver in it is
  the number of its variables and the list of clauses. The registrar, a virtual class, is a field of the environment \<open>cnf_env\<close> and may
  call the stream back. \<open>Cnf_Stream_Correct\<close> states what the stream relies on as the locale \<open>cnf_registrar\<close> and proves inside it that every
  function keeps the invariant, in which a ghost map gives each variable of the solver the node it stands for; the interpretation
  \<open>null\<close> is on \<open>NullRegistrar\<close>. In \<open>Bitblaster_Clauses\<close> the registrar is the eager bit-blaster, which hands the definition of an
  atom back to the stream. The formulas that \<open>bbAtom\<close> hands over are converted when it returns, in their order; the depth of such nested
  calls has the bound 2, which is enough because the atoms of a definition are bits or were bit-blasted before, so that the registrar
  does nothing on them (the interpretation \<open>nested\<close>; \<open>stream\<close> is the outer level). The theorems compose all of this: the clauses
  are satisfiable exactly when the bit-vector formula is, and an assignment that satisfies them is read back as a valuation.

  Errors: a failed \<open>CheckArgument\<close>, \<open>Assert\<close> or \<open>Unreachable\<close> is an \<open>Inl\<close>. Loops are
  recursions with a termination proof, except the fixpoint strategy, which is a partial
  function with \<open>None\<close> for a run that does not end. Nodes are compared as trees, as hash consing makes
  them; where the code orders nodes by their identifiers, the identifier is a parameter \<open>nid\<close>.

  Not modelled: the driver of the rewriter with its caches (\<open>theory/rewriter.cpp\<close>), the SAT solvers and the propositional
  engine (the model keeps the clauses handed over, and reads an assignment to their variables), incremental solving, the lazy and the AIG
  bit-blasters, the solvers of \<open>theory/bv\<close> with their context-dependent state, the other theories, the front ends, and
  SYMBOLRT itself.
\<close>

end
